(* ===== verification/Prelude.thy ===== *)
theory Prelude
imports Main "HOL-Library.AList" "HOL-Library.Multiset" "HOL-Library.Char_ord" "HOL-Library.List_Lexorder" "HOL-Library.Product_Lexorder"
begin

text \<open>
  What every component of the development shares: the vocabulary of Go values (instants,
  maps, strings), the parts of Go's standard library the modelled code calls, and the
  generic lemmas the component proofs rest on.

  \<^item> A Go map is an association list with distinct keys: \<open>map_of\<close> is the lookup,
    \<open>AList.update\<close> and \<open>AList.delete\<close> the assignments. The list order stands for the
    (unspecified) iteration order of a Go map.
  \<^item> A Go string is a \<open>string\<close>, one \<open>char\<close> per byte (UTF-8 in the source's literals).
  \<^item> An instant (\<open>time.Time\<close>) is an \<open>int\<close>: nanoseconds since Go's zero time, so
    \<open>IsZero\<close> is \<open>t = 0\<close>, and \<open>Before\<close>, \<open>After\<close> and \<open>Equal\<close> are the order of \<open>int\<close>.
\<close>

named_theorems frame_simps \<open>what an operation leaves alone\<close>
named_theorems go_lookup \<open>lookups in an updated Go map\<close>

subsection \<open>Instants\<close>

type_synonym instant = int

definition zero_time :: instant where
  "zero_time = 0"

abbreviation is_zero :: "instant \<Rightarrow> bool" where
  "is_zero t \<equiv> t = zero_time"

text \<open>Nanoseconds between Go's zero time and the Unix epoch, and \<open>Time.UnixNano\<close>.\<close>

definition unix_epoch :: instant where
  "unix_epoch = 62135596800 * 1000000000"

definition unix_nano :: "instant \<Rightarrow> int" where
  "unix_nano t = t - unix_epoch"

definition time_unix :: "int \<Rightarrow> instant" where
  "time_unix nanos = nanos + unix_epoch"

lemma time_unix_nano [simp]: "time_unix (unix_nano t) = t"
  by (simp add: time_unix_def unix_nano_def)

lemma unix_nano_inj [simp]: "unix_nano s = unix_nano t \<longleftrightarrow> s = t"
  by (simp add: unix_nano_def)

subsection \<open>Machine conversions\<close>

text \<open>Go's conversion \<open>int(n)\<close> of a \<open>uint64\<close> on a 64-bit machine.\<close>

definition int_of_uint64 :: "nat \<Rightarrow> int" where
  "int_of_uint64 n = (if int n < 2 ^ 63 then int n else int n - 2 ^ 64)"

text \<open>Two's complement wrap-around of an \<open>int64\<close> result.\<close>

definition wrap64 :: "int \<Rightarrow> int" where
  "wrap64 i = (i + 2 ^ 63) mod 2 ^ 64 - 2 ^ 63"

lemma wrap64_id: "- (2 ^ 63) \<le> i \<Longrightarrow> i < 2 ^ 63 \<Longrightarrow> wrap64 i = i"
  by (simp add: wrap64_def)

subsection \<open>Go maps\<close>

type_synonym ('k, 'v) gomap = "('k \<times> 'v) list"

definition gm_get :: "('k, 'v) gomap \<Rightarrow> 'k \<Rightarrow> 'v option" where
  "gm_get m k = map_of m k"

definition gm_set :: "('k, 'v) gomap \<Rightarrow> 'k \<Rightarrow> 'v \<Rightarrow> ('k, 'v) gomap" where
  "gm_set m k v = AList.update k v m"

definition gm_del :: "('k, 'v) gomap \<Rightarrow> 'k \<Rightarrow> ('k, 'v) gomap" where
  "gm_del m k = AList.delete k m"

definition gm_wf :: "('k, 'v) gomap \<Rightarrow> bool" where
  "gm_wf m \<longleftrightarrow> distinct (map fst m)"

definition gm_vals :: "('k, 'v) gomap \<Rightarrow> 'v list" where
  "gm_vals m = map snd m"

lemma gm_get_nil [simp, go_lookup]: "gm_get [] k = None"
  by (simp add: gm_get_def)

lemma gm_get_set [simp, go_lookup]: "gm_get (gm_set m k v) j = (if j = k then Some v else gm_get m j)"
  by (simp add: gm_get_def gm_set_def update_conv)

lemma gm_get_del [simp, go_lookup]: "gm_get (gm_del m k) j = (if j = k then None else gm_get m j)"
  by (simp add: gm_get_def gm_del_def delete_conv)

lemma gm_wf_nil [simp]: "gm_wf []"
  by (simp add: gm_wf_def)

lemma gm_wf_set [simp, intro]: "gm_wf m \<Longrightarrow> gm_wf (gm_set m k v)"
  by (simp add: gm_wf_def gm_set_def distinct_update)

lemma gm_wf_del [simp, intro]: "gm_wf m \<Longrightarrow> gm_wf (gm_del m k)"
  by (simp add: gm_wf_def gm_del_def distinct_delete)

lemma gm_get_mem: "gm_get m k = Some v \<Longrightarrow> (k, v) \<in> set m"
  by (simp add: gm_get_def map_of_SomeD)

lemma gm_mem_get: "gm_wf m \<Longrightarrow> (k, v) \<in> set m \<Longrightarrow> gm_get m k = Some v"
  by (simp add: gm_wf_def gm_get_def)

lemma gm_vals_iff: "gm_wf m \<Longrightarrow> v \<in> set (gm_vals m) \<longleftrightarrow> (\<exists>k. gm_get m k = Some v)"
  by (force simp: gm_vals_def dest: gm_get_mem gm_mem_get)

text \<open>A Go map keyed by an identifier stored inside its values.\<close>

definition gm_keyed :: "('v \<Rightarrow> 'k) \<Rightarrow> ('k, 'v) gomap \<Rightarrow> bool" where
  "gm_keyed key m \<longleftrightarrow> gm_wf m \<and> (\<forall>k v. gm_get m k = Some v \<longrightarrow> key v = k)"

lemma gm_keyed_nil [simp]: "gm_keyed key []"
  by (simp add: gm_keyed_def)

lemma gm_keyed_set [simp, intro]: "gm_keyed key m \<Longrightarrow> key v = k \<Longrightarrow> gm_keyed key (gm_set m k v)"
  by (simp add: gm_keyed_def)

lemma gm_keyed_del [simp, intro]: "gm_keyed key m \<Longrightarrow> gm_keyed key (gm_del m k)"
  by (simp add: gm_keyed_def)

lemma gm_keyed_get: "gm_keyed key m \<Longrightarrow> gm_get m k = Some v \<Longrightarrow> key v = k"
  by (simp add: gm_keyed_def)

lemma gm_keyed_update:
  "gm_keyed key m \<Longrightarrow> gm_get m k = Some v \<Longrightarrow> key w = key v \<Longrightarrow> gm_keyed key (gm_set m k w)"
  by (simp add: gm_keyed_def)

lemma gm_keyed_wf: "gm_keyed key m \<Longrightarrow> gm_wf m"
  by (simp add: gm_keyed_def)

lemma gm_keyed_vals: "gm_keyed key m \<Longrightarrow> v \<in> set (gm_vals m) \<longleftrightarrow> gm_get m (key v) = Some v"
  by (auto simp: gm_keyed_def gm_vals_iff)

lemma gm_keyed_map: "gm_keyed key m \<Longrightarrow> map key (gm_vals m) = map fst m"
  by (auto simp: gm_keyed_def gm_vals_def gm_wf_def gm_get_def map_of_eq_Some_iff)

lemma gm_keyed_distinct: "gm_keyed key m \<Longrightarrow> distinct (map key (gm_vals m))"
  by (simp add: gm_keyed_map) (simp add: gm_keyed_def gm_wf_def)

lemma gm_keyed_inj: "gm_keyed key m \<Longrightarrow> a \<in> set (gm_vals m) \<Longrightarrow> b \<in> set (gm_vals m) \<Longrightarrow> key a = key b \<Longrightarrow> a = b"
  by (simp add: gm_keyed_vals)

text \<open>Two maps with the same lookups hold the same values, whatever their iteration order.\<close>

lemma gm_keyed_mset:
  assumes "gm_keyed key m" and "gm_keyed key n" and "\<And>k. gm_get m k = gm_get n k"
  shows "mset (gm_vals m) = mset (gm_vals n)"
proof (rule set_eq_iff_mset_eq_distinct [THEN iffD1])
  show "distinct (gm_vals m)" "distinct (gm_vals n)"
    using assms(1,2) gm_keyed_distinct distinct_map by blast+
  show "set (gm_vals m) = set (gm_vals n)"
    using assms by (auto simp: gm_keyed_vals)
qed

subsection \<open>Sorting with a comparison function\<close>

text \<open>
  \<open>sort.Slice\<close> and \<open>sort.SliceStable\<close> with the comparison function the code passes. The model
  is the stable insertion sort; where the comparison tells any two of the elements apart,
  \<open>sort_slice_unique\<close> below shows that the result does not depend on the algorithm or on the
  order of the input, so the model is also \<open>sort.Slice\<close>.
\<close>

fun sort_insert :: "('a \<Rightarrow> 'a \<Rightarrow> bool) \<Rightarrow> 'a \<Rightarrow> 'a list \<Rightarrow> 'a list" where
  "sort_insert lt x [] = [x]"
| "sort_insert lt x (y # ys) = (if lt y x then y # sort_insert lt x ys else x # y # ys)"

fun sort_slice :: "('a \<Rightarrow> 'a \<Rightarrow> bool) \<Rightarrow> 'a list \<Rightarrow> 'a list" where
  "sort_slice lt [] = []"
| "sort_slice lt (x # xs) = sort_insert lt x (sort_slice lt xs)"

lemma mset_sort_insert [simp]: "mset (sort_insert lt x ys) = add_mset x (mset ys)"
  by (induction ys) auto

lemma mset_sort_slice [simp]: "mset (sort_slice lt xs) = mset xs"
  by (induction xs) auto

lemma set_sort_slice [simp]: "set (sort_slice lt xs) = set xs"
  by (metis mset_sort_slice set_mset_mset)

lemma set_sort_insert [simp]: "set (sort_insert lt x ys) = insert x (set ys)"
  by (metis mset_sort_insert set_mset_add_mset_insert set_mset_mset)

lemma length_sort_slice [simp]: "length (sort_slice lt xs) = length xs"
  by (metis mset_sort_slice size_mset)

text \<open>What a comparison function owes the sort: a strict weak order.\<close>

locale sort_less =
  fixes lt :: "'a \<Rightarrow> 'a \<Rightarrow> bool"
  assumes less_asym: "lt a b \<Longrightarrow> \<not> lt b a"
    and less_split: "lt a c \<Longrightarrow> lt a b \<or> lt b c"
begin

lemma sorted_sort_insert:
  "sorted_wrt (\<lambda>a b. \<not> lt b a) ys \<Longrightarrow> sorted_wrt (\<lambda>a b. \<not> lt b a) (sort_insert lt x ys)"
proof (induction ys)
  case Nil
  then show ?case by simp
next
  case (Cons y ys)
  then show ?case
    using less_asym less_split by (auto split: if_splits) blast+
qed

lemma sorted_sort_slice: "sorted_wrt (\<lambda>a b. \<not> lt b a) (sort_slice lt xs)"
  by (induction xs) (simp_all add: sorted_sort_insert)

lemma sorted_unique:
  assumes "sorted_wrt (\<lambda>a b. \<not> lt b a) xs" and "sorted_wrt (\<lambda>a b. \<not> lt b a) ys"
    and "mset xs = mset ys"
    and "\<And>a b. a \<in> set xs \<Longrightarrow> b \<in> set xs \<Longrightarrow> a \<noteq> b \<Longrightarrow> lt a b \<or> lt b a"
  shows "xs = ys"
  using assms
proof (induction xs arbitrary: ys)
  case Nil
  then show ?case by simp
next
  case (Cons x xs)
  then obtain y zs where ys: "ys = y # zs" by (cases ys) auto
  have sets: "set (x # xs) = set ys"
    using Cons.prems(3) by (metis set_mset_mset)
  have "x = y"
  proof (rule ccontr)
    assume "x \<noteq> y"
    moreover have "y \<in> set (x # xs)" and "x \<in> set ys" using sets ys by auto
    ultimately have "\<not> lt y x" "\<not> lt x y" using Cons.prems(1,2) ys by auto
    then show False using Cons.prems(4) [of x y] \<open>x \<noteq> y\<close> \<open>y \<in> set (x # xs)\<close> by auto
  qed
  moreover have "xs = zs"
    using Cons.prems ys \<open>x = y\<close> by (intro Cons.IH) auto
  ultimately show ?case using ys by simp
qed

lemma sort_slice_unique:
  assumes "mset xs = mset ys"
    and "\<And>a b. a \<in> set xs \<Longrightarrow> b \<in> set xs \<Longrightarrow> a \<noteq> b \<Longrightarrow> lt a b \<or> lt b a"
  shows "sort_slice lt xs = sort_slice lt ys"
  using assms by (intro sorted_unique) (auto simp: sorted_sort_slice)

end

subsection \<open>Strings\<close>

definition ascii_lower :: "char \<Rightarrow> char" where
  "ascii_lower c = (if 65 \<le> (of_char c :: nat) \<and> (of_char c :: nat) \<le> 90
     then char_of ((of_char c :: nat) + 32) else c)"

text \<open>
  \<open>strings.ToLower\<close>, as far as a comparison with an ASCII text can see it: ASCII letters, and
  the two letters beyond ASCII whose lower case is an ASCII letter (the Kelvin sign and the
  dotted capital I). Every other character beyond ASCII is left as it is.
\<close>

fun to_lower :: "string \<Rightarrow> string" where
  "to_lower [] = []"
| "to_lower (c # cs) =
     (if c = CHR 0xE2 \<and> take 2 cs = [CHR 0x84, CHR 0xAA] then CHR ''k'' # to_lower (drop 2 cs)
      else if c = CHR 0xC4 \<and> take 1 cs = [CHR 0xB0] then CHR ''i'' # to_lower (drop 1 cs)
      else ascii_lower c # to_lower cs)"

text \<open>The UTF-8 encodings of what \<open>unicode.IsSpace\<close> calls a space.\<close>

definition space_encodings :: "string list" where
  "space_encodings =
     [[CHR 0x09], [CHR 0x0A], [CHR 0x0B], [CHR 0x0C], [CHR 0x0D], [CHR 0x20],
      [CHR 0xC2, CHR 0x85], [CHR 0xC2, CHR 0xA0], [CHR 0xE1, CHR 0x9A, CHR 0x80]]
     @ map (\<lambda>b. [CHR 0xE2, CHR 0x80, b])
         [CHR 0x80, CHR 0x81, CHR 0x82, CHR 0x83, CHR 0x84, CHR 0x85, CHR 0x86, CHR 0x87,
          CHR 0x88, CHR 0x89, CHR 0x8A, CHR 0xA8, CHR 0xA9, CHR 0xAF]
     @ [[CHR 0xE2, CHR 0x81, CHR 0x9F], [CHR 0xE3, CHR 0x80, CHR 0x80]]"

text \<open>How many bytes of space the text starts with: 0 when it starts with something else.\<close>

definition space_len :: "string \<Rightarrow> nat" where
  "space_len s =
     (case find (\<lambda>w. take (length w) s = w) space_encodings of None \<Rightarrow> 0 | Some w \<Rightarrow> length w)"

lemma space_len_le: "space_len s \<le> length s"
proof (cases "find (\<lambda>w. take (length w) s = w) space_encodings")
  case (Some w)
  then have "take (length w) s = w" by (auto simp: find_Some_iff)
  then have "length w \<le> length s" by (metis length_take min.cobounded1)
  with Some show ?thesis by (simp add: space_len_def)
qed (simp add: space_len_def)

function trim_left :: "string \<Rightarrow> string" where
  "trim_left s = (if space_len s = 0 then s else trim_left (drop (space_len s) s))"
  by pat_completeness auto
termination
  by (relation "measure length") (auto, metis diff_less le_zero_eq not_gr_zero space_len_le)

declare trim_left.simps [simp del]

text \<open>A suffix of space, read backwards.\<close>

definition space_suffix :: "string \<Rightarrow> nat" where
  "space_suffix r =
     (case find (\<lambda>w. take (length w) r = rev w) space_encodings of None \<Rightarrow> 0 | Some w \<Rightarrow> length w)"

lemma space_suffix_le: "space_suffix r \<le> length r"
proof (cases "find (\<lambda>w. take (length w) r = rev w) space_encodings")
  case (Some w)
  then have "take (length w) r = rev w" by (auto simp: find_Some_iff)
  then have "length w \<le> length r" by (metis length_rev length_take min.cobounded1)
  with Some show ?thesis by (simp add: space_suffix_def)
qed (simp add: space_suffix_def)

function trim_right_rev :: "string \<Rightarrow> string" where
  "trim_right_rev r = (if space_suffix r = 0 then r else trim_right_rev (drop (space_suffix r) r))"
  by pat_completeness auto
termination
  by (relation "measure length") (auto, metis diff_less le_zero_eq not_gr_zero space_suffix_le)

declare trim_right_rev.simps [simp del]

text \<open>\<open>strings.TrimSpace\<close>.\<close>

definition trim_space :: "string \<Rightarrow> string" where
  "trim_space s = rev (trim_right_rev (rev (trim_left s)))"

lemma trim_left_start: "space_len (trim_left s) = 0"
  by (induction s rule: trim_left.induct) (subst trim_left.simps, auto)

text \<open>\<open>strings.Fields\<close>: the pieces between runs of space, none of them empty.\<close>

function fields_from :: "string \<Rightarrow> string \<Rightarrow> string list" where
  "fields_from acc s =
     (if s = [] then (if acc = [] then [] else [rev acc])
      else if space_len s = 0 then fields_from (hd s # acc) (tl s)
      else (if acc = [] then [] else [rev acc]) @ fields_from [] (drop (space_len s) s))"
  by pat_completeness auto
termination
  by (relation "measure (\<lambda>(acc, s). length s)") auto

declare fields_from.simps [simp del]

definition fields :: "string \<Rightarrow> string list" where
  "fields s = fields_from [] s"

lemma fields_from_nonempty: "w \<in> set (fields_from acc s) \<Longrightarrow> w \<noteq> []"
  by (induction acc s rule: fields_from.induct) (subst (asm) (3) fields_from.simps, auto split: if_splits)

text \<open>\<open>strings.Split\<close> with a one-byte separator, \<open>strings.Index\<close> and \<open>strings.Join\<close>.\<close>

fun split_on :: "char \<Rightarrow> string \<Rightarrow> string list" where
  "split_on sep [] = [[]]"
| "split_on sep (c # cs) =
     (if c = sep then [] # split_on sep cs
      else (case split_on sep cs of [] \<Rightarrow> [[c]] | w # ws \<Rightarrow> (c # w) # ws))"

fun cut_at :: "char \<Rightarrow> string \<Rightarrow> (string \<times> string) option" where
  "cut_at sep [] = None"
| "cut_at sep (c # cs) =
     (if c = sep then Some ([], cs)
      else (case cut_at sep cs of None \<Rightarrow> None | Some (a, b) \<Rightarrow> Some (c # a, b)))"

fun str_join :: "string \<Rightarrow> string list \<Rightarrow> string" where
  "str_join sep [] = []"
| "str_join sep [w] = w"
| "str_join sep (w # v # ws) = w @ sep @ str_join sep (v # ws)"

fun has_prefix :: "string \<Rightarrow> string \<Rightarrow> bool" where
  "has_prefix s [] = True"
| "has_prefix [] (p # ps) = False"
| "has_prefix (c # cs) (p # ps) = (c = p \<and> has_prefix cs ps)"

fun str_contains :: "string \<Rightarrow> string \<Rightarrow> bool" where
  "str_contains [] sub = (sub = [])"
| "str_contains (c # cs) sub = (has_prefix (c # cs) sub \<or> str_contains cs sub)"

lemma split_on_nonempty [simp]: "split_on sep s \<noteq> []"
  by (induction s) (auto split: list.splits)

lemma cut_at_None: "cut_at sep s = None \<longleftrightarrow> sep \<notin> set s"
  by (induction s) (auto split: option.splits)

lemma cut_at_Some: "cut_at sep s = Some (a, b) \<Longrightarrow> s = a @ sep # b \<and> sep \<notin> set a"
  by (induction s arbitrary: a) (auto split: option.splits if_splits)

lemma join_split_on: "str_join [sep] (split_on sep s) = s"
proof (induction s)
  case (Cons c cs)
  obtain w ws where "split_on sep cs = w # ws" by (meson neq_Nil_conv split_on_nonempty)
  with Cons show ?case by (cases ws) auto
qed simp

text \<open>\<open>strconv.Itoa\<close>, and \<open>strconv.Atoi\<close> with the errors it returns as \<open>None\<close>.\<close>

fun digits_of :: "nat \<Rightarrow> string" where
  "digits_of n = (if n < 10 then [char_of (48 + n)] else digits_of (n div 10) @ [char_of (48 + n mod 10)])"

declare digits_of.simps [simp del]

definition itoa :: "int \<Rightarrow> string" where
  "itoa i = (if i < 0 then CHR ''-'' # digits_of (nat (- i)) else digits_of (nat i))"

definition is_digit :: "char \<Rightarrow> bool" where
  "is_digit c \<longleftrightarrow> 48 \<le> (of_char c :: nat) \<and> (of_char c :: nat) \<le> 57"

definition digit_val :: "char \<Rightarrow> int" where
  "digit_val c = int (of_char c) - 48"

definition digits_val :: "string \<Rightarrow> int" where
  "digits_val s = foldl (\<lambda>n c. n * 10 + digit_val c) 0 s"

definition atoi :: "string \<Rightarrow> int option" where
  "atoi s =
     (let neg = (s \<noteq> [] \<and> hd s = CHR ''-'');
          body = (if s \<noteq> [] \<and> (hd s = CHR ''-'' \<or> hd s = CHR ''+'') then tl s else s)
      in if body = [] \<or> \<not> list_all is_digit body then None
         else let v = (if neg then - digits_val body else digits_val body)
              in if v < - (2 ^ 63) \<or> 2 ^ 63 - 1 < v then None else Some v)"

lemma atoi_range: "atoi s = Some v \<Longrightarrow> - (2 ^ 63) \<le> v \<and> v < 2 ^ 63"
  by (auto simp: atoi_def Let_def split: if_splits)

lemma digit_char [simp]: "n < 10 \<Longrightarrow> digit_val (char_of (48 + n)) = int n \<and> is_digit (char_of (48 + n))"
  by (simp add: digit_val_def is_digit_def of_char_of)

lemma digits_of_digits: "list_all is_digit (digits_of n)"
proof (induction n rule: digits_of.induct)
  case (1 n)
  then show ?case by (subst digits_of.simps) auto
qed

lemma digits_of_nonempty [simp]: "digits_of n \<noteq> []"
  by (subst digits_of.simps) auto

lemma digits_val_of: "digits_val (digits_of n) = int n"
proof (induction n rule: digits_of.induct)
  case (1 n)
  show ?case
  proof (cases "n < 10")
    case True
    then show ?thesis by (subst digits_of.simps) (simp add: digits_val_def)
  next
    case False
    then show ?thesis using 1
      by (subst digits_of.simps) (simp add: digits_val_def zdiv_int zmod_int)
  qed
qed

lemma digits_of_hd: "hd (digits_of n) \<noteq> CHR ''-'' \<and> hd (digits_of n) \<noteq> CHR ''+''"
proof -
  have "is_digit (hd (digits_of n))"
    using digits_of_digits [of n] by (cases "digits_of n") auto
  then show ?thesis by (auto simp: is_digit_def)
qed

lemma atoi_itoa: "- (2 ^ 63) \<le> i \<Longrightarrow> i < 2 ^ 63 \<Longrightarrow> atoi (itoa i) = Some i"
  using digits_of_hd [of "nat i"]
  by (auto simp: atoi_def itoa_def Let_def digits_of_digits digits_val_of)

text \<open>
  \<open>strings.EqualFold\<close> on ASCII letters; characters beyond ASCII compare as they are.
\<close>

definition equal_fold :: "string \<Rightarrow> string \<Rightarrow> bool" where
  "equal_fold a b \<longleftrightarrow> map ascii_lower a = map ascii_lower b"

lemma equal_fold_refl [simp]: "equal_fold a a"
  by (simp add: equal_fold_def)

lemma find_SomeD: "find P xs = Some x \<Longrightarrow> x \<in> set xs \<and> P x"
  by (auto simp: find_Some_iff)

end
