(* ===== verification/Domain.thy ===== *)
theory Domain
imports Prelude "HOL-Library.Word"
begin

text \<open>
  The core types of the agent runtime (\<open>core/internal/domain/domain.go\<close>): sessions, runs and
  their states, who is behind them, the event log's entries and payloads, approvals, questions,
  plans, memories, schedules and provenance.

  A Go string type with constants is a datatype with those constants and one constructor
  \<open>\<dots>Other\<close> for every other string, the empty one (Go's zero value) included where it has no
  constant. A pointer that may be nil is an \<open>option\<close>. Sequence numbers (\<open>uint64\<close>) are \<open>nat\<close>:
  the code only counts them up by one, from 0. Token counts that the code adds are 64-bit words.
\<close>

subsection \<open>Identifiers\<close>

type_synonym SessionID = string
type_synonym RunID = string
type_synonym EventID = string
type_synonym MessageID = string
type_synonym MemoryID = string
type_synonym ToolCallID = string
type_synonym ApprovalID = string
type_synonym QuestionID = string
type_synonym ScheduleID = string
type_synonym Seq = nat

subsection \<open>Runs and where they come from\<close>

datatype RunStatus =
    RunQueued | RunRunning | RunAwaitingApproval | RunAwaitingInput
  | RunCancelling | RunCompleted | RunCancelled | RunFailed
  | RunStatusOther string

fun is_terminal :: "RunStatus \<Rightarrow> bool" where
  "is_terminal RunCompleted = True"
| "is_terminal RunCancelled = True"
| "is_terminal RunFailed = True"
| "is_terminal _ = False"

datatype TrustLevel = TrustUntrusted | TrustUser | TrustWorkspace | TrustSystem | TrustOther string

datatype RunOriginKind = OriginLocalClient | OriginGateway | OriginSchedule | OriginOther string

fun origin_kind_text :: "RunOriginKind \<Rightarrow> string" where
  "origin_kind_text OriginLocalClient = ''local_client''"
| "origin_kind_text OriginGateway = ''gateway''"
| "origin_kind_text OriginSchedule = ''schedule''"
| "origin_kind_text (OriginOther s) = s"

record ExternalPrincipal =
  pr_Platform :: string
  pr_AccountID :: string
  pr_TenantID :: string
  pr_PrincipalID :: string
  pr_DisplayName :: string

definition mention :: "ExternalPrincipal \<Rightarrow> string" where
  "mention p =
     (if pr_Platform p = ''discord'' \<and> pr_PrincipalID p \<noteq> ''''
        then ''<@'' @ pr_PrincipalID p @ ''>''
      else if pr_DisplayName p \<noteq> '''' then pr_DisplayName p
      else pr_PrincipalID p)"

record RunOrigin =
  or_Kind :: RunOriginKind
  or_ClientID :: string
  or_Principal :: "ExternalPrincipal option"

definition from_the_machine :: "string \<Rightarrow> RunOrigin" where
  "from_the_machine client =
     \<lparr>or_Kind = OriginLocalClient, or_ClientID = client, or_Principal = None\<rparr>"

definition from_a_schedule :: "ScheduleID \<Rightarrow> RunOrigin" where
  "from_a_schedule sid =
     \<lparr>or_Kind = OriginSchedule, or_ClientID = sid, or_Principal = None\<rparr>"

definition from_a_platform_account :: "string \<Rightarrow> string \<Rightarrow> string \<Rightarrow> RunOrigin" where
  "from_a_platform_account platform principalID displayName =
     \<lparr>or_Kind = OriginGateway, or_ClientID = '''',
      or_Principal = Some \<lparr>pr_Platform = platform, pr_AccountID = '''', pr_TenantID = '''',
        pr_PrincipalID = principalID, pr_DisplayName = displayName\<rparr>\<rparr>"

definition from_a_channel :: "string \<Rightarrow> string \<Rightarrow> RunOrigin" where
  "from_a_channel platform channelID =
     \<lparr>or_Kind = OriginGateway, or_ClientID = platform @ '':'' @ channelID, or_Principal = None\<rparr>"

text \<open>The rest of \<open>Describe\<close>, past the principal.\<close>

definition describe_client :: "RunOrigin \<Rightarrow> string" where
  "describe_client o1 =
     (if or_ClientID o1 \<noteq> '''' then or_ClientID o1
      else if origin_kind_text (or_Kind o1) \<noteq> '''' then origin_kind_text (or_Kind o1)
      else ''unrecorded'')"

definition describe_origin :: "RunOrigin \<Rightarrow> string" where
  "describe_origin o1 =
     (case or_Principal o1 of
        Some p \<Rightarrow>
          if pr_DisplayName p \<noteq> '''' then pr_DisplayName p
          else if pr_PrincipalID p \<noteq> '''' then pr_Platform p @ '':'' @ pr_PrincipalID p
          else describe_client o1
      | None \<Rightarrow> describe_client o1)"

lemma describe_origin_nonempty: "describe_origin o1 \<noteq> ''''"
  by (auto simp: describe_origin_def describe_client_def split: option.split)

record DeliveryTarget =
  dt_Kind :: string
  dt_Ref :: string

definition DeliveryLocalClient :: string where
  "DeliveryLocalClient = ''local_client''"

record Session =
  se_ID :: SessionID
  se_Title :: string
  se_Model :: string
  se_CreatedAt :: instant
  se_UpdatedAt :: instant

datatype RunKind = RunConversation | RunWorker | RunKindOther string

record Run =
  ru_ID :: RunID
  ru_SessionID :: SessionID
  ru_Status :: RunStatus
  ru_Origin :: RunOrigin
  ru_DeliveryTargets :: "DeliveryTarget list"
  ru_CreatedAt :: instant
  ru_FinishedAt :: "instant option"
  ru_Kind :: RunKind
  ru_ParentRunID :: RunID

record Attachment =
  at_ArtifactID :: string
  at_Name :: string
  at_MediaType :: string
  at_Size :: int

definition is_image :: "Attachment \<Rightarrow> bool" where
  "is_image a \<longleftrightarrow> at_MediaType a \<in> {''image/png'', ''image/jpeg'', ''image/webp'', ''image/gif''}"

record Turn =
  tu_Text :: string
  tu_Origin :: RunOrigin
  tu_Targets :: "DeliveryTarget list"
  tu_Attachments :: "Attachment list"

subsection \<open>Provenance\<close>

text \<open>
  \<open>worseThan\<close> is a Go map: a key it does not hold reads as 0, so a provenance it does not name
  ranks with the operator's own words.
\<close>

datatype Provenance =
    ProvenanceOperator | ProvenanceLocalUnknown | ProvenanceExternal | ProvenanceOther string

fun worse_than :: "Provenance \<Rightarrow> int" where
  "worse_than ProvenanceOperator = 0"
| "worse_than ProvenanceLocalUnknown = 1"
| "worse_than ProvenanceExternal = 2"
| "worse_than (ProvenanceOther s) = 0"

definition worse :: "Provenance \<Rightarrow> Provenance \<Rightarrow> Provenance" where
  "worse p other = (if worse_than other > worse_than p then other else p)"

definition is_operator :: "Provenance \<Rightarrow> bool" where
  "is_operator p \<longleftrightarrow> p = ProvenanceOperator"

fun describe_provenance :: "Provenance \<Rightarrow> string" where
  "describe_provenance ProvenanceExternal = ''this run has read text from outside this machine''"
| "describe_provenance ProvenanceLocalUnknown =
     ''this run has read files or command output from this machine''"
| "describe_provenance _ = ''''"

lemma worse_rank [simp]: "worse_than (worse p q) = max (worse_than p) (worse_than q)"
  by (simp add: worse_def)

lemma worse_External [simp]: "worse ProvenanceExternal q = ProvenanceExternal"
  by (cases q) (simp_all add: worse_def)

lemma worse_assoc: "worse (worse p q) r = worse p (worse q r)"
  by (auto simp: worse_def)

subsection \<open>Memories\<close>

datatype MemoryScope = ScopeWorkspace | ScopePrincipal | ScopeOther string
datatype MemoryActivation = MemoryStanding | MemoryRetrieval | ActivationOther string

record Memory =
  me_ID :: MemoryID
  me_Scope :: MemoryScope
  me_ScopeRef :: string
  me_Activation :: MemoryActivation
  me_Text :: string
  me_Trust :: TrustLevel
  me_From :: Provenance
  me_Origin :: RunOrigin
  me_SourceSession :: SessionID
  me_SourceSeq :: Seq
  me_ApprovedBy :: string
  me_CreatedAt :: instant
  me_InvalidatedAt :: "instant option"
  me_SupersededBy :: MemoryID
  me_ValidFrom :: instant
  me_ValidUntil :: "instant option"

definition current_at :: "Memory \<Rightarrow> instant \<Rightarrow> bool" where
  "current_at m at =
     (if (case me_InvalidatedAt m of Some i \<Rightarrow> \<not> at < i | None \<Rightarrow> False) then False
      else if \<not> is_zero (me_ValidFrom m) \<and> at < me_ValidFrom m then False
      else if (case me_ValidUntil m of Some u \<Rightarrow> \<not> at < u | None \<Rightarrow> False) then False
      else True)"

subsection \<open>Plans and questions\<close>

datatype PlanStatus = PlanPending | PlanInProgress | PlanCompleted | PlanAbandoned | PlanStatusOther string

definition plan_status_is_terminal :: "PlanStatus \<Rightarrow> bool" where
  "plan_status_is_terminal s \<longleftrightarrow> s = PlanCompleted \<or> s = PlanAbandoned"

fun plan_status_is_valid :: "PlanStatus \<Rightarrow> bool" where
  "plan_status_is_valid PlanPending = True"
| "plan_status_is_valid PlanInProgress = True"
| "plan_status_is_valid PlanCompleted = True"
| "plan_status_is_valid PlanAbandoned = True"
| "plan_status_is_valid (PlanStatusOther s) = False"

fun plan_mark :: "PlanStatus \<Rightarrow> string" where
  "plan_mark PlanCompleted = ''done''"
| "plan_mark PlanInProgress = ''doing''"
| "plan_mark PlanAbandoned = ''dropped''"
| "plan_mark _ = ''todo''"

record PlanItem =
  pi_ID :: string
  pi_Title :: string
  pi_Status :: PlanStatus
  pi_Note :: string

record PlanOpRequest =
  po_Op :: string
  po_ID :: string
  po_Title :: string
  po_Status :: PlanStatus
  po_Note :: string

definition PlanOpAdd :: string where "PlanOpAdd = ''add''"
definition PlanOpSetStatus :: string where "PlanOpSetStatus = ''set_status''"
definition PlanOpSetTitle :: string where "PlanOpSetTitle = ''set_title''"

datatype QuestionKind = QuestionChoice | QuestionText | QuestionKindOther string

definition question_kind_is_valid :: "QuestionKind \<Rightarrow> bool" where
  "question_kind_is_valid k \<longleftrightarrow> k = QuestionChoice \<or> k = QuestionText"

record QuestionOption =
  qo_ID :: string
  qo_Label :: string
  qo_Detail :: string

datatype QuestionStatus = AnswerPending | AnswerGiven | AnswerAbandoned | QuestionStatusOther string

record Question =
  qu_ID :: QuestionID
  qu_SessionID :: SessionID
  qu_RunID :: RunID
  qu_ToolCallID :: ToolCallID
  qu_Prompt :: string
  qu_Kind :: QuestionKind
  qu_Options :: "QuestionOption list"
  qu_Status :: QuestionStatus
  qu_Answer :: string
  qu_AnsweredBy :: RunOrigin
  qu_CreatedAt :: instant
  qu_AnsweredAt :: "instant option"

definition question_is_pending :: "Question \<Rightarrow> bool" where
  "question_is_pending q \<longleftrightarrow> qu_Status q = AnswerPending"

subsection \<open>Approvals\<close>

datatype ApprovalStatus = ApprovalPending | ApprovalAllowed | ApprovalDenied | ApprovalStatusOther string
datatype RememberScope = RememberOnce | RememberSession | RememberOther string

record Approval =
  ap_ID :: ApprovalID
  ap_SessionID :: SessionID
  ap_RunID :: RunID
  ap_ToolCallID :: ToolCallID
  ap_ToolName :: string
  ap_Arguments :: string
  ap_Summary :: string
  ap_Effects :: "string list"
  ap_Preview :: string
  ap_ReadForeign :: bool
  ap_Status :: ApprovalStatus
  ap_Scope :: RememberScope
  ap_CreatedAt :: instant
  ap_DecidedAt :: "instant option"
  ap_DecidedBy :: RunOrigin

definition approval_is_pending :: "Approval \<Rightarrow> bool" where
  "approval_is_pending a \<longleftrightarrow> ap_Status a = ApprovalPending"

subsection \<open>Schedules and firings\<close>

datatype MissedPolicy = MissedCoalesce | MissedSkip | MissedOther string

record Schedule =
  sc_ID :: ScheduleID
  sc_Revision :: int
  sc_Expression :: string
  sc_Zone :: string
  sc_Prompt :: string
  sc_SessionID :: SessionID
  sc_CreatedBy :: RunOrigin
  sc_Deliver :: "DeliveryTarget list"
  sc_Missed :: MissedPolicy
  sc_Paused :: bool
  sc_CreatedAt :: instant

record Firing =
  fi_ScheduleID :: ScheduleID
  fi_Revision :: int
  fi_For :: instant
  fi_Observed :: instant
  fi_Missed :: int
  fi_RunID :: RunID

subsection \<open>Usage\<close>

record Usage =
  us_InputTokens :: "64 word"
  us_CachedInputTokens :: "64 word"
  us_OutputTokens :: "64 word"
  us_ReasoningTokens :: "64 word"

definition usage_add :: "Usage \<Rightarrow> Usage \<Rightarrow> Usage" where
  "usage_add u other =
     \<lparr>us_InputTokens = us_InputTokens u + us_InputTokens other,
      us_CachedInputTokens = us_CachedInputTokens u + us_CachedInputTokens other,
      us_OutputTokens = us_OutputTokens u + us_OutputTokens other,
      us_ReasoningTokens = us_ReasoningTokens u + us_ReasoningTokens other\<rparr>"

definition total_tokens :: "Usage \<Rightarrow> 64 word" where
  "total_tokens u = us_InputTokens u + us_OutputTokens u + us_ReasoningTokens u"

lemma total_tokens_add: "total_tokens (usage_add u v) = total_tokens u + total_tokens v"
  by (simp add: total_tokens_def usage_add_def)

datatype StopReason =
    StopEndTurn | StopMaxTokens | StopContentFilter | StopCancelled | StopError
  | StopUnknown | StopToolUse | StopOther string

end
