(* ===== verification/Events.thy ===== *)
theory Events
imports Domain
begin

text \<open>
  The event log's vocabulary (\<open>core/internal/domain/domain.go\<close>): what an event can carry, and
  the event itself. \<open>EventPayload\<close> is a closed set in the code (an interface with an unexported
  marker), so it is a datatype with one constructor per payload.
\<close>

datatype EventKind =
    EventUserMessageAdded | EventRunStateChanged | EventAssistantTextDelta
  | EventAssistantReasoningDelta | EventAssistantMessageCompleted | EventUsageChanged
  | EventToolCallRequested | EventToolCallCompleted | EventConversationCompacted
  | EventRunDirections | EventPlanChanged | EventQuestionAsked | EventQuestionAnswered
  | EventSkillActivated | EventMemoriesNoted | EventApprovalRequested | EventApprovalResolved

definition all_event_kinds :: "EventKind list" where
  "all_event_kinds =
     [EventUserMessageAdded, EventRunStateChanged, EventAssistantTextDelta,
      EventAssistantReasoningDelta, EventAssistantMessageCompleted, EventUsageChanged,
      EventToolCallRequested, EventToolCallCompleted, EventConversationCompacted,
      EventRunDirections, EventPlanChanged, EventQuestionAsked, EventQuestionAnswered,
      EventApprovalRequested, EventApprovalResolved, EventSkillActivated, EventMemoriesNoted]"

definition FoldNotice :: string where
  "FoldNotice = ''[earlier turns were folded into a summary]''"

record UserMessageAdded =
  um_MessageID :: MessageID
  um_Text :: string
  um_Trust :: TrustLevel
  um_Origin :: RunOrigin
  um_Attachments :: "Attachment list"

record RunStateChanged =
  rs_Status :: RunStatus
  rs_Reason :: string
  rs_FailureKind :: string

record AssistantTextDelta =
  td_MessageID :: MessageID
  td_Text :: string

record AssistantReasoningDelta =
  rd_MessageID :: MessageID
  rd_Text :: string

record AssistantMessageCompleted =
  mc_MessageID :: MessageID
  mc_StopReason :: StopReason

record ToolCallRequested =
  tq_CallID :: ToolCallID
  tq_Name :: string
  tq_Arguments :: string
  tq_ProviderMetadata :: string

record Artifact =
  af_ID :: string
  af_Size :: int
  af_MediaType :: string

record ToolCallCompleted =
  tc_CallID :: ToolCallID
  tc_Name :: string
  tc_Summary :: string
  tc_Content :: string
  tc_IsError :: bool
  tc_Truncated :: bool
  tc_Foreign :: bool
  tc_From :: Provenance
  tc_Artifact :: "Artifact option"
  tc_DurationMS :: int

record ConversationCompacted =
  cc_Summary :: string
  cc_FromSeq :: Seq
  cc_ThroughSeq :: Seq
  cc_MessagesFolded :: int
  cc_TokensBefore :: int
  cc_TokensAfter :: int

record RunDirections =
  rdir_Text :: string

record UsageChanged =
  uc_Usage :: Usage

record PlanChanged =
  pc_Items :: "PlanItem list"

record QuestionAsked =
  qa_QuestionID :: QuestionID
  qa_CallID :: ToolCallID
  qa_Prompt :: string
  qa_Kind :: QuestionKind
  qa_Options :: "QuestionOption list"

record QuestionAnswered =
  qd_QuestionID :: QuestionID
  qd_CallID :: ToolCallID
  qd_Status :: QuestionStatus
  qd_Answer :: string
  qd_AnsweredBy :: RunOrigin

record SkillActivated =
  sk_Name :: string
  sk_Version :: string
  sk_Digest :: string

record MemoriesNoted =
  mn_Notes :: "string list"

record ApprovalRequested =
  aq_ApprovalID :: ApprovalID
  aq_CallID :: ToolCallID
  aq_ToolName :: string
  aq_Arguments :: string
  aq_Summary :: string
  aq_Effects :: "string list"
  aq_Preview :: string
  aq_ReadForeign :: bool

record ApprovalResolved =
  ar_ApprovalID :: ApprovalID
  ar_CallID :: ToolCallID
  ar_ToolName :: string
  ar_Status :: ApprovalStatus
  ar_Scope :: RememberScope
  ar_DecidedBy :: RunOrigin

datatype EventPayload =
    PUserMessageAdded UserMessageAdded
  | PRunStateChanged RunStateChanged
  | PAssistantTextDelta AssistantTextDelta
  | PAssistantReasoningDelta AssistantReasoningDelta
  | PAssistantMessageCompleted AssistantMessageCompleted
  | PUsageChanged UsageChanged
  | PToolCallRequested ToolCallRequested
  | PToolCallCompleted ToolCallCompleted
  | PConversationCompacted ConversationCompacted
  | PRunDirections RunDirections
  | PPlanChanged PlanChanged
  | PQuestionAsked QuestionAsked
  | PQuestionAnswered QuestionAnswered
  | PSkillActivated SkillActivated
  | PMemoriesNoted MemoriesNoted
  | PApprovalRequested ApprovalRequested
  | PApprovalResolved ApprovalResolved

record Event =
  ev_ID :: EventID
  ev_SessionID :: SessionID
  ev_RunID :: RunID
  ev_Seq :: Seq
  ev_GlobalSeq :: Seq
  ev_OccurredAt :: instant
  ev_Kind :: EventKind
  ev_Payload :: EventPayload

lemma all_event_kinds_complete: "distinct all_event_kinds" "k \<in> set all_event_kinds"
  by (simp add: all_event_kinds_def) (cases k; simp add: all_event_kinds_def)

subsection \<open>Sample values for evaluations\<close>

definition sample_origin :: RunOrigin where
  "sample_origin = \<lparr>or_Kind = OriginLocalClient, or_ClientID = ''cli'', or_Principal = None\<rparr>"

definition sample_session :: "SessionID \<Rightarrow> instant \<Rightarrow> Session" where
  "sample_session sid at =
     \<lparr>se_ID = sid, se_Title = '''', se_Model = '''', se_CreatedAt = at, se_UpdatedAt = at\<rparr>"

definition sample_run :: "RunID \<Rightarrow> SessionID \<Rightarrow> RunStatus \<Rightarrow> Run" where
  "sample_run rid sid status =
     \<lparr>ru_ID = rid, ru_SessionID = sid, ru_Status = status, ru_Origin = sample_origin,
      ru_DeliveryTargets = [], ru_CreatedAt = 1, ru_FinishedAt = None, ru_Kind = RunConversation,
      ru_ParentRunID = ''''\<rparr>"

definition sample_event :: "SessionID \<Rightarrow> RunID \<Rightarrow> Seq \<Rightarrow> EventKind \<Rightarrow> EventPayload \<Rightarrow> Event" where
  "sample_event sid rid q kind payload =
     \<lparr>ev_ID = ''e'', ev_SessionID = sid, ev_RunID = rid, ev_Seq = q, ev_GlobalSeq = 0,
      ev_OccurredAt = 1, ev_Kind = kind, ev_Payload = payload\<rparr>"

definition sample_note :: "SessionID \<Rightarrow> Event" where
  "sample_note sid =
     sample_event sid '''' 0 EventMemoriesNoted (PMemoriesNoted \<lparr>mn_Notes = []\<rparr>)"

definition sample_fold :: "SessionID \<Rightarrow> Seq \<Rightarrow> Seq \<Rightarrow> Event" where
  "sample_fold sid from_seq through =
     sample_event sid '''' 0 EventConversationCompacted
       (PConversationCompacted \<lparr>cc_Summary = ''s'', cc_FromSeq = from_seq, cc_ThroughSeq = through,
          cc_MessagesFolded = 1, cc_TokensBefore = 1, cc_TokensAfter = 1\<rparr>)"

lemmas sample_defs = sample_origin_def sample_session_def sample_run_def sample_event_def
  sample_note_def sample_fold_def

end
