(* ===== verification/Storage.thy ===== *)
theory Storage
imports Events
begin

text \<open>
  The storage contract's vocabulary (\<open>core/internal/storage\<close>) and the state of the in-memory
  store (\<open>core/internal/storage/memory/memory.go\<close>), with its constructor.

  An operation takes the caller's context as \<open>Ctx\<close>: \<open>None\<close> while it is live, \<open>Some\<close> of the
  reason once it is cancelled, which is what \<open>ctx.Err()\<close> reports. An operation that writes
  returns the new store on the right of the sum, so an error on the left leaves the store as it
  was. The lock is not modelled: each operation takes it for its whole body, so operations are
  atomic steps.
\<close>

datatype CtxError = Canceled | DeadlineExceeded

type_synonym Ctx = "CtxError option"

datatype StoreError =
    CtxErr CtxError
  | ErrSessionNotFound | ErrRunNotFound | ErrDuplicateSession | ErrDuplicateRun
  | ErrApprovalNotFound | ErrMemoryNotFound | ErrApprovalDecided
  | ErrQuestionNotFound | ErrQuestionAnswered
  | ErrScheduleNotFound | ErrDuplicateSchedule
  | ErrFiringAlreadyResolved | ErrFiringNotResolved
  | ErrDocumentChanged | ErrDocumentVersionNotFound
  | ErrNotADocument string
  | ErrNotSupersedable MemoryID
  | PanicSliceBounds \<comment> \<open>a Go slice expression out of range\<close>

text \<open>The three documents the settings are kept in (\<open>document.go\<close>).\<close>

record Document =
  do_Name :: string
  do_Text :: string
  do_Hash :: string
  do_Source :: string
  do_Version :: int
  do_UpdatedAt :: instant

record DocumentSeed =
  ds_Name :: string
  ds_Text :: string
  ds_Source :: string

text \<open>
  \<open>firingKey\<close>: the schedule, its revision and when it was due. A vector is the bit patterns of
  its \<open>float32\<close> values: the store keeps and returns it and never computes with it.
\<close>

type_synonym firing_key = "ScheduleID \<times> int \<times> int"
type_synonym vector = "32 word list"

record Store =
  st_sessions :: "(SessionID, Session) gomap"
  st_plans :: "(SessionID, PlanItem list) gomap"
  st_runs :: "(RunID, Run) gomap"
  st_events :: "(SessionID, Event list) gomap"
  st_pruned :: "(SessionID, Seq) gomap"
  st_logSeq :: Seq
  st_logPruned :: Seq
  st_approvals :: "(ApprovalID, Approval) gomap"
  st_questions :: "(QuestionID, Question) gomap"
  st_memories :: "(MemoryID, Memory) gomap"
  st_memoryOrder :: "MemoryID list"
  st_memoryVectors :: "(MemoryID, (string, vector) gomap) gomap"
  st_schedules :: "(ScheduleID, Schedule) gomap"
  st_scheduleOrder :: "ScheduleID list"
  st_firings :: "(firing_key, Firing) gomap"
  st_documents :: "(string, Document) gomap"
  st_documentVersions :: "(string, Document list) gomap"

definition new_store :: Store where
  "new_store =
     \<lparr>st_sessions = [], st_plans = [], st_runs = [], st_events = [], st_pruned = [],
      st_logSeq = 0, st_logPruned = 0, st_approvals = [], st_questions = [],
      st_memories = [], st_memoryOrder = [], st_memoryVectors = [],
      st_schedules = [], st_scheduleOrder = [], st_firings = [],
      st_documents = [], st_documentVersions = []\<rparr>"

text \<open>\<open>if err := ctx.Err(); err != nil { return err }\<close>\<close>

definition guard_ctx :: "Ctx \<Rightarrow> StoreError + 'a \<Rightarrow> StoreError + 'a" where
  "guard_ctx ctx r = (case ctx of Some e \<Rightarrow> Inl (CtxErr e) | None \<Rightarrow> r)"

lemma guard_ctx_simps [simp]:
  "guard_ctx None r = r"
  "guard_ctx (Some e) r = Inl (CtxErr e)"
  by (simp_all add: guard_ctx_def)

lemma guard_ctx_Inr [simp]: "guard_ctx ctx r = Inr x \<longleftrightarrow> ctx = None \<and> r = Inr x"
  by (cases ctx) simp_all

text \<open>A missing key of a Go map reads as the zero value.\<close>

definition gm_list :: "('k, 'v list) gomap \<Rightarrow> 'k \<Rightarrow> 'v list" where
  "gm_list m k = (case gm_get m k of None \<Rightarrow> [] | Some v \<Rightarrow> v)"

definition gm_seq :: "('k, Seq) gomap \<Rightarrow> 'k \<Rightarrow> Seq" where
  "gm_seq m k = (case gm_get m k of None \<Rightarrow> 0 | Some v \<Rightarrow> v)"

lemma gm_list_nil [simp, go_lookup]: "gm_list [] k = []"
  by (simp add: gm_list_def)

lemma gm_list_set [simp, go_lookup]: "gm_list (gm_set m k v) j = (if j = k then v else gm_list m j)"
  by (simp add: gm_list_def)

lemma gm_seq_nil [simp, go_lookup]: "gm_seq [] k = 0"
  by (simp add: gm_seq_def)

lemma gm_seq_set [simp, go_lookup]: "gm_seq (gm_set m k v) j = (if j = k then v else gm_seq m j)"
  by (simp add: gm_seq_def)

text \<open>\<open>if limit > 0 && len(out) > limit { out = out[:limit] }\<close>\<close>

definition limit_to :: "int \<Rightarrow> 'a list \<Rightarrow> 'a list" where
  "limit_to limit xs = (if limit > 0 \<and> int (length xs) > limit then take (nat limit) xs else xs)"

lemma limit_to_0 [simp]: "limit_to 0 xs = xs"
  by (simp add: limit_to_def)

lemma limit_to_length: "limit > 0 \<Longrightarrow> int (length (limit_to limit xs)) \<le> limit"
  by (simp add: limit_to_def)

lemma set_limit_to: "set (limit_to limit xs) \<subseteq> set xs"
  by (simp add: limit_to_def set_take_subset)

end
