(* ===== verification/MemSessions.thy ===== *)
theory MemSessions
imports Storage
begin

text \<open>
  Sessions, plans and runs of the in-memory store
  (\<open>core/internal/storage/memory/memory.go\<close>).
\<close>

subsection \<open>Sessions and plans\<close>

definition create_session :: "Ctx \<Rightarrow> Session \<Rightarrow> Store \<Rightarrow> StoreError + Store" where
  "create_session ctx session s = guard_ctx ctx
     (case gm_get (st_sessions s) (se_ID session) of
        Some _ \<Rightarrow> Inl ErrDuplicateSession
      | None \<Rightarrow> Inr (s\<lparr>st_sessions := gm_set (st_sessions s) (se_ID session) session\<rparr>))"

definition get_session :: "Ctx \<Rightarrow> SessionID \<Rightarrow> Store \<Rightarrow> StoreError + Session" where
  "get_session ctx sid s = guard_ctx ctx
     (case gm_get (st_sessions s) sid of
        None \<Rightarrow> Inl ErrSessionNotFound
      | Some session \<Rightarrow> Inr session)"

definition set_session_model ::
    "Ctx \<Rightarrow> SessionID \<Rightarrow> string \<Rightarrow> instant \<Rightarrow> Store \<Rightarrow> StoreError + Store" where
  "set_session_model ctx sid model at s = guard_ctx ctx
     (case gm_get (st_sessions s) sid of
        None \<Rightarrow> Inl ErrSessionNotFound
      | Some session \<Rightarrow>
          Inr (s\<lparr>st_sessions := gm_set (st_sessions s) sid
                   (session\<lparr>se_Model := model, se_UpdatedAt := at\<rparr>)\<rparr>))"

definition get_plan :: "Ctx \<Rightarrow> SessionID \<Rightarrow> Store \<Rightarrow> StoreError + PlanItem list" where
  "get_plan ctx sid s = guard_ctx ctx (Inr (gm_list (st_plans s) sid))"

definition set_plan ::
    "Ctx \<Rightarrow> SessionID \<Rightarrow> PlanItem list \<Rightarrow> instant \<Rightarrow> Store \<Rightarrow> StoreError + Store" where
  "set_plan ctx sid items at s = guard_ctx ctx
     (Inr (s\<lparr>st_plans := gm_set (st_plans s) sid items\<rparr>))"

definition session_less :: "Session \<Rightarrow> Session \<Rightarrow> bool" where
  "session_less a b =
     (if se_CreatedAt a \<noteq> se_CreatedAt b then se_CreatedAt a > se_CreatedAt b
      else se_ID a > se_ID b)"

definition list_sessions :: "Ctx \<Rightarrow> Store \<Rightarrow> StoreError + Session list" where
  "list_sessions ctx s = guard_ctx ctx (Inr (sort_slice session_less (gm_vals (st_sessions s))))"

subsection \<open>Runs\<close>

definition create_run :: "Ctx \<Rightarrow> Run \<Rightarrow> Store \<Rightarrow> StoreError + Store" where
  "create_run ctx run s = guard_ctx ctx
     (case gm_get (st_runs s) (ru_ID run) of
        Some _ \<Rightarrow> Inl ErrDuplicateRun
      | None \<Rightarrow> Inr (s\<lparr>st_runs := gm_set (st_runs s) (ru_ID run) run\<rparr>))"

text \<open>Only the status and the finish time are written, as the SQL statement does.\<close>

definition update_run :: "Ctx \<Rightarrow> Run \<Rightarrow> Store \<Rightarrow> StoreError + Store" where
  "update_run ctx run s = guard_ctx ctx
     (case gm_get (st_runs s) (ru_ID run) of
        None \<Rightarrow> Inl ErrRunNotFound
      | Some existing \<Rightarrow>
          Inr (s\<lparr>st_runs := gm_set (st_runs s) (ru_ID run)
                   (existing\<lparr>ru_Status := ru_Status run, ru_FinishedAt := ru_FinishedAt run\<rparr>)\<rparr>))"

definition get_run :: "Ctx \<Rightarrow> RunID \<Rightarrow> Store \<Rightarrow> StoreError + Run" where
  "get_run ctx rid s = guard_ctx ctx
     (case gm_get (st_runs s) rid of None \<Rightarrow> Inl ErrRunNotFound | Some run \<Rightarrow> Inr run)"

definition run_less :: "Run \<Rightarrow> Run \<Rightarrow> bool" where
  "run_less a b =
     (if ru_CreatedAt a \<noteq> ru_CreatedAt b then ru_CreatedAt a < ru_CreatedAt b
      else ru_ID a < ru_ID b)"

definition filter_runs :: "Ctx \<Rightarrow> (Run \<Rightarrow> bool) \<Rightarrow> Store \<Rightarrow> StoreError + Run list" where
  "filter_runs ctx keep s = guard_ctx ctx
     (Inr (sort_slice run_less (filter keep (gm_vals (st_runs s)))))"

definition list_runs :: "Ctx \<Rightarrow> SessionID \<Rightarrow> Store \<Rightarrow> StoreError + Run list" where
  "list_runs ctx sid s = filter_runs ctx (\<lambda>run. ru_SessionID run = sid) s"

definition unfinished_runs :: "Ctx \<Rightarrow> Store \<Rightarrow> StoreError + Run list" where
  "unfinished_runs ctx s = filter_runs ctx (\<lambda>run. \<not> is_terminal (ru_Status run)) s"

subsection \<open>Listing orders\<close>

text \<open>Both comparison functions meet the contract of a sort.\<close>

interpretation session_order: sort_less session_less
  by unfold_locales (auto simp: session_less_def split: if_splits)

interpretation run_order: sort_less run_less
  by unfold_locales (auto simp: run_less_def split: if_splits)

text \<open>A store keyed by the identifier inside each value, as every write keeps it.\<close>

definition sessions_wf :: "Store \<Rightarrow> bool" where
  "sessions_wf s \<longleftrightarrow> gm_keyed se_ID (st_sessions s)"

definition runs_wf :: "Store \<Rightarrow> bool" where
  "runs_wf s \<longleftrightarrow> gm_keyed ru_ID (st_runs s)"

lemma create_session_wf: "sessions_wf s \<Longrightarrow> create_session ctx v s = Inr t \<Longrightarrow> sessions_wf t"
  by (auto simp: sessions_wf_def create_session_def split: option.splits)

lemma set_session_model_wf: "sessions_wf s \<Longrightarrow> set_session_model ctx k m at s = Inr t \<Longrightarrow> sessions_wf t"
  by (fastforce simp: sessions_wf_def set_session_model_def intro: gm_keyed_update split: option.splits)

lemma create_run_wf: "runs_wf s \<Longrightarrow> create_run ctx v s = Inr t \<Longrightarrow> runs_wf t"
  by (auto simp: runs_wf_def create_run_def split: option.splits)

lemma update_run_wf: "runs_wf s \<Longrightarrow> update_run ctx v s = Inr t \<Longrightarrow> runs_wf t"
  by (fastforce simp: runs_wf_def update_run_def intro: gm_keyed_update split: option.splits)

text \<open>A listing is the same for two stores with the same lookups: the iteration order of the
  Go map does not show.\<close>

lemma filter_runs_order:
  assumes "runs_wf s" and "runs_wf t" and "\<And>k. gm_get (st_runs s) k = gm_get (st_runs t) k"
  shows "filter_runs ctx keep s = filter_runs ctx keep t"
proof -
  have "mset (filter keep (gm_vals (st_runs s))) = mset (filter keep (gm_vals (st_runs t)))"
    using gm_keyed_mset [of ru_ID "st_runs s" "st_runs t"] assms
    by (simp add: runs_wf_def)
  then have "sort_slice run_less (filter keep (gm_vals (st_runs s)))
      = sort_slice run_less (filter keep (gm_vals (st_runs t)))"
    using assms(1) by (intro run_order.sort_slice_unique)
      (auto simp: run_less_def runs_wf_def dest: gm_keyed_inj)
  then show ?thesis by (simp add: filter_runs_def)
qed

end
