(* ===== verification/MemEvents.thy ===== *)
theory MemEvents
imports MemSessions
begin

text \<open>
  The event log of the in-memory store (\<open>core/internal/storage/memory/memory.go\<close>): appending,
  reading back from a position, the head and the oldest kept event, pruning, and the whole log
  across sessions.
\<close>

subsection \<open>Operations\<close>

definition append_event :: "Ctx \<Rightarrow> Event \<Rightarrow> Store \<Rightarrow> StoreError + Store \<times> Seq" where
  "append_event ctx event s = guard_ctx ctx
     (case gm_get (st_sessions s) (ev_SessionID event) of
        None \<Rightarrow> Inl ErrSessionNotFound
      | Some _ \<Rightarrow>
          (let sid = ev_SessionID event;
               events = gm_list (st_events s) sid;
               q = gm_seq (st_pruned s) sid + length events + 1;
               logSeq = st_logSeq s + 1;
               event' = event\<lparr>ev_Seq := q, ev_GlobalSeq := logSeq\<rparr>
           in Inr (s\<lparr>st_logSeq := logSeq,
                    st_events := gm_set (st_events s) sid (events @ [event'])\<rparr>, q)))"

text \<open>
  \<open>events[after:]\<close> with \<open>after\<close> a \<open>uint64\<close>: the guard compares \<open>int(after)\<close>, so a position of
  \<open>2^63\<close> or more passes it and the slice expression panics.
\<close>

definition list_after :: "Ctx \<Rightarrow> SessionID \<Rightarrow> Seq \<Rightarrow> int \<Rightarrow> Store \<Rightarrow> StoreError + Event list" where
  "list_after ctx sid after limit s = guard_ctx ctx
     (case gm_get (st_sessions s) sid of
        None \<Rightarrow> Inl ErrSessionNotFound
      | Some _ \<Rightarrow>
          (let events = gm_list (st_events s) sid
           in if int_of_uint64 after \<ge> int (length events) then Inr []
              else if after > length events then Inl PanicSliceBounds
              else Inr (limit_to limit (drop after events))))"

definition log_head_of :: "SessionID \<Rightarrow> Store \<Rightarrow> Seq" where
  "log_head_of sid s = gm_seq (st_pruned s) sid + length (gm_list (st_events s) sid)"

definition head_seq_of :: "Ctx \<Rightarrow> SessionID \<Rightarrow> Store \<Rightarrow> StoreError + Seq" where
  "head_seq_of ctx sid s = guard_ctx ctx
     (case gm_get (st_sessions s) sid of
        None \<Rightarrow> Inl ErrSessionNotFound
      | Some _ \<Rightarrow> Inr (log_head_of sid s))"

definition oldest_seq :: "Ctx \<Rightarrow> SessionID \<Rightarrow> Store \<Rightarrow> StoreError + Seq" where
  "oldest_seq ctx sid s = guard_ctx ctx
     (case gm_list (st_events s) sid of [] \<Rightarrow> Inr 0 | e # es \<Rightarrow> Inr (ev_Seq e))"

text \<open>The pruning loop: what is kept, how many were removed, and the highest position removed.\<close>

definition prunable :: "Seq \<Rightarrow> Event \<Rightarrow> bool" where
  "prunable through event \<longleftrightarrow> ev_Seq event \<le> through \<and> ev_Kind event \<noteq> EventConversationCompacted"

fun prune_loop :: "Seq \<Rightarrow> Event list \<Rightarrow> Seq \<Rightarrow> Event list \<times> nat \<times> Seq" where
  "prune_loop through [] logPruned = ([], 0, logPruned)"
| "prune_loop through (event # events) logPruned =
     (if prunable through event
      then (let (kept, removed, lp) = prune_loop through events
                   (if ev_GlobalSeq event > logPruned then ev_GlobalSeq event else logPruned)
            in (kept, removed + 1, lp))
      else (let (kept, removed, lp) = prune_loop through events logPruned
            in (event # kept, removed, lp)))"

definition prune_events :: "Ctx \<Rightarrow> SessionID \<Rightarrow> Seq \<Rightarrow> Store \<Rightarrow> StoreError + Store \<times> nat" where
  "prune_events ctx sid through s = guard_ctx ctx
     (if through = 0 then Inr (s, 0)
      else (let (kept, removed, lp) =
                  prune_loop through (gm_list (st_events s) sid) (st_logPruned s);
                s' = s\<lparr>st_events := gm_set (st_events s) sid kept, st_logPruned := lp\<rparr>
            in if removed > 0 \<and> through > gm_seq (st_pruned s) sid
               then Inr (s'\<lparr>st_pruned := gm_set (st_pruned s) sid through\<rparr>, removed)
               else Inr (s', removed)))"

definition global_less :: "Event \<Rightarrow> Event \<Rightarrow> bool" where
  "global_less a b \<longleftrightarrow> ev_GlobalSeq a < ev_GlobalSeq b"

definition list_all_after :: "Ctx \<Rightarrow> Seq \<Rightarrow> int \<Rightarrow> Store \<Rightarrow> StoreError + Event list" where
  "list_all_after ctx after limit s = guard_ctx ctx
     (Inr (limit_to limit (sort_slice global_less
        (filter (\<lambda>e. ev_GlobalSeq e > after) (concat (gm_vals (st_events s)))))))"

definition log_head :: "Ctx \<Rightarrow> Store \<Rightarrow> StoreError + Seq" where
  "log_head ctx s = guard_ctx ctx (Inr (st_logSeq s))"

definition log_pruned_through :: "Ctx \<Rightarrow> Store \<Rightarrow> StoreError + Seq" where
  "log_pruned_through ctx s = guard_ctx ctx (Inr (st_logPruned s))"

interpretation global_order: sort_less global_less
  by unfold_locales (auto simp: global_less_def)

subsection \<open>What pruning keeps\<close>

lemma prune_loop_kept: "fst (prune_loop through es lp) = filter (\<lambda>e. \<not> prunable through e) es"
  by (induction es arbitrary: lp) (auto simp: split_beta Let_def)

lemma prune_loop_removed:
  "fst (snd (prune_loop through es lp)) = length (filter (prunable through) es)"
  by (induction es arbitrary: lp) (auto simp: split_beta Let_def)

lemma prune_loop_lp:
  "snd (snd (prune_loop through es lp)) = fold max (map ev_GlobalSeq (filter (prunable through) es)) lp"
  by (induction es arbitrary: lp) (auto simp: split_beta Let_def max_def)

lemma fold_max_bound: "fold max xs (m :: nat) \<le> b \<longleftrightarrow> m \<le> b \<and> (\<forall>x \<in> set xs. x \<le> b)"
  by (induction xs arbitrary: m) auto

lemmas prune_loop_simps = prune_loop_kept prune_loop_removed prune_loop_lp

lemma prune_loop_eq:
  "prune_loop through es lp =
     (filter (\<lambda>e. \<not> prunable through e) es, length (filter (prunable through) es),
      fold max (map ev_GlobalSeq (filter (prunable through) es)) lp)"
  by (metis prune_loop_simps prod.collapse)

subsection \<open>The log invariant\<close>

text \<open>
  One session's log: sequence numbers strictly increase and stay at or below the head; an event
  that is not a fold sits above everything discarded.
\<close>

definition session_log_wf :: "SessionID \<Rightarrow> Seq \<Rightarrow> Event list \<Rightarrow> bool" where
  "session_log_wf sid pruned es \<longleftrightarrow>
     sorted_wrt (<) (map ev_Seq es) \<and>
     (\<forall>e \<in> set es. ev_SessionID e = sid \<and> 0 < ev_Seq e \<and> ev_Seq e \<le> pruned + length es \<and>
        (ev_Kind e \<noteq> EventConversationCompacted \<longrightarrow> pruned < ev_Seq e))"

text \<open>The whole log: every position was handed out once, in the order of appending.\<close>

definition positions_ok :: "Seq \<Rightarrow> Event list \<Rightarrow> bool" where
  "positions_ok logSeq es \<longleftrightarrow>
     sorted_wrt (<) (map ev_GlobalSeq es) \<and> (\<forall>e \<in> set es. ev_GlobalSeq e \<le> logSeq)"

definition positions_disjoint :: "Store \<Rightarrow> bool" where
  "positions_disjoint s \<longleftrightarrow>
     (\<forall>a b d e. d \<in> set (gm_list (st_events s) a) \<longrightarrow> e \<in> set (gm_list (st_events s) b) \<longrightarrow>
        ev_GlobalSeq d = ev_GlobalSeq e \<longrightarrow> a = b)"

definition log_wf :: "Store \<Rightarrow> bool" where
  "log_wf s \<longleftrightarrow> gm_wf (st_events s) \<and>
     (\<forall>sid. session_log_wf sid (gm_seq (st_pruned s) sid) (gm_list (st_events s) sid)) \<and>
     (\<forall>sid. positions_ok (st_logSeq s) (gm_list (st_events s) sid)) \<and>
     positions_disjoint s \<and> st_logPruned s \<le> st_logSeq s"

lemma log_wf_new: "log_wf new_store"
  by (simp add: log_wf_def new_store_def session_log_wf_def positions_ok_def positions_disjoint_def)

lemma log_wf_session: "log_wf s \<Longrightarrow> session_log_wf sid (gm_seq (st_pruned s) sid) (gm_list (st_events s) sid)"
  by (simp add: log_wf_def)

lemma session_log_wf_append:
  "session_log_wf sid p es \<Longrightarrow> ev_SessionID e = sid \<Longrightarrow> ev_Seq e = p + length es + 1 \<Longrightarrow>
     session_log_wf sid p (es @ [e])"
  by (auto simp: session_log_wf_def sorted_wrt_append le_imp_less_Suc)

lemma append_event_fields:
  assumes "append_event ctx e s = Inr (t, q)"
  shows "q = log_head_of (ev_SessionID e) s + 1" and "ctx = None"
    and "t = s\<lparr>st_logSeq := st_logSeq s + 1, st_events := gm_set (st_events s) (ev_SessionID e)
               (gm_list (st_events s) (ev_SessionID e) @
                [e\<lparr>ev_Seq := q, ev_GlobalSeq := st_logSeq s + 1\<rparr>])\<rparr>"
    and "gm_get (st_sessions s) (ev_SessionID e) \<noteq> None"
  using assms by (auto simp: append_event_def log_head_of_def Let_def split: option.splits)

lemma positions_ok_append:
  "positions_ok n es \<Longrightarrow> ev_GlobalSeq e = n + 1 \<Longrightarrow> positions_ok (n + 1) (es @ [e])"
  by (auto simp: positions_ok_def sorted_wrt_append le_imp_less_Suc le_SucI)

lemma positions_ok_mono: "positions_ok n es \<Longrightarrow> n \<le> m \<Longrightarrow> positions_ok m es"
  by (auto simp: positions_ok_def)

lemma positions_disjoint_append:
  assumes old: "positions_disjoint s" and ok: "\<And>sid. positions_ok n (gm_list (st_events s) sid)"
    and e: "ev_GlobalSeq e = n + 1"
    and t: "st_events t = gm_set (st_events s) x (gm_list (st_events s) x @ [e])"
  shows "positions_disjoint t"
proof -
  have new: "ev_GlobalSeq d \<noteq> ev_GlobalSeq e" if "d \<in> set (gm_list (st_events s) y)" for d y
    using ok [of y] that e by (auto simp: positions_ok_def)
  have "a = b" if "d \<in> set (gm_list (st_events t) a)" "d' \<in> set (gm_list (st_events t) b)"
    "ev_GlobalSeq d = ev_GlobalSeq d'" for a b d d'
  proof -
    have "d \<in> set (gm_list (st_events s) a) \<or> d = e \<and> a = x"
      "d' \<in> set (gm_list (st_events s) b) \<or> d' = e \<and> b = x"
      using that by (auto simp: t split: if_splits)
    then show ?thesis
      using old new that(3) unfolding positions_disjoint_def by metis
  qed
  then show ?thesis unfolding positions_disjoint_def by blast
qed

lemma append_event_log_wf:
  assumes wf: "log_wf s" and app: "append_event ctx e s = Inr (t, q)"
  shows "log_wf t"
proof -
  let ?sid = "ev_SessionID e"
  let ?e = "e\<lparr>ev_Seq := q, ev_GlobalSeq := st_logSeq s + 1\<rparr>"
  note f = append_event_fields [OF app]
  have one: "session_log_wf ?sid (gm_seq (st_pruned s) ?sid) (gm_list (st_events s) ?sid @ [?e])"
    using log_wf_session [OF wf, of ?sid] f(1) by (intro session_log_wf_append) (auto simp: log_head_of_def)
  have ok: "\<And>sid. positions_ok (st_logSeq s) (gm_list (st_events s) sid)"
    using wf by (simp add: log_wf_def)
  have two: "positions_ok (st_logSeq s + 1) (gm_list (st_events s) ?sid @ [?e])"
    using ok by (rule positions_ok_append) simp
  have ev: "st_events t = gm_set (st_events s) ?sid (gm_list (st_events s) ?sid @ [?e])"
    and pr: "st_pruned t = st_pruned s" and lp: "st_logPruned t = st_logPruned s"
    and ls: "st_logSeq t = st_logSeq s + 1"
    unfolding f(3) by simp_all
  have old: "gm_wf (st_events s)" "st_logPruned s \<le> st_logSeq s" "positions_disjoint s"
    using wf by (simp_all add: log_wf_def)
  have three: "positions_disjoint t"
    by (rule positions_disjoint_append [OF old(3) ok _ ev]) simp
  show ?thesis
    unfolding log_wf_def
  proof (intro conjI allI)
    fix sid
    show "session_log_wf sid (gm_seq (st_pruned t) sid) (gm_list (st_events t) sid)"
      using one log_wf_session [OF wf, of sid] by (cases "sid = ?sid") (simp_all add: ev pr)
    show "positions_ok (st_logSeq t) (gm_list (st_events t) sid)"
      using two positions_ok_mono [OF ok, of "st_logSeq s + 1" sid] by (simp add: ev ls)
  qed (use old three in \<open>simp_all add: ev lp ls\<close>)
qed

lemma length_filter_split: "length (filter P xs) + length (filter (\<lambda>x. \<not> P x) xs) = length xs"
  by (induction xs) auto

text \<open>
  Pruning never lowers the head: what is removed from a strictly increasing list lies between
  the old and the new cut, so the cut rises by at least as much as the list shrinks.
\<close>

lemma removed_le:
  assumes "session_log_wf sid p es"
  shows "length (filter (prunable through) es) \<le> through - p"
proof -
  have dist: "distinct (map ev_Seq (filter (prunable through) es))"
    using assms by (auto simp: session_log_wf_def strict_sorted_iff distinct_map_filter)
  have "set (map ev_Seq (filter (prunable through) es)) \<subseteq> {p <.. through}"
    using assms by (auto simp: session_log_wf_def prunable_def)
  then have "card (set (map ev_Seq (filter (prunable through) es))) \<le> card {p <.. through}"
    by (intro card_mono) auto
  with dist show ?thesis by (simp only: distinct_card card_greaterThanAtMost length_map)
qed

lemma removed_pos: "session_log_wf sid p es \<Longrightarrow> filter (prunable through) es \<noteq> [] \<Longrightarrow> p < through"
  using removed_le [of sid p es through] by (cases "p < through") auto

lemma prune_session_log_wf:
  assumes wf: "session_log_wf sid p es" and p': "p' = (if filter (prunable through) es \<noteq> [] \<and> p < through then through else p)"
  shows "session_log_wf sid p' (filter (\<lambda>e. \<not> prunable through e) es)"
    and "p + length es \<le> p' + length (filter (\<lambda>e. \<not> prunable through e) es)"
proof -
  let ?r = "length (filter (prunable through) es)" and ?k = "filter (\<lambda>e. \<not> prunable through e) es"
  have split: "?r + length ?k = length es" by (rule length_filter_split)
  show head: "p + length es \<le> p' + length ?k"
  proof (cases "filter (prunable through) es = []")
    case False
    then have "p < through" and "?r \<le> through - p"
      using removed_pos [OF wf] removed_le [OF wf] by auto
    with False split p' show ?thesis by simp
  qed (use split p' in simp)
  have "sorted_wrt (<) (map ev_Seq ?k)"
    using wf by (simp add: session_log_wf_def sorted_wrt_map sorted_wrt_filter)
  moreover have "ev_Seq e \<le> p' + length ?k" if "e \<in> set ?k" for e
    using wf that head by (fastforce simp: session_log_wf_def)
  moreover have "p' < ev_Seq e" if "e \<in> set ?k" "ev_Kind e \<noteq> EventConversationCompacted" for e
    using wf that p' by (auto simp: session_log_wf_def prunable_def split: if_splits)
  ultimately show "session_log_wf sid p' ?k"
    using wf by (auto simp: session_log_wf_def)
qed

lemma prune_events_fields:
  assumes "prune_events ctx sid through s = Inr (t, n)" and "through \<noteq> 0"
  shows "st_events t = gm_set (st_events s) sid (filter (\<lambda>e. \<not> prunable through e) (gm_list (st_events s) sid))"
    and "n = length (filter (prunable through) (gm_list (st_events s) sid))"
    and "gm_seq (st_pruned t) x = (if x = sid \<and> filter (prunable through) (gm_list (st_events s) sid) \<noteq> []
           \<and> gm_seq (st_pruned s) sid < through then through else gm_seq (st_pruned s) x)"
    and "st_logSeq t = st_logSeq s" and "st_sessions t = st_sessions s"
    and "st_logPruned t = fold max (map ev_GlobalSeq (filter (prunable through) (gm_list (st_events s) sid))) (st_logPruned s)"
  using assms by (auto simp: prune_events_def prune_loop_eq Let_def split: if_splits)

lemma prune_events_log_wf:
  assumes wf: "log_wf s" and pr: "prune_events ctx sid through s = Inr (t, n)"
  shows "log_wf t"
proof (cases "through = 0")
  case True
  with pr wf show ?thesis by (auto simp: prune_events_def)
next
  case False
  note f = prune_events_fields [OF pr False]
  have sub: "set (gm_list (st_events t) x) \<subseteq> set (gm_list (st_events s) x)" for x
    by (auto simp: f(1))
  have ok: "positions_ok (st_logSeq s) (gm_list (st_events s) x)" for x
    using wf by (simp add: log_wf_def)
  have dj: "positions_disjoint s" using wf by (simp add: log_wf_def)
  have "positions_ok (st_logSeq t) (gm_list (st_events t) x)" for x
    using ok [of x] by (auto simp: f(1,4) positions_ok_def sorted_wrt_map sorted_wrt_filter)
  moreover have "positions_disjoint t"
    using dj sub unfolding positions_disjoint_def by blast
  moreover have "session_log_wf x (gm_seq (st_pruned t) x) (gm_list (st_events t) x)" for x
    using prune_session_log_wf(1) [OF log_wf_session [OF wf, of sid] refl, of through] log_wf_session [OF wf, of x]
    by (auto simp: f(1,3))
  moreover have "st_logPruned t \<le> st_logSeq t"
    using wf ok [of sid] by (auto simp: f(4,6) fold_max_bound positions_ok_def log_wf_def)
  moreover have "gm_wf (st_events t)" using wf by (simp add: f(1) log_wf_def)
  ultimately show ?thesis unfolding log_wf_def by blast
qed

lemma prune_events_head:
  assumes wf: "log_wf s" and pr: "prune_events ctx sid through s = Inr (t, n)"
  shows "log_head_of x s \<le> log_head_of x t"
proof (cases "through = 0")
  case True
  with pr show ?thesis by (auto simp: prune_events_def)
next
  case False
  note f = prune_events_fields [OF pr False]
  show ?thesis
    using prune_session_log_wf(2) [OF log_wf_session [OF wf, of sid] refl, of through]
    by (auto simp: f(1,3) log_head_of_def)
qed

lemma append_event_head:
  assumes "append_event ctx e s = Inr (t, q)"
  shows "log_head_of x t = (if x = ev_SessionID e then q else log_head_of x s)"
  using append_event_fields(1,3) [OF assms] by (auto simp: log_head_of_def)

subsection \<open>Numbering over a whole history\<close>

text \<open>
  A history of appends and prunes, with the number each append handed out. An operation that
  fails leaves the store as it was.
\<close>

datatype log_op = LogAppend Event | LogPrune SessionID Seq

fun run_log :: "log_op list \<Rightarrow> Store \<Rightarrow> Store \<times> (SessionID \<times> Seq) list" where
  "run_log [] s = (s, [])"
| "run_log (LogAppend e # ops) s =
     (case append_event None e s of
        Inl _ \<Rightarrow> run_log ops s
      | Inr (t, q) \<Rightarrow> (let (u, issued) = run_log ops t in (u, (ev_SessionID e, q) # issued)))"
| "run_log (LogPrune sid through # ops) s =
     (case prune_events None sid through s of
        Inl _ \<Rightarrow> run_log ops s
      | Inr (t, _) \<Rightarrow> run_log ops t)"

lemma run_log_wf: "log_wf s \<Longrightarrow> log_wf (fst (run_log ops s))"
  by (induction ops s rule: run_log.induct)
     (auto simp: split_beta Let_def dest: append_event_log_wf prune_events_log_wf split: sum.splits prod.splits)

text \<open>C24. However appends and prunes of any sessions are interleaved, the sequence numbers one
  session hands out strictly increase and start above the head: a number is never used for two
  events, not even when the first of them has been discarded.\<close>

theorem log_numbers_never_reused:
  assumes "log_wf s"
  shows "sorted_wrt (<) (log_head_of sid s # map snd (filter (\<lambda>p. fst p = sid) (snd (run_log ops s))))"
  using assms
proof (induction ops s rule: run_log.induct)
  case (2 e ops s)
  show ?case
  proof (cases "append_event None e s")
    case (Inr tq)
    obtain t q where tq: "tq = (t, q)" by (cases tq)
    note app = Inr [unfolded tq]
    have "sorted_wrt (<) (log_head_of sid t # map snd (filter (\<lambda>p. fst p = sid) (snd (run_log ops t))))"
      using "2.IH"(2) [OF Inr tq [symmetric]] append_event_log_wf [OF "2.prems" app] by simp
    then show ?thesis
      using append_event_head [OF app, of sid] append_event_fields(1) [OF app] app
      by (auto simp: split_beta Let_def)
  qed (use 2 in auto)
next
  case (3 x through ops s)
  show ?case
  proof (cases "prune_events None x through s")
    case (Inr tn)
    obtain t n where tn: "tn = (t, n)" by (cases tn)
    note pr = Inr [unfolded tn]
    have "sorted_wrt (<) (log_head_of sid t # map snd (filter (\<lambda>p. fst p = sid) (snd (run_log ops t))))"
      using "3.IH"(2) [OF Inr tn [symmetric]] prune_events_log_wf [OF "3.prems" pr] by simp
    then show ?thesis
      using prune_events_head [OF "3.prems" pr, of sid] pr by (auto dest: le_less_trans)
  qed (use 3 in auto)
qed simp

subsection \<open>Reading back\<close>

lemma seqs_dense:
  assumes "session_log_wf sid 0 es"
  shows "map ev_Seq es = [1..<length es + 1]"
proof (rule sorted_distinct_set_unique)
  have "set (map ev_Seq es) \<subseteq> {1..<length es + 1}"
    using assms by (auto simp: session_log_wf_def)
  moreover have d: "sorted (map ev_Seq es)" "distinct (map ev_Seq es)"
    using assms by (auto simp: session_log_wf_def strict_sorted_iff)
  moreover have "card (set (map ev_Seq es)) = card {1..<length es + 1}"
    using distinct_card [OF d(2)] by simp
  ultimately show "set (map ev_Seq es) = set [1..<length es + 1]"
    by (metis card_subset_eq finite_atLeastLessThan set_upt)
  show "sorted (map ev_Seq es)" "distinct (map ev_Seq es)" by (rule d)+
qed (simp_all del: upt_Suc)

lemma filter_above_drop:
  assumes "map f es = [m..<m + length es]"
  shows "filter (\<lambda>e. m + n \<le> f e) es = drop n es"
  using assms
proof (induction es arbitrary: m n)
  case (Cons e es)
  then have e: "f e = m" and rest: "map f es = [Suc m..<Suc m + length es]"
    by (auto simp: upt_conv_Cons simp del: upt_Suc)
  show ?case
  proof (cases n)
    case 0
    have "\<forall>d \<in> set es. m \<le> f d"
    proof
      fix d assume "d \<in> set es"
      then have "f d \<in> set (map f es)" by simp
      then show "m \<le> f d" unfolding rest by (simp del: upt_Suc)
    qed
    with 0 e show ?thesis by (simp add: filter_id_conv)
  next
    case (Suc k)
    with Cons.IH [OF rest, of k] e show ?thesis by simp
  qed
qed simp

text \<open>While nothing has been discarded from a session, reading after a position returns
  exactly the events numbered above it, oldest first, up to the limit.\<close>

theorem list_after_unpruned:
  assumes wf: "log_wf s" and sess: "gm_get (st_sessions s) sid \<noteq> None"
    and p: "gm_seq (st_pruned s) sid = 0" and small: "after < 2 ^ 63"
  shows "list_after None sid after limit s =
    Inr (limit_to limit (filter (\<lambda>e. after < ev_Seq e) (gm_list (st_events s) sid)))"
proof -
  let ?es = "gm_list (st_events s) sid"
  have "map ev_Seq ?es = [1..<1 + length ?es]"
    using seqs_dense [of sid ?es] log_wf_session [OF wf, of sid] p by simp
  then have f: "filter (\<lambda>e. after < ev_Seq e) ?es = drop after ?es"
    using filter_above_drop [of ev_Seq ?es 1 after] by (simp add: Suc_le_eq)
  show ?thesis
    using sess small unfolding f
    by (auto simp: list_after_def int_of_uint64_def limit_to_def Let_def)
qed

text \<open>A store with two sessions and a history of appends and prunes.\<close>

definition sample_log :: "log_op list \<Rightarrow> Store" where
  "sample_log ops = fst (run_log ops
     (new_store\<lparr>st_sessions := [(''a'', sample_session ''a'' 1), (''b'', sample_session ''b'' 1)]\<rparr>))"

lemma sample_log_wf: "log_wf (sample_log ops)"
  unfolding sample_log_def by (rule run_log_wf) (use log_wf_new in \<open>simp add: log_wf_def positions_disjoint_def\<close>)

definition four_notes :: "log_op list" where
  "four_notes = [LogAppend (sample_note ''a''), LogAppend (sample_note ''a''),
     LogAppend (sample_note ''a''), LogAppend (sample_note ''a'')]"

lemmas log_eval = sample_log_def four_notes_def new_store_def sample_defs append_event_def
  prune_events_def prune_loop_eq prunable_def gm_get_def gm_set_def gm_list_def gm_seq_def Let_def

lemma log_numbers_never_reused_witness:
  "sorted_wrt (<) (log_head_of ''a'' (sample_log four_notes) #
     map snd (filter (\<lambda>p. fst p = ''a'') (snd (run_log [LogPrune ''a'' 4, LogAppend (sample_note ''a'')]
       (sample_log four_notes)))))"
  by (rule log_numbers_never_reused [OF sample_log_wf])

lemma list_after_unpruned_witness:
  "map ev_Seq (projr (list_after None ''a'' 1 2 (sample_log four_notes))) = [2, 3]"
proof -
  have "gm_get (st_sessions (sample_log four_notes)) ''a'' \<noteq> None"
    and "gm_seq (st_pruned (sample_log four_notes)) ''a'' = 0"
    by (simp_all add: log_eval)
  from list_after_unpruned [OF sample_log_wf this, of 1 2] show ?thesis
    by (simp add: log_eval limit_to_def)
qed

text \<open>Once something has been discarded, reading after a position does not return the kept
  events above it: the slice is indexed as though numbers still started at 1. After pruning
  the first two of four events, reading after 2 returns nothing although 3 and 4 are kept.\<close>

theorem list_after_loses_kept_events:
  "\<exists>s. log_wf s \<and> map ev_Seq (gm_list (st_events s) ''a'') = [3, 4] \<and>
     list_after None ''a'' 2 0 s = Inr []"
proof (intro exI conjI)
  let ?s = "sample_log (four_notes @ [LogPrune ''a'' 2])"
  show "log_wf ?s" by (rule sample_log_wf)
  show "map ev_Seq (gm_list (st_events ?s) ''a'') = [3, 4]" by (simp add: log_eval)
  show "list_after None ''a'' 2 0 ?s = Inr []"
    by (simp add: log_eval list_after_def int_of_uint64_def)
qed

text \<open>A position of \<open>2 ^ 63\<close> or more passes the guard as a negative number and panics.\<close>

lemma list_after_panics:
  assumes "gm_get (st_sessions s) sid \<noteq> None" and "2 ^ 63 \<le> after" and "after < 2 ^ 64"
    and "length (gm_list (st_events s) sid) < 2 ^ 63"
  shows "list_after None sid after limit s = Inl PanicSliceBounds"
  using assms by (auto simp: list_after_def int_of_uint64_def Let_def)

text \<open>The head is an upper bound of the numbers kept, but not always one of them: pruning past
  a kept fold leaves the head above the highest number stored, and the next append skips it.\<close>

theorem head_can_pass_the_last_event:
  "\<exists>s. log_wf s \<and> map ev_Seq (gm_list (st_events s) ''a'') = [2, 3] \<and>
     head_seq_of None ''a'' s = Inr 4 \<and>
     map_sum id snd (append_event None (sample_note ''a'') s) = Inr 5"
proof (intro exI conjI)
  let ?s = "sample_log [LogAppend (sample_note ''a''), LogAppend (sample_fold ''a'' 1 1),
    LogAppend (sample_note ''a''), LogPrune ''a'' 2]"
  show "log_wf ?s" by (rule sample_log_wf)
qed (simp_all add: log_eval head_seq_of_def log_head_of_def)

subsection \<open>The whole log\<close>

lemma sort_global_sorted:
  assumes "log_wf s"
  shows "sorted_wrt (<) (map ev_GlobalSeq (sort_slice global_less (filter P (concat (gm_vals (st_events s))))))"
proof -
  let ?all = "concat (gm_vals (st_events s))"
  have wf: "gm_wf (st_events s)" and dj: "positions_disjoint s"
    and ok: "\<And>sid. positions_ok (st_logSeq s) (gm_list (st_events s) sid)"
    using assms by (simp_all add: log_wf_def)
  have gen: "distinct (map ev_GlobalSeq (concat (map snd m)))"
    if "gm_wf m" "\<forall>k es. (k, es) \<in> set m \<longrightarrow> gm_list (st_events s) k = es" for m
    using that
  proof (induction m)
    case (Cons kes m)
    obtain k es where kes: "kes = (k, es)" by (cases kes)
    have es: "gm_list (st_events s) k = es" using Cons.prems(2) kes by simp
    have "distinct (map ev_GlobalSeq es)"
      using ok [of k] es by (simp add: positions_ok_def strict_sorted_iff)
    moreover have "ev_GlobalSeq ` set es \<inter> ev_GlobalSeq ` set (concat (map snd m)) = {}"
    proof (rule ccontr)
      assume "ev_GlobalSeq ` set es \<inter> ev_GlobalSeq ` set (concat (map snd m)) \<noteq> {}"
      then obtain d e j fs where de: "d \<in> set es" "e \<in> set fs" "(j, fs) \<in> set m"
        "ev_GlobalSeq d = ev_GlobalSeq e" by auto
      then have "gm_list (st_events s) j = fs" using Cons.prems(2) by simp
      then have "k = j" using dj de es unfolding positions_disjoint_def by blast
      then show False using Cons.prems(1) de(3) kes by (force simp: gm_wf_def)
    qed
    ultimately show ?case using Cons kes by (auto simp: gm_wf_def)
  qed simp
  have "\<forall>k es. (k, es) \<in> set (st_events s) \<longrightarrow> gm_list (st_events s) k = es"
    using wf by (auto simp: gm_list_def dest: gm_mem_get)
  then have "distinct (map ev_GlobalSeq ?all)"
    using gen [OF wf] by (simp add: gm_vals_def)
  then have "distinct (map ev_GlobalSeq (sort_slice global_less (filter P ?all)))"
    by (metis distinct_map_filter mset_eq_imp_distinct_iff mset_map mset_sort_slice)
  moreover have "sorted (map ev_GlobalSeq (sort_slice global_less (filter P ?all)))"
    using global_order.sorted_sort_slice [of "filter P ?all"]
    by (simp add: sorted_map global_less_def not_less)
  ultimately show ?thesis by (simp add: strict_sorted_iff)
qed

lemma sorted_wrt_total:
  "d \<in> set xs \<Longrightarrow> e \<in> set xs \<Longrightarrow> sorted_wrt lt xs \<Longrightarrow> d \<noteq> e \<Longrightarrow> lt d e \<or> lt e d"
  by (induction xs) auto

lemma sort_filter_global:
  assumes wf: "log_wf s"
  shows "sort_slice global_less (filter (\<lambda>e. b < ev_GlobalSeq e) (filter P (concat (gm_vals (st_events s))))) =
    filter (\<lambda>e. b < ev_GlobalSeq e) (sort_slice global_less (filter P (concat (gm_vals (st_events s)))))"
proof -
  let ?xs = "filter P (concat (gm_vals (st_events s)))"
  have strict: "sorted_wrt global_less (sort_slice global_less ?xs)"
    using sort_global_sorted [OF wf, of P] unfolding sorted_wrt_map
    by (rule sorted_wrt_mono_rel [rotated]) (simp add: global_less_def)
  show ?thesis
  proof (rule global_order.sorted_unique)
    show "sorted_wrt (\<lambda>a b. \<not> global_less b a) (sort_slice global_less (filter (\<lambda>e. b < ev_GlobalSeq e) ?xs))"
      by (rule global_order.sorted_sort_slice)
    show "sorted_wrt (\<lambda>a b. \<not> global_less b a) (filter (\<lambda>e. b < ev_GlobalSeq e) (sort_slice global_less ?xs))"
      using global_order.sorted_sort_slice by (rule sorted_wrt_filter)
    show "global_less d e \<or> global_less e d"
      if "d \<in> set (sort_slice global_less (filter (\<lambda>e. b < ev_GlobalSeq e) ?xs))"
        "e \<in> set (sort_slice global_less (filter (\<lambda>e. b < ev_GlobalSeq e) ?xs))" "d \<noteq> e" for d e
    proof -
      have "d \<in> set (sort_slice global_less ?xs)" "e \<in> set (sort_slice global_less ?xs)"
        using that by auto
      then show ?thesis
        using strict that(3) by (rule sorted_wrt_total)
    qed
  qed (simp add: filter_filter_mset conj_commute)
qed

lemma strict_filter_after_take:
  assumes "sorted_wrt (<) (map f xs)" and "0 < k" and "k \<le> length xs"
  shows "filter (\<lambda>e. f (last (take k xs)) < (f e :: nat)) xs = drop k xs"
proof -
  have last: "last (take k xs) = xs ! (k - 1)"
    using assms(2,3) by (subst last_conv_nth) (auto simp: min_def)
  have lt: "i < j \<Longrightarrow> j < length xs \<Longrightarrow> f (xs ! i) < f (xs ! j)" for i j
    using assms(1) by (simp add: sorted_wrt_iff_nth_less)
  have "filter (\<lambda>e. f (xs ! (k - 1)) < f e) (take k xs) = []"
  proof (rule filter_False, rule ballI)
    fix e assume "e \<in> set (take k xs)"
    then obtain i where i: "i < k" "i < length xs" "e = xs ! i" by (auto simp: in_set_conv_nth)
    then have "i = k - 1 \<or> i < k - 1" and "k - 1 < length xs" using assms(2,3) by linarith+
    then show "\<not> f (xs ! (k - 1)) < f e"
      using lt [of i "k - 1"] i(3) by auto
  qed
  moreover have "filter (\<lambda>e. f (xs ! (k - 1)) < f e) (drop k xs) = drop k xs"
  proof (rule filter_True, rule ballI)
    fix e assume "e \<in> set (drop k xs)"
    then obtain i where "i < length xs - k" "e = xs ! (k + i)" by (auto simp: in_set_conv_nth)
    then show "f (xs ! (k - 1)) < f e" using lt [of "k - 1" "k + i"] assms(2) by simp
  qed
  ultimately show ?thesis
    unfolding last by (metis append_Nil append_take_drop_id filter_append)
qed

text \<open>Watching every session in pages loses and repeats nothing: a page read with a limit,
  followed by everything after the position of the page's last event, is the whole of what
  lies after the starting position, in the order it was appended.\<close>

theorem list_all_after_pages:
  assumes wf: "log_wf s" and limit: "limit > 0"
    and all: "list_all_after None after 0 s = Inr es" and page: "list_all_after None after limit s = Inr ps"
    and some: "ps \<noteq> []"
  shows "\<exists>rest. list_all_after None (ev_GlobalSeq (last ps)) 0 s = Inr rest \<and> ps @ rest = es \<and>
    sorted_wrt (<) (map ev_GlobalSeq es)"
proof -
  let ?all = "concat (gm_vals (st_events s))"
  have es: "es = sort_slice global_less (filter (\<lambda>e. ev_GlobalSeq e > after) ?all)"
    using all by (simp add: list_all_after_def)
  have strict: "sorted_wrt (<) (map ev_GlobalSeq es)"
    unfolding es by (rule sort_global_sorted [OF wf])
  define k where "k = min (nat limit) (length es)"
  have ps: "ps = take k es"
    using page limit by (auto simp: list_all_after_def es limit_to_def k_def min_def)
  have k: "0 < k" "k \<le> length es" using some ps by (auto simp: k_def)
  have "last ps \<in> set es" using some ps by (metis in_set_takeD last_in_set)
  then have above: "after < ev_GlobalSeq (last ps)" by (simp add: es)
  have "filter (\<lambda>e. ev_GlobalSeq e > ev_GlobalSeq (last ps)) ?all =
    filter (\<lambda>e. ev_GlobalSeq (last ps) < ev_GlobalSeq e) (filter (\<lambda>e. ev_GlobalSeq e > after) ?all)"
    using above by (auto intro!: filter_cong)
  then have "sort_slice global_less (filter (\<lambda>e. ev_GlobalSeq e > ev_GlobalSeq (last ps)) ?all) =
    filter (\<lambda>e. ev_GlobalSeq (last ps) < ev_GlobalSeq e) es"
    unfolding es by (simp only: sort_filter_global [OF wf])
  also have "\<dots> = drop k es"
    unfolding ps by (rule strict_filter_after_take [OF strict k])
  finally show ?thesis
    using ps strict by (simp add: list_all_after_def)
qed

lemma list_all_after_pages_witness:
  "\<exists>rest. list_all_after None 2 0 (sample_log (four_notes @ [LogAppend (sample_note ''b'')])) = Inr rest \<and>
     map ev_GlobalSeq (projr (list_all_after None 0 2
       (sample_log (four_notes @ [LogAppend (sample_note ''b'')]))) @ rest) = [1, 2, 3, 4, 5]"
proof -
  let ?s = "sample_log (four_notes @ [LogAppend (sample_note ''b'')])"
  obtain es ps where es: "list_all_after None 0 0 ?s = Inr es" and ps: "list_all_after None 0 2 ?s = Inr ps"
    by (simp add: list_all_after_def)
  have ev: "map ev_GlobalSeq es = [1, 2, 3, 4, 5]" "map ev_GlobalSeq ps = [1, 2]"
    using es ps by (auto simp: list_all_after_def log_eval gm_vals_def limit_to_def global_less_def)
  then have "ps \<noteq> []" "ev_GlobalSeq (last ps) = 2" by (auto simp: last_map [symmetric])
  then show ?thesis
    using list_all_after_pages [OF sample_log_wf _ es ps] ev ps by auto
qed

end
