(* ===== verification/MemPrompts.thy ===== *)
theory MemPrompts
imports MemSessions
begin

text \<open>
  Approvals and questions of the in-memory store
  (\<open>core/internal/storage/memory/memory.go\<close>). Both keep one promise to the runtime: one prompt
  for each tool call, settled once. The promise is the locale \<open>prompt_store\<close>, proved here for
  both and used by the properties below.
\<close>

subsection \<open>Approvals\<close>

definition create_approval :: "Ctx \<Rightarrow> Approval \<Rightarrow> Store \<Rightarrow> StoreError + Store" where
  "create_approval ctx approval s = guard_ctx ctx
     (if \<exists>existing \<in> set (gm_vals (st_approvals s)).
           ap_RunID existing = ap_RunID approval \<and> ap_ToolCallID existing = ap_ToolCallID approval
      then Inl ErrApprovalDecided
      else Inr (s\<lparr>st_approvals := gm_set (st_approvals s) (ap_ID approval) approval\<rparr>))"

definition get_approval :: "Ctx \<Rightarrow> ApprovalID \<Rightarrow> Store \<Rightarrow> StoreError + Approval" where
  "get_approval ctx aid s = guard_ctx ctx
     (case gm_get (st_approvals s) aid of
        None \<Rightarrow> Inl ErrApprovalNotFound
      | Some approval \<Rightarrow> Inr approval)"

definition decide_approval ::
    "Ctx \<Rightarrow> ApprovalID \<Rightarrow> ApprovalStatus \<Rightarrow> RememberScope \<Rightarrow> RunOrigin \<Rightarrow> instant \<Rightarrow> Store
      \<Rightarrow> StoreError + (Approval \<times> Store)" where
  "decide_approval ctx aid status scope decidedBy at s = guard_ctx ctx
     (case gm_get (st_approvals s) aid of
        None \<Rightarrow> Inl ErrApprovalNotFound
      | Some approval \<Rightarrow>
          if \<not> approval_is_pending approval then Inl ErrApprovalDecided
          else
            let approval = approval\<lparr>ap_Status := status, ap_Scope := scope,
                  ap_DecidedBy := decidedBy, ap_DecidedAt := Some at\<rparr>
            in Inr (approval, s\<lparr>st_approvals := gm_set (st_approvals s) aid approval\<rparr>))"

definition approval_less :: "Approval \<Rightarrow> Approval \<Rightarrow> bool" where
  "approval_less a b =
     (if ap_CreatedAt a \<noteq> ap_CreatedAt b then ap_CreatedAt a < ap_CreatedAt b
      else ap_ID a < ap_ID b)"

definition pending_approvals :: "Ctx \<Rightarrow> SessionID \<Rightarrow> Store \<Rightarrow> StoreError + Approval list" where
  "pending_approvals ctx session s = guard_ctx ctx
     (Inr (sort_slice approval_less
        (filter (\<lambda>approval. ap_SessionID approval = session \<and> approval_is_pending approval)
          (gm_vals (st_approvals s)))))"

definition approval_for_call :: "Ctx \<Rightarrow> RunID \<Rightarrow> ToolCallID \<Rightarrow> Store \<Rightarrow> StoreError + Approval" where
  "approval_for_call ctx run call s = guard_ctx ctx
     (case find (\<lambda>approval. ap_RunID approval = run \<and> ap_ToolCallID approval = call)
          (gm_vals (st_approvals s)) of
        None \<Rightarrow> Inl ErrApprovalNotFound
      | Some approval \<Rightarrow> Inr approval)"

subsection \<open>Questions\<close>

definition create_question :: "Ctx \<Rightarrow> Question \<Rightarrow> Store \<Rightarrow> StoreError + Store" where
  "create_question ctx question s = guard_ctx ctx
     (if \<exists>existing \<in> set (gm_vals (st_questions s)).
           qu_RunID existing = qu_RunID question \<and> qu_ToolCallID existing = qu_ToolCallID question
      then Inl ErrQuestionAnswered
      else Inr (s\<lparr>st_questions := gm_set (st_questions s) (qu_ID question) question\<rparr>))"

definition get_question :: "Ctx \<Rightarrow> QuestionID \<Rightarrow> Store \<Rightarrow> StoreError + Question" where
  "get_question ctx qid s = guard_ctx ctx
     (case gm_get (st_questions s) qid of
        None \<Rightarrow> Inl ErrQuestionNotFound
      | Some question \<Rightarrow> Inr question)"

definition question_for_call :: "Ctx \<Rightarrow> RunID \<Rightarrow> ToolCallID \<Rightarrow> Store \<Rightarrow> StoreError + Question" where
  "question_for_call ctx run call s = guard_ctx ctx
     (case find (\<lambda>question. qu_RunID question = run \<and> qu_ToolCallID question = call)
          (gm_vals (st_questions s)) of
        None \<Rightarrow> Inl ErrQuestionNotFound
      | Some question \<Rightarrow> Inr question)"

definition question_less :: "Question \<Rightarrow> Question \<Rightarrow> bool" where
  "question_less a b =
     (if qu_CreatedAt a = qu_CreatedAt b then qu_ID a < qu_ID b
      else qu_CreatedAt a < qu_CreatedAt b)"

definition pending_questions :: "Ctx \<Rightarrow> SessionID \<Rightarrow> Store \<Rightarrow> StoreError + Question list" where
  "pending_questions ctx session s = guard_ctx ctx
     (Inr (sort_slice question_less
        (filter (\<lambda>question. qu_SessionID question = session \<and> question_is_pending question)
          (gm_vals (st_questions s)))))"

definition store_answer ::
    "Ctx \<Rightarrow> QuestionID \<Rightarrow> QuestionStatus \<Rightarrow> string \<Rightarrow> RunOrigin \<Rightarrow> instant \<Rightarrow> Store
      \<Rightarrow> StoreError + (Question \<times> Store)" where
  "store_answer ctx qid status answer answeredBy at s = guard_ctx ctx
     (case gm_get (st_questions s) qid of
        None \<Rightarrow> Inl ErrQuestionNotFound
      | Some question \<Rightarrow>
          if \<not> question_is_pending question then Inl ErrQuestionAnswered
          else
            let question = question\<lparr>qu_Status := status, qu_Answer := answer,
                  qu_AnsweredBy := answeredBy, qu_AnsweredAt := Some at\<rparr>
            in Inr (question, s\<lparr>st_questions := gm_set (st_questions s) qid question\<rparr>))"

interpretation approval_order: sort_less approval_less
  by unfold_locales (auto simp: approval_less_def split: if_splits)

interpretation question_order: sort_less question_less
  by unfold_locales (auto simp: question_less_def split: if_splits)

subsection \<open>Prompts: raised once for a call, settled once\<close>

text \<open>Callers raise and settle prompts in any order; a call that fails leaves the store as it
  was.\<close>

datatype ('q, 'd) prompt_op = Raise 'q | Settle string 'd

fun run_prompts ::
    "('q \<Rightarrow> 's \<Rightarrow> 'e + 's) \<Rightarrow> (string \<Rightarrow> 'd \<Rightarrow> 's \<Rightarrow> 'e + ('q \<times> 's)) \<Rightarrow> ('q, 'd) prompt_op list \<Rightarrow> 's \<Rightarrow> 's" where
  "run_prompts create settle [] s = s"
| "run_prompts create settle (Raise q # ops) s =
     run_prompts create settle ops (case create q s of Inl _ \<Rightarrow> s | Inr t \<Rightarrow> t)"
| "run_prompts create settle (Settle i d # ops) s =
     run_prompts create settle ops (case settle i d s of Inl _ \<Rightarrow> s | Inr (_, t) \<Rightarrow> t)"

locale prompt_store =
  fixes get :: "'s \<Rightarrow> string \<Rightarrow> 'q option"
    and ident :: "'q \<Rightarrow> string"
    and call_of :: "'q \<Rightarrow> string \<times> string"
    and pending :: "'q \<Rightarrow> bool"
    and create :: "'q \<Rightarrow> 's \<Rightarrow> 'e + 's"
    and settle :: "string \<Rightarrow> 'd \<Rightarrow> 's \<Rightarrow> 'e + ('q \<times> 's)"
    and final :: "'d \<Rightarrow> bool"
    and ok :: "'s \<Rightarrow> bool"
  assumes create_get: "ok s \<Longrightarrow> create q s = Inr t \<Longrightarrow> ok t \<and> get t = (get s)(ident q \<mapsto> q)"
    and create_new: "ok s \<Longrightarrow> create q s = Inr t \<Longrightarrow> get s i = Some p \<Longrightarrow> call_of p \<noteq> call_of q"
    and settle_get: "ok s \<Longrightarrow> settle i d s = Inr (q, t) \<Longrightarrow>
          ok t \<and> (\<exists>p. get s i = Some p \<and> pending p \<and> call_of q = call_of p) \<and> get t = (get s)(i \<mapsto> q)"
    and settle_final: "ok s \<Longrightarrow> settle i d s = Inr (q, t) \<Longrightarrow> final d \<Longrightarrow> \<not> pending q"
begin

definition one_per_call :: "'s \<Rightarrow> bool" where
  "one_per_call s \<longleftrightarrow> (\<forall>i j p q. get s i = Some p \<longrightarrow> get s j = Some q \<longrightarrow> call_of p = call_of q \<longrightarrow> i = j)"

lemma one_per_callD:
  assumes "one_per_call s" "get s i = Some p" "get s j = Some q" "call_of p = call_of q"
  shows "i = j"
  using assms(1) [unfolded one_per_call_def, rule_format, OF assms(2-4)] .

lemma run_prompts_ok: "ok s \<Longrightarrow> ok (run_prompts create settle ops s)"
proof (induction ops arbitrary: s)
  case (Cons x ops)
  then show ?case
    by (cases x) (auto split: sum.split dest: create_get settle_get)
qed simp

lemma create_one_per_call:
  assumes "ok s" "one_per_call s" "create q s = Inr t"
  shows "one_per_call t"
  unfolding one_per_call_def
proof (intro allI impI)
  fix j k a b assume ab: "get t j = Some a" "get t k = Some b" "call_of a = call_of b"
  have fresh: "get s i = Some p \<Longrightarrow> call_of p \<noteq> call_of q" for i p
    using create_new [OF assms(1,3)] .
  have t: "get t = (get s)(ident q \<mapsto> q)" using create_get [OF assms(1,3)] ..
  consider (new) "j = ident q" "a = q" | (old) "j \<noteq> ident q" "get s j = Some a"
    using ab(1) by (cases "j = ident q") (simp_all add: t)
  then show "j = k"
  proof cases
    case new
    then show ?thesis using ab(2,3) fresh [of k b]
      by (cases "k = ident q") (simp_all add: t)
  next
    case old
    then have "k \<noteq> ident q" using ab(2,3) fresh [of j a] by (cases "k = ident q") (simp_all add: t)
    then have "get s k = Some b" using ab(2) by (simp add: t)
    then show ?thesis using one_per_callD [OF assms(2) old(2) _ ab(3)] by simp
  qed
qed

lemma settle_one_per_call:
  assumes "ok s" "one_per_call s" "settle i d s = Inr (q, t)"
  shows "one_per_call t"
proof -
  obtain p where p: "get s i = Some p" "call_of q = call_of p" "get t = (get s)(i \<mapsto> q)"
    using settle_get [OF assms(1,3)] by blast
  show ?thesis unfolding one_per_call_def
  proof (intro allI impI)
    fix j k a b assume ab: "get t j = Some a" "get t k = Some b" "call_of a = call_of b"
    then have "\<exists>a'. get s j = Some a' \<and> call_of a' = call_of a" "\<exists>b'. get s k = Some b' \<and> call_of b' = call_of b"
      using p by (auto split: if_splits)
    then show "j = k" using one_per_callD [OF assms(2)] ab(3) by (elim exE conjE) simp
  qed
qed

text \<open>However the prompts come, a call has at most one.\<close>

lemma one_prompt_per_call:
  "ok s \<Longrightarrow> one_per_call s \<Longrightarrow> one_per_call (run_prompts create settle ops s)"
proof (induction ops arbitrary: s)
  case (Cons x ops)
  show ?case
  proof (cases x)
    case (Raise q)
    then show ?thesis using Cons
      by (cases "create q s") (auto dest: create_get create_one_per_call)
  next
    case (Settle i d)
    then show ?thesis using Cons
      by (cases "settle i d s") (auto dest: settle_get settle_one_per_call)
  qed
qed simp

text \<open>A prompt that is no longer pending stays as it is, whatever is settled after it.\<close>

lemma settled_stays:
  "ok s \<Longrightarrow> get s i = Some q \<Longrightarrow> \<not> pending q \<Longrightarrow> \<forall>r. Raise r \<in> set ops \<longrightarrow> ident r \<noteq> i \<Longrightarrow>
   get (run_prompts create settle ops s) i = Some q"
proof (induction ops arbitrary: s)
  case (Cons x ops)
  show ?case
  proof (cases x)
    case (Raise r)
    have ne: "ident r \<noteq> i" using Raise Cons.prems(4) by simp
    show ?thesis
    proof (cases "create r s")
      case (Inl e)
      then show ?thesis using Cons.IH [OF Cons.prems(1-3)] Cons.prems(4) Raise by simp
    next
      case (Inr t)
      then have "ok t" "get t i = Some q" using create_get [OF Cons.prems(1)] ne Cons.prems(2) by auto
      then show ?thesis using Cons.IH [of t] Cons.prems(3,4) Raise Inr by simp
    qed
  next
    case (Settle j d)
    show ?thesis
    proof (cases "settle j d s")
      case (Inl e)
      then show ?thesis using Cons.IH [OF Cons.prems(1-3)] Cons.prems(4) Settle by simp
    next
      case (Inr r)
      obtain p t where r: "r = (p, t)" by (cases r)
      have st: "ok t" "\<exists>p'. get s j = Some p' \<and> pending p'" "get t = (get s)(j \<mapsto> p)"
        using settle_get [OF Cons.prems(1) Inr [unfolded r]] by auto
      then have "j \<noteq> i" using Cons.prems(2,3) by auto
      then have "get t i = Some q" using st(3) Cons.prems(2) by simp
      then show ?thesis using Cons.IH [OF st(1)] Cons.prems(3,4) Settle Inr r by simp
    qed
  qed
qed simp

lemma settled_once:
  assumes "ok s" "settle i d s = Inr (q, t)" "final d" "\<forall>r. Raise r \<in> set ops \<longrightarrow> ident r \<noteq> i"
  shows "get (run_prompts create settle ops t) i = Some q \<and>
         (\<exists>e. settle i d' (run_prompts create settle ops t) = Inl e)"
proof -
  have t: "ok t" "get t i = Some q" using settle_get [OF assms(1,2)] by auto
  have np: "\<not> pending q" using settle_final [OF assms(1-3)] .
  have stays: "get (run_prompts create settle ops t) i = Some q"
    by (rule settled_stays [OF t np assms(4)])
  moreover have "\<exists>e. settle i d' (run_prompts create settle ops t) = Inl e"
  proof (cases "settle i d' (run_prompts create settle ops t)")
    case (Inr r)
    then show ?thesis
      using settle_get [OF run_prompts_ok [OF t(1)], of i d' ops] stays np by (cases r) fastforce
  qed simp
  ultimately show ?thesis by blast
qed

end
subsection \<open>Approvals keep the promise\<close>

type_synonym approval_decision = "ApprovalStatus \<times> RememberScope \<times> RunOrigin \<times> instant"

definition settle_approval :: "string \<Rightarrow> approval_decision \<Rightarrow> Store \<Rightarrow> StoreError + (Approval \<times> Store)" where
  "settle_approval i d s =
     (case d of (status, scope, decidedBy, at) \<Rightarrow> decide_approval None i status scope decidedBy at s)"

definition approvals_after :: "(Approval, approval_decision) prompt_op list \<Rightarrow> Store \<Rightarrow> Store" where
  "approvals_after ops s = run_prompts (create_approval None) settle_approval ops s"

definition approvals_wf :: "Store \<Rightarrow> bool" where
  "approvals_wf s \<longleftrightarrow> gm_keyed ap_ID (st_approvals s)"

interpretation approval_prompts: prompt_store "\<lambda>s. gm_get (st_approvals s)" ap_ID
  "\<lambda>a. (ap_RunID a, ap_ToolCallID a)" approval_is_pending "create_approval None" settle_approval
  "\<lambda>d. fst d \<noteq> ApprovalPending" approvals_wf
proof
  fix q t :: Approval and s u :: Store and i :: string and d :: approval_decision and p :: Approval
  assume ok: "approvals_wf s"
  show "approvals_wf u \<and> gm_get (st_approvals u) = (gm_get (st_approvals s))(ap_ID q \<mapsto> q)"
    if "create_approval None q s = Inr u"
    using that ok by (auto simp: create_approval_def approvals_wf_def fun_eq_iff split: if_splits)
  show "(ap_RunID p, ap_ToolCallID p) \<noteq> (ap_RunID q, ap_ToolCallID q)"
    if "create_approval None q s = Inr u" "gm_get (st_approvals s) i = Some p"
    using that ok gm_vals_iff [of "st_approvals s" p]
    by (auto simp: create_approval_def approvals_wf_def gm_keyed_def split: if_splits)
  show "approvals_wf u \<and> (\<exists>p. gm_get (st_approvals s) i = Some p \<and> approval_is_pending p \<and>
      (ap_RunID q, ap_ToolCallID q) = (ap_RunID p, ap_ToolCallID p)) \<and>
      gm_get (st_approvals u) = (gm_get (st_approvals s))(i \<mapsto> q)"
    if "settle_approval i d s = Inr (q, u)"
    using that ok gm_keyed_get [of ap_ID "st_approvals s" i]
    by (auto simp: settle_approval_def decide_approval_def approvals_wf_def Let_def fun_eq_iff
        split: prod.splits option.splits if_splits)
  show "\<not> approval_is_pending q" if "settle_approval i d s = Inr (q, u)" "fst d \<noteq> ApprovalPending"
    using that by (auto simp: settle_approval_def decide_approval_def Let_def approval_is_pending_def
        split: prod.splits option.splits if_splits)
qed

lemma new_store_approvals: "approvals_wf new_store" "gm_get (st_approvals new_store) i = None"
  by (simp_all add: approvals_wf_def new_store_def)

lemma approvals_after_wf: "approvals_wf s \<Longrightarrow> approvals_wf (approvals_after ops s)"
  unfolding approvals_after_def by (rule approval_prompts.run_prompts_ok)

lemma find_unique:
  assumes "x \<in> set xs" "P x" "\<And>y. y \<in> set xs \<Longrightarrow> P y \<Longrightarrow> y = x"
  shows "find P xs = Some x"
proof (cases "find P xs")
  case None
  then show ?thesis using assms(1,2) by (simp add: find_None_iff)
next
  case (Some y)
  then have "y \<in> set xs" "P y" by (auto simp: find_Some_iff)
  then show ?thesis using assms(3) Some by simp
qed

lemma sorted_wrt_conj_distinct:
  "sorted_wrt R xs \<Longrightarrow> distinct (map f xs) \<Longrightarrow> sorted_wrt (\<lambda>a b. R a b \<and> f a \<noteq> f b) xs"
  by (induction xs) (auto simp: image_iff)

text \<open>The approval raised for a tool call is the one found for it: after any sequence of
  raising and deciding approvals, an approval that is stored under its ID is the answer to
  \<open>ApprovalForCall\<close> of its run and call, so a call never has two.\<close>

theorem approval_found_for_its_call:
  assumes "get_approval None i (approvals_after ops new_store) = Inr a"
  shows "approval_for_call None (ap_RunID a) (ap_ToolCallID a) (approvals_after ops new_store) = Inr a"
proof -
  let ?s = "approvals_after ops new_store"
  have wf: "approvals_wf ?s" by (simp add: approvals_after_wf new_store_approvals)
  have one: "approval_prompts.one_per_call ?s"
    unfolding approvals_after_def
    by (rule approval_prompts.one_prompt_per_call [OF new_store_approvals(1)])
      (simp add: approval_prompts.one_per_call_def new_store_approvals)
  have a: "gm_get (st_approvals ?s) i = Some a"
    using assms by (simp add: get_approval_def split: option.splits)
  have mem: "\<And>b. b \<in> set (gm_vals (st_approvals ?s)) \<longleftrightarrow> (\<exists>j. gm_get (st_approvals ?s) j = Some b)"
    using wf by (simp add: approvals_wf_def gm_keyed_def gm_vals_iff)
  have "find (\<lambda>b. ap_RunID b = ap_RunID a \<and> ap_ToolCallID b = ap_ToolCallID a)
      (gm_vals (st_approvals ?s)) = Some a"
  proof (rule find_unique)
    fix b assume b: "b \<in> set (gm_vals (st_approvals ?s))"
      "ap_RunID b = ap_RunID a \<and> ap_ToolCallID b = ap_ToolCallID a"
    then obtain j where j: "gm_get (st_approvals ?s) j = Some b" using mem by blast
    then have "j = i" using approval_prompts.one_per_callD [OF one j a] b(2) by simp
    then show "b = a" using j a by simp
  qed (use a mem in auto)
  then show ?thesis by (simp add: approval_for_call_def)
qed

definition sample_approval :: Approval where
  "sample_approval = \<lparr>ap_ID = ''a1'', ap_SessionID = ''s'', ap_RunID = ''r'', ap_ToolCallID = ''c'',
     ap_ToolName = ''shell'', ap_Arguments = '''', ap_Summary = '''', ap_Effects = [],
     ap_Preview = '''', ap_ReadForeign = False, ap_Status = ApprovalPending, ap_Scope = RememberOnce,
     ap_CreatedAt = 1, ap_DecidedAt = None, ap_DecidedBy = from_the_machine ''cli''\<rparr>"

lemma approval_found_for_its_call_witness:
  "approval_for_call None ''r'' ''c''
     (approvals_after [Raise sample_approval, Raise (sample_approval\<lparr>ap_ID := ''a2''\<rparr>)] new_store)
   = Inr sample_approval"
  using approval_found_for_its_call [of "''a1''"
      "[Raise sample_approval, Raise (sample_approval\<lparr>ap_ID := ''a2''\<rparr>)]" sample_approval]
  by (simp add: approvals_after_def create_approval_def get_approval_def sample_approval_def
      new_store_def gm_vals_def gm_set_def gm_get_def)

text \<open>An approval is decided once: after a decision that is not "pending", whatever else is
  raised under other IDs and decided, the approval keeps exactly the recorded decision, and
  every further decision of it is refused with \<open>ErrApprovalDecided\<close>.\<close>

theorem approval_decided_once:
  assumes "approvals_wf s" and "decide_approval ctx i status scope decidedBy at s = Inr (a, t)"
    and "status \<noteq> ApprovalPending" and "\<forall>r. Raise r \<in> set ops \<longrightarrow> ap_ID r \<noteq> i"
  shows "get_approval None i (approvals_after ops t) = Inr a \<and> ap_Status a = status \<and> ap_Scope a = scope \<and>
    decide_approval None i status' scope' decidedBy' at' (approvals_after ops t) = Inl ErrApprovalDecided"
proof -
  have settle: "settle_approval i (status, scope, decidedBy, at) s = Inr (a, t)"
    using assms(2) by (simp add: settle_approval_def decide_approval_def)
  have stays: "gm_get (st_approvals (approvals_after ops t)) i = Some a"
    unfolding approvals_after_def
    using approval_prompts.settled_once [OF assms(1) settle _ assms(4)] assms(3) by simp
  have a: "ap_Status a = status" "ap_Scope a = scope"
    using assms(2) by (auto simp: decide_approval_def Let_def split: option.splits if_splits)
  show ?thesis
    using stays a assms(3) by (simp add: get_approval_def decide_approval_def approval_is_pending_def)
qed

lemma approval_decided_once_witness:
  "\<exists>a t. decide_approval None ''a1'' ApprovalDenied RememberOnce (from_the_machine ''cli'') 5
       (approvals_after [Raise sample_approval] new_store) = Inr (a, t) \<and>
     get_approval None ''a1'' (approvals_after [Settle ''a1'' (ApprovalAllowed, RememberSession, from_the_machine ''x'', 6)] t) = Inr a
     \<and> ap_Status a = ApprovalDenied"
proof -
  let ?s = "approvals_after [Raise sample_approval] new_store"
  obtain a t where d: "decide_approval None ''a1'' ApprovalDenied RememberOnce (from_the_machine ''cli'') 5 ?s = Inr (a, t)"
    by (simp add: approvals_after_def create_approval_def decide_approval_def Let_def sample_approval_def
        new_store_def gm_vals_def approval_is_pending_def)
  show ?thesis
    using approval_decided_once [OF approvals_after_wf [OF new_store_approvals(1)] d,
        where ops = "[Settle ''a1'' (ApprovalAllowed, RememberSession, from_the_machine ''x'', 6)]"] d
    by auto
qed

text \<open>What waits for a person is listed in full and in order: after any sequence of raising
  and deciding approvals, \<open>PendingApprovals\<close> of a session holds exactly the session's stored
  approvals that are undecided, each once, oldest first and by ID within one instant.\<close>

theorem pending_approvals_exact:
  "\<exists>ps. pending_approvals None session (approvals_after ops new_store) = Inr ps \<and>
     set ps = {a. (\<exists>i. get_approval None i (approvals_after ops new_store) = Inr a) \<and>
                  ap_SessionID a = session \<and> ap_Status a = ApprovalPending} \<and>
     sorted_wrt (\<lambda>a b. ap_CreatedAt a < ap_CreatedAt b \<or> ap_CreatedAt a = ap_CreatedAt b \<and> ap_ID a < ap_ID b) ps"
proof -
  let ?s = "approvals_after ops new_store"
  let ?P = "\<lambda>a. ap_SessionID a = session \<and> approval_is_pending a"
  let ?ps = "sort_slice approval_less (filter ?P (gm_vals (st_approvals ?s)))"
  have wf: "gm_keyed ap_ID (st_approvals ?s)"
    using approvals_after_wf [OF new_store_approvals(1)] by (simp add: approvals_wf_def)
  have members: "set ?ps = {a. (\<exists>i. get_approval None i ?s = Inr a) \<and> ap_SessionID a = session \<and> ap_Status a = ApprovalPending}"
    using wf by (auto simp: gm_keyed_def gm_vals_iff get_approval_def approval_is_pending_def split: option.splits)
  have "distinct (map ap_ID (filter ?P (gm_vals (st_approvals ?s))))"
    using gm_keyed_distinct [OF wf] by (simp add: distinct_map_filter)
  then have ids: "distinct (map ap_ID ?ps)"
    using mset_eq_imp_distinct_iff [of "map ap_ID ?ps" "map ap_ID (filter ?P (gm_vals (st_approvals ?s)))"]
    by simp
  have "sorted_wrt (\<lambda>a b. \<not> approval_less b a \<and> ap_ID a \<noteq> ap_ID b) ?ps"
    using approval_order.sorted_sort_slice ids by (simp add: sorted_wrt_conj_distinct)
  then have "sorted_wrt (\<lambda>a b. ap_CreatedAt a < ap_CreatedAt b \<or> ap_CreatedAt a = ap_CreatedAt b \<and> ap_ID a < ap_ID b) ?ps"
    by (rule sorted_wrt_mono_rel [rotated]) (auto simp: approval_less_def split: if_splits)
  moreover have "pending_approvals None session ?s = Inr ?ps"
    by (simp add: pending_approvals_def)
  ultimately show ?thesis using members by blast
qed

subsection \<open>Questions keep the same promise\<close>

type_synonym question_answer = "QuestionStatus \<times> string \<times> RunOrigin \<times> instant"

definition settle_question :: "string \<Rightarrow> question_answer \<Rightarrow> Store \<Rightarrow> StoreError + (Question \<times> Store)" where
  "settle_question i d s =
     (case d of (status, answer, answeredBy, at) \<Rightarrow> store_answer None i status answer answeredBy at s)"

definition questions_after :: "(Question, question_answer) prompt_op list \<Rightarrow> Store \<Rightarrow> Store" where
  "questions_after ops s = run_prompts (create_question None) settle_question ops s"

definition questions_wf :: "Store \<Rightarrow> bool" where
  "questions_wf s \<longleftrightarrow> gm_keyed qu_ID (st_questions s)"

interpretation question_prompts: prompt_store "\<lambda>s. gm_get (st_questions s)" qu_ID
  "\<lambda>a. (qu_RunID a, qu_ToolCallID a)" question_is_pending "create_question None" settle_question
  "\<lambda>d. fst d \<noteq> AnswerPending" questions_wf
proof
  fix q p :: Question and s u :: Store and i :: string and d :: question_answer
  assume ok: "questions_wf s"
  show "questions_wf u \<and> gm_get (st_questions u) = (gm_get (st_questions s))(qu_ID q \<mapsto> q)"
    if "create_question None q s = Inr u"
    using that ok by (auto simp: create_question_def questions_wf_def fun_eq_iff split: if_splits)
  show "(qu_RunID p, qu_ToolCallID p) \<noteq> (qu_RunID q, qu_ToolCallID q)"
    if "create_question None q s = Inr u" "gm_get (st_questions s) i = Some p"
    using that ok gm_vals_iff [of "st_questions s" p]
    by (auto simp: create_question_def questions_wf_def gm_keyed_def split: if_splits)
  show "questions_wf u \<and> (\<exists>p. gm_get (st_questions s) i = Some p \<and> question_is_pending p \<and>
      (qu_RunID q, qu_ToolCallID q) = (qu_RunID p, qu_ToolCallID p)) \<and>
      gm_get (st_questions u) = (gm_get (st_questions s))(i \<mapsto> q)"
    if "settle_question i d s = Inr (q, u)"
    using that ok gm_keyed_get [of qu_ID "st_questions s" i]
    by (auto simp: settle_question_def store_answer_def questions_wf_def Let_def fun_eq_iff
        split: prod.splits option.splits if_splits)
  show "\<not> question_is_pending q" if "settle_question i d s = Inr (q, u)" "fst d \<noteq> AnswerPending"
    using that by (auto simp: settle_question_def store_answer_def Let_def question_is_pending_def
        split: prod.splits option.splits if_splits)
qed

lemma new_store_questions: "questions_wf new_store" "gm_get (st_questions new_store) i = None"
  by (simp_all add: questions_wf_def new_store_def)

lemma questions_after_wf: "questions_wf s \<Longrightarrow> questions_wf (questions_after ops s)"
  unfolding questions_after_def by (rule question_prompts.run_prompts_ok)

text \<open>A question is answered once: after an answer or an abandonment, whatever else is asked
  under other IDs and answered, the question keeps exactly the recorded answer, and answering it
  again is refused with \<open>ErrQuestionAnswered\<close>.\<close>

theorem question_answered_once:
  assumes "questions_wf s" and "store_answer ctx i status answer answeredBy at s = Inr (q, t)"
    and "status \<noteq> AnswerPending" and "\<forall>r. Raise r \<in> set ops \<longrightarrow> qu_ID r \<noteq> i"
  shows "get_question None i (questions_after ops t) = Inr q \<and> qu_Status q = status \<and> qu_Answer q = answer \<and>
    store_answer None i status' answer' answeredBy' at' (questions_after ops t) = Inl ErrQuestionAnswered"
proof -
  have settle: "settle_question i (status, answer, answeredBy, at) s = Inr (q, t)"
    using assms(2) by (simp add: settle_question_def store_answer_def)
  have stays: "gm_get (st_questions (questions_after ops t)) i = Some q"
    unfolding questions_after_def
    using question_prompts.settled_once [OF assms(1) settle _ assms(4)] assms(3) by simp
  have q: "qu_Status q = status" "qu_Answer q = answer"
    using assms(2) by (auto simp: store_answer_def Let_def split: option.splits if_splits)
  show ?thesis
    using stays q assms(3) by (simp add: get_question_def store_answer_def question_is_pending_def)
qed

definition sample_question :: Question where
  "sample_question = \<lparr>qu_ID = ''q1'', qu_SessionID = ''s'', qu_RunID = ''r'', qu_ToolCallID = ''c'',
     qu_Prompt = ''which?'', qu_Kind = QuestionText, qu_Options = [], qu_Status = AnswerPending,
     qu_Answer = '''', qu_AnsweredBy = from_the_machine '''', qu_CreatedAt = 1, qu_AnsweredAt = None\<rparr>"

lemma question_answered_once_witness:
  "\<exists>q t. store_answer None ''q1'' AnswerGiven ''blue'' (from_the_machine ''cli'') 5
       (questions_after [Raise sample_question] new_store) = Inr (q, t) \<and>
     get_question None ''q1'' (questions_after [Settle ''q1'' (AnswerAbandoned, '''', from_the_machine ''x'', 6)] t) = Inr q \<and>
     qu_Answer q = ''blue''"
proof -
  let ?s = "questions_after [Raise sample_question] new_store"
  obtain q t where d: "store_answer None ''q1'' AnswerGiven ''blue'' (from_the_machine ''cli'') 5 ?s = Inr (q, t)"
    by (simp add: questions_after_def create_question_def store_answer_def Let_def sample_question_def
        new_store_def gm_vals_def question_is_pending_def)
  show ?thesis
    using question_answered_once [OF questions_after_wf [OF new_store_questions(1)] d,
        where ops = "[Settle ''q1'' (AnswerAbandoned, '''', from_the_machine ''x'', 6)]"] d
    by auto
qed

end
