(* ===== verification/MemSchedules.thy ===== *)
theory MemSchedules
imports MemSessions
begin

text \<open>
  Schedules and their firings in the in-memory store
  (\<open>core/internal/storage/memory/memory.go\<close>). A firing is the record that one occasion, a
  schedule at a revision due at an instant, has been dealt with; the properties are that an
  occasion is dealt with once, that an edit never lets an old record stand for a new occasion,
  and that the listing shows every schedule once.
\<close>

subsection \<open>Schedules\<close>

definition create_schedule :: "Ctx \<Rightarrow> Schedule \<Rightarrow> Store \<Rightarrow> StoreError + Store" where
  "create_schedule ctx schedule s = guard_ctx ctx
     (case gm_get (st_schedules s) (sc_ID schedule) of
        Some _ \<Rightarrow> Inl ErrDuplicateSchedule
      | None \<Rightarrow> Inr (s\<lparr>st_schedules := gm_set (st_schedules s) (sc_ID schedule) schedule,
                      st_scheduleOrder := st_scheduleOrder s @ [sc_ID schedule]\<rparr>))"

definition update_schedule :: "Ctx \<Rightarrow> Schedule \<Rightarrow> Store \<Rightarrow> StoreError + Store" where
  "update_schedule ctx schedule s = guard_ctx ctx
     (case gm_get (st_schedules s) (sc_ID schedule) of
        None \<Rightarrow> Inl ErrScheduleNotFound
      | Some existing \<Rightarrow>
          let schedule = schedule\<lparr>sc_Revision := wrap64 (sc_Revision existing + 1),
                sc_SessionID := sc_SessionID existing, sc_CreatedBy := sc_CreatedBy existing,
                sc_CreatedAt := sc_CreatedAt existing\<rparr>
          in Inr (s\<lparr>st_schedules := gm_set (st_schedules s) (sc_ID schedule) schedule\<rparr>))"

definition set_schedule_paused :: "Ctx \<Rightarrow> ScheduleID \<Rightarrow> bool \<Rightarrow> Store \<Rightarrow> StoreError + Store" where
  "set_schedule_paused ctx sid paused s = guard_ctx ctx
     (case gm_get (st_schedules s) sid of
        None \<Rightarrow> Inl ErrScheduleNotFound
      | Some schedule \<Rightarrow>
          Inr (s\<lparr>st_schedules := gm_set (st_schedules s) sid (schedule\<lparr>sc_Paused := paused\<rparr>)\<rparr>))"

definition get_schedule :: "Ctx \<Rightarrow> ScheduleID \<Rightarrow> Store \<Rightarrow> StoreError + Schedule" where
  "get_schedule ctx sid s = guard_ctx ctx
     (case gm_get (st_schedules s) sid of
        None \<Rightarrow> Inl ErrScheduleNotFound
      | Some schedule \<Rightarrow> Inr schedule)"

definition list_schedules :: "Ctx \<Rightarrow> Store \<Rightarrow> StoreError + Schedule list" where
  "list_schedules ctx s = guard_ctx ctx
     (Inr (List.map_filter (gm_get (st_schedules s)) (st_scheduleOrder s)))"

text \<open>\<open>remove1\<close> is the loop that cuts the first matching entry and stops.\<close>

definition delete_schedule :: "Ctx \<Rightarrow> ScheduleID \<Rightarrow> Store \<Rightarrow> StoreError + Store" where
  "delete_schedule ctx sid s = guard_ctx ctx
     (case gm_get (st_schedules s) sid of
        None \<Rightarrow> Inl ErrScheduleNotFound
      | Some _ \<Rightarrow>
          Inr (s\<lparr>st_schedules := gm_del (st_schedules s) sid,
                 st_scheduleOrder := remove1 sid (st_scheduleOrder s),
                 st_firings := filter (\<lambda>(key, _). fst key \<noteq> sid) (st_firings s)\<rparr>))"

subsection \<open>Firings\<close>

definition key_of_firing :: "Firing \<Rightarrow> firing_key" where
  "key_of_firing f = (fi_ScheduleID f, fi_Revision f, unix_nano (fi_For f))"

definition resolve_firing :: "Ctx \<Rightarrow> Firing \<Rightarrow> Store \<Rightarrow> StoreError + Store" where
  "resolve_firing ctx firing s = guard_ctx ctx
     (let key = key_of_firing firing in
      case gm_get (st_firings s) key of
        Some _ \<Rightarrow> Inl ErrFiringAlreadyResolved
      | None \<Rightarrow> Inr (s\<lparr>st_firings := gm_set (st_firings s) key firing\<rparr>))"

text \<open>The loop over the firings, with \<open>found\<close> and \<open>latest\<close> as one option.\<close>

fun latest_due :: "ScheduleID \<Rightarrow> int \<Rightarrow> (firing_key \<times> Firing) list \<Rightarrow> int option \<Rightarrow> int option" where
  "latest_due sid revision [] latest = latest"
| "latest_due sid revision ((key, _) # rest) latest =
     (if fst key \<noteq> sid \<or> fst (snd key) \<noteq> revision then latest_due sid revision rest latest
      else latest_due sid revision rest
        (case latest of
           None \<Rightarrow> Some (snd (snd key))
         | Some l \<Rightarrow> if snd (snd key) > l then Some (snd (snd key)) else Some l))"

definition last_firing :: "Ctx \<Rightarrow> ScheduleID \<Rightarrow> int \<Rightarrow> Store \<Rightarrow> StoreError + instant" where
  "last_firing ctx sid revision s = guard_ctx ctx
     (case latest_due sid revision (st_firings s) None of
        None \<Rightarrow> Inr zero_time
      | Some latest \<Rightarrow> Inr (time_unix latest))"

definition record_firing_run :: "Ctx \<Rightarrow> Firing \<Rightarrow> Store \<Rightarrow> StoreError + Store" where
  "record_firing_run ctx firing s = guard_ctx ctx
     (let key = key_of_firing firing in
      case gm_get (st_firings s) key of
        None \<Rightarrow> Inl ErrFiringNotResolved
      | Some resolved \<Rightarrow>
          Inr (s\<lparr>st_firings := gm_set (st_firings s) key (resolved\<lparr>fi_RunID := fi_RunID firing\<rparr>)\<rparr>))"

subsection \<open>Any sequence of schedule operations\<close>

datatype schedule_op =
    SCreate Schedule | SUpdate Schedule | SPause ScheduleID bool | SDelete ScheduleID
  | SResolve Firing | SRecordRun Firing

fun schedule_step :: "schedule_op \<Rightarrow> Store \<Rightarrow> StoreError + Store" where
  "schedule_step (SCreate c) s = create_schedule None c s"
| "schedule_step (SUpdate c) s = update_schedule None c s"
| "schedule_step (SPause i p) s = set_schedule_paused None i p s"
| "schedule_step (SDelete i) s = delete_schedule None i s"
| "schedule_step (SResolve f) s = resolve_firing None f s"
| "schedule_step (SRecordRun f) s = record_firing_run None f s"

fun run_schedules :: "schedule_op list \<Rightarrow> Store \<Rightarrow> Store" where
  "run_schedules [] s = s"
| "run_schedules (x # xs) s = run_schedules xs (case schedule_step x s of Inl _ \<Rightarrow> s | Inr t \<Rightarrow> t)"

lemma run_schedules_append: "run_schedules (xs @ ys) s = run_schedules ys (run_schedules xs s)"
  by (induction xs arbitrary: s) auto

definition schedules_wf :: "Store \<Rightarrow> bool" where
  "schedules_wf s \<longleftrightarrow> gm_keyed sc_ID (st_schedules s) \<and> gm_wf (st_firings s) \<and>
     distinct (st_scheduleOrder s) \<and>
     set (st_scheduleOrder s) = {i. gm_get (st_schedules s) i \<noteq> None}"

lemma new_store_schedules [simp]: "schedules_wf new_store"
  by (simp add: schedules_wf_def new_store_def)

lemma gm_wf_filter: "gm_wf m \<Longrightarrow> gm_wf (filter P m)"
  unfolding gm_wf_def by (rule distinct_map_filter)

lemma gm_get_filter_key: "gm_get (filter (\<lambda>(k, _). P k) m) k = (if P k then gm_get m k else None)"
  by (induction m) (auto simp: gm_get_def)

lemma schedule_step_wf:
  assumes "schedules_wf s" "schedule_step x s = Inr t"
  shows "schedules_wf t"
  using assms
proof (cases x)
  case (SUpdate c)
  then show ?thesis using assms
    by (auto simp: schedules_wf_def update_schedule_def Let_def split: option.splits if_splits)
next
  case (SPause i p)
  then show ?thesis using assms gm_keyed_get [of sc_ID "st_schedules s" i]
    by (auto simp: schedules_wf_def set_schedule_paused_def split: option.splits if_splits)
qed (auto simp: schedules_wf_def create_schedule_def delete_schedule_def
    resolve_firing_def record_firing_run_def Let_def gm_wf_filter split: option.splits if_splits)

lemma run_schedules_wf: "schedules_wf s \<Longrightarrow> schedules_wf (run_schedules xs s)"
  by (induction xs arbitrary: s) (auto split: sum.split dest: schedule_step_wf)
subsection \<open>An occasion is dealt with once\<close>

lemma firing_step_kept:
  assumes "gm_get (st_firings s) key \<noteq> None" "schedule_step x s = Inr t" "x \<noteq> SDelete (fst key)"
  shows "gm_get (st_firings t) key \<noteq> None"
  using assms
  by (cases x) (auto simp: create_schedule_def update_schedule_def set_schedule_paused_def
      delete_schedule_def resolve_firing_def record_firing_run_def Let_def gm_get_filter_key
      split: option.splits if_splits)

lemma firing_kept:
  "gm_get (st_firings s) key \<noteq> None \<Longrightarrow> SDelete (fst key) \<notin> set xs \<Longrightarrow>
   gm_get (st_firings (run_schedules xs s)) key \<noteq> None"
proof (induction xs arbitrary: s)
  case (Cons x xs)
  show ?case
  proof (cases "schedule_step x s")
    case (Inl e)
    then show ?thesis using Cons by simp
  next
    case (Inr t)
    then have "gm_get (st_firings t) key \<noteq> None"
      using Cons.prems by (intro firing_step_kept [of s key x t]) auto
    then show ?thesis using Cons.IH [of t] Cons.prems(2) Inr by simp
  qed
qed simp

text \<open>An occasion fires once: once a firing is resolved, then whatever is created, edited,
  paused, resolved or recorded afterwards, resolving a firing of the same schedule, revision and
  due instant is refused, until that schedule is deleted.\<close>

theorem occasion_resolved_once:
  assumes "resolve_firing ctx f s = Inr t" and "SDelete (fi_ScheduleID f) \<notin> set xs"
    and "fi_ScheduleID g = fi_ScheduleID f" "fi_Revision g = fi_Revision f" "fi_For g = fi_For f"
  shows "resolve_firing None g (run_schedules xs t) = Inl ErrFiringAlreadyResolved"
proof -
  have "gm_get (st_firings t) (key_of_firing f) \<noteq> None"
    using assms(1) by (auto simp: resolve_firing_def Let_def split: option.splits)
  then have "gm_get (st_firings (run_schedules xs t)) (key_of_firing f) \<noteq> None"
    using assms(2) by (intro firing_kept) (simp_all add: key_of_firing_def)
  moreover have "key_of_firing g = key_of_firing f" using assms(3-5) by (simp add: key_of_firing_def)
  ultimately show ?thesis by (auto simp: resolve_firing_def Let_def)
qed

definition sample_firing :: Firing where
  "sample_firing = \<lparr>fi_ScheduleID = ''daily'', fi_Revision = 1, fi_For = 100, fi_Observed = 105,
     fi_Missed = 0, fi_RunID = ''''\<rparr>"

definition sample_schedule :: Schedule where
  "sample_schedule = \<lparr>sc_ID = ''daily'', sc_Revision = 1, sc_Expression = ''0 9 * * *'', sc_Zone = ''UTC'',
     sc_Prompt = ''report'', sc_SessionID = ''s'', sc_CreatedBy = from_the_machine ''cli'', sc_Deliver = [],
     sc_Missed = MissedSkip, sc_Paused = False, sc_CreatedAt = 7\<rparr>"

lemma occasion_resolved_once_witness:
  "resolve_firing None sample_firing
     (run_schedules [SCreate sample_schedule, SResolve sample_firing, SUpdate sample_schedule, SPause ''daily'' True] new_store)
   = Inl ErrFiringAlreadyResolved"
proof -
  let ?s = "run_schedules [SCreate sample_schedule] new_store"
  obtain t where t: "resolve_firing None sample_firing ?s = Inr t"
    by (simp add: create_schedule_def resolve_firing_def new_store_def Let_def)
  have "run_schedules [SCreate sample_schedule, SResolve sample_firing, SUpdate sample_schedule, SPause ''daily'' True] new_store
      = run_schedules [SUpdate sample_schedule, SPause ''daily'' True] t"
    using t by simp
  then show ?thesis
    using occasion_resolved_once [OF t, of "[SUpdate sample_schedule, SPause ''daily'' True]" sample_firing] by simp
qed

subsection \<open>The last firing\<close>

lemma latest_due_None: "latest_due sid rv m l = None \<longleftrightarrow>
    l = None \<and> (\<forall>(k, f) \<in> set m. fst k \<noteq> sid \<or> fst (snd k) \<noteq> rv)"
  by (induction sid rv m l rule: latest_due.induct) (auto split: option.splits)

lemma latest_due_Some: "latest_due sid rv m l = Some d \<Longrightarrow>
    (l = Some d \<or> (\<exists>f. ((sid, rv, d), f) \<in> set m)) \<and> (\<forall>e. l = Some e \<longrightarrow> e \<le> d) \<and>
    (\<forall>e f. ((sid, rv, e), f) \<in> set m \<longrightarrow> e \<le> d)"
proof (induction sid rv m l rule: latest_due.induct)
  case (2 sid rv key f rest latest)
  obtain a b c where k: "key = (a, b, c)" by (cases key)
  show ?case
  proof (cases "a = sid \<and> b = rv")
    case False
    then show ?thesis using 2 by (auto simp: k)
  next
    case True
    then have "latest_due sid rv rest (case latest of None \<Rightarrow> Some c | Some l \<Rightarrow> if c > l then Some c else Some l) = Some d"
      using 2(3) by (cases latest) (simp_all add: k split: if_splits)
    then show ?thesis using 2(2) True by (cases latest) (auto simp: k split: if_splits)
  qed
qed simp

text \<open>\<open>LastFiring\<close> is the newest occasion on record: when it is not the zero time, a firing of
  the schedule's revision due then is stored and none stored is due later; when nothing of the
  revision is stored it is the zero time. What it answers does not depend on the order in which
  the map of firings is walked.\<close>

theorem last_firing_is_newest:
  assumes "schedules_wf s"
  shows "\<exists>t. last_firing None sid rv s = Inr t \<and>
    (if (\<forall>due. gm_get (st_firings s) (sid, rv, due) = None) then t = zero_time
     else gm_get (st_firings s) (sid, rv, unix_nano t) \<noteq> None \<and>
       (\<forall>due. gm_get (st_firings s) (sid, rv, due) \<noteq> None \<longrightarrow> due \<le> unix_nano t))"
proof -
  have wf: "gm_wf (st_firings s)" using assms by (simp add: schedules_wf_def)
  have mem: "gm_get (st_firings s) k = Some f \<longleftrightarrow> (k, f) \<in> set (st_firings s)" for k f
    using gm_get_mem gm_mem_get [OF wf] by metis
  show ?thesis
  proof (cases "latest_due sid rv (st_firings s) None")
    case None
    then have "((sid, rv, due), f) \<notin> set (st_firings s)" for due f
      by (auto simp: latest_due_None)
    then have "\<forall>due. gm_get (st_firings s) (sid, rv, due) = None"
      using gm_get_mem by (metis not_None_eq)
    then show ?thesis using None by (simp add: last_firing_def)
  next
    case (Some d)
    have d: "\<exists>f. ((sid, rv, d), f) \<in> set (st_firings s)"
      "\<And>e f. ((sid, rv, e), f) \<in> set (st_firings s) \<Longrightarrow> e \<le> d"
      using latest_due_Some [OF Some] by auto
    then have stored: "gm_get (st_firings s) (sid, rv, d) \<noteq> None" using mem by blast
    have newest: "\<forall>due. gm_get (st_firings s) (sid, rv, due) \<noteq> None \<longrightarrow> due \<le> d"
      by (auto intro: d(2) dest: gm_get_mem)
    have inv: "unix_nano (time_unix d) = d" by (simp add: unix_nano_def time_unix_def)
    have "last_firing None sid rv s = Inr (time_unix d)" using Some by (simp add: last_firing_def)
    then show ?thesis using stored newest by (intro exI [of _ "time_unix d"]) (auto simp: inv)
  qed
qed

lemma last_firing_is_newest_witness:
  "\<exists>t. last_firing None ''daily'' 1
     (run_schedules [SResolve sample_firing, SResolve (sample_firing\<lparr>fi_For := 60\<rparr>)] new_store) = Inr t \<and>
   unix_nano 100 \<le> unix_nano t"
proof -
  define s where s: "s = run_schedules [SResolve sample_firing, SResolve (sample_firing\<lparr>fi_For := 60\<rparr>)] new_store"
  have stored: "gm_get (st_firings s) (''daily'', 1, unix_nano 100) \<noteq> None"
    by (simp add: s resolve_firing_def new_store_def Let_def key_of_firing_def sample_firing_def)
  have wf: "schedules_wf s" unfolding s by (rule run_schedules_wf) simp
  show ?thesis
    using last_firing_is_newest [OF wf, of "''daily''" 1] stored unfolding s [symmetric] by metis
qed

subsection \<open>Listing and editing\<close>

lemma map_filter_ids:
  "(\<And>i c. i \<in> set is \<Longrightarrow> get i = Some c \<Longrightarrow> sc_ID c = i) \<Longrightarrow>
   map sc_ID (List.map_filter get is) = filter (\<lambda>i. get i \<noteq> None) is"
  by (induction "is") (auto simp: List.map_filter_def)

text \<open>The listing of schedules is complete and has no doubles: after any sequence of schedule
  operations it names the schedules in the order they were created, each stored one exactly
  once, as it is stored now.\<close>

theorem list_schedules_exact:
  "\<exists>cs. list_schedules None (run_schedules xs new_store) = Inr cs \<and>
     map sc_ID cs = st_scheduleOrder (run_schedules xs new_store) \<and> distinct (map sc_ID cs) \<and>
     set cs = {c. get_schedule None (sc_ID c) (run_schedules xs new_store) = Inr c}"
proof -
  define s where "s = run_schedules xs new_store"
  let ?cs = "List.map_filter (gm_get (st_schedules s)) (st_scheduleOrder s)"
  have wf: "gm_keyed sc_ID (st_schedules s)" "distinct (st_scheduleOrder s)"
    "set (st_scheduleOrder s) = {i. gm_get (st_schedules s) i \<noteq> None}"
    using run_schedules_wf [OF new_store_schedules] by (auto simp: schedules_wf_def s_def)
  have ids: "map sc_ID ?cs = st_scheduleOrder s"
    using wf(1,3) by (subst map_filter_ids) (auto dest: gm_keyed_get)
  have "set ?cs = {c. gm_get (st_schedules s) (sc_ID c) = Some c}"
    using wf(1,3) by (auto simp: List.map_filter_def intro: rev_image_eqI dest: gm_keyed_get)
  then have "set ?cs = {c. get_schedule None (sc_ID c) s = Inr c}"
    by (auto simp: get_schedule_def split: option.splits)
  then show ?thesis unfolding s_def [symmetric]
    using ids wf(2) by (intro exI [of _ ?cs]) (simp add: list_schedules_def)
qed

text \<open>An edit is the next revision of the same schedule: it changes no other schedule and no
  firing, counts the stored revision up by one whatever the caller sent, and keeps the session,
  the author and the creation time; pausing changes none of that, so occasions already dealt
  with stay dealt with.\<close>

theorem update_schedule_next_revision:
  assumes "update_schedule ctx c s = Inr t" and "get_schedule None (sc_ID c) s = Inr old"
    and "\<bar>sc_Revision old\<bar> < 2 ^ 62"
  shows "\<exists>new. get_schedule None (sc_ID c) t = Inr new \<and> sc_Revision new = sc_Revision old + 1 \<and>
    sc_SessionID new = sc_SessionID old \<and> sc_CreatedBy new = sc_CreatedBy old \<and>
    sc_CreatedAt new = sc_CreatedAt old \<and> sc_Expression new = sc_Expression c \<and> sc_Paused new = sc_Paused c \<and>
    (\<forall>i. i \<noteq> sc_ID c \<longrightarrow> get_schedule None i t = get_schedule None i s) \<and> st_firings t = st_firings s \<and>
    (\<forall>p u. set_schedule_paused None (sc_ID c) p t = Inr u \<longrightarrow>
       get_schedule None (sc_ID c) u = Inr (new\<lparr>sc_Paused := p\<rparr>) \<and> st_firings u = st_firings t)"
proof -
  have old: "gm_get (st_schedules s) (sc_ID c) = Some old"
    using assms(2) by (simp add: get_schedule_def split: option.splits)
  have "wrap64 (sc_Revision old + 1) = sc_Revision old + 1"
    using assms(3) by (intro wrap64_id) auto
  then show ?thesis
    using assms(1) old
    by (auto simp: update_schedule_def get_schedule_def set_schedule_paused_def Let_def)
qed

lemma update_schedule_next_revision_witness:
  "\<exists>t new. update_schedule None (sample_schedule\<lparr>sc_Revision := 77, sc_Expression := ''0 8 * * *''\<rparr>)
      (run_schedules [SCreate sample_schedule] new_store) = Inr t \<and>
    get_schedule None ''daily'' t = Inr new \<and> sc_Revision new = 2"
proof -
  let ?s = "run_schedules [SCreate sample_schedule] new_store"
  let ?c = "sample_schedule\<lparr>sc_Revision := 77, sc_Expression := ''0 8 * * *''\<rparr>"
  have old: "get_schedule None (sc_ID ?c) ?s = Inr sample_schedule"
    by (simp add: create_schedule_def get_schedule_def new_store_def sample_schedule_def)
  obtain t where t: "update_schedule None ?c ?s = Inr t"
    by (simp add: create_schedule_def update_schedule_def new_store_def sample_schedule_def Let_def)
  show ?thesis
    using update_schedule_next_revision [OF t old] t by (auto simp: sample_schedule_def)
qed

text \<open>The in-memory store takes a firing for a schedule it does not hold, so one that arrives after
  the deletion outlives it, and a schedule created again under the same name starts with it.\<close>

lemma late_firing_outlives_its_schedule:
  "last_firing None ''daily'' 1 (run_schedules
     [SCreate sample_schedule, SDelete ''daily'', SResolve sample_firing, SCreate sample_schedule] new_store)
   = Inr 100"
  by (simp add: create_schedule_def delete_schedule_def resolve_firing_def last_firing_def new_store_def
      Let_def key_of_firing_def sample_firing_def sample_schedule_def gm_del_def gm_set_def gm_get_def)

end
