(* ===== verification/ScheduleCron.thy ===== *)
theory ScheduleCron
imports Domain
begin

text \<open>
  When a standing instruction is due (\<open>core/internal/schedule\<close>): the parser of five-field cron
  expressions, the search for the next matching minute, and what a schedule owes after a time
  in which nobody looked.

  A time zone is a function from instants to the offset east of UTC in seconds, which is all a
  \<open>*time.Location\<close> is used for here; the machine's zone and \<open>time.LoadLocation\<close> are parameters.
  The civil calendar (\<open>Time.Minute\<close>, \<open>Hour\<close>, \<open>Day\<close>, \<open>Month\<close>, \<open>Weekday\<close>) is the proleptic Gregorian
  calendar Go uses, counted from Monday, 1 January of the year 1, the zero time.
\<close>

subsection \<open>Instants on a calendar\<close>

type_synonym zone = "instant \<Rightarrow> int"

definition second :: int where "second = 1000000000"
definition minute :: int where "minute = 60 * second"

definition local_minutes :: "zone \<Rightarrow> instant \<Rightarrow> int" where
  "local_minutes z t = (t + z t * second) div minute"

definition t_minute :: "zone \<Rightarrow> instant \<Rightarrow> nat" where
  "t_minute z t = nat (local_minutes z t mod 60)"

definition t_hour :: "zone \<Rightarrow> instant \<Rightarrow> nat" where
  "t_hour z t = nat (local_minutes z t div 60 mod 24)"

definition t_days :: "zone \<Rightarrow> instant \<Rightarrow> int" where
  "t_days z t = local_minutes z t div (24 * 60)"

definition t_weekday :: "zone \<Rightarrow> instant \<Rightarrow> nat" where
  "t_weekday z t = nat ((t_days z t + 1) mod 7)"

definition leap_year :: "int \<Rightarrow> bool" where
  "leap_year y \<longleftrightarrow> y mod 4 = 0 \<and> (y mod 100 \<noteq> 0 \<or> y mod 400 = 0)"

definition month_lengths :: "bool \<Rightarrow> int list" where
  "month_lengths leap = [31, if leap then 29 else 28, 31, 30, 31, 30, 31, 31, 30, 31, 30, 31]"

text \<open>The year of a day counted from 1 January of the year 1, and the day within it.\<close>

definition year_and_day :: "int \<Rightarrow> int \<times> int" where
  "year_and_day d =
     (let n400 = d div 146097; r = d mod 146097;
          n100 = min 3 (r div 36524); r = r - n100 * 36524;
          n4 = r div 1461; r = r mod 1461;
          n1 = min 3 (r div 365)
      in (400 * n400 + 100 * n100 + 4 * n4 + n1 + 1, r - n1 * 365))"

fun month_and_day :: "nat \<Rightarrow> int list \<Rightarrow> int \<Rightarrow> nat \<times> nat" where
  "month_and_day m [] d = (m, nat d + 1)"
| "month_and_day m (l # ls) d = (if d < l then (m, nat d + 1) else month_and_day (m + 1) ls (d - l))"

definition civil :: "int \<Rightarrow> int \<times> nat \<times> nat" where
  "civil d = (case year_and_day d of (y, yday) \<Rightarrow> (y, month_and_day 1 (month_lengths (leap_year y)) yday))"

definition t_month :: "zone \<Rightarrow> instant \<Rightarrow> nat" where
  "t_month z t = fst (snd (civil (t_days z t)))"

definition t_day :: "zone \<Rightarrow> instant \<Rightarrow> nat" where
  "t_day z t = snd (snd (civil (t_days z t)))"

lemma mod_by_100: "y = 100 * k + x \<Longrightarrow> 0 \<le> x \<Longrightarrow> x < 100 \<Longrightarrow> y mod 100 = (x :: int)"
  by simp

lemma year_day_bounds:
  assumes "year_and_day d = (y, k)"
  shows "0 \<le> k \<and> k < (if leap_year y then 366 else 365)"
proof -
  define a r where "a = d div 146097" and "r = d mod 146097"
  have r: "0 \<le> r" "r < 146097" by (simp_all add: r_def)
  define b where "b = min 3 (r div 36524)"
  define q where "q = r - b * 36524"
  have b: "0 \<le> b" "b \<le> 3" using r by (auto simp: b_def)
  have "b = 3 \<or> b = r div 36524" by (auto simp: b_def)
  then have q: "0 \<le> q" "q \<le> 36524" "q = 36524 \<Longrightarrow> b = 3"
    using r by (auto simp: q_def b_def min_def minus_div_mult_eq_mod)
  define c p where "c = q div 1461" and "p = q mod 1461"
  have p: "0 \<le> p" "p < 1461" by (simp_all add: p_def)
  have c: "0 \<le> c" "c \<le> 24" "q = 1461 * c + p" using q by (auto simp: c_def p_def)
  define e where "e = min 3 (p div 365)"
  have e: "0 \<le> e" "e \<le> 3" using p by (auto simp: e_def)
  have "year_and_day d = (400 * a + 100 * b + 4 * c + e + 1, p - e * 365)"
    by (simp only: year_and_day_def Let_def a_def r_def b_def q_def c_def p_def e_def)
  then have k: "k = p - e * 365" and y: "y = 400 * a + 100 * b + 4 * c + e + 1"
    using assms by auto
  have k0: "0 \<le> k" "k \<le> 365" using p by (auto simp: k e_def min_def)
  have "leap_year y" if "k = 365"
  proof -
    have e3: "e = 3" and p3: "p = 1460" using that p by (auto simp: k e_def min_def split: if_splits)
    have y': "y = 400 * a + 100 * b + 4 * c + 4" using y e3 by simp
    have "c < 24 \<or> b = 3" using c q p3 by (cases "c = 24") auto
    then show ?thesis
    proof
      assume "c < 24"
      then have "4 * c + 4 < 100" "0 < 4 * c + 4" using c by auto
      then have "y mod 100 = 4 * c + 4" using y' by (intro mod_by_100 [of _ "4 * a + b"]) auto
      then show ?thesis using y' c by (auto simp: leap_year_def)
    next
      assume "b = 3"
      then show ?thesis
      proof (cases "c = 24")
        case True
        then have "y = 400 * (a + 1)" using y' \<open>b = 3\<close> by simp
        then show ?thesis by (simp add: leap_year_def)
      next
        case False
        then have "4 * c + 4 < 100" "0 < 4 * c + 4" using c by auto
        then have "y mod 100 = 4 * c + 4" using y' by (intro mod_by_100 [of _ "4 * a + b"]) auto
        then show ?thesis using y' c by (auto simp: leap_year_def)
      qed
    qed
  qed
  then have "k \<noteq> 365 \<or> leap_year y" by blast
  then show ?thesis using k0 by (cases "leap_year y") auto
qed
lemma month_and_day_bounds:
  "month_and_day m ls k = (mon, day) \<Longrightarrow> 0 \<le> k \<Longrightarrow> k < sum_list ls \<Longrightarrow>
   m \<le> mon \<and> mon < m + length ls \<and> 1 \<le> day \<and> int day \<le> ls ! (mon - m)"
proof (induction m ls k rule: month_and_day.induct)
  case (2 m l ls d)
  show ?case
  proof (cases "d < l")
    case True
    then show ?thesis using 2 by auto
  next
    case False
    then have "m + 1 \<le> mon \<and> mon < m + 1 + length ls \<and> 1 \<le> day \<and> int day \<le> ls ! (mon - (m + 1))"
      using 2 by simp
    moreover from this have "mon - m = Suc (mon - (m + 1))" by (auto simp: Suc_diff_Suc)
    ultimately show ?thesis by auto
  qed
qed simp

lemma civil_bounds:
  assumes "civil d = (y, mon, day)"
  shows "1 \<le> mon \<and> mon \<le> 12 \<and> 1 \<le> day \<and> int day \<le> month_lengths (leap_year y) ! (mon - 1)"
proof -
  obtain k where k: "year_and_day d = (y, k)" "month_and_day 1 (month_lengths (leap_year y)) k = (mon, day)"
    using assms by (auto simp: civil_def split: prod.splits)
  have "sum_list (month_lengths leap) = (if leap then 366 else 365)" "length (month_lengths leap) = 12" for leap
    by (simp_all add: month_lengths_def)
  then show ?thesis
    using month_and_day_bounds [OF k(2)] year_day_bounds [OF k(1)] by (cases "leap_year y") auto
qed

lemma t_ranges:
  "t_minute z t < 60" "t_hour z t < 24" "t_weekday z t < 7"
  "1 \<le> t_month z t" "t_month z t \<le> 12" "1 \<le> t_day z t" "t_day z t \<le> 31"
proof -
  show "t_minute z t < 60" "t_hour z t < 24" "t_weekday z t < 7"
    by (simp_all add: t_minute_def t_hour_def t_weekday_def nat_less_iff)
  obtain y mon day where c: "civil (t_days z t) = (y, mon, day)" by (cases "civil (t_days z t)")
  have b: "1 \<le> mon" "mon \<le> 12" "1 \<le> day" "int day \<le> month_lengths (leap_year y) ! (mon - 1)"
    using civil_bounds [OF c] by auto
  have "\<forall>l \<in> set (month_lengths (leap_year y)). l \<le> 31" by (simp add: month_lengths_def)
  moreover have "month_lengths (leap_year y) ! (mon - 1) \<in> set (month_lengths (leap_year y))"
    using b by (intro nth_mem) (simp add: month_lengths_def)
  ultimately have "day \<le> 31" using b(4) by fastforce
  then show "1 \<le> t_month z t" "t_month z t \<le> 12" "1 \<le> t_day z t" "t_day z t \<le> 31"
    using b c by (simp_all add: t_month_def t_day_def)
qed

lemma no_thirtieth_of_february: "t_month z t = 2 \<Longrightarrow> t_day z t \<le> 29"
proof -
  assume m: "t_month z t = 2"
  obtain y mon day where c: "civil (t_days z t) = (y, mon, day)" by (cases "civil (t_days z t)")
  then show ?thesis
    using civil_bounds [OF c] m by (auto simp: t_month_def t_day_def month_lengths_def split: if_splits)
qed

subsection \<open>Parsing an expression\<close>

text \<open>\<open>set\<close> is Go's \<open>[60]bool\<close>: a list of 60 booleans.\<close>

record Expression =
  ex_minute :: "bool list"
  ex_hour :: "bool list"
  ex_day :: "bool list"
  ex_month :: "bool list"
  ex_weekday :: "bool list"
  ex_dayRestricted :: bool
  ex_weekdayRestricted :: bool

record field =
  fd_name :: string
  fd_min :: int
  fd_max :: int
  fd_names :: "(string \<times> int) list"

definition cron_fields :: "field list" where
  "cron_fields =
     [\<lparr>fd_name = ''minute'', fd_min = 0, fd_max = 59, fd_names = []\<rparr>,
      \<lparr>fd_name = ''hour'', fd_min = 0, fd_max = 23, fd_names = []\<rparr>,
      \<lparr>fd_name = ''day of month'', fd_min = 1, fd_max = 31, fd_names = []\<rparr>,
      \<lparr>fd_name = ''month'', fd_min = 1, fd_max = 12, fd_names =
         [(''jan'', 1), (''feb'', 2), (''mar'', 3), (''apr'', 4), (''may'', 5), (''jun'', 6),
          (''jul'', 7), (''aug'', 8), (''sep'', 9), (''oct'', 10), (''nov'', 11), (''dec'', 12)]\<rparr>,
      \<lparr>fd_name = ''day of week'', fd_min = 0, fd_max = 6, fd_names =
         [(''sun'', 0), (''mon'', 1), (''tue'', 2), (''wed'', 3), (''thu'', 4), (''fri'', 5), (''sat'', 6)]\<rparr>]"

definition shorthands :: "(string \<times> string) list" where
  "shorthands =
     [(''@hourly'', ''0 * * * *''), (''@daily'', ''0 0 * * *''), (''@midnight'', ''0 0 * * *''),
      (''@weekly'', ''0 0 * * 0''), (''@monthly'', ''0 0 1 * *''), (''@yearly'', ''0 0 1 1 *''),
      (''@annually'', ''0 0 1 1 *'')]"

text \<open>Each error with what its message names; \<open>PanicIndex\<close> is an index outside the array.\<close>

datatype ParseError =
    ExpressionNeeded
  | FieldCount string nat
  | NotAStep string string
  | RunsBackwards string string
  | NotAValue string string
  | OutsideField int string
  | PanicIndex int

definition parse_value :: "field \<Rightarrow> string \<Rightarrow> ParseError + int" where
  "parse_value spec text =
     (let text = trim_space text in
      case map_of (fd_names spec) (to_lower text) of
        Some named \<Rightarrow> Inr named
      | None \<Rightarrow>
          (case atoi text of
             None \<Rightarrow> Inl (NotAValue text (fd_name spec))
           | Some value \<Rightarrow>
               let value = (if fd_name spec = ''day of week'' \<and> value = 7 then 0 else value)
               in if value < fd_min spec \<or> value > fd_max spec
                  then Inl (OutsideField value (fd_name spec))
                  else Inr value))"

text \<open>The switch of \<open>parseRange\<close>, on what stands before the step.\<close>

definition parse_span :: "field \<Rightarrow> string \<Rightarrow> int \<Rightarrow> ParseError + (int \<times> int \<times> int)" where
  "parse_span spec part step =
     (if part = ''*'' then Inr (fd_min spec, fd_max spec, step)
      else case cut_at CHR ''-'' part of
        Some (one, other) \<Rightarrow>
          (case parse_value spec one of
             Inl e \<Rightarrow> Inl e
           | Inr low \<Rightarrow>
               (case parse_value spec other of
                  Inl e \<Rightarrow> Inl e
                | Inr high \<Rightarrow>
                    if low > high then Inl (RunsBackwards part (fd_name spec))
                    else Inr (low, high, step)))
      | None \<Rightarrow>
          (case parse_value spec part of
             Inl e \<Rightarrow> Inl e
           | Inr low \<Rightarrow> if step > 1 then Inr (low, fd_max spec, step) else Inr (low, low, step)))"

definition parse_range :: "field \<Rightarrow> string \<Rightarrow> ParseError + (int \<times> int \<times> int)" where
  "parse_range spec part =
     (case cut_at CHR ''/'' part of
        None \<Rightarrow> parse_span spec part 1
      | Some (before, stepped) \<Rightarrow>
          (case atoi stepped of
             None \<Rightarrow> Inl (NotAStep stepped (fd_name spec))
           | Some step \<Rightarrow>
               if step \<le> 0 then Inl (NotAStep stepped (fd_name spec))
               else parse_span spec before step))"

text \<open>
  \<open>for value := low; value <= high; value += step { values[value] = true }\<close>. The addition wraps;
  an index outside the array panics. The bounds on the step make the definition total: a step is
  an \<open>int\<close> and \<open>parseRange\<close> returns none below one (\<open>parse_range_step\<close>).
\<close>

function mark_values :: "int \<Rightarrow> int \<Rightarrow> int \<Rightarrow> bool list \<Rightarrow> ParseError + bool list" where
  "mark_values value high step values =
     (if value \<le> high \<and> 0 < step \<and> step < 2 ^ 63 then
        (if value < 0 \<or> 60 \<le> value then Inl (PanicIndex value)
         else mark_values (wrap64 (value + step)) high step (values[nat value := True]))
      else Inr values)"
  by pat_completeness auto
termination
proof (relation "measure (\<lambda>(value, high, step, values). if value < 0 then 0 else nat (high + 1 - value))")
  fix v high step :: int and vs :: "bool list"
  assume *: "v \<le> high \<and> 0 < step \<and> step < 2 ^ 63" "\<not> (v < 0 \<or> 60 \<le> v)"
  have "wrap64 (v + step) = v + step \<or> wrap64 (v + step) < 0"
  proof (cases "v + step < 2 ^ 63")
    case True
    then show ?thesis using * by (simp add: wrap64_id)
  next
    case False
    then have "(v + step + 2 ^ 63) mod 2 ^ 64 = v + step - 2 ^ 63"
      using * by (subst mod_pos_geq) auto
    then show ?thesis using * by (simp add: wrap64_def)
  qed
  then show "((wrap64 (v + step), high, step, vs[nat v := True]), v, high, step, vs)
      \<in> measure (\<lambda>(value, high, step, values). if value < 0 then 0 else nat (high + 1 - value))"
    using * by auto
qed simp

declare mark_values.simps [simp del]

text \<open>\<open>parseField\<close>: each part of the list in turn, the first error ending the field.\<close>

fun parse_parts :: "field \<Rightarrow> string list \<Rightarrow> bool list \<Rightarrow> ParseError + bool list" where
  "parse_parts spec [] values = Inr values"
| "parse_parts spec (part # parts) values =
     (case parse_range spec part of
        Inl e \<Rightarrow> Inl e
      | Inr (low, high, step) \<Rightarrow>
          (case mark_values low high step values of
             Inl e \<Rightarrow> Inl e
           | Inr values \<Rightarrow> parse_parts spec parts values))"

definition parse_field :: "field \<Rightarrow> string \<Rightarrow> ParseError + bool list" where
  "parse_field spec column = parse_parts spec (split_on CHR '','' column) (replicate 60 False)"

fun parse_columns :: "field list \<Rightarrow> string list \<Rightarrow> ParseError + bool list list" where
  "parse_columns (spec # specs) (column # columns) =
     (case parse_field spec column of
        Inl e \<Rightarrow> Inl e
      | Inr values \<Rightarrow>
          (case parse_columns specs columns of
             Inl e \<Rightarrow> Inl e
           | Inr rest \<Rightarrow> Inr (values # rest)))"
| "parse_columns _ _ = Inr []"

definition parse :: "string \<Rightarrow> ParseError + Expression" where
  "parse text =
     (let trimmed = trim_space text in
      if trimmed = '''' then Inl ExpressionNeeded
      else
        let trimmed = (case map_of shorthands (to_lower trimmed) of
               Some expanded \<Rightarrow> expanded | None \<Rightarrow> trimmed);
            columns = Prelude.fields trimmed
        in if length columns \<noteq> length cron_fields then Inl (FieldCount text (length columns))
           else (case parse_columns cron_fields columns of
                   Inl e \<Rightarrow> Inl e
                 | Inr into \<Rightarrow>
                     Inr \<lparr>ex_minute = into ! 0, ex_hour = into ! 1, ex_day = into ! 2,
                          ex_month = into ! 3, ex_weekday = into ! 4,
                          ex_dayRestricted = (columns ! 2 \<noteq> ''*''),
                          ex_weekdayRestricted = (columns ! 4 \<noteq> ''*'')\<rparr>))"

subsection \<open>What a parsed expression holds\<close>

lemma mark_values_Inr:
  "mark_values v high step vs = Inr ws \<Longrightarrow> length vs = 60 \<Longrightarrow> 0 \<le> v \<Longrightarrow> high < 60 \<Longrightarrow> 0 < step \<Longrightarrow> step < 2 ^ 63 \<Longrightarrow>
   length ws = 60 \<and> (\<forall>i < 60. ws ! i \<longleftrightarrow> vs ! i \<or> (v \<le> int i \<and> int i \<le> high \<and> (int i - v) mod step = 0))"
proof (induction v high step vs rule: mark_values.induct)
  case (1 v high step vs)
  show ?case
  proof (cases "v \<le> high")
    case False
    then show ?thesis using 1(2,3) by (subst (asm) mark_values.simps) auto
  next
    case True
    then have rest: "mark_values (wrap64 (v + step)) high step (vs[nat v := True]) = Inr ws"
      using 1(2-7) by (subst (asm) mark_values.simps) (auto split: if_splits)
    have no_wrap: "v + step < 2 ^ 63"
    proof (rule ccontr)
      assume "\<not> v + step < 2 ^ 63"
      then have "(v + step + 2 ^ 63) mod 2 ^ 64 = v + step - 2 ^ 63"
        using 1(4,5,7) True by (subst mod_pos_geq) auto
      then have "wrap64 (v + step) < 0" using 1(5,7) True by (simp add: wrap64_def)
      then show False using rest 1(4,6,7) True by (subst (asm) mark_values.simps) auto
    qed
    then have next_v: "wrap64 (v + step) = v + step" using 1(4,6) by (simp add: wrap64_id)
    have IH: "length ws = 60 \<and> (\<forall>i < 60. ws ! i \<longleftrightarrow> vs[nat v := True] ! i \<or>
        (v + step \<le> int i \<and> int i \<le> high \<and> (int i - (v + step)) mod step = 0))"
      using 1(1) [unfolded next_v] rest [unfolded next_v] True 1(3-7) by auto
    show ?thesis
    proof (intro conjI allI impI)
      show "length ws = 60" using IH by simp
      fix i :: nat assume i: "i < 60"
      have steps: "(v \<le> int i \<and> (int i - v) mod step = 0) \<longleftrightarrow>
          i = nat v \<or> (v + step \<le> int i \<and> (int i - (v + step)) mod step = 0)" (is "?a \<longleftrightarrow> ?b")
      proof
        assume a: ?a
        show ?b
        proof (cases "int i < v + step")
          case True
          then have "(int i - v) mod step = int i - v" using a by (intro mod_pos_pos_trivial) auto
          then show ?thesis using a by auto
        next
          case False
          then show ?thesis using a
            by (simp add: diff_diff_eq [symmetric] minus_mod_self2)
        qed
      next
        assume ?b
        then show ?a using 1(4,6) by (auto simp: diff_diff_eq [symmetric] minus_mod_self2)
      qed
      have upd: "vs[nat v := True] ! i = (i = nat v \<or> vs ! i)" using i 1(3) by (cases "i = nat v") simp_all
      have here: "i = nat v \<Longrightarrow> int i \<le> high" using True 1(4) by simp
      have ws: "ws ! i \<longleftrightarrow> (i = nat v \<or> vs ! i) \<or>
          (v + step \<le> int i \<and> int i \<le> high \<and> (int i - (v + step)) mod step = 0)"
        using IH i upd by simp
      show "ws ! i \<longleftrightarrow> vs ! i \<or> (v \<le> int i \<and> int i \<le> high \<and> (int i - v) mod step = 0)"
        unfolding ws using steps here by metis
    qed
  qed
qed

lemma mark_values_no_panic:
  "0 \<le> v \<Longrightarrow> high < 60 \<Longrightarrow> 0 < step \<Longrightarrow> step \<le> 2 ^ 62 \<Longrightarrow> \<exists>ws. mark_values v high step vs = Inr ws"
proof (induction v high step vs rule: mark_values.induct)
  case (1 v high step vs)
  show ?case
  proof (cases "v \<le> high")
    case False
    then show ?thesis by (subst mark_values.simps) simp
  next
    case True
    then have "wrap64 (v + step) = v + step" using 1 by (simp add: wrap64_id)
    then show ?thesis using 1 True by (subst mark_values.simps) simp
  qed
qed

text \<open>A field of the table: its values are minutes, hours, days, months or weekdays.\<close>

definition field_ok :: "field \<Rightarrow> bool" where
  "field_ok spec \<longleftrightarrow> 0 \<le> fd_min spec \<and> fd_min spec \<le> fd_max spec \<and> fd_max spec < 60 \<and>
     (\<forall>(w, v) \<in> set (fd_names spec). fd_min spec \<le> v \<and> v \<le> fd_max spec)"

lemma cron_fields_ok: "spec \<in> set cron_fields \<Longrightarrow> field_ok spec"
  by (auto simp: cron_fields_def field_ok_def)

lemma parse_value_range:
  "field_ok spec \<Longrightarrow> parse_value spec text = Inr v \<Longrightarrow> fd_min spec \<le> v \<and> v \<le> fd_max spec"
  by (auto simp: parse_value_def Let_def field_ok_def dest: map_of_SomeD split: option.splits if_splits)

lemma parse_span_shape:
  assumes "field_ok spec" "parse_span spec part step = Inr (l, h, s)"
  shows "s = step \<and> fd_min spec \<le> l \<and> l \<le> h \<and> h \<le> fd_max spec"
proof -
  note range = parse_value_range [OF assms(1)]
  have "fd_min spec \<le> fd_max spec" using assms(1) by (simp add: field_ok_def)
  then show ?thesis using assms(2)
    by (auto simp: parse_span_def dest!: range split: option.splits sum.splits if_splits prod.splits)
qed

lemma parse_range_shape:
  assumes "field_ok spec" "parse_range spec part = Inr (l, h, s)"
  shows "0 < s \<and> s < 2 ^ 63 \<and> fd_min spec \<le> l \<and> l \<le> h \<and> h \<le> fd_max spec"
proof (cases "cut_at CHR ''/'' part")
  case None
  then show ?thesis using assms parse_span_shape [OF assms(1), of part 1] by (auto simp: parse_range_def)
next
  case (Some r)
  obtain a b where r: "r = (a, b)" by (cases r)
  then obtain step where st: "atoi b = Some step" "0 < step" "parse_span spec a step = Inr (l, h, s)"
    using assms Some by (auto simp: parse_range_def split: option.splits if_splits)
  then show ?thesis using parse_span_shape [OF assms(1) st(3)] atoi_range [OF st(1)] by auto
qed

lemma parse_parts_Inr:
  assumes "field_ok spec" "parse_parts spec parts vs = Inr ws" "length vs = 60"
  shows "length ws = 60 \<and> (\<forall>i < 60. ws ! i \<longleftrightarrow> vs ! i \<or> (\<exists>part \<in> set parts. \<exists>l h s.
    parse_range spec part = Inr (l, h, s) \<and> l \<le> int i \<and> int i \<le> h \<and> (int i - l) mod s = 0)) \<and>
    (\<forall>part \<in> set parts. \<exists>r. parse_range spec part = Inr r)"
  using assms(2,3)
proof (induction parts arbitrary: vs)
  case (Cons part parts)
  obtain l h s where r: "parse_range spec part = Inr (l, h, s)"
    using Cons.prems(1) by (cases "parse_range spec part") auto
  then obtain us where us: "mark_values l h s vs = Inr us" "parse_parts spec parts us = Inr ws"
    using Cons.prems(1) by (cases "mark_values l h s vs") auto
  have b: "0 < s" "s < 2 ^ 63" "0 \<le> l" "h < 60"
    using parse_range_shape [OF assms(1) r] assms(1) by (auto simp: field_ok_def)
  have m: "length us = 60" "\<And>i. i < 60 \<Longrightarrow> us ! i \<longleftrightarrow> vs ! i \<or> (l \<le> int i \<and> int i \<le> h \<and> (int i - l) mod s = 0)"
    using mark_values_Inr [OF us(1) Cons.prems(2) b(3,4,1,2)] by auto
  have "(\<exists>l' h' s'. parse_range spec part = Inr (l', h', s') \<and> l' \<le> int i \<and> int i \<le> h' \<and> (int i - l') mod s' = 0)
      \<longleftrightarrow> l \<le> int i \<and> int i \<le> h \<and> (int i - l) mod s = 0" for i
    using r by auto
  then show ?case using Cons.IH [OF us(2) m(1)] m(2) r by auto
qed simp

text \<open>A cron field means what its text says: when \<open>parseField\<close> succeeds, every part of the
  list was readable and the field matches exactly the values that some part reaches from its
  low end in whole steps without passing its high end, all within the field's limits, and at
  least one.\<close>

theorem parse_field_exact:
  assumes "spec \<in> set cron_fields" and "parse_field spec column = Inr values"
  shows "length values = 60 \<and>
    (\<forall>i < 60. values ! i \<longleftrightarrow> (\<exists>part \<in> set (split_on CHR '','' column). \<exists>low high step.
       parse_range spec part = Inr (low, high, step) \<and> low \<le> int i \<and> int i \<le> high \<and> (int i - low) mod step = 0)) \<and>
    (\<forall>i < 60. values ! i \<longrightarrow> fd_min spec \<le> int i \<and> int i \<le> fd_max spec) \<and> (\<exists>i < 60. values ! i)"
proof -
  have ok: "field_ok spec" by (rule cron_fields_ok [OF assms(1)])
  have *: "length values = 60" "\<forall>i < 60. values ! i \<longleftrightarrow> (\<exists>part \<in> set (split_on CHR '','' column). \<exists>l h s.
       parse_range spec part = Inr (l, h, s) \<and> l \<le> int i \<and> int i \<le> h \<and> (int i - l) mod s = 0)"
    "\<forall>part \<in> set (split_on CHR '','' column). \<exists>r. parse_range spec part = Inr r"
    using parse_parts_Inr [OF ok assms(2) [unfolded parse_field_def]] by auto
  have range: "\<forall>i < 60. values ! i \<longrightarrow> fd_min spec \<le> int i \<and> int i \<le> fd_max spec"
    using *(2) parse_range_shape [OF ok] by (meson order_trans)
  obtain part where part: "part \<in> set (split_on CHR '','' column)"
    using split_on_nonempty by (meson list.set_sel(1))
  then obtain l h s where r: "parse_range spec part = Inr (l, h, s)" using *(3) by (metis prod_cases3)
  have b: "0 \<le> l" "l \<le> h" "h < 60" using parse_range_shape [OF ok r] ok by (auto simp: field_ok_def)
  have "l \<le> int (nat l) \<and> int (nat l) \<le> h \<and> (int (nat l) - l) mod s = 0" using b by simp
  then have some: "\<exists>part \<in> set (split_on CHR '','' column). \<exists>l' h' s'.
      parse_range spec part = Inr (l', h', s') \<and> l' \<le> int (nat l) \<and> int (nat l) \<le> h' \<and> (int (nat l) - l') mod s' = 0"
    using r by (intro bexI [OF _ part] exI [of _ l] exI [of _ h] exI [of _ s] conjI [OF r])
  have "nat l < 60" using b by simp
  then have "values ! nat l" using *(2) some by (metis (no_types, lifting))
  then have "\<exists>i < 60. values ! i" using b by (intro exI [of _ "nat l"]) auto
  then show ?thesis using * range by simp
qed

lemma cut_at_eval: "cut_at sep [] = None" "cut_at sep (sep # cs) = Some ([], cs)"
  "c \<noteq> sep \<Longrightarrow> cut_at sep (c # cs) = (case cut_at sep cs of None \<Rightarrow> None | Some (a, b) \<Rightarrow> Some (c # a, b))"
  by simp_all

lemma parse_field_exact_witness:
  "\<exists>vs. parse_field (cron_fields ! 0) ''5/20,*/30'' = Inr vs \<and>
     filter (\<lambda>i. vs ! i) [0..<60] = [0, 5, 25, 30, 45]"
proof -
  have r: "parse_range (cron_fields ! 0) ''5/20'' = Inr (5, 59, 20)"
    "parse_range (cron_fields ! 0) ''*/30'' = Inr (0, 59, 30)"
    by code_simp+
  have sp: "split_on CHR '','' ''5/20,*/30'' = [''5/20'', ''*/30'']" by simp
  have "case parse_field (cron_fields ! 0) ''5/20,*/30'' of Inr _ \<Rightarrow> True | Inl _ \<Rightarrow> False"
    by code_simp
  then obtain vs where v: "parse_field (cron_fields ! 0) ''5/20,*/30'' = Inr vs"
    by (auto split: sum.splits)
  have first: "cron_fields ! 0 \<in> set cron_fields" by (simp add: cron_fields_def)
  have "\<forall>i < 60. vs ! i \<longleftrightarrow> (5 \<le> int i \<and> int i \<le> 59 \<and> (int i - 5) mod 20 = 0) \<or> (0 \<le> int i \<and> int i \<le> 59 \<and> int i mod 30 = 0)"
    using parse_field_exact [OF first v] r unfolding sp by simp
  then have "filter (\<lambda>i. vs ! i) [0..<60] =
      filter (\<lambda>i. (5 \<le> int i \<and> int i \<le> 59 \<and> (int i - 5) mod 20 = 0) \<or> (0 \<le> int i \<and> int i \<le> 59 \<and> int i mod 30 = 0)) [0..<60]"
    by (intro filter_cong) auto
  also have "\<dots> = [0, 5, 25, 30, 45]" by code_simp
  finally show ?thesis using v by blast
qed

text \<open>A step close to the largest \<open>int\<close> crashes the parser: the loop of \<open>parseField\<close> adds it
  to a value above zero, the sum wraps to a negative number, and the array is indexed with it.\<close>

theorem parse_huge_step_panics:
  "parse ''1/9223372036854775807 * * * *'' = Inl (PanicIndex (- (2 ^ 63)))"
  by code_simp

text \<open>A range may not end on the 7 that the parser otherwise reads as Sunday: \<open>5-7\<close>, Friday to
  Sunday, is refused as running backwards.\<close>

theorem parse_range_to_sunday_refused:
  "parse ''0 9 * * 5-7'' = Inl (RunsBackwards ''5-7'' ''day of week'')"
  by code_simp

lemma parse_columns_length:
  "parse_columns specs cols = Inr rest \<Longrightarrow> length specs = length cols \<Longrightarrow>
   length rest = length specs \<and> (\<forall>i < length specs. parse_field (specs ! i) (cols ! i) = Inr (rest ! i))"
proof (induction specs cols arbitrary: rest rule: parse_columns.induct)
  case (1 spec specs column columns)
  then show ?case by (fastforce simp: less_Suc_eq_0_disj split: sum.splits)
qed auto

subsection \<open>Matching and the next occasion\<close>

definition expr_matches :: "Expression \<Rightarrow> zone \<Rightarrow> instant \<Rightarrow> bool" where
  "expr_matches e z at =
     (if \<not> ex_minute e ! t_minute z at \<or> \<not> ex_hour e ! t_hour z at \<or> \<not> ex_month e ! t_month z at then False
      else
        let day = ex_day e ! t_day z at; weekday = ex_weekday e ! t_weekday z at
        in if ex_dayRestricted e \<and> ex_weekdayRestricted e then day \<or> weekday else day \<and> weekday)"

text \<open>\<open>for range mostMinutes\<close>, with the minutes left to try.\<close>

fun next_loop :: "Expression \<Rightarrow> zone \<Rightarrow> nat \<Rightarrow> instant \<Rightarrow> instant option" where
  "next_loop e z 0 at = None"
| "next_loop e z (Suc n) at = (if expr_matches e z at then Some at else next_loop e z n (at + minute))"

definition most_minutes :: nat where
  "most_minutes = 4 * 366 * 24 * 60"

text \<open>\<open>Truncate(time.Minute)\<close> rounds down to a multiple of a minute since the zero time.\<close>

definition truncate_minute :: "instant \<Rightarrow> instant" where
  "truncate_minute t = t - t mod minute"

definition next_at :: "Expression \<Rightarrow> instant \<Rightarrow> zone \<Rightarrow> instant option" where
  "next_at e from zone = next_loop e zone most_minutes (truncate_minute from + minute)"

lemma next_loop_None: "next_loop e z n at = None \<longleftrightarrow> (\<forall>k < n. \<not> expr_matches e z (at + int k * minute))"
proof (induction n arbitrary: at)
  case (Suc n)
  have "(\<forall>k < Suc n. \<not> expr_matches e z (at + int k * minute)) \<longleftrightarrow>
      \<not> expr_matches e z at \<and> (\<forall>k < n. \<not> expr_matches e z (at + minute + int k * minute))"
    by (simp add: less_Suc_eq_0_disj all_conj_distrib algebra_simps imp_ex)
  then show ?case using Suc by simp
qed simp

lemma next_loop_Some: "next_loop e z n at = Some t \<longleftrightarrow>
    (\<exists>k < n. t = at + int k * minute \<and> expr_matches e z t \<and> (\<forall>j < k. \<not> expr_matches e z (at + int j * minute)))"
proof (induction n arbitrary: at)
  case (Suc n)
  show ?case
  proof (cases "expr_matches e z at")
    case True
    then show ?thesis by (auto simp: less_Suc_eq_0_disj intro: exI [of _ "0 :: nat"])
  next
    case False
    have shift: "at + minute + int k * minute = at + int (Suc k) * minute" for k by (simp add: algebra_simps)
    show ?thesis (is "_ \<longleftrightarrow> ?rhs")
    proof
      assume "next_loop e z (Suc n) at = Some t"
      then have "next_loop e z n (at + minute) = Some t" using False by simp
      then obtain k where k: "k < n" "t = at + minute + int k * minute" "expr_matches e z t"
        "\<forall>j < k. \<not> expr_matches e z (at + minute + int j * minute)"
        unfolding Suc.IH by blast
      have "\<not> expr_matches e z (at + int j * minute)" if "j < Suc k" for j
        using that False k(4) shift by (cases j) (simp, metis Suc_less_SucD)
      then show ?rhs using k shift by (intro exI [of _ "Suc k"]) auto
    next
      assume ?rhs
      then obtain k where k: "k < Suc n" "t = at + int k * minute" "expr_matches e z t"
        "\<forall>j < k. \<not> expr_matches e z (at + int j * minute)" by blast
      have "k \<noteq> 0" using k(2,3) False by (cases "k = 0") simp_all
      then obtain m where m: "k = Suc m" by (cases k) auto
      have "next_loop e z n (at + minute) = Some t" unfolding Suc.IH shift
        using k m by (intro exI [of _ m]) (simp del: of_nat_Suc)
      then show "next_loop e z (Suc n) at = Some t" using False by simp
    qed
  qed
qed simp

lemma next_loop_more: "next_loop e z n at = Some t \<Longrightarrow> n \<le> m \<Longrightarrow> next_loop e z m at = Some t"
  unfolding next_loop_Some by (elim exE, rule_tac x = k in exI) auto

lemma minute_pos: "0 < minute"
  by (simp add: minute_def second_def)

lemma truncate_bounds: "truncate_minute t \<le> t" "t < truncate_minute t + minute" "minute dvd truncate_minute t"
  using minute_pos by (auto simp: truncate_minute_def dvd_minus_mod)

text \<open>The minutes the search tries, as the whole minutes after a moment.\<close>

lemma whole_minute_index:
  assumes "from < u" "minute dvd u"
  shows "\<exists>k. u = truncate_minute from + minute + int k * minute"
proof -
  let ?at = "truncate_minute from + minute"
  have at: "minute dvd ?at" using truncate_bounds [of "from"] by auto
  have "?at \<le> u"
  proof (rule ccontr)
    assume "\<not> ?at \<le> u"
    then have "0 < u - truncate_minute from" "u - truncate_minute from < minute"
      using assms(1) truncate_bounds(1) [of "from"] by auto
    moreover have "minute dvd u - truncate_minute from" using assms(2) truncate_bounds(3) by (rule dvd_diff)
    ultimately show False using zdvd_not_zless by blast
  qed
  moreover obtain c where "u - ?at = minute * c" using dvd_diff [OF assms(2) at] by (elim dvdE)
  ultimately have "0 \<le> minute * c" "u = ?at + c * minute" by (auto simp: algebra_simps)
  then show ?thesis using minute_pos by (intro exI [of _ "nat c"]) (simp add: zero_le_mult_iff)
qed

lemma next_at_None:
  assumes "next_at e from z = None" "from < u" "u < from + int most_minutes * minute" "minute dvd u"
  shows "\<not> expr_matches e z u"
proof -
  let ?at = "truncate_minute from + minute"
  obtain k where k: "u = ?at + int k * minute" using whole_minute_index [OF assms(2,4)] by blast
  have "from < ?at" using truncate_bounds [of "from"] by auto
  then have "int k * minute < int most_minutes * minute" using k assms(3) by simp
  then have "k < most_minutes" using minute_pos by (simp add: mult_less_cancel_right)
  then show ?thesis using assms(1) k by (simp add: next_at_def next_loop_None)
qed

lemma next_at_Some:
  assumes "next_at e from z = Some t"
  shows "from < t \<and> minute dvd t \<and> expr_matches e z t"
    and "from < u \<Longrightarrow> u < t \<Longrightarrow> minute dvd u \<Longrightarrow> \<not> expr_matches e z u"
proof -
  let ?at = "truncate_minute from + minute"
  have at: "minute dvd ?at" "from < ?at" using truncate_bounds [of "from"] by auto
  obtain k where k: "t = ?at + int k * minute" "expr_matches e z t"
    "\<forall>j < k. \<not> expr_matches e z (?at + int j * minute)"
    using assms by (auto simp: next_at_def next_loop_Some)
  have "from < t" using k(1) at(2) minute_pos by (simp add: add_pos_nonneg add.commute less_le_trans)
  moreover have "minute dvd t" unfolding k(1) using at(1) by (intro dvd_add) auto
  ultimately show "from < t \<and> minute dvd t \<and> expr_matches e z t" using k(2) by blast
  show "\<not> expr_matches e z u" if u: "from < u" "u < t" "minute dvd u"
  proof -
    obtain j where j: "u = ?at + int j * minute" using whole_minute_index [OF u(1,3)] by blast
    then have "int j * minute < int k * minute" using k(1) u(2) by simp
    then have "j < k" using minute_pos by (simp add: mult_less_cancel_right)
    then show ?thesis using k(3) j by blast
  qed
qed

text \<open>\<open>Next\<close> answers the first occasion: a whole minute strictly after the given moment that
  the expression matches, with no matching minute between the two; and when it answers that
  there is none, none of the next four times 366 days' minutes matches.\<close>

theorem next_at_first:
  "case next_at e from z of
     Some t \<Rightarrow> from < t \<and> minute dvd t \<and> expr_matches e z t \<and>
       (\<forall>u. from < u \<and> u < t \<and> minute dvd u \<longrightarrow> \<not> expr_matches e z u)
   | None \<Rightarrow> \<forall>u. from < u \<and> u < from + int most_minutes * minute \<and> minute dvd u \<longrightarrow> \<not> expr_matches e z u"
  using next_at_Some [of e "from" z] next_at_None [of e "from" z] by (auto split: option.split)

text \<open>The thirtieth of February never comes: whatever the zone and the starting moment, the
  search for it stops with no answer.\<close>

theorem thirtieth_of_february_never:
  "\<exists>e. parse ''0 0 30 2 *'' = Inr e \<and> next_at e from z = None"
proof -
  have "case parse ''0 0 30 2 *'' of Inl _ \<Rightarrow> False
    | Inr e \<Rightarrow> \<not> ex_weekdayRestricted e \<and> filter (\<lambda>i. ex_month e ! i) [0..<60] = [2] \<and>
        filter (\<lambda>i. ex_day e ! i) [0..<60] = [30]"
    by code_simp
  then obtain e where e: "parse ''0 0 30 2 *'' = Inr e" "\<not> ex_weekdayRestricted e"
    and month: "filter (\<lambda>i. ex_month e ! i) [0..<60] = [2]"
    and day: "filter (\<lambda>i. ex_day e ! i) [0..<60] = [30]"
    by (auto split: sum.splits)
  have "\<not> expr_matches e z t" for t
  proof
    assume m: "expr_matches e z t"
    have "t_month z t \<in> set (filter (\<lambda>i. ex_month e ! i) [0..<60])"
      using m t_ranges(5) [of z t] by (auto simp: expr_matches_def split: if_splits)
    then have "t_month z t = 2" unfolding month by simp
    moreover have "t_day z t \<in> set (filter (\<lambda>i. ex_day e ! i) [0..<60])"
      using m e(2) t_ranges(7) [of z t] by (auto simp: expr_matches_def Let_def split: if_splits)
    then have "t_day z t = 30" unfolding day by simp
    ultimately show False using no_thirtieth_of_february [of z t] by simp
  qed
  then show ?thesis using e(1) by (auto simp: next_at_def next_loop_None)
qed

lemma leap_day: 
  assumes "civil d = (y, 2, 29)"
  shows "year_and_day d = (y, 59) \<and> leap_year y"
proof -
  obtain k where k: "year_and_day d = (y, k)" "month_and_day 1 (month_lengths (leap_year y)) k = (2, 29)"
    using assms by (auto simp: civil_def split: prod.splits)
  have b: "0 \<le> k" "k < (if leap_year y then 366 else 365)" using year_day_bounds [OF k(1)] by auto
  define ls where "ls = [31, 30, 31, 30, 31, 31, 30, 31, 30, 31 :: int]"
  define l where "l = (if leap_year y then 29 else 28 :: int)"
  have mon: "month_and_day 1 (month_lengths (leap_year y)) k =
      (if k < 31 then (1, nat k + 1) else if k - 31 < l then (2, nat (k - 31) + 1) else month_and_day 3 ls (k - 31 - l))"
    by (simp add: month_lengths_def ls_def l_def numeral_eq_Suc)
  have "\<not> k < 31" using k(2) mon by (auto split: if_splits)
  moreover have "k - 31 < l"
  proof (rule ccontr)
    assume "\<not> k - 31 < l"
    then have "month_and_day 3 ls (k - 31 - l) = (2, 29)" "0 \<le> k - 31 - l" "k - 31 - l < sum_list ls"
      using k(2) mon \<open>\<not> k < 31\<close> b by (auto simp: ls_def l_def split: if_splits)
    then show False using month_and_day_bounds by fastforce
  qed
  ultimately have "nat (k - 31) + 1 = 29" "k - 31 < l" using k(2) mon by auto
  then have "k = 59" "leap_year y" by (auto simp: l_def split: if_splits)
  then show ?thesis using k(1) by simp
qed

lemma no_leap_day_2096_2100:
  assumes "765243 \<le> d" "d \<le> 766708"
  shows "snd (civil d) \<noteq> (2, 29)"
proof
  assume "snd (civil d) = (2, 29)"
  then obtain y where "civil d = (y, 2, 29)" by (cases "civil d") auto
  then have yd: "year_and_day d = (y, 59)" and leap: "leap_year y" using leap_day by auto
  define r where "r = d - 730485"
  have r: "34758 \<le> r" "r \<le> 36223" using assms by (auto simp: r_def)
  have divs: "d div 146097 = 5" "d mod 146097 = r" using assms by (auto simp: r_def intro: int_div_pos_eq int_mod_pos_eq)
  have r0: "min 3 (r div 36524) = 0" using r by (simp add: div_pos_pos_trivial)
  have year: "year_and_day d = (2001 + 4 * (r div 1461) + min 3 (r mod 1461 div 365),
      r mod 1461 - min 3 (r mod 1461 div 365) * 365)"
    unfolding year_and_day_def Let_def divs r0 by simp
  show False
  proof (cases "r < 35064")
    case True
    then have "r div 1461 = 23" "r mod 1461 = r - 33603"
      using r by (auto intro: int_div_pos_eq int_mod_pos_eq)
    moreover from this have "min 3 (r mod 1461 div 365) = 3" using r by auto
    ultimately show False using yd year r True by simp
  next
    case False
    then have "r div 1461 = 24" using r by (auto intro: int_div_pos_eq)
    then have "y = 2097 + min 3 (r mod 1461 div 365)" using yd year by simp
    moreover have "0 \<le> min 3 (r mod 1461 div 365)" "min 3 (r mod 1461 div 365) \<le> 3"
      by (auto simp: pos_imp_zdiv_nonneg_iff)
    ultimately have "2097 \<le> y" "y \<le> 2100" by linarith+
    then have "y = 2097 \<or> y = 2098 \<or> y = 2099 \<or> y = 2100" by presburger
    then show False using leap by (auto simp: leap_year_def)
  qed
qed

text \<open>Four years do not cover every leap day: asked on 1 March 2096 (in UTC) for the next
  29 February, the search answers that there is none, although 2104 has one.\<close>

theorem leap_day_after_2096_missed:
  "\<exists>e. parse ''0 0 29 2 *'' = Inr e \<and> next_at e (765243 * 24 * 60 * minute) (\<lambda>_. 0) = None \<and>
     expr_matches e (\<lambda>_. 0) (768163 * 24 * 60 * minute)"
proof -
  let ?z = "(\<lambda>_. 0) :: zone"
  have "case parse ''0 0 29 2 *'' of Inl _ \<Rightarrow> False
    | Inr e \<Rightarrow> \<not> ex_weekdayRestricted e \<and> filter (\<lambda>i. ex_month e ! i) [0..<60] = [2] \<and>
        filter (\<lambda>i. ex_day e ! i) [0..<60] = [29] \<and> expr_matches e (\<lambda>_. 0) (768163 * 24 * 60 * minute)"
    by code_simp
  then obtain e where e: "parse ''0 0 29 2 *'' = Inr e" "\<not> ex_weekdayRestricted e"
    and month: "filter (\<lambda>i. ex_month e ! i) [0..<60] = [2]"
    and day: "filter (\<lambda>i. ex_day e ! i) [0..<60] = [29]"
    and later: "expr_matches e (\<lambda>_. 0) (768163 * 24 * 60 * minute)"
    by (auto split: sum.splits)
  have "\<not> expr_matches e ?z (truncate_minute (765243 * 24 * 60 * minute) + minute + int k * minute)"
    if k: "k < most_minutes" for k
  proof
    let ?t = "truncate_minute (765243 * 24 * 60 * minute) + minute + int k * minute"
    assume m: "expr_matches e ?z ?t"
    have "t_month ?z ?t \<in> set (filter (\<lambda>i. ex_month e ! i) [0..<60])"
      using m t_ranges(5) [of ?z ?t] by (auto simp: expr_matches_def split: if_splits)
    moreover have "t_day ?z ?t \<in> set (filter (\<lambda>i. ex_day e ! i) [0..<60])"
      using m e(2) t_ranges(7) [of ?z ?t] by (auto simp: expr_matches_def Let_def split: if_splits)
    ultimately have md: "snd (civil (t_days ?z ?t)) = (2, 29)"
      unfolding month day by (simp add: t_month_def t_day_def prod_eq_iff)
    have "?t = (765243 * 24 * 60 + 1 + int k) * minute"
      by (simp add: truncate_minute_def algebra_simps)
    then have "t_days ?z ?t = (765243 * 24 * 60 + 1 + int k) div (24 * 60)"
      using minute_pos by (simp add: t_days_def local_minutes_def)
    also have "\<dots> \<ge> 765243 \<and> \<dots> \<le> 766708"
      using k zdiv_mono1 [of "765243 * 24 * 60" "765243 * 24 * 60 + 1 + int k" "24 * 60"]
        zdiv_mono1 [of "765243 * 24 * 60 + 1 + int k" "766708 * 24 * 60" "24 * 60"]
      by (simp add: most_minutes_def)
    finally have "765243 \<le> t_days ?z ?t \<and> t_days ?z ?t \<le> 766708" .
    then show False using no_leap_day_2096_2100 md by blast
  qed
  then have "next_at e (765243 * 24 * 60 * minute) ?z = None" by (simp add: next_at_def next_loop_None)
  then show ?thesis using e(1) later by blast
qed

text \<open>The implication in the statement is conditional on nothing: a concrete search.\<close>

lemma next_at_first_witness:
  "\<exists>e. parse ''*/15 * * * *'' = Inr e \<and> next_at e (20 * minute) (\<lambda>_. 0) = Some (30 * minute) \<and>
     \<not> expr_matches e (\<lambda>_. 0) (25 * minute)"
proof -
  let ?z = "(\<lambda>_. 0) :: zone"
  have "case parse ''*/15 * * * *'' of Inl _ \<Rightarrow> False
    | Inr e \<Rightarrow> next_loop e ?z 20 (truncate_minute (20 * minute) + minute) = Some (30 * minute)"
    by code_simp
  then obtain e where e: "parse ''*/15 * * * *'' = Inr e"
    "next_loop e ?z 20 (truncate_minute (20 * minute) + minute) = Some (30 * minute)"
    by (auto split: sum.splits)
  have n: "next_at e (20 * minute) ?z = Some (30 * minute)"
    unfolding next_at_def by (rule next_loop_more [OF e(2)]) (simp add: most_minutes_def)
  have "\<not> expr_matches e ?z (25 * minute)"
    using next_at_first [of "20 * minute" e ?z] n minute_pos by auto
  then show ?thesis using e(1) n by blast
qed

subsection \<open>What a schedule owes\<close>

datatype ScheduleError =
    SParse ParseError
  | UnknownZone string
  | NamesNoTime string

text \<open>\<open>time.LoadLocation\<close> and \<open>time.Local\<close> are the parameters \<open>load\<close> and \<open>local\<close>.\<close>

definition zone_of :: "(string \<Rightarrow> zone option) \<Rightarrow> zone \<Rightarrow> Schedule \<Rightarrow> ScheduleError + zone" where
  "zone_of load local schedule =
     (if sc_Zone schedule = '''' then Inr local
      else case load (sc_Zone schedule) of
        None \<Rightarrow> Inl (UnknownZone (sc_Zone schedule))
      | Some zone \<Rightarrow> Inr zone)"

definition most_counted :: nat where
  "most_counted = 10000"

text \<open>The loop of \<open>Owed\<close>, from the answer of the latest \<open>Next\<close>.\<close>

function owed_loop :: "Expression \<Rightarrow> zone \<Rightarrow> instant \<Rightarrow> instant \<Rightarrow> nat \<Rightarrow> instant option \<Rightarrow> instant \<times> nat" where
  "owed_loop e z now due missed None = (due, missed)"
| "owed_loop e z now due missed (Some at) =
     (if at > now then (due, missed)
      else
        let missed = (if \<not> is_zero due then missed + 1 else missed); due = at
        in if missed > most_counted then (due, missed)
           else owed_loop e z now due missed (next_at e at z))"
  by pat_completeness auto
termination
proof (relation "measure (\<lambda>(e, z, now, due, missed, at). case at of None \<Rightarrow> 0 | Some t \<Rightarrow> Suc (nat (now - t + 1)))")
  fix e z and now due at :: instant and missed x :: nat and xa :: instant
  assume "\<not> now < at"
  then show "((e, z, now, xa, x, next_at e at z), e, z, now, due, missed, Some at)
      \<in> measure (\<lambda>(e, z, now, due, missed, at). case at of None \<Rightarrow> 0 | Some t \<Rightarrow> Suc (nat (now - t + 1)))"
    using next_at_Some(1) [of e at z] by (cases "next_at e at z") auto
qed simp

definition zero_firing :: Firing where
  "zero_firing = \<lparr>fi_ScheduleID = '''', fi_Revision = 0, fi_For = zero_time, fi_Observed = zero_time,
     fi_Missed = 0, fi_RunID = ''''\<rparr>"

definition owed ::
    "(string \<Rightarrow> zone option) \<Rightarrow> zone \<Rightarrow> Schedule \<Rightarrow> instant \<Rightarrow> instant \<Rightarrow> ScheduleError + (Firing \<times> bool)" where
  "owed load local schedule lastResolved now =
     (if sc_Paused schedule then Inr (zero_firing, False)
      else case parse (sc_Expression schedule) of
        Inl e \<Rightarrow> Inl (SParse e)
      | Inr expression \<Rightarrow>
          (case zone_of load local schedule of
             Inl e \<Rightarrow> Inl e
           | Inr zone \<Rightarrow>
               let since = (if is_zero lastResolved then sc_CreatedAt schedule else lastResolved);
                   (due, missed) = owed_loop expression zone now zero_time 0 (next_at expression since zone);
                   firing = \<lparr>fi_ScheduleID = sc_ID schedule, fi_Revision = sc_Revision schedule,
                     fi_For = due, fi_Observed = now, fi_Missed = int missed, fi_RunID = ''''\<rparr>
               in if is_zero due then Inr (zero_firing, False)
                  else if sc_Missed schedule = MissedSkip \<and> missed > 0 then Inr (firing, False)
                  else Inr (firing, True)))"

text \<open>\<open>time.Now()\<close> in \<open>check\<close> is the parameter \<open>now\<close>; \<open>Validate\<close> wraps its error.\<close>

definition check_schedule :: "(string \<Rightarrow> zone option) \<Rightarrow> zone \<Rightarrow> instant \<Rightarrow> Schedule \<Rightarrow> ScheduleError + unit" where
  "check_schedule load local now schedule =
     (case parse (sc_Expression schedule) of
        Inl e \<Rightarrow> Inl (SParse e)
      | Inr expression \<Rightarrow>
          (case zone_of load local schedule of
             Inl e \<Rightarrow> Inl e
           | Inr zone \<Rightarrow>
               let start = (if is_zero (sc_CreatedAt schedule) then now else sc_CreatedAt schedule)
               in (case next_at expression start zone of
                     None \<Rightarrow> Inl (NamesNoTime (sc_Expression schedule))
                   | Some _ \<Rightarrow> Inr ())))"

definition next_after :: "(string \<Rightarrow> zone option) \<Rightarrow> zone \<Rightarrow> Schedule \<Rightarrow> instant \<Rightarrow> instant option" where
  "next_after load local one from =
     (case parse (sc_Expression one) of
        Inl _ \<Rightarrow> None
      | Inr expression \<Rightarrow>
          (case zone_of load local one of Inl _ \<Rightarrow> None | Inr zone \<Rightarrow> next_at expression from zone))"

text \<open>The occasions of an expression: the whole minutes it matches.\<close>

definition occasions :: "Expression \<Rightarrow> zone \<Rightarrow> instant \<Rightarrow> instant \<Rightarrow> instant set" where
  "occasions e z a b = {u. a < u \<and> u \<le> b \<and> minute dvd u \<and> expr_matches e z u}"

lemma finite_occasions [simp]: "finite (occasions e z a b)"
  by (rule finite_subset [of _ "{a<..b}"]) (auto simp: occasions_def)

lemma occasions_next:
  assumes "next_at e a z = Some t" "t \<le> b"
  shows "occasions e z a b = insert t (occasions e z t b)" "t \<notin> occasions e z t b"
  using next_at_Some [OF assms(1)] assms(2)
  by (auto simp: occasions_def) (meson linorder_neqE_linordered_idom)+

text \<open>What the loop finds: the newest of the occasions counted and how many came before it.\<close>

lemma owed_loop_result:
  assumes "owed_loop e z now due missed (next_at e prev z) = (due', missed')"
    and "0 \<le> prev" and "(due = 0 \<and> missed = 0) \<or> (due = prev \<and> due \<noteq> 0)"
  shows "((due' = due \<and> missed' = missed) \<or>
      (prev < due' \<and> due' \<le> now \<and> due' \<in> occasions e z prev now \<and>
       missed' + 1 = missed + (if due = 0 then 0 else 1) + card (occasions e z prev due'))) \<and>
    (missed \<le> most_counted \<longrightarrow> missed' \<le> most_counted + 1) \<and>
    (missed' \<le> most_counted \<longrightarrow>
       (case next_at e (if due' = due then prev else due') z of None \<Rightarrow> True | Some t \<Rightarrow> now < t))"
  using assms
proof (induction "nat (now - prev + 1)" arbitrary: prev due missed rule: less_induct)
  case less
  show ?case
  proof (cases "next_at e prev z")
    case None
    then show ?thesis using less.prems(1) by auto
  next
    case (Some t)
    have t: "prev < t" "minute dvd t" "expr_matches e z t" using next_at_Some(1) [OF Some] by auto
    show ?thesis
    proof (cases "now < t")
      case True
      then show ?thesis using less.prems(1) Some by auto
    next
      case False
      define m where "m = (if due \<noteq> 0 then missed + 1 else missed)"
      have t0: "t \<noteq> 0" "0 \<le> t" using t(1) less.prems(2) by auto
      have here: "t \<in> occasions e z prev now" using t False by (simp add: occasions_def)
      have upto_t: "occasions e z prev t = {t}"
        unfolding occasions_next(1) [OF Some order_refl] by (auto simp: occasions_def)
      show ?thesis
      proof (cases "m > most_counted")
        case True
        then have "due' = t" "missed' = m" using less.prems(1) Some False by (auto simp: m_def zero_time_def Let_def)
        then show ?thesis using True t False here upto_t less.prems(3) by (auto simp: m_def)
      next
        case False2: False
        have rest: "owed_loop e z now t m (next_at e t z) = (due', missed')"
          using less.prems(1) Some False False2 by (simp add: m_def zero_time_def Let_def)
        have IH: "((due' = t \<and> missed' = m) \<or>
            (t < due' \<and> due' \<le> now \<and> due' \<in> occasions e z t now \<and>
             missed' + 1 = m + 1 + card (occasions e z t due'))) \<and>
            (m \<le> most_counted \<longrightarrow> missed' \<le> most_counted + 1) \<and>
            (missed' \<le> most_counted \<longrightarrow> (case next_at e (if due' = t then t else due') z of None \<Rightarrow> True | Some u \<Rightarrow> now < u))"
          using less.hyps [of t t m] rest t(1) t0 False by auto
        have ne: "due' \<noteq> due" using IH t(1) t0 less.prems(2,3) by (auto simp: occasions_def)
        have count: "missed' + 1 = missed + (if due = 0 then 0 else 1) + card (occasions e z prev due')"
          and due': "prev < due' \<and> due' \<le> now \<and> due' \<in> occasions e z prev now"
        proof -
          consider (same) "due' = t" "missed' = m"
            | (later) "t < due'" "due' \<le> now" "due' \<in> occasions e z t now"
                "missed' + 1 = m + 1 + card (occasions e z t due')"
            using IH by blast
          then have "missed' + 1 = m + card (occasions e z prev due') \<and>
              prev < due' \<and> due' \<le> now \<and> due' \<in> occasions e z prev now"
          proof cases
            case same
            then show ?thesis using upto_t here False t(1) by simp
          next
            case later
            then have "occasions e z prev due' = insert t (occasions e z t due')" "t \<notin> occasions e z t due'"
              using occasions_next [OF Some, of due'] by auto
            then have "card (occasions e z prev due') = Suc (card (occasions e z t due'))" by simp
            moreover have "due' \<in> occasions e z prev now"
              using later(3) t(1) by (auto simp: occasions_def)
            ultimately show ?thesis using later t(1) by simp
          qed
          then show "missed' + 1 = missed + (if due = 0 then 0 else 1) + card (occasions e z prev due')"
            "prev < due' \<and> due' \<le> now \<and> due' \<in> occasions e z prev now"
            by (simp_all add: m_def)
        qed
        have "missed' \<le> most_counted + 1" using IH False2 by auto
        moreover have "missed' \<le> most_counted \<longrightarrow> (case next_at e due' z of None \<Rightarrow> True | Some u \<Rightarrow> now < u)"
          using IH by (cases "due' = t") simp_all
        ultimately show ?thesis using ne count due' by simp
      qed
    qed
  qed
qed

text \<open>A schedule that \<open>Owed\<close> can answer for, with its expression, its zone and the moment its
  account starts from.\<close>

definition answers_for ::
    "(string \<Rightarrow> zone option) \<Rightarrow> zone \<Rightarrow> Schedule \<Rightarrow> instant \<Rightarrow> Expression \<Rightarrow> zone \<Rightarrow> instant \<Rightarrow> bool" where
  "answers_for load local schedule lastResolved e z since \<longleftrightarrow>
     \<not> sc_Paused schedule \<and> parse (sc_Expression schedule) = Inr e \<and> zone_of load local schedule = Inr z \<and>
     since = (if is_zero lastResolved then sc_CreatedAt schedule else lastResolved) \<and> 0 \<le> since"

lemma owed_unfold:
  assumes "answers_for load local schedule lastResolved e z since"
    and "owed_loop e z now 0 0 (next_at e since z) = (due, missed)"
  shows "owed load local schedule lastResolved now =
    (if due = 0 then Inr (zero_firing, False)
     else Inr (\<lparr>fi_ScheduleID = sc_ID schedule, fi_Revision = sc_Revision schedule, fi_For = due,
                fi_Observed = now, fi_Missed = int missed, fi_RunID = ''''\<rparr>,
               \<not> (sc_Missed schedule = MissedSkip \<and> missed > 0)))"
  using assms by (auto simp: owed_def answers_for_def zero_time_def Let_def)

text \<open>C23. What a schedule owes is the newest occasion its search reaches, with a true count of those before it:
  the firing is due at an occasion after the account's start and no later than now, its missed
  count is one less than the number of occasions from that start up to it, and it is to be run unless the policy
  is to skip and something was missed. Later occasions may be due only where the search gives up: within the four years it looks
  ahead of the occasion it found there is none that is due already, as long as its count has not passed its cut-off of
  ten thousand. (Beyond four years there can be one: \<open>leap_day_after_2096_missed\<close>, and \<open>long_absence_owes_again\<close> passes the cut-off.)\<close>

theorem owed_newest_occasion:
  assumes "answers_for load local schedule lastResolved e z since"
    and "owed load local schedule lastResolved now = Inr (f, run)" and "\<not> is_zero (fi_For f)"
  shows "fi_ScheduleID f = sc_ID schedule \<and> fi_Revision f = sc_Revision schedule \<and> fi_Observed f = now \<and>
    fi_For f \<in> occasions e z since now \<and>
    fi_Missed f + 1 = int (card (occasions e z since (fi_For f))) \<and>
    (run \<longleftrightarrow> \<not> (sc_Missed schedule = MissedSkip \<and> fi_Missed f > 0)) \<and>
    (fi_Missed f \<le> int most_counted \<longrightarrow>
       (\<forall>u \<in> occasions e z (fi_For f) now. fi_For f + int most_minutes * minute \<le> u))"
proof -
  obtain due missed where l: "owed_loop e z now 0 0 (next_at e since z) = (due, missed)"
    by (cases "owed_loop e z now 0 0 (next_at e since z)")
  have f: "due \<noteq> 0" "f = \<lparr>fi_ScheduleID = sc_ID schedule, fi_Revision = sc_Revision schedule, fi_For = due,
      fi_Observed = now, fi_Missed = int missed, fi_RunID = ''''\<rparr>"
    "run \<longleftrightarrow> \<not> (sc_Missed schedule = MissedSkip \<and> missed > 0)"
    using assms(2,3) owed_unfold [OF assms(1) l] by (auto simp: zero_firing_def zero_time_def split: if_splits)
  have since: "0 \<le> since" using assms(1) by (simp add: answers_for_def)
  have r: "due \<in> occasions e z since now" "missed + 1 = card (occasions e z since due)"
    "missed \<le> most_counted \<longrightarrow> (case next_at e due z of None \<Rightarrow> True | Some t \<Rightarrow> now < t)"
    using owed_loop_result [OF l since] f(1) by auto
  have "due + int most_minutes * minute \<le> u"
    if "missed \<le> most_counted" "u \<in> occasions e z due now" for u
  proof (cases "next_at e due z")
    case None
    then show ?thesis using next_at_None [OF None] that(2) by (force simp: occasions_def)
  next
    case (Some t)
    then have "now < t" using r(3) that(1) by simp
    then show ?thesis using next_at_Some(2) [OF Some] that(2) by (force simp: occasions_def)
  qed
  then show ?thesis using f r(1,2) by auto
qed

text \<open>A resolved occasion is not owed again: once the newest occasion has been resolved, asking
  at the same moment owes nothing, so a reconcile that is repeated runs nothing twice (as long as
  the count of missed occasions had not reached its cut-off).\<close>

theorem owed_settles:
  assumes "answers_for load local schedule lastResolved e z since"
    and "owed load local schedule lastResolved now = Inr (f, run)" and "\<not> is_zero (fi_For f)"
    and "fi_Missed f \<le> int most_counted"
  shows "owed load local schedule (fi_For f) now = Inr (zero_firing, False)"
proof -
  obtain due missed where l: "owed_loop e z now 0 0 (next_at e since z) = (due, missed)"
    by (cases "owed_loop e z now 0 0 (next_at e since z)")
  have f: "due \<noteq> 0" "fi_For f = due" "fi_Missed f = int missed"
    using assms(2,3) owed_unfold [OF assms(1) l] by (auto simp: zero_firing_def zero_time_def split: if_splits)
  have since: "0 \<le> since" using assms(1) by (simp add: answers_for_def)
  have r: "since < due" "case next_at e due z of None \<Rightarrow> True | Some t \<Rightarrow> now < t"
    using owed_loop_result [OF l since] f assms(4) by auto
  then have "owed_loop e z now 0 0 (next_at e due z) = (0, 0)"
    by (cases "next_at e due z") auto
  moreover have "answers_for load local schedule due e z due"
    using assms(1) r(1) since f(1) by (auto simp: answers_for_def zero_time_def)
  ultimately show ?thesis using owed_unfold [of load local schedule due e z due now 0 0] f(2) by simp
qed

subsection \<open>Concrete schedules\<close>

definition utc :: zone where "utc = (\<lambda>_. 0)"

definition quarter_hourly :: Schedule where
  "quarter_hourly = \<lparr>sc_ID = ''q'', sc_Revision = 3, sc_Expression = ''*/15 * * * *'', sc_Zone = '''',
     sc_Prompt = ''look'', sc_SessionID = ''s'', sc_CreatedBy = from_the_machine ''cli'', sc_Deliver = [],
     sc_Missed = MissedSkip, sc_Paused = False, sc_CreatedAt = 20 * minute\<rparr>"

lemma quarter_hours:
  "\<exists>e. parse ''*/15 * * * *'' = Inr e \<and> next_at e (20 * minute) utc = Some (30 * minute) \<and>
     next_at e (30 * minute) utc = Some (45 * minute) \<and> next_at e (45 * minute) utc = Some (60 * minute)"
proof -
  have "case parse ''*/15 * * * *'' of Inl _ \<Rightarrow> False
    | Inr e \<Rightarrow> list_all (\<lambda>(a, b). next_loop e utc 20 (truncate_minute (a * minute) + minute) = Some (b * minute))
        [(20, 30), (30, 45), (45, 60)]"
    by code_simp
  then obtain e where e: "parse ''*/15 * * * *'' = Inr e"
    "next_loop e utc 20 (truncate_minute (20 * minute) + minute) = Some (30 * minute)"
    "next_loop e utc 20 (truncate_minute (30 * minute) + minute) = Some (45 * minute)"
    "next_loop e utc 20 (truncate_minute (45 * minute) + minute) = Some (60 * minute)"
    by (auto split: sum.splits)
  moreover have "20 \<le> most_minutes" by (simp add: most_minutes_def)
  ultimately show ?thesis unfolding next_at_def by (blast intro: next_loop_more)
qed

lemma quarter_hourly_owed:
  "\<exists>e f. answers_for (\<lambda>_. None) utc quarter_hourly 0 e utc (20 * minute) \<and>
     owed (\<lambda>_. None) utc quarter_hourly 0 (50 * minute) = Inr (f, False) \<and> fi_For f = 45 * minute \<and> fi_Missed f = 1"
proof -
  obtain e where e: "parse ''*/15 * * * *'' = Inr e" "next_at e (20 * minute) utc = Some (30 * minute)"
    "next_at e (30 * minute) utc = Some (45 * minute)" "next_at e (45 * minute) utc = Some (60 * minute)"
    using quarter_hours by blast
  have a: "answers_for (\<lambda>_. None) utc quarter_hourly 0 e utc (20 * minute)"
    using e(1) minute_pos by (simp add: answers_for_def quarter_hourly_def zone_of_def zero_time_def)
  have "owed_loop e utc (50 * minute) 0 0 (next_at e (20 * minute) utc) = (45 * minute, 1)"
    using e minute_pos by (simp add: zero_time_def most_counted_def)
  then show ?thesis
    using a owed_unfold [OF a, of "50 * minute"] minute_pos by (auto simp: quarter_hourly_def)
qed

lemma owed_newest_occasion_witness:
  "\<exists>e f. owed (\<lambda>_. None) utc quarter_hourly 0 (50 * minute) = Inr (f, False) \<and>
     card (occasions e utc (20 * minute) (45 * minute)) = 2 \<and> 45 * minute \<in> occasions e utc (20 * minute) (50 * minute)"
proof -
  obtain e f where "answers_for (\<lambda>_. None) utc quarter_hourly 0 e utc (20 * minute)"
    and o: "owed (\<lambda>_. None) utc quarter_hourly 0 (50 * minute) = Inr (f, False)" and f: "fi_For f = 45 * minute" "fi_Missed f = 1"
    using quarter_hourly_owed by blast
  moreover have "\<not> is_zero (fi_For f)" using f minute_pos by (simp add: zero_time_def)
  ultimately show ?thesis
    using owed_newest_occasion [of "\<lambda>_. None" utc quarter_hourly 0 e utc "20 * minute" "50 * minute" f False]
    by auto
qed

lemma owed_settles_witness:
  "owed (\<lambda>_. None) utc quarter_hourly (45 * minute) (50 * minute) = Inr (zero_firing, False)"
proof -
  obtain e f where "answers_for (\<lambda>_. None) utc quarter_hourly 0 e utc (20 * minute)"
    and o: "owed (\<lambda>_. None) utc quarter_hourly 0 (50 * minute) = Inr (f, False)" and f: "fi_For f = 45 * minute" "fi_Missed f = 1"
    using quarter_hourly_owed by blast
  moreover have "\<not> is_zero (fi_For f)" using f minute_pos by (simp add: zero_time_def)
  ultimately show ?thesis
    using owed_settles [of "\<lambda>_. None" utc quarter_hourly 0 e utc "20 * minute" "50 * minute" f False]
    by (simp add: most_counted_def)
qed

text \<open>Every minute, for the longest absence the count does not cover.\<close>

definition every_minute :: Schedule where
  "every_minute = quarter_hourly\<lparr>sc_Expression := ''* * * * *'', sc_Missed := MissedCoalesce, sc_CreatedAt := 0\<rparr>"

lemma every_minute_matches:
  assumes "parse ''* * * * *'' = Inr e"
  shows "expr_matches e z t"
proof -
  have "case parse ''* * * * *'' of Inl _ \<Rightarrow> False
    | Inr e \<Rightarrow> list_all (\<lambda>i. ex_minute e ! i) [0..<60] \<and> list_all (\<lambda>i. ex_hour e ! i) [0..<24] \<and>
        list_all (\<lambda>i. ex_month e ! i) [1..<13] \<and> list_all (\<lambda>i. ex_day e ! i) [1..<32] \<and>
        list_all (\<lambda>i. ex_weekday e ! i) [0..<7]"
    by code_simp
  then have "\<forall>i < 60. ex_minute e ! i" "\<forall>i < 24. ex_hour e ! i" "\<forall>i. 1 \<le> i \<and> i < 13 \<longrightarrow> ex_month e ! i"
    "\<forall>i. 1 \<le> i \<and> i < 32 \<longrightarrow> ex_day e ! i" "\<forall>i < 7. ex_weekday e ! i"
    using assms by (auto simp: list_all_iff)
  moreover have "t_month z t < 13" "t_day z t < 32" using t_ranges [of z t] by auto
  ultimately show ?thesis using t_ranges [of z t] by (simp add: expr_matches_def Let_def)
qed

lemma occasions_all:
  assumes "\<And>t. expr_matches e z t"
  shows "occasions e z 0 (int n * minute) = (\<lambda>k. int k * minute) ` {1..n}"
proof (rule set_eqI, rule iffI)
  fix u assume "u \<in> occasions e z 0 (int n * minute)"
  then obtain c where c: "u = minute * c" "0 < minute * c" "minute * c \<le> int n * minute"
    by (auto simp: occasions_def)
  then have "0 < c" using minute_pos by (simp add: zero_less_mult_iff)
  moreover have "c \<le> int n" using c(3) minute_pos by (simp add: mult.commute)
  ultimately show "u \<in> (\<lambda>k. int k * minute) ` {1..n}"
    using c(1) by (intro image_eqI [of _ _ "nat c"]) auto
qed (use assms minute_pos in \<open>auto simp: occasions_def\<close>)

text \<open>The cut-off of the count also cuts off the account: a schedule of every minute that
  nobody looked at for 20000 minutes owes a firing that is not its newest occasion, and once
  that firing is resolved it owes another one at the very same moment.\<close>

theorem long_absence_owes_again:
  "\<exists>f g. owed (\<lambda>_. None) utc every_minute 0 (20000 * minute) = Inr (f, True) \<and> fi_For f \<le> 10002 * minute \<and>
     owed (\<lambda>_. None) utc every_minute (fi_For f) (20000 * minute) = Inr (g, True) \<and> fi_For f < fi_For g"
proof -
  let ?now = "20000 * minute"
  have "case parse ''* * * * *'' of Inl _ \<Rightarrow> False | Inr _ \<Rightarrow> True" by code_simp
  then obtain e where e: "parse ''* * * * *'' = Inr e" by (auto split: sum.splits)
  note all = every_minute_matches [OF e, of utc]
  have nxt: "\<exists>t. next_at e a utc = Some t \<and> a < t \<and> t \<le> a + minute" for a
  proof -
    have "next_at e a utc = Some (truncate_minute a + minute)"
      unfolding next_at_def
      by (rule next_loop_more [of _ _ "Suc 0"]) (simp_all add: all most_minutes_def)
    then show ?thesis using truncate_bounds [of a] by auto
  qed
  have ans: "answers_for (\<lambda>_. None) utc every_minute a e utc a" if "0 \<le> a" for a
    using e that by (auto simp: answers_for_def every_minute_def quarter_hourly_def zone_of_def zero_time_def)
  obtain due missed where l: "owed_loop e utc ?now 0 0 (next_at e 0 utc) = (due, missed)"
    by (cases "owed_loop e utc ?now 0 0 (next_at e 0 utc)")
  have r: "missed \<le> 10001" "due \<noteq> 0 \<Longrightarrow> due \<in> occasions e utc 0 ?now \<and> missed + 1 = card (occasions e utc 0 due)"
    "due = 0 \<Longrightarrow> False"
    using owed_loop_result [OF l] nxt [of 0] minute_pos by (auto simp: most_counted_def)
  obtain n where n: "due = int n * minute"
  proof -
    have "minute dvd due" "0 < due" using r by (auto simp: occasions_def)
    then obtain c where "due = minute * c" by (elim dvdE)
    then show ?thesis using that [of "nat c"] \<open>0 < due\<close> minute_pos by (simp add: zero_less_mult_iff)
  qed
  have "inj_on (\<lambda>k. int k * minute) {1..n}" using minute_pos by (auto simp: inj_on_def)
  then have "card (occasions e utc 0 due) = n"
    unfolding n occasions_all [OF all] by (simp add: card_image)
  moreover have "missed + 1 = card (occasions e utc 0 due)" using r(2,3) by blast
  ultimately have "int n \<le> 10002" using r(1) by linarith
  moreover have "0 < due" using r(2,3) by (auto simp: occasions_def)
  ultimately have due: "0 < due" "due \<le> 10002 * minute"
    using n minute_pos by (auto intro: mult_right_mono)
  obtain due2 missed2 where l2: "owed_loop e utc ?now 0 0 (next_at e due utc) = (due2, missed2)"
    by (cases "owed_loop e utc ?now 0 0 (next_at e due utc)")
  have r2: "due2 \<noteq> 0" "due < due2"
    using owed_loop_result [OF l2] nxt [of due] due minute_pos by (auto simp: most_counted_def)
  show ?thesis
    using owed_unfold [OF ans [of 0] l] owed_unfold [OF ans [of due] l2] due r2
    by (auto simp: every_minute_def)
qed

end
