(* ===== verification/Permission.thy ===== *)
theory Permission
imports Domain
begin

text \<open>
  Whether a tool call may proceed: the tool levels (\<open>core/internal/tool/tool.go\<close>) and the policy
  engine (\<open>core/internal/permission/permission.go\<close>), with its four profiles, the profile a session
  was opened under, and the standing approvals of a session.

  Reading a call's arguments is \<open>encoding/json\<close>'s: the parameter \<open>decode\<close> gives the members of the
  arguments with, for each, whether it is a string and its text as \<open>%v\<close> prints it.
\<close>

subsection \<open>Tool levels and capabilities\<close>

text \<open>\<open>Level\<close> is an \<open>int\<close>; \<open>LevelOther\<close> is every value beyond the constants.\<close>

datatype Level =
    LevelInternal | LevelWorkspaceRead | LevelNetworkRead | LevelWorkspaceWrite
  | LevelRemember | LevelExecute | LevelHighImpact | LevelOther int

fun level_int :: "Level \<Rightarrow> int" where
  "level_int LevelInternal = 0"
| "level_int LevelWorkspaceRead = 1"
| "level_int LevelNetworkRead = 2"
| "level_int LevelWorkspaceWrite = 3"
| "level_int LevelRemember = 4"
| "level_int LevelExecute = 5"
| "level_int LevelHighImpact = 6"
| "level_int (LevelOther n) = n"

fun level_string :: "Level \<Rightarrow> string" where
  "level_string LevelInternal = ''internal''"
| "level_string LevelNetworkRead = ''network_read''"
| "level_string LevelWorkspaceRead = ''workspace_read''"
| "level_string LevelWorkspaceWrite = ''workspace_write''"
| "level_string LevelRemember = ''remember''"
| "level_string LevelExecute = ''execute''"
| "level_string LevelHighImpact = ''high_impact''"
| "level_string (LevelOther n) = ''unknown''"

definition known_levels :: "Level list" where
  "known_levels = [LevelInternal, LevelWorkspaceRead, LevelNetworkRead,
     LevelWorkspaceWrite, LevelRemember, LevelExecute, LevelHighImpact]"

definition level_by_name :: "string \<Rightarrow> Level \<times> bool" where
  "level_by_name name =
     (case find (\<lambda>level. level_string level = name) known_levels of
        Some level \<Rightarrow> (level, True)
      | None \<Rightarrow> (LevelInternal, False))"

lemma level_by_name_string: "level \<in> set known_levels \<Longrightarrow> level_by_name (level_string level) = (level, True)"
proof -
  have "list_all (\<lambda>level. level_by_name (level_string level) = (level, True)) known_levels"
    by code_simp
  then show "level \<in> set known_levels \<Longrightarrow> level_by_name (level_string level) = (level, True)"
    by (simp add: list_all_iff)
qed

record Capabilities =
  ca_ReadFS :: bool
  ca_WriteFS :: bool
  ca_Execute :: bool
  ca_Network :: bool
  ca_Secrets :: bool
  ca_Destructive :: bool
  ca_Idempotent :: bool
  ca_ParallelSafe :: bool
  ca_ForeignContent :: bool
  ca_Provenance :: Provenance

record Spec =
  sp_Name :: string
  sp_Description :: string
  sp_InputSchema :: string
  sp_Level :: Level
  sp_Capabilities :: Capabilities
  sp_Deferred :: bool

record Call =
  ca_ID :: string
  ca_Name :: string
  ca_Arguments :: string

text \<open>\<open>EffectiveLevel\<close>: \<open>levelFor\<close> is the tool's \<open>LevelFor\<close>, when it implements \<open>Leveled\<close>.\<close>

definition effective_level :: "Level \<Rightarrow> ('c \<Rightarrow> Level) option \<Rightarrow> 'c \<Rightarrow> Level" where
  "effective_level level levelFor call =
     (case levelFor of
        Some f \<Rightarrow> (let raised = f call in if level_int raised > level_int level then raised else level)
      | None \<Rightarrow> level)"

lemma effective_level_raises: "level_int level \<le> level_int (effective_level level f call)"
  by (simp add: effective_level_def Let_def split: option.split)

subsection \<open>Profiles\<close>

datatype Decision = Allow | Ask | Deny

fun decision_text :: "Decision \<Rightarrow> string" where
  "decision_text Allow = ''allow''"
| "decision_text Ask = ''ask''"
| "decision_text Deny = ''deny''"

record Profile =
  pf_Name :: string
  pf_Defaults :: "(Level, Decision) gomap"
  pf_DenyTools :: "string list"

definition local_profile :: Profile where
  "local_profile = \<lparr>pf_Name = ''local'',
     pf_Defaults = [(LevelInternal, Allow), (LevelWorkspaceRead, Allow), (LevelNetworkRead, Allow),
       (LevelWorkspaceWrite, Ask), (LevelRemember, Ask), (LevelExecute, Ask), (LevelHighImpact, Deny)],
     pf_DenyTools = []\<rparr>"

definition gateway_profile :: Profile where
  "gateway_profile = \<lparr>pf_Name = ''gateway'',
     pf_Defaults = [(LevelInternal, Allow), (LevelWorkspaceRead, Allow), (LevelNetworkRead, Ask),
       (LevelWorkspaceWrite, Ask), (LevelRemember, Ask), (LevelExecute, Deny), (LevelHighImpact, Deny)],
     pf_DenyTools = []\<rparr>"

definition unattended_profile :: Profile where
  "unattended_profile = \<lparr>pf_Name = ''unattended'',
     pf_Defaults = [(LevelInternal, Allow), (LevelWorkspaceRead, Allow), (LevelNetworkRead, Allow),
       (LevelWorkspaceWrite, Deny), (LevelRemember, Deny), (LevelExecute, Deny), (LevelHighImpact, Deny)],
     pf_DenyTools = [''ask_user'']\<rparr>"

definition console_profile :: Profile where
  "console_profile = \<lparr>pf_Name = ''console'',
     pf_Defaults = [(LevelInternal, Allow), (LevelWorkspaceRead, Allow), (LevelNetworkRead, Allow),
       (LevelWorkspaceWrite, Ask), (LevelRemember, Ask), (LevelExecute, Deny), (LevelHighImpact, Deny)],
     pf_DenyTools = []\<rparr>"

definition profile_by_name :: "string \<Rightarrow> Profile option" where
  "profile_by_name name =
     (if name = ''local'' then Some local_profile
      else if name = ''gateway'' then Some gateway_profile
      else if name = ''console'' then Some console_profile
      else if name = ''unattended'' then Some unattended_profile
      else None)"

lemmas profile_defs = local_profile_def gateway_profile_def unattended_profile_def console_profile_def

subsection \<open>The engine\<close>

record Engine =
  en_profiles :: "(string, Profile) gomap"
  en_fallback :: Profile
  en_sessionProfile :: "(SessionID, string) gomap"
  en_granted :: "(SessionID, (string, bool) gomap) gomap"

definition new_engine :: "Profile \<Rightarrow> Engine" where
  "new_engine profile =
     \<lparr>en_profiles = foldl (\<lambda>m p. case gm_get m (pf_Name p) of None \<Rightarrow> gm_set m (pf_Name p) p | Some _ \<Rightarrow> m)
        [(pf_Name profile, profile)] [gateway_profile, console_profile, unattended_profile],
      en_fallback = profile, en_sessionProfile = [], en_granted = []\<rparr>"

datatype UseProfileError = NoProfileNamed string

definition use_profile :: "SessionID \<Rightarrow> string \<Rightarrow> Engine \<Rightarrow> UseProfileError + Engine" where
  "use_profile session name en =
     (if name = '''' then Inr en
      else case gm_get (en_profiles en) name of
        None \<Rightarrow> Inl (NoProfileNamed name)
      | Some _ \<Rightarrow> Inr (en\<lparr>en_sessionProfile := gm_set (en_sessionProfile en) session name\<rparr>))"

definition profile_for :: "SessionID \<Rightarrow> Engine \<Rightarrow> Profile" where
  "profile_for session en =
     (case gm_get (en_sessionProfile en) session of
        Some name \<Rightarrow> (case gm_get (en_profiles en) name of Some profile \<Rightarrow> profile | None \<Rightarrow> en_fallback en)
      | None \<Rightarrow> en_fallback en)"

definition grant_key :: "string \<Rightarrow> string" where
  "grant_key toolName = ''tool:'' @ toolName"

definition grant_for_session :: "SessionID \<Rightarrow> string \<Rightarrow> Engine \<Rightarrow> Engine" where
  "grant_for_session session toolName en =
     (let grants = (case gm_get (en_granted en) session of None \<Rightarrow> [] | Some g \<Rightarrow> g)
      in en\<lparr>en_granted := gm_set (en_granted en) session (gm_set grants (grant_key toolName) True)\<rparr>)"

definition is_granted :: "SessionID \<Rightarrow> string \<Rightarrow> Engine \<Rightarrow> bool" where
  "is_granted session key en =
     (case gm_get (en_granted en) session of
        None \<Rightarrow> False
      | Some grants \<Rightarrow> (case gm_get grants key of None \<Rightarrow> False | Some b \<Rightarrow> b))"

subsection \<open>Describing a call\<close>

text \<open>One member of the decoded arguments: is it a string, and its text.\<close>

type_synonym arguments = "(string, bool \<times> string) gomap"

fun sink :: "string \<Rightarrow> string list \<Rightarrow> string list" where
  "sink v [] = [v]"
| "sink v (p # ps) = (if p > v then p # sink v ps else v # p # ps)"

text \<open>\<open>sortStrings\<close>: each value in turn sinks into the sorted part, kept here last first.\<close>

definition sort_strings :: "string list \<Rightarrow> string list" where
  "sort_strings xs = rev (foldl (\<lambda>sorted v. sink v sorted) [] xs)"

text \<open>The first \<open>n\<close> characters of a UTF-8 text, and how many it has: a continuation byte is
  part of the character before it.\<close>

definition rune_start :: "char \<Rightarrow> bool" where
  "rune_start c \<longleftrightarrow> \<not> (128 \<le> (of_char c :: nat) \<and> (of_char c :: nat) < 192)"

definition rune_count :: "string \<Rightarrow> nat" where
  "rune_count s = length (filter rune_start s)"

fun take_runes :: "nat \<Rightarrow> string \<Rightarrow> string" where
  "take_runes n [] = []"
| "take_runes n (c # cs) =
     (if rune_start c then (case n of 0 \<Rightarrow> [] | Suc m \<Rightarrow> c # take_runes m cs) else c # take_runes n cs)"

definition ellipsis :: string where
  "ellipsis = [CHR 0xE2, CHR 0x80, CHR 0xA6]"

definition compact_arguments :: "arguments \<Rightarrow> string" where
  "compact_arguments args =
     (if args = [] then ''''
      else
        let keys = filter (\<lambda>k. k \<noteq> ''path'') (map fst args) in
        if keys = [] then ''''
        else
          let part = (\<lambda>key.
                let value = (case gm_get args key of None \<Rightarrow> '''' | Some (_, text) \<Rightarrow> text);
                    value = str_join '' '' (Prelude.fields value);
                    value = (if rune_count value > 60 then take_runes 60 value @ ellipsis else value)
                in key @ ''='' @ value)
          in ''('' @ str_join '', '' (map part (sort_strings keys)) @ '')'')"

definition path_argument :: "arguments \<Rightarrow> string option" where
  "path_argument args = (case gm_get args ''path'' of Some (True, path) \<Rightarrow> Some path | _ \<Rightarrow> None)"

definition describe_call :: "(string \<Rightarrow> arguments) \<Rightarrow> Spec \<Rightarrow> Call \<Rightarrow> string \<times> string list" where
  "describe_call decode spec call =
     (let args = decode (ca_Arguments call);
          summary = (case path_argument args of Some path \<Rightarrow> sp_Name spec @ '' '' @ path | None \<Rightarrow> sp_Name spec);
          ca = sp_Capabilities spec;
          effects =
            (if ca_WriteFS ca then
               [case path_argument args of Some path \<Rightarrow> ''Modifies '' @ path | None \<Rightarrow> ''Modifies files in the workspace'']
             else [])
            @ (if ca_Execute ca then [''Runs a program on this machine''] else [])
            @ (if ca_Network ca then [''Sends a request to a remote host''] else [])
            @ (if ca_Secrets ca then [''Reads stored credentials''] else [])
            @ (if ca_Destructive ca then [''Cannot be undone by running this again''] else []);
          compact = compact_arguments args
      in (if compact \<noteq> '''' then summary @ '' '' @ compact else summary, effects))"

subsection \<open>The decision\<close>

record Request =
  rq_Spec :: Spec
  rq_Call :: Call
  rq_SessionID :: SessionID
  rq_RunID :: RunID
  rq_Origin :: RunOrigin

record Outcome =
  oc_Decision :: Decision
  oc_Summary :: string
  oc_Effects :: "string list"
  oc_Reason :: string

definition evaluate :: "(string \<Rightarrow> arguments) \<Rightarrow> Request \<Rightarrow> Engine \<Rightarrow> Outcome" where
  "evaluate decode req en =
     (let (summary, effects) = describe_call decode (rq_Spec req) (rq_Call req);
          profile = profile_for (rq_SessionID req) en;
          name = sp_Name (rq_Spec req);
          level = sp_Level (rq_Spec req)
      in if name \<in> set (pf_DenyTools profile) then
           \<lparr>oc_Decision = Deny, oc_Summary = summary, oc_Effects = effects,
            oc_Reason = name @ '' is not permitted by the '' @ pf_Name profile @ '' profile''\<rparr>
         else case gm_get (pf_Defaults profile) level of
           None \<Rightarrow>
             \<lparr>oc_Decision = Deny, oc_Summary = summary, oc_Effects = effects,
              oc_Reason = ''the '' @ pf_Name profile @ '' profile has no rule for '' @ level_string level @ '' tools''\<rparr>
         | Some decision \<Rightarrow>
             if decision = Ask \<and> is_granted (rq_SessionID req) (grant_key name) en then
               \<lparr>oc_Decision = Allow, oc_Summary = summary, oc_Effects = effects,
                oc_Reason = name @ '' was approved for this session''\<rparr>
             else
               \<lparr>oc_Decision = decision, oc_Summary = summary, oc_Effects = effects,
                oc_Reason = level_string level @ '' tools are set to '' @ decision_text decision @ '' in the ''
                  @ pf_Name profile @ '' profile''\<rparr>)"

lemma evaluate_decision:
  "oc_Decision (evaluate decode req en) =
    (if sp_Name (rq_Spec req) \<in> set (pf_DenyTools (profile_for (rq_SessionID req) en)) then Deny
     else case gm_get (pf_Defaults (profile_for (rq_SessionID req) en)) (sp_Level (rq_Spec req)) of
       None \<Rightarrow> Deny
     | Some d \<Rightarrow> if d = Ask \<and> is_granted (rq_SessionID req) (grant_key (sp_Name (rq_Spec req))) en then Allow else d)"
  by (simp add: evaluate_def Let_def split: prod.split option.split)

text \<open>Nothing a person reads about a call depends on the policy.\<close>

lemma evaluate_description:
  "(oc_Summary (evaluate decode req en), oc_Effects (evaluate decode req en)) = describe_call decode (rq_Spec req) (rq_Call req)"
  by (simp add: evaluate_def Let_def split: prod.split option.split)

subsection \<open>What the engine's operations change\<close>

datatype engine_op = OpUseProfile SessionID string | OpGrant SessionID string

fun engine_step :: "engine_op \<Rightarrow> Engine \<Rightarrow> Engine" where
  "engine_step (OpUseProfile s name) en = (case use_profile s name en of Inl _ \<Rightarrow> en | Inr en' \<Rightarrow> en')"
| "engine_step (OpGrant s tool) en = grant_for_session s tool en"

definition run_engine :: "engine_op list \<Rightarrow> Engine \<Rightarrow> Engine" where
  "run_engine ops en = fold engine_step ops en"

lemma is_granted_grant:
  "is_granted s k (grant_for_session s' tool en) \<longleftrightarrow> (s = s' \<and> k = grant_key tool) \<or> is_granted s k en"
  by (simp add: is_granted_def grant_for_session_def Let_def split: option.split)

lemma grant_key_inj [simp]: "grant_key a = grant_key b \<longleftrightarrow> a = b"
  by (simp add: grant_key_def)

lemma profile_for_grant [frame_simps]: "profile_for s (grant_for_session s' tool en) = profile_for s en"
  by (simp add: profile_for_def grant_for_session_def Let_def split: option.split)

lemma engine_step_frame [frame_simps]:
  "en_profiles (engine_step x en) = en_profiles en" "en_fallback (engine_step x en) = en_fallback en"
  by (cases x; auto simp: use_profile_def grant_for_session_def Let_def split: option.split)+

lemma run_engine_frame [frame_simps]:
  "en_profiles (run_engine ops en) = en_profiles en" "en_fallback (run_engine ops en) = en_fallback en"
  by (induction ops arbitrary: en) (simp_all add: run_engine_def engine_step_frame)

lemma session_profile_kept:
  "\<forall>name. OpUseProfile s name \<notin> set ops \<Longrightarrow>
   gm_get (en_sessionProfile (run_engine ops en)) s = gm_get (en_sessionProfile en) s"
proof (induction ops arbitrary: en)
  case (Cons x ops)
  have "gm_get (en_sessionProfile (engine_step x en)) s = gm_get (en_sessionProfile en) s"
    using Cons.prems by (cases x) (auto simp: use_profile_def grant_for_session_def Let_def split: option.split)
  then show ?case using Cons by (simp add: run_engine_def)
qed (simp add: run_engine_def)

text \<open>Standing approvals only spare a question: granting a tool for a session changes the
  decision about a call at most from "ask" to "allow", and only for that tool in that session;
  what is denied stays denied whatever is granted.\<close>

theorem grant_only_answers_ask:
  "oc_Decision (evaluate decode req (grant_for_session s tool en)) = oc_Decision (evaluate decode req en) \<or>
   (oc_Decision (evaluate decode req en) = Ask \<and>
    oc_Decision (evaluate decode req (grant_for_session s tool en)) = Allow \<and>
    rq_SessionID req = s \<and> sp_Name (rq_Spec req) = tool)"
  by (auto simp: evaluate_decision profile_for_grant is_granted_grant split: option.split)

text \<open>What a history of the engine says of a session: the profile it is judged by is the last one it was bound to
  under a name the engine knows, and the engine's own before that.\<close>

definition known_profile :: "Profile \<Rightarrow> string \<Rightarrow> Profile option" where
  "known_profile p name =
     (if name = pf_Name p then Some p
      else if name \<in> {''gateway'', ''console'', ''unattended''} then profile_by_name name else None)"

fun rebound :: "Profile \<Rightarrow> SessionID \<Rightarrow> engine_op \<Rightarrow> Profile \<Rightarrow> Profile" where
  "rebound p s (OpUseProfile s' name) q =
     (if s' = s \<and> name \<noteq> '''' then (case known_profile p name of Some r \<Rightarrow> r | None \<Rightarrow> q) else q)"
| "rebound p s (OpGrant _ _) q = q"

definition policy_after :: "Profile \<Rightarrow> SessionID \<Rightarrow> engine_op list \<Rightarrow> Profile" where
  "policy_after p s ops = fold (rebound p s) ops p"

lemma new_engine_knows: "gm_get (en_profiles (new_engine p)) name = known_profile p name"
  by (auto simp: new_engine_def known_profile_def profile_by_name_def profile_defs gm_get_def gm_set_def split: option.splits)

lemma run_engine_snoc: "run_engine (ops @ [x]) en = engine_step x (run_engine ops en)"
  by (simp add: run_engine_def)

lemma profile_for_bound:
  "profile_for s (engine_step (OpUseProfile s' name) en) =
     (if s' = s \<and> name \<noteq> '''' then (case gm_get (en_profiles en) name of Some r \<Rightarrow> r | None \<Rightarrow> profile_for s en) else profile_for s en)"
  by (auto simp: use_profile_def profile_for_def split: option.splits)

lemma profile_for_history: "profile_for s (run_engine ops (new_engine p)) = policy_after p s ops"
proof (induction ops rule: rev_induct)
  case Nil
  show ?case by (simp add: profile_for_def run_engine_def policy_after_def new_engine_def gm_get_def)
next
  case (snoc x ops)
  have known: "gm_get (en_profiles (run_engine ops (new_engine p))) name = known_profile p name" for name
    by (simp add: run_engine_frame new_engine_knows)
  show ?case
  proof (cases x)
    case (OpUseProfile s' name)
    with snoc show ?thesis by (simp only: run_engine_snoc profile_for_bound known) (auto simp: policy_after_def split: option.split)
  next
    case (OpGrant s' tool)
    with snoc show ?thesis by (simp add: run_engine_snoc policy_after_def profile_for_grant)
  qed
qed

lemma granted_history: "is_granted s (grant_key tool) (run_engine ops (new_engine p)) \<longleftrightarrow> OpGrant s tool \<in> set ops"
proof (induction ops rule: rev_induct)
  case Nil
  show ?case by (simp add: is_granted_def run_engine_def new_engine_def gm_get_def)
next
  case (snoc x ops)
  show ?case
  proof (cases x)
    case (OpUseProfile s' name)
    have "is_granted s (grant_key tool) (engine_step x en) = is_granted s (grant_key tool) en" for en
      using OpUseProfile by (auto simp: use_profile_def is_granted_def split: option.split)
    with snoc OpUseProfile show ?thesis by (simp add: run_engine_snoc)
  next
    case (OpGrant s' t)
    with snoc show ?thesis by (auto simp: run_engine_snoc is_granted_grant)
  qed
qed

text \<open>C35. Policy fails closed, after any history of bindings and grants. A call is judged by the profile its session was last bound to
  under a name the engine knows, a binding under an unknown name changing nothing, or by the engine's own. It is denied exactly when
  that profile lists the tool, has no rule for its level, or denies the level, whatever was granted; it is allowed exactly when the
  profile allows the level, or asks about it and somebody granted this very tool in this very session; and in what is left, a person is asked.\<close>

theorem evaluate_fails_closed:
  "let session = rq_SessionID req; tool = sp_Name (rq_Spec req);
       judged = oc_Decision (evaluate decode req (run_engine ops (new_engine p)));
       policy = policy_after p session ops; rule = gm_get (pf_Defaults policy) (sp_Level (rq_Spec req)) in
    (judged = Deny \<longleftrightarrow> tool \<in> set (pf_DenyTools policy) \<or> rule = None \<or> rule = Some Deny) \<and>
    (judged = Allow \<longleftrightarrow> tool \<notin> set (pf_DenyTools policy) \<and> (rule = Some Allow \<or> rule = Some Ask \<and> OpGrant session tool \<in> set ops)) \<and>
    (judged = Ask \<longleftrightarrow> tool \<notin> set (pf_DenyTools policy) \<and> rule = Some Ask \<and> OpGrant session tool \<notin> set ops)"
  unfolding Let_def evaluate_decision profile_for_history granted_history
  by (auto split: option.split)

lemma new_engine_has:
  assumes "profile_by_name name = Some p" "n \<in> {''gateway'', ''console'', ''unattended''}"
  shows "gm_get (en_profiles (new_engine p)) n = profile_by_name n"
proof -
  have "list_all (\<lambda>p. list_all (\<lambda>n. gm_get (en_profiles (new_engine p)) n = profile_by_name n)
      [''gateway'', ''console'', ''unattended'']) [local_profile, gateway_profile, console_profile, unattended_profile]"
    by code_simp
  moreover have "p \<in> set [local_profile, gateway_profile, console_profile, unattended_profile]"
    using assms(1) by (simp add: profile_by_name_def split: if_splits)
  ultimately show ?thesis using assms(2) by (fastforce simp: list_all_iff)
qed

text \<open>The profile of a session that was opened under a name the engine holds.\<close>

lemma profile_for_used:
  assumes "use_profile s n en = Inr en'" "n \<noteq> ''''" "gm_get (en_profiles en) n = Some q"
    and "\<forall>name. OpUseProfile s name \<notin> set ops"
  shows "profile_for s (run_engine ops en') = q"
proof -
  have "en' = en\<lparr>en_sessionProfile := gm_set (en_sessionProfile en) s n\<rparr>"
    using assms(1-3) by (simp add: use_profile_def)
  then show ?thesis
    using assms(3) session_profile_kept [OF assms(4), of en'] by (simp add: profile_for_def run_engine_frame)
qed

text \<open>A session opened under a named profile is judged by that profile and no other, however
  many grants follow and whatever the daemon's own default is; from a chat (gateway or console)
  or a schedule, a tool that runs programs or is of high impact is denied even after its tool was
  granted for the session.\<close>

theorem session_judged_by_its_profile:
  assumes "profile_by_name configured = Some p" and "n \<in> {''gateway'', ''console'', ''unattended''}"
    and "\<forall>name. OpUseProfile s name \<notin> set ops"
  shows "\<exists>en. use_profile s n (run_engine before (new_engine p)) = Inr en \<and>
    profile_by_name n = Some (profile_for s (run_engine ops en)) \<and>
    (rq_SessionID req = s \<and> sp_Level (rq_Spec req) \<in> {LevelExecute, LevelHighImpact} \<longrightarrow>
       oc_Decision (evaluate decode req (run_engine ops en)) = Deny) \<and>
    (rq_SessionID req = s \<and> n = ''unattended'' \<longrightarrow> oc_Decision (evaluate decode req (run_engine ops en)) \<noteq> Ask)"
proof -
  let ?en = "run_engine before (new_engine p)"
  obtain q where q: "profile_by_name n = Some q" using assms(2) by (auto simp: profile_by_name_def)
  have held: "gm_get (en_profiles ?en) n = Some q"
    using new_engine_has [OF assms(1,2)] q by (simp add: run_engine_frame)
  have n: "n \<noteq> ''''" using assms(2) by auto
  obtain en where en: "use_profile s n ?en = Inr en" using n held by (simp add: use_profile_def)
  have pf: "profile_for s (run_engine ops en) = q" by (rule profile_for_used [OF en n held assms(3)])
  have rules: "gm_get (pf_Defaults q) LevelExecute = Some Deny" "gm_get (pf_Defaults q) LevelHighImpact = Some Deny"
    using q assms(2) by (auto simp: profile_by_name_def profile_defs gm_get_def split: if_splits)
  have quiet: "n = ''unattended'' \<Longrightarrow> gm_get (pf_Defaults q) level \<noteq> Some Ask" for level
    using q by (auto simp: profile_by_name_def profile_defs gm_get_def split: if_splits)
  have "oc_Decision (evaluate decode req (run_engine ops en)) = Deny"
    if "rq_SessionID req = s" "sp_Level (rq_Spec req) \<in> {LevelExecute, LevelHighImpact}"
    using that rules by (auto simp: evaluate_decision pf)
  moreover have "oc_Decision (evaluate decode req (run_engine ops en)) \<noteq> Ask"
    if "rq_SessionID req = s" "n = ''unattended''"
    using that quiet by (auto simp: evaluate_decision pf split: option.split)
  ultimately show ?thesis using en pf q by blast
qed

definition sample_request :: "Level \<Rightarrow> Request" where
  "sample_request level = \<lparr>rq_Spec = \<lparr>sp_Name = ''exec_command'', sp_Description = '''', sp_InputSchema = '''', sp_Level = level,
       sp_Capabilities = \<lparr>ca_ReadFS = True, ca_WriteFS = True, ca_Execute = True, ca_Network = True,
         ca_Secrets = False, ca_Destructive = True, ca_Idempotent = False, ca_ParallelSafe = False, ca_ForeignContent = False,
         ca_Provenance = ProvenanceLocalUnknown\<rparr>, sp_Deferred = False\<rparr>,
     rq_Call = \<lparr>ca_ID = ''c'', ca_Name = ''exec_command'', ca_Arguments = ''''\<rparr>,
     rq_SessionID = ''chat'', rq_RunID = ''r'', rq_Origin = from_a_channel ''discord'' ''1''\<rparr>"

text \<open>A tool that runs programs, in a chat whose engine allows nobody to run any: a typing error in a later binding does not help.\<close>

theorem evaluate_fails_closed_witness:
  "oc_Decision (evaluate (\<lambda>_. []) (sample_request LevelExecute) (run_engine
     [OpGrant ''chat'' ''exec_command'', OpUseProfile ''chat'' ''gateway'', OpUseProfile ''chat'' ''lcal''] (new_engine local_profile))) = Deny \<and>
   oc_Decision (evaluate (\<lambda>_. []) (sample_request LevelExecute) (run_engine
     [OpGrant ''chat'' ''exec_command'', OpUseProfile ''other'' ''gateway''] (new_engine local_profile))) = Allow"
  using evaluate_fails_closed [of "sample_request LevelExecute" "\<lambda>_. []" "[OpGrant ''chat'' ''exec_command'', OpUseProfile ''chat'' ''gateway'', OpUseProfile ''chat'' ''lcal'']" local_profile]
    evaluate_fails_closed [of "sample_request LevelExecute" "\<lambda>_. []" "[OpGrant ''chat'' ''exec_command'', OpUseProfile ''other'' ''gateway'']" local_profile]
  by (simp add: Let_def policy_after_def known_profile_def profile_by_name_def profile_defs gm_get_def sample_request_def)

lemma session_judged_by_its_profile_witness:
  "\<exists>en. use_profile ''chat'' ''gateway'' (new_engine local_profile) = Inr en \<and>
     oc_Decision (evaluate (\<lambda>_. []) (sample_request LevelExecute) (run_engine [OpGrant ''chat'' ''exec_command''] en)) = Deny"
  using session_judged_by_its_profile [of "''local''" local_profile "''gateway''" "''chat''"
      "[OpGrant ''chat'' ''exec_command'']" "[]" "sample_request LevelExecute" "\<lambda>_. []"]
  by (auto simp: profile_by_name_def sample_request_def run_engine_def)

end
