(* ===== verification/Compaction.thy ===== *)
theory Compaction
imports Conversation
begin

text \<open>
  Folding the older part of a conversation into a summary
  (\<open>core/internal/runtime/compaction.go\<close>): how large a conversation is taken to be, where it is
  cut, and the event that records the fold. The two thresholds the code computes in floating
  point (\<open>Window * CompactAt\<close> and \<open>Window * KeepFraction\<close>, truncated) are given as their integer
  results; the summary the model writes is the parameter \<open>summarise\<close>.
\<close>

subsection \<open>Estimates\<close>

definition bytes_per_token :: int where "bytes_per_token = 4"
definition message_overhead_tokens :: int where "message_overhead_tokens = 4"

definition estimate_text :: "string \<Rightarrow> int" where
  "estimate_text t = (int (length t) + bytes_per_token - 1) div bytes_per_token"

fun estimate_block :: "ContentBlock \<Rightarrow> int" where
  "estimate_block (TextBlock t _) = estimate_text t"
| "estimate_block (ToolUseBlock u) = estimate_text (tl_Name u) + estimate_text (tl_Args u)"
| "estimate_block (ToolResultBlock r) = estimate_text (tr_Name r) + estimate_text (tr_Content r)"
| "estimate_block (ImageBlock _ _) = 0"

definition estimate_message :: "Message \<Rightarrow> int" where
  "estimate_message m = message_overhead_tokens + sum_list (map estimate_block (ms_Content m))"

definition estimate_messages :: "BoundedMessage list \<Rightarrow> int" where
  "estimate_messages ms = sum_list (map (\<lambda>m. estimate_message (bm_Message m)) ms)"

definition estimate_summary :: "string \<Rightarrow> int" where
  "estimate_summary summary = message_overhead_tokens + estimate_text (summary_preamble @ summary)"

lemma estimate_message_pos: "0 < estimate_message m"
proof -
  have "0 \<le> estimate_block b" for b
    by (cases b) (simp_all add: estimate_text_def bytes_per_token_def)
  then have "0 \<le> sum_list (map estimate_block (ms_Content m))" by (intro sum_list_nonneg) auto
  then show ?thesis by (simp add: estimate_message_def message_overhead_tokens_def)
qed

subsection \<open>Where to cut\<close>

definition max_folds_in_head :: nat where "max_folds_in_head = 6"

definition fold_head :: "BoundedMessage list \<Rightarrow> nat" where
  "fold_head ms = length (takeWhile bm_Fold ms)"

text \<open>\<open>for i := len(messages) - 1; i > 0; i--\<close>, with the size so far and the cut so far.\<close>

fun cut_back :: "BoundedMessage list \<Rightarrow> int \<Rightarrow> nat \<Rightarrow> int \<Rightarrow> nat \<Rightarrow> nat" where
  "cut_back ms keep 0 sz c = c"
| "cut_back ms keep (Suc i) sz c =
     (let sz = sz + estimate_message (bm_Message (ms ! Suc i))
      in if sz > keep then c else cut_back ms keep i sz (Suc i))"

definition is_tool_message :: "BoundedMessage \<Rightarrow> bool" where
  "is_tool_message m \<longleftrightarrow> ms_Role (bm_Message m) = RoleTool"

function forward_off_tools :: "BoundedMessage list \<Rightarrow> nat \<Rightarrow> nat" where
  "forward_off_tools ms c =
     (if c < length ms \<and> is_tool_message (ms ! c) then forward_off_tools ms (c + 1) else c)"
  by pat_completeness auto
termination by (relation "measure (\<lambda>(ms, c). length ms - c)") auto

declare forward_off_tools.simps [simp del]

fun back_off_tools :: "BoundedMessage list \<Rightarrow> nat \<Rightarrow> nat" where
  "back_off_tools ms 0 = 0"
| "back_off_tools ms (Suc c) = (if is_tool_message (ms ! Suc c) then back_off_tools ms c else Suc c)"

text \<open>With no messages at all the code's cut is -1, which the caller refuses like 0; the model says
  0.\<close>

definition choose_cut :: "BoundedMessage list \<Rightarrow> int \<Rightarrow> nat" where
  "choose_cut ms keep =
     (let cut = forward_off_tools ms (cut_back ms keep (length ms - 1) 0 (length ms))
      in if cut \<ge> length ms then back_off_tools ms (length ms - 1) else cut)"

record FoldPlan =
  fp_start :: nat
  fp_cut :: nat
  fp_from :: Seq
  fp_through :: Seq

definition plan_compaction :: "BoundedMessage list \<Rightarrow> Seq \<Rightarrow> int \<Rightarrow> FoldPlan option" where
  "plan_compaction ms alreadyFolded keep =
     (let head = fold_head ms; cut = choose_cut ms keep in
      if cut \<le> head then None
      else
        let plan = \<lparr>fp_start = head, fp_cut = cut, fp_from = alreadyFolded + 1,
              fp_through = bm_LastSeq (ms ! (cut - 1))\<rparr>
        in if fp_through plan \<le> alreadyFolded then None
           else if head \<ge> max_folds_in_head then
             Some (plan\<lparr>fp_start := 0, fp_from := bm_FromSeq (ms ! 0)\<rparr>)
           else Some plan)"

definition slice :: "nat \<Rightarrow> nat \<Rightarrow> 'a list \<Rightarrow> 'a list" where
  "slice a b xs = take (b - a) (drop a xs)"

definition compaction_of ::
    "BoundedMessage list \<Rightarrow> FoldPlan \<Rightarrow> string \<Rightarrow> int \<Rightarrow> ConversationCompacted" where
  "compaction_of ms plan summary overhead =
     \<lparr>cc_Summary = summary, cc_FromSeq = fp_from plan, cc_ThroughSeq = fp_through plan,
      cc_MessagesFolded = int (fp_cut plan - fp_start plan),
      cc_TokensBefore = overhead + estimate_messages ms,
      cc_TokensAfter = overhead + estimate_messages (take (fp_start plan) ms) + estimate_summary summary
        + estimate_messages (drop (fp_cut plan) ms)\<rparr>"

text \<open>\<open>compactIfNeeded\<close>, up to the event it appends: \<open>None\<close> where it leaves the log alone.\<close>

record Budget =
  bg_Window :: int
  bg_CompactAt :: int \<comment> \<open>\<open>int64(float64(Window) * CompactAt)\<close>\<close>
  bg_Keep :: int \<comment> \<open>\<open>int64(float64(Window) * KeepFraction)\<close>\<close>

definition compaction_event ::
    "Budget \<Rightarrow> (BoundedMessage list \<Rightarrow> string option) \<Rightarrow> int \<Rightarrow> BoundedMessage list \<Rightarrow> Seq \<Rightarrow> ConversationCompacted option" where
  "compaction_event budget summarise overhead ms alreadyFolded =
     (if bg_Window budget \<le> 0 then None
      else if overhead + estimate_messages ms \<le> bg_CompactAt budget then None
      else case plan_compaction ms alreadyFolded (bg_Keep budget - overhead) of
        None \<Rightarrow> None
      | Some plan \<Rightarrow>
          (case summarise (slice (fp_start plan) (fp_cut plan) ms) of
             None \<Rightarrow> None
           | Some summary \<Rightarrow> Some (compaction_of ms plan summary overhead)))"

definition compact_if_needed ::
    "conv_env \<Rightarrow> Budget \<Rightarrow> (BoundedMessage list \<Rightarrow> string option) \<Rightarrow> int \<Rightarrow> (EventID \<times> instant) \<Rightarrow> int
      \<Rightarrow> Ctx \<Rightarrow> Run \<Rightarrow> Store \<Rightarrow> Store" where
  "compact_if_needed env budget summarise overhead stamp keepAfterFold ctx run s =
     (case build_bounded_conversation env ctx run s of
        Inl _ \<Rightarrow> s
      | Inr (ms, alreadyFolded) \<Rightarrow>
          (case compaction_event budget summarise overhead ms alreadyFolded of
             None \<Rightarrow> s
           | Some f \<Rightarrow>
               (case append_event ctx \<lparr>ev_ID = fst stamp, ev_SessionID = ru_SessionID run, ev_RunID = ru_ID run,
                       ev_Seq = 0, ev_GlobalSeq = 0, ev_OccurredAt = snd stamp,
                       ev_Kind = EventConversationCompacted, ev_Payload = PConversationCompacted f\<rparr> s of
                  Inl _ \<Rightarrow> s
                | Inr (t, _) \<Rightarrow>
                    if keepAfterFold \<ge> 0
                    then (case prune_session ctx (ru_SessionID run) keepAfterFold t of
                            Inl _ \<Rightarrow> t | Inr (u, _) \<Rightarrow> u)
                    else t)))"

subsection \<open>What a plan promises\<close>

lemma cut_back_bounds: "i \<le> length ms - 1 \<Longrightarrow> cut_back ms keep i sz c \<le> max (length ms) c"
  by (induction ms keep i sz c rule: cut_back.induct) (auto simp: Let_def)

lemma back_off_le: "back_off_tools ms n \<le> n"
  by (induction ms n rule: back_off_tools.induct) auto

lemma choose_cut_less: "ms \<noteq> [] \<Longrightarrow> choose_cut ms keep < length ms"
  using back_off_le [of ms "length ms - 1"]
  by (auto simp: choose_cut_def Let_def not_le intro: le_less_trans)

lemma forward_off_not_tool:
  "forward_off_tools ms c < length ms \<Longrightarrow> \<not> is_tool_message (ms ! forward_off_tools ms c)"
  by (induction ms c rule: forward_off_tools.induct) (subst (asm) (2) forward_off_tools.simps, subst forward_off_tools.simps, auto split: if_splits)

lemma back_off_not_tool: "0 < back_off_tools ms n \<Longrightarrow> \<not> is_tool_message (ms ! back_off_tools ms n)"
  by (induction ms n rule: back_off_tools.induct) auto

lemma choose_cut_not_tool: "0 < choose_cut ms keep \<Longrightarrow> \<not> is_tool_message (ms ! choose_cut ms keep)"
  using forward_off_not_tool [of ms "cut_back ms keep (length ms - 1) 0 (length ms)"]
    back_off_not_tool [of ms "length ms - 1"]
  by (auto simp: choose_cut_def Let_def split: if_splits)

text \<open>A compaction that is made makes progress and keeps the newest message: it folds at least
  one message that is not a fold, always leaves at least one message verbatim, never leaves a
  tool's result at the front of what is left, and reaches further into the log than the folds
  before it, so a compaction never repeats.\<close>

theorem plan_compaction_progress:
  assumes "plan_compaction ms alreadyFolded keep = Some plan"
  shows "fp_start plan < fp_cut plan \<and> fp_cut plan < length ms \<and>
    \<not> is_tool_message (ms ! fp_cut plan) \<and> fold_head ms < fp_cut plan \<and>
    alreadyFolded < fp_through plan \<and> fp_through plan = bm_LastSeq (ms ! (fp_cut plan - 1)) \<and>
    fold_head (take (fp_start plan) ms) = fp_start plan"
proof -
  have cut: "fp_cut plan = choose_cut ms keep" "fold_head ms < choose_cut ms keep"
    using assms by (auto simp: plan_compaction_def Let_def split: if_splits)
  have ne: "ms \<noteq> []"
  proof
    assume "ms = []"
    then show False using cut(2) by (simp add: choose_cut_def Let_def forward_off_tools.simps)
  qed
  have head: "fold_head (take (fold_head ms) ms) = fold_head ms"
    by (simp add: fold_head_def takeWhile_eq_take [symmetric] takeWhile_takeWhile)
  show ?thesis
    using assms cut head choose_cut_less [OF ne, of keep] choose_cut_not_tool [of ms keep]
    by (auto simp: plan_compaction_def Let_def fold_head_def split: if_splits)
qed

definition chatty :: "BoundedMessage list" where
  "chatty = map (\<lambda>q. spoken (if even q then RoleAssistant else RoleUser) (text_content ''some words here'') q) [1, 2, 3, 4]"

lemma plan_compaction_progress_witness:
  "\<exists>plan. plan_compaction chatty 0 20 = Some plan \<and> fp_through plan = 2 \<and> fp_cut plan < length chatty"
proof -
  have "case plan_compaction chatty 0 20 of None \<Rightarrow> False | Some p \<Rightarrow> fp_through p = 2" by code_simp
  then obtain plan where p: "plan_compaction chatty 0 20 = Some plan" "fp_through plan = 2"
    by (auto split: option.splits)
  then show ?thesis using plan_compaction_progress [OF p(1)] by blast
qed

text \<open>Compaction can fold away the question being answered: a question that arrived while the
  run before it was still working sits in the log before that run's last events, so a fold that
  reaches those events covers it, and the run that is to answer it is shown the summary alone.\<close>

theorem compaction_loses_waiting_question:
  "let log = [said_event ''main'' 1 ''first'', state_event ''main'' 2 RunRunning, text_event ''main'' 3 ''working on it'',
        said_event ''next'' 4 ''and the tests?'', state_event ''next'' 5 RunQueued,
        text_event ''main'' 6 '' still working'', completed_event ''main'' 7, state_event ''main'' 8 RunCompleted];
      s = store_with [main_run, second_run] log;
      budget = \<lparr>bg_Window = 20, bg_CompactAt = 14, bg_Keep = 6\<rparr>
   in transcript (build_bounded_conversation plain_env None second_run s) =
        [(RoleUser, [''first'']), (RoleAssistant, [''working on it still working'']), (RoleUser, [''and the tests?''])] \<and>
      transcript (build_bounded_conversation plain_env None second_run
        (compact_if_needed plain_env budget (\<lambda>_. Some ''so far'') 0 (''f'', 9) (-1) None second_run s)) =
        [(RoleUser, [summary_preamble @ ''so far''])]"
  by code_simp

end
