(* ===== verification/LogReadings.thy ===== *)
theory LogReadings
imports Conversation
begin

text \<open>
  What the runtime reads back out of a session's log instead of remembering it
  (\<open>core/internal/runtime\<close>: \<open>conversation.go\<close>, \<open>provenance.go\<close>, \<open>spend.go\<close>, \<open>investigate.go\<close>,
  \<open>runtime.go\<close>): the calls still without a result, the turns used, how far what the model has read
  can be trusted, and what a worker concluded.

  Each reading is a function of a log, and reads the store through \<open>ListAfter\<close> from the beginning;
  \<open>from_log\<close> is that first step with its error path. The locale \<open>log_reading\<close> states what a reading
  of one run owes the runtime: it depends on that run's events alone.
\<close>

definition from_log :: "Ctx \<Rightarrow> SessionID \<Rightarrow> Store \<Rightarrow> (Event list \<Rightarrow> 'a) \<Rightarrow> StoreError + 'a" where
  "from_log ctx sid s reading =
     (case list_after ctx sid 0 0 s of Inl err \<Rightarrow> Inl err | Inr events \<Rightarrow> Inr (reading events))"

lemma from_log_eq: "gm_get (st_sessions s) sid \<noteq> None \<Longrightarrow>
    from_log None sid s f = Inr (f (gm_list (st_events s) sid))"
  by (simp add: from_log_def list_after_all)

subsection \<open>Calls and turns\<close>

record PendingCall =
  pe_CallID :: ToolCallID
  pe_Name :: string
  pe_Arguments :: string
  pe_Seq :: Seq

fun calls_loop :: "RunID \<Rightarrow> Event list \<Rightarrow> PendingCall list \<Rightarrow> ToolCallID set \<Rightarrow> PendingCall list \<times> ToolCallID set" where
  "calls_loop run [] requested completed = (requested, completed)"
| "calls_loop run (e # es) requested completed =
     (if ev_RunID e \<noteq> run then calls_loop run es requested completed
      else case ev_Payload e of
        PToolCallRequested p \<Rightarrow>
          calls_loop run es (requested @ [\<lparr>pe_CallID = tq_CallID p, pe_Name = tq_Name p,
            pe_Arguments = tq_Arguments p, pe_Seq = ev_Seq e\<rparr>]) completed
      | PToolCallCompleted p \<Rightarrow> calls_loop run es requested (insert (tc_CallID p) completed)
      | _ \<Rightarrow> calls_loop run es requested completed)"

definition outstanding_in :: "RunID \<Rightarrow> Event list \<Rightarrow> PendingCall list" where
  "outstanding_in run events =
     (let (requested, completed) = calls_loop run events [] {}
      in filter (\<lambda>call. pe_CallID call \<notin> completed) requested)"

definition outstanding_calls :: "Ctx \<Rightarrow> Run \<Rightarrow> Store \<Rightarrow> StoreError + PendingCall list" where
  "outstanding_calls ctx run s = from_log ctx (ru_SessionID run) s (outstanding_in (ru_ID run))"

definition turns_in :: "RunID \<Rightarrow> Event list \<Rightarrow> nat" where
  "turns_in run events =
     length (filter (\<lambda>e. ev_RunID e = run \<and> ev_Kind e = EventAssistantMessageCompleted) events)"

definition model_turns :: "Ctx \<Rightarrow> Run \<Rightarrow> Store \<Rightarrow> StoreError + nat" where
  "model_turns ctx run s = from_log ctx (ru_SessionID run) s (turns_in (ru_ID run))"

subsection \<open>Trust and provenance\<close>

definition trust_for_origin :: "RunOrigin \<Rightarrow> TrustLevel" where
  "trust_for_origin origin = (if or_Kind origin = OriginGateway then TrustUntrusted else TrustUser)"

definition foreign_in :: "RunID \<Rightarrow> Seq \<Rightarrow> Event list \<Rightarrow> bool" where
  "foreign_in run before events =
     (\<exists>e \<in> set events. ev_RunID e = run \<and> ev_Seq e < before \<and>
        (case ev_Payload e of PToolCallCompleted p \<Rightarrow> tc_Foreign p | _ \<Rightarrow> False))"

definition has_read_foreign :: "Ctx \<Rightarrow> Run \<Rightarrow> Seq \<Rightarrow> Store \<Rightarrow> StoreError + bool" where
  "has_read_foreign ctx run before s = from_log ctx (ru_SessionID run) s (foreign_in (ru_ID run) before)"

definition read_foreign_so_far :: "Ctx \<Rightarrow> Run \<Rightarrow> Store \<Rightarrow> StoreError + bool" where
  "read_foreign_so_far ctx run s =
     (case head_seq_of ctx (ru_SessionID run) s of
        Inl err \<Rightarrow> Inl err
      | Inr head \<Rightarrow> has_read_foreign ctx run (head + 1) s)"

text \<open>\<open>conversationTrust\<close>: with an error the code returns the origin's trust beside it.\<close>

definition conversation_trust :: "Ctx \<Rightarrow> Run \<Rightarrow> Seq \<Rightarrow> Store \<Rightarrow> StoreError + TrustLevel" where
  "conversation_trust ctx run before s =
     (let trust = trust_for_origin (ru_Origin run) in
      if trust = TrustUntrusted then Inr trust
      else case has_read_foreign ctx run before s of
        Inl err \<Rightarrow> Inl err
      | Inr read \<Rightarrow> Inr (if read then TrustUntrusted else trust))"

fun worst_in :: "RunID \<Rightarrow> Seq \<Rightarrow> Event list \<Rightarrow> Provenance \<Rightarrow> Provenance" where
  "worst_in run before [] worst = worst"
| "worst_in run before (e # es) worst =
     (if ev_RunID e \<noteq> run then worst_in run before es worst
      else if before > 0 \<and> ev_Seq e \<ge> before then worst
      else case ev_Payload e of
        PToolCallCompleted p \<Rightarrow> worst_in run before es (worse worst (tc_From p))
      | _ \<Rightarrow> worst_in run before es worst)"

definition origin_provenance :: "RunOrigin \<Rightarrow> Provenance" where
  "origin_provenance origin = (if or_Kind origin = OriginGateway then ProvenanceExternal else ProvenanceOperator)"

definition provenance_so_far :: "Ctx \<Rightarrow> Run \<Rightarrow> Seq \<Rightarrow> Store \<Rightarrow> StoreError + Provenance" where
  "provenance_so_far ctx run before s =
     from_log ctx (ru_SessionID run) s (\<lambda>events. worst_in (ru_ID run) before events (origin_provenance (ru_Origin run)))"

definition provenance_now :: "Ctx \<Rightarrow> Run \<Rightarrow> Store \<Rightarrow> StoreError + Provenance" where
  "provenance_now ctx run s =
     (case head_seq_of ctx (ru_SessionID run) s of
        Inl err \<Rightarrow> Inl err
      | Inr head \<Rightarrow> provenance_so_far ctx run (head + 1) s)"

subsection \<open>What a run has spent\<close>

definition notice_after :: nat where "notice_after = 6"
definition searching :: "string list" where "searching = [''grep'', ''glob_files'', ''read_file'']"
definition spend_marker :: string where "spend_marker = ''searches so far this turn''"

fun reads_in :: "RunID \<Rightarrow> Event list \<Rightarrow> nat \<times> bool \<Rightarrow> nat \<times> bool" where
  "reads_in run [] acc = acc"
| "reads_in run (e # es) (reads, said) =
     (if ev_RunID e \<noteq> run then reads_in run es (reads, said)
      else case ev_Payload e of
        PToolCallCompleted p \<Rightarrow>
          reads_in run es (if tc_Name p \<in> set searching then reads + 1 else reads,
            said \<or> str_contains (tc_Content p) spend_marker)
      | _ \<Rightarrow> reads_in run es (reads, said))"

definition reads_so_far :: "Ctx \<Rightarrow> Run \<Rightarrow> Store \<Rightarrow> StoreError + (nat \<times> bool)" where
  "reads_so_far ctx run s = from_log ctx (ru_SessionID run) s (\<lambda>events. reads_in (ru_ID run) events (0, False))"

definition notice_text :: "nat \<Rightarrow> string" where
  "notice_text reads = [CHR 0x0A, CHR 0x0A] @ ''('' @ itoa (int reads)
     @ '' searches so far this turn, and everything they returned is now ''
     @ ''part of what you re-read on every turn from here. If finding this ''
     @ ''out will take many more, investigate can do the rest in a context ''
     @ ''of its own and hand back only what it concluded.)''"

text \<open>\<open>offered\<close> is \<open>toolsFor(run)\<close>: the names of the tools the run may call.\<close>

definition spend_notice :: "string list \<Rightarrow> Ctx \<Rightarrow> Run \<Rightarrow> string \<Rightarrow> Store \<Rightarrow> string" where
  "spend_notice offered ctx run name s =
     (if ru_Kind run = RunWorker then ''''
      else if name \<notin> set searching then ''''
      else if ''investigate'' \<notin> set offered then ''''
      else case reads_so_far ctx run s of
        Inl _ \<Rightarrow> ''''
      | Inr (reads, said) \<Rightarrow> if said \<or> reads + 1 \<noteq> notice_after then '''' else notice_text (reads + 1))"

definition has_external_target :: "Run \<Rightarrow> bool" where
  "has_external_target run \<longleftrightarrow> (\<exists>target \<in> set (ru_DeliveryTargets run). dt_Kind target \<noteq> DeliveryLocalClient)"

subsection \<open>What a worker concluded\<close>

datatype WorkerError = NoAnswer string \<comment> \<open>the text of the error\<close>

fun status_text :: "RunStatus \<Rightarrow> string" where
  "status_text RunQueued = ''queued''"
| "status_text RunRunning = ''running''"
| "status_text RunAwaitingApproval = ''awaiting_approval''"
| "status_text RunAwaitingInput = ''awaiting_input''"
| "status_text RunCancelling = ''cancelling''"
| "status_text RunCompleted = ''completed''"
| "status_text RunCancelled = ''cancelled''"
| "status_text RunFailed = ''failed''"
| "status_text (RunStatusOther s) = s"

fun worker_loop ::
    "RunID \<Rightarrow> Event list \<Rightarrow> (MessageID, string) gomap \<Rightarrow> string \<Rightarrow> RunStateChanged \<Rightarrow> string \<times> RunStateChanged" where
  "worker_loop child [] said answer ended = (answer, ended)"
| "worker_loop child (e # es) said answer ended =
     (if ev_RunID e \<noteq> child then worker_loop child es said answer ended
      else case ev_Payload e of
        PAssistantTextDelta p \<Rightarrow>
          worker_loop child es (gm_set said (td_MessageID p) (gm_list said (td_MessageID p) @ td_Text p)) answer ended
      | PAssistantMessageCompleted p \<Rightarrow>
          if mc_StopReason p \<noteq> StopEndTurn then worker_loop child es said answer ended
          else worker_loop child es said
            (case gm_get said (mc_MessageID p) of Some text \<Rightarrow> trim_space text | None \<Rightarrow> answer) ended
      | PRunStateChanged p \<Rightarrow>
          worker_loop child es said answer (if is_terminal (rs_Status p) then p else ended)
      | _ \<Rightarrow> worker_loop child es said answer ended)"

definition no_ending :: RunStateChanged where
  "no_ending = \<lparr>rs_Status = RunStatusOther '''', rs_Reason = '''', rs_FailureKind = ''''\<rparr>"

definition worker_answer :: "Ctx \<Rightarrow> Run \<Rightarrow> Seq \<Rightarrow> Store \<Rightarrow> (StoreError + WorkerError) + string" where
  "worker_answer ctx child after s =
     (case list_after ctx (ru_SessionID child) after 0 s of
        Inl err \<Rightarrow> Inl (Inl err)
      | Inr events \<Rightarrow>
          (let (answer, ended) = worker_loop (ru_ID child) events [] '''' no_ending
           in if rs_Status ended = RunCompleted \<and> answer \<noteq> '''' then Inr answer
              else Inl (Inr (NoAnswer
                (if rs_Reason ended \<noteq> '''' then rs_Reason ended
                 else if rs_Status ended = RunFailed then ''it failed without saying why''
                 else if rs_Status ended = RunStatusOther '''' then ''it stopped before finishing''
                 else if rs_Status ended = RunCompleted then ''it finished without answering''
                 else ''it '' @ status_text (rs_Status ended) @ '' without answering'')))))"

subsection \<open>A reading is about one run\<close>

locale log_reading =
  fixes reading :: "RunID \<Rightarrow> Event list \<Rightarrow> 'a"
  assumes reading_own: "reading run (filter (\<lambda>e. ev_RunID e = run) events) = reading run events"
begin

text \<open>Whatever other runs write, and wherever it lands in between, is not read.\<close>

lemma reading_same_projection:
  "filter (\<lambda>e. ev_RunID e = run) xs = filter (\<lambda>e. ev_RunID e = run) ys \<Longrightarrow> reading run xs = reading run ys"
  by (metis reading_own)

lemma reading_ignores_others:
  "\<forall>e \<in> set others. ev_RunID e \<noteq> run \<Longrightarrow> reading run (xs @ others @ ys) = reading run (xs @ ys)"
  by (rule reading_same_projection) (simp add: filter_False)

text \<open>The same over a store: an event appended for another run changes no reading of this one.\<close>

lemma reading_kept_by_append:
  assumes "append_event None e s = Inr (t, q)" "ev_RunID e \<noteq> run"
  shows "from_log None sid t (reading run) = from_log None sid s (reading run)"
proof (cases "gm_get (st_sessions s) sid")
  case None
  then show ?thesis using append_event_fields(3) [OF assms(1)] by (simp add: from_log_def list_after_def)
next
  case (Some session)
  have t: "st_sessions t = st_sessions s"
    "gm_list (st_events t) sid = gm_list (st_events s) sid @
      (if sid = ev_SessionID e then [e\<lparr>ev_Seq := q, ev_GlobalSeq := st_logSeq s + 1\<rparr>] else [])"
    using append_event_fields(3) [OF assms(1)] by simp_all
  have "reading run (gm_list (st_events t) sid) = reading run (gm_list (st_events s) sid)"
    unfolding t(2) using assms(2) by (intro reading_same_projection) simp
  then show ?thesis using Some t(1) by (simp add: from_log_eq)
qed

end

lemma calls_loop_own: "calls_loop run (filter (\<lambda>e. ev_RunID e = run) es) rq cm = calls_loop run es rq cm"
  by (induction es arbitrary: rq cm) (auto split: EventPayload.split)

lemma worst_in_skip: "worst_in run before (e # es) w = worst_in run before es w" if "ev_RunID e \<noteq> run"
  using that by simp

lemma worst_in_own: "worst_in run before (filter (\<lambda>e. ev_RunID e = run) es) w = worst_in run before es w"
  by (induction es arbitrary: w) (auto split: EventPayload.split)

lemma reads_in_own: "reads_in run (filter (\<lambda>e. ev_RunID e = run) es) acc = reads_in run es acc"
  by (induction run es acc rule: reads_in.induct) (auto split: EventPayload.split)

lemma worker_loop_own:
  "worker_loop run (filter (\<lambda>e. ev_RunID e = run) es) said answer ended = worker_loop run es said answer ended"
  by (induction es arbitrary: said answer ended) (auto split: EventPayload.split)

interpretation outstanding: log_reading outstanding_in
  by unfold_locales (simp add: outstanding_in_def calls_loop_own)

interpretation turns: log_reading turns_in
  by unfold_locales (simp add: turns_in_def conj_commute)

interpretation foreign: log_reading "\<lambda>run. foreign_in run before" for before
  by unfold_locales (auto simp: foreign_in_def)

interpretation worst: log_reading "\<lambda>run es. worst_in run before es w" for before w
  by unfold_locales (rule worst_in_own)

interpretation reads: log_reading "\<lambda>run es. reads_in run es acc" for acc
  by unfold_locales (rule reads_in_own)

interpretation concluded: log_reading "\<lambda>run es. worker_loop run es said answer ended" for said answer ended
  by unfold_locales (rule worker_loop_own)

text \<open>A run resumed beside others reads the same answers: an event appended for another run
  changes neither the calls this run has outstanding, nor the turns it has used, nor the trust
  and provenance of what it has read.\<close>

theorem readings_of_a_run_are_its_own:
  assumes "append_event None e s = Inr (t, q)" and "ev_RunID e \<noteq> ru_ID run"
  shows "outstanding_calls None run t = outstanding_calls None run s \<and>
    model_turns None run t = model_turns None run s \<and>
    conversation_trust None run before t = conversation_trust None run before s \<and>
    provenance_so_far None run before t = provenance_so_far None run before s \<and>
    reads_so_far None run t = reads_so_far None run s"
  unfolding outstanding_calls_def model_turns_def conversation_trust_def has_read_foreign_def
    provenance_so_far_def reads_so_far_def
    outstanding.reading_kept_by_append [OF assms] turns.reading_kept_by_append [OF assms]
    foreign.reading_kept_by_append [OF assms] worst.reading_kept_by_append [OF assms]
    reads.reading_kept_by_append [OF assms] by simp

definition foreign_event :: "RunID \<Rightarrow> Seq \<Rightarrow> Event" where
  "foreign_event run q = sample_event ''s'' run q EventToolCallCompleted
     (PToolCallCompleted \<lparr>tc_CallID = ''c'', tc_Name = ''web_fetch'', tc_Summary = '''', tc_Content = ''page'',
        tc_IsError = False, tc_Truncated = False, tc_Foreign = True, tc_From = ProvenanceExternal,
        tc_Artifact = None, tc_DurationMS = 1\<rparr>)"

lemma readings_of_a_run_are_its_own_witness:
  "\<exists>t q. append_event None (foreign_event ''next'' 0) (store_with [main_run] [said_event ''main'' 1 ''hi'']) = Inr (t, q) \<and>
     conversation_trust None main_run 9 t = Inr TrustUser"
proof -
  let ?s = "store_with [main_run] [said_event ''main'' 1 ''hi'']"
  obtain t q where t: "append_event None (foreign_event ''next'' 0) ?s = Inr (t, q)"
    by (simp add: append_event_def store_with_def foreign_event_def sample_defs Let_def gm_get_def)
  have "conversation_trust None main_run 9 ?s = Inr TrustUser" by code_simp
  then show ?thesis
    using t readings_of_a_run_are_its_own [OF t, of main_run 9]
    by (auto simp: foreign_event_def sample_event_def main_run_def sample_run_def)
qed

subsection \<open>Outstanding calls\<close>

lemma calls_loop_eq:
  "calls_loop run es rq cm =
    (rq @ List.map_filter (\<lambda>e. case ev_Payload e of
        PToolCallRequested p \<Rightarrow> if ev_RunID e = run then Some \<lparr>pe_CallID = tq_CallID p, pe_Name = tq_Name p,
            pe_Arguments = tq_Arguments p, pe_Seq = ev_Seq e\<rparr> else None
      | _ \<Rightarrow> None) es,
     cm \<union> {tc_CallID p | e p. e \<in> set es \<and> ev_RunID e = run \<and> ev_Payload e = PToolCallCompleted p})"
  by (induction run es rq cm rule: calls_loop.induct)
    (auto simp: List.map_filter_simps split: EventPayload.split)

lemma outstanding_append_result:
  "ev_RunID e = run \<Longrightarrow> ev_Payload e = PToolCallCompleted p \<Longrightarrow>
   outstanding_in run (es @ [e]) = filter (\<lambda>c. pe_CallID c \<noteq> tc_CallID p) (outstanding_in run es)"
  by (auto simp: outstanding_in_def calls_loop_eq map_filter_simps List.map_filter_def intro!: filter_cong)

text \<open>The tool loop makes progress: recording a result for a call of a run takes exactly that
  call off the run's outstanding ones and leaves the order of the others, so a run with \<open>n\<close>
  distinct calls outstanding has none left after \<open>n\<close> results.\<close>

theorem result_settles_its_call:
  assumes "append_event None e s = Inr (t, q)" and "ev_RunID e = ru_ID run" and "ev_SessionID e = ru_SessionID run"
    and "ev_Payload e = PToolCallCompleted p" and "outstanding_calls None run s = Inr calls"
  shows "outstanding_calls None run t = Inr (filter (\<lambda>c. pe_CallID c \<noteq> tc_CallID p) calls)"
proof -
  let ?e = "e\<lparr>ev_Seq := q, ev_GlobalSeq := st_logSeq s + 1\<rparr>"
  have t: "st_sessions t = st_sessions s"
    "gm_list (st_events t) (ru_SessionID run) = gm_list (st_events s) (ru_SessionID run) @ [?e]"
    using append_event_fields(3) [OF assms(1)] assms(3) by simp_all
  have session: "gm_get (st_sessions s) (ru_SessionID run) \<noteq> None"
    using append_event_fields(4) [OF assms(1)] assms(3) by simp
  have "outstanding_in (ru_ID run) (gm_list (st_events s) (ru_SessionID run) @ [?e]) =
      filter (\<lambda>c. pe_CallID c \<noteq> tc_CallID p) (outstanding_in (ru_ID run) (gm_list (st_events s) (ru_SessionID run)))"
    using assms(2,4) by (intro outstanding_append_result) simp_all
  then show ?thesis
    using session assms(5) t by (simp add: outstanding_calls_def from_log_eq)
qed

lemma result_settles_its_call_witness:
  "\<exists>t q. append_event None (foreign_event ''main'' 0) (store_with [main_run]
       [call_event ''main'' 1 ''c'' ''web_fetch'', call_event ''main'' 2 ''d'' ''grep'']) = Inr (t, q) \<and>
     map_sum id (map pe_CallID) (outstanding_calls None main_run t) = Inr [''d'']"
proof -
  let ?s = "store_with [main_run] [call_event ''main'' 1 ''c'' ''web_fetch'', call_event ''main'' 2 ''d'' ''grep'']"
  let ?calls = "[\<lparr>pe_CallID = ''c'', pe_Name = ''web_fetch'', pe_Arguments = '''', pe_Seq = 1\<rparr>,
     \<lparr>pe_CallID = ''d'', pe_Name = ''grep'', pe_Arguments = '''', pe_Seq = 2\<rparr>]"
  obtain t q where t: "append_event None (foreign_event ''main'' 0) ?s = Inr (t, q)"
    by (simp add: append_event_def store_with_def foreign_event_def sample_defs Let_def gm_get_def)
  have calls: "outstanding_calls None main_run ?s = Inr ?calls" by code_simp
  show ?thesis
    using t result_settles_its_call [OF t _ _ _ calls]
    by (simp add: foreign_event_def sample_event_def main_run_def sample_run_def)
qed

subsection \<open>Trust only falls\<close>

lemma worst_in_rises: "worse_than w \<le> worse_than (worst_in run before es w)"
  by (induction run before es w rule: worst_in.induct) (auto split: EventPayload.splits)

lemma worst_in_append: "worse_than (worst_in run before es w) \<le> worse_than (worst_in run before (es @ [e]) w)"
  by (induction run before es w rule: worst_in.induct)
    (auto split: EventPayload.splits intro: worst_in_rises)

lemma worst_in_origin: "worst_in run before es ProvenanceExternal = ProvenanceExternal"
  by (induction es) (auto split: EventPayload.splits)

text \<open>C37. Text may lose authority and never gains it by more being said: whatever is appended to
  the log, the provenance of what a run had read before a point ranks no better than it did, and
  a run that was judged untrusted stays untrusted; a run that came through a gateway is of
  external provenance and untrusted whatever its log holds.\<close>

theorem trust_only_falls:
  assumes "append_event None e s = Inr (t, q)" and "gm_get (st_sessions s) (ru_SessionID run) \<noteq> None"
  shows "\<exists>before_p after_p before_t after_t.
    provenance_so_far None run before s = Inr before_p \<and> provenance_so_far None run before t = Inr after_p \<and>
    worse_than before_p \<le> worse_than after_p \<and>
    conversation_trust None run before s = Inr before_t \<and> conversation_trust None run before t = Inr after_t \<and>
    (before_t = TrustUntrusted \<longrightarrow> after_t = TrustUntrusted) \<and>
    (or_Kind (ru_Origin run) = OriginGateway \<longrightarrow> after_p = ProvenanceExternal \<and> after_t = TrustUntrusted)"
proof -
  let ?es = "gm_list (st_events s) (ru_SessionID run)"
  obtain tail where tail: "gm_list (st_events t) (ru_SessionID run) = ?es @ tail" "tail = [] \<or> (\<exists>x. tail = [x])"
    using append_event_fields(3) [OF assms(1)] by (cases "ru_SessionID run = ev_SessionID e") auto
  have ts: "gm_get (st_sessions t) (ru_SessionID run) \<noteq> None"
    using append_event_fields(3) [OF assms(1)] assms(2) by simp
  let ?w = "origin_provenance (ru_Origin run)"
  have p: "provenance_so_far None run before s = Inr (worst_in (ru_ID run) before ?es ?w)"
    "provenance_so_far None run before t = Inr (worst_in (ru_ID run) before (?es @ tail) ?w)"
    using assms(2) ts tail(1) by (simp_all add: provenance_so_far_def from_log_eq)
  have c: "conversation_trust None run before s =
      Inr (if trust_for_origin (ru_Origin run) = TrustUntrusted \<or> foreign_in (ru_ID run) before ?es
           then TrustUntrusted else trust_for_origin (ru_Origin run))"
    "conversation_trust None run before t =
      Inr (if trust_for_origin (ru_Origin run) = TrustUntrusted \<or> foreign_in (ru_ID run) before (?es @ tail)
           then TrustUntrusted else trust_for_origin (ru_Origin run))"
    using assms(2) ts tail(1)
    by (simp_all add: conversation_trust_def has_read_foreign_def from_log_eq Let_def)
  have "worse_than (worst_in (ru_ID run) before ?es ?w) \<le> worse_than (worst_in (ru_ID run) before (?es @ tail) ?w)"
    using tail(2) worst_in_append by auto
  moreover have "foreign_in (ru_ID run) before ?es \<Longrightarrow> foreign_in (ru_ID run) before (?es @ tail)"
    by (auto simp: foreign_in_def)
  ultimately show ?thesis
    unfolding p c by (auto simp: origin_provenance_def worst_in_origin trust_for_origin_def)
qed

lemma trust_only_falls_witness:
  "\<exists>t q. append_event None (foreign_event ''main'' 0) (store_with [main_run] [said_event ''main'' 1 ''hi'']) = Inr (t, q) \<and>
     (\<exists>p. provenance_so_far None main_run 9 t = Inr p \<and> worse_than ProvenanceOperator \<le> worse_than p)"
proof -
  let ?s = "store_with [main_run] [said_event ''main'' 1 ''hi'']"
  obtain t q where t: "append_event None (foreign_event ''main'' 0) ?s = Inr (t, q)"
    by (simp add: append_event_def store_with_def foreign_event_def sample_defs Let_def gm_get_def)
  have session: "gm_get (st_sessions ?s) (ru_SessionID main_run) \<noteq> None" by code_simp
  have "provenance_so_far None main_run 9 ?s = Inr ProvenanceOperator" by code_simp
  then show ?thesis using t trust_only_falls [OF t session, of 9] by auto
qed

text \<open>Retention gives authority back: once the result of a tool that read a page is folded and
  discarded, the run that read it is judged as if it never had, and the model turns it has used
  are forgotten with it.\<close>

theorem retention_restores_trust:
  "let s = store_with [main_run] [said_event ''main'' 1 ''look it up'', state_event ''main'' 2 RunRunning,
        call_event ''main'' 3 ''c'' ''web_fetch'', completed_event ''main'' 4, foreign_event ''main'' 5,
        text_event ''main'' 6 ''it says'', completed_event ''main'' 7, fold_event ''main'' 8 1 7];
       t = fst (projr (prune_session None ''s'' 0 s))
   in conversation_trust None main_run 9 s = Inr TrustUntrusted \<and>
      provenance_so_far None main_run 9 s = Inr ProvenanceExternal \<and> model_turns None main_run s = Inr 2 \<and>
      conversation_trust None main_run 9 t = Inr TrustUser \<and>
      provenance_so_far None main_run 9 t = Inr ProvenanceOperator \<and> model_turns None main_run t = Inr 0"
  by code_simp

text \<open>The search notice is given exactly at its threshold, and not to a worker.\<close>

lemma spend_notice_threshold:
  "spend_notice offered ctx run name s \<noteq> '''' \<longleftrightarrow>
    ru_Kind run \<noteq> RunWorker \<and> name \<in> set searching \<and> ''investigate'' \<in> set offered \<and>
    reads_so_far ctx run s = Inr (notice_after - 1, False)"
  by (auto simp: spend_notice_def notice_text_def notice_after_def split: sum.splits)
end
