(* ===== verification/View.thy ===== *)
theory View
imports LogReadings MemPrompts
begin

text \<open>
  The state of a session as a client draws it (\<open>core/internal/runtime/view.go\<close>): the log folded
  into messages, with the index by message and by call that the code keeps, and the view that is
  assembled from it.
\<close>

datatype MessageRole = ViewUser | ViewAssistant

record ViewToolCall =
  vc_CallID :: ToolCallID
  vc_Name :: string
  vc_Summary :: string
  vc_Completed :: bool
  vc_IsError :: bool
  vc_Artifact :: "Artifact option"

record ViewMessage =
  vm_ID :: MessageID
  vm_Role :: MessageRole
  vm_Text :: string
  vm_Reasoning :: string
  vm_At :: int
  vm_ToolCalls :: "ViewToolCall list"
  vm_Seq :: Seq

text \<open>The local variables of \<open>foldEvents\<close>.\<close>

record Drawing =
  dr_messages :: "ViewMessage list"
  dr_active :: RunID
  dr_byMessage :: "(MessageID, nat) gomap"
  dr_byCall :: "(ToolCallID, nat \<times> nat) gomap"
  dr_held :: "(RunID \<times> ViewMessage) list"

definition new_drawing :: Drawing where
  "new_drawing = \<lparr>dr_messages = [], dr_active = '''', dr_byMessage = [], dr_byCall = [], dr_held = []\<rparr>"

definition place :: "ViewMessage \<Rightarrow> Drawing \<Rightarrow> Drawing" where
  "place m d =
     (let d = d\<lparr>dr_messages := dr_messages d @ [m]\<rparr>
      in if vm_ID m \<noteq> '''' then d\<lparr>dr_byMessage := gm_set (dr_byMessage d) (vm_ID m) (length (dr_messages d) - 1)\<rparr>
         else d)"

definition fresh_message :: "MessageID \<Rightarrow> MessageRole \<Rightarrow> Event \<Rightarrow> ViewMessage" where
  "fresh_message mid role e =
     \<lparr>vm_ID = mid, vm_Role = role, vm_Text = '''', vm_Reasoning = '''', vm_At = unix_nano (ev_OccurredAt e),
      vm_ToolCalls = [], vm_Seq = ev_Seq e\<rparr>"

definition append_message :: "MessageID \<Rightarrow> MessageRole \<Rightarrow> Event \<Rightarrow> Drawing \<Rightarrow> nat \<times> Drawing" where
  "append_message mid role e d = (length (dr_messages d), place (fresh_message mid role e) d)"

definition release_view :: "RunID \<Rightarrow> Drawing \<Rightarrow> Drawing" where
  "release_view run d =
     (fold (\<lambda>(r, m) d. if r = run then place m d else d) (dr_held d) d)
       \<lparr>dr_held := filter (\<lambda>(r, m). r \<noteq> run) (dr_held d)\<rparr>"

definition discard_view :: "RunID \<Rightarrow> Drawing \<Rightarrow> Drawing" where
  "discard_view run d = d\<lparr>dr_held := filter (\<lambda>(r, m). r \<noteq> run) (dr_held d)\<rparr>"

definition update_message :: "nat \<Rightarrow> (ViewMessage \<Rightarrow> ViewMessage) \<Rightarrow> Drawing \<Rightarrow> Drawing" where
  "update_message i f d = d\<lparr>dr_messages := (dr_messages d)[i := f (dr_messages d ! i)]\<rparr>"

text \<open>\<open>index, ok := byMessage[id]; if !ok { index = appendMessage(...) }\<close>\<close>

definition message_for :: "MessageID \<Rightarrow> Event \<Rightarrow> Drawing \<Rightarrow> nat \<times> Drawing" where
  "message_for mid e d =
     (case gm_get (dr_byMessage d) mid of
        Some i \<Rightarrow> (i, d)
      | None \<Rightarrow> append_message mid ViewAssistant e d)"

definition last_assistant :: "ViewMessage list \<Rightarrow> nat option" where
  "last_assistant ms = find (\<lambda>i. vm_Role (ms ! i) = ViewAssistant) (rev [0..<length ms])"

text \<open>\<open>summarise\<close>: the arguments on one line, cut after 120 bytes.\<close>

definition summarise_call :: "string \<Rightarrow> string \<Rightarrow> string" where
  "summarise_call name args =
     (let compact = str_join '' '' (Prelude.fields args) in
      if compact = '''' \<or> compact = ''{}'' then name
      else name @ '' '' @ (if length compact > 120 then take 120 compact @ [CHR 0xE2, CHR 0x80, CHR 0xA6] else compact))"

definition draw_payload :: "Event \<Rightarrow> Drawing \<Rightarrow> Drawing" where
  "draw_payload e d =
     (case ev_Payload e of
        PUserMessageAdded p \<Rightarrow>
          (let m = (fresh_message (um_MessageID p) ViewUser e)\<lparr>vm_Text := um_Text p\<rparr>
           in if ev_RunID e = '''' then place m d
              else d\<lparr>dr_held := dr_held d @ [(ev_RunID e, m)]\<rparr>)
      | PAssistantTextDelta p \<Rightarrow>
          (let (i, d) = message_for (td_MessageID p) e d
           in update_message i (\<lambda>m. m\<lparr>vm_Text := vm_Text m @ td_Text p, vm_Seq := ev_Seq e\<rparr>) d)
      | PAssistantReasoningDelta p \<Rightarrow>
          (let (i, d) = message_for (rd_MessageID p) e d
           in update_message i (\<lambda>m. m\<lparr>vm_Reasoning := vm_Reasoning m @ rd_Text p, vm_Seq := ev_Seq e\<rparr>) d)
      | PAssistantMessageCompleted p \<Rightarrow>
          (case gm_get (dr_byMessage d) (mc_MessageID p) of
             Some i \<Rightarrow> update_message i (\<lambda>m. m\<lparr>vm_Seq := ev_Seq e\<rparr>) d
           | None \<Rightarrow> d)
      | PToolCallRequested p \<Rightarrow>
          (let (i, d) = (case last_assistant (dr_messages d) of
                 Some i \<Rightarrow> (i, d) | None \<Rightarrow> append_message '''' ViewAssistant e d);
               call = \<lparr>vc_CallID = tq_CallID p, vc_Name = tq_Name p,
                 vc_Summary = summarise_call (tq_Name p) (tq_Arguments p),
                 vc_Completed = False, vc_IsError = False, vc_Artifact = None\<rparr>;
               d = update_message i (\<lambda>m. m\<lparr>vm_ToolCalls := vm_ToolCalls m @ [call]\<rparr>) d;
               d = d\<lparr>dr_byCall := gm_set (dr_byCall d) (tq_CallID p) (i, length (vm_ToolCalls (dr_messages d ! i)) - 1)\<rparr>
           in update_message i (\<lambda>m. m\<lparr>vm_Seq := ev_Seq e\<rparr>) d)
      | PToolCallCompleted p \<Rightarrow>
          (case gm_get (dr_byCall d) (tc_CallID p) of
             None \<Rightarrow> d
           | Some (i, c) \<Rightarrow>
               update_message i (\<lambda>m. m\<lparr>vm_ToolCalls := (vm_ToolCalls m)[c :=
                 (let call = vm_ToolCalls m ! c
                  in call\<lparr>vc_Completed := True, vc_IsError := tc_IsError p,
                       vc_Summary := (if tc_Summary p \<noteq> '''' then tc_Summary p else vc_Summary call),
                       vc_Artifact := tc_Artifact p\<rparr>)]\<rparr>) d)
      | PConversationCompacted p \<Rightarrow>
          (let (i, d) = append_message '''' ViewAssistant e (d\<lparr>dr_messages := [], dr_byMessage := [], dr_byCall := []\<rparr>)
           in update_message i (\<lambda>m. m\<lparr>vm_Text := FoldNotice\<rparr>) d)
      | PRunStateChanged p \<Rightarrow>
          if is_terminal (rs_Status p) then
            (if dr_active d = ev_RunID e then d\<lparr>dr_active := ''''\<rparr> else d)
          else d\<lparr>dr_active := ev_RunID e\<rparr>
      | _ \<Rightarrow> d)"

definition draw_event :: "Event \<Rightarrow> Drawing \<Rightarrow> Drawing" where
  "draw_event e d =
     draw_payload e
       (if event_ended e then discard_view (ev_RunID e) d
        else if event_started e then release_view (ev_RunID e) d
        else d)"

definition fold_events :: "Event list \<Rightarrow> ViewMessage list \<times> RunID" where
  "fold_events events =
     (let d = fold draw_event events new_drawing;
          d = fold (\<lambda>(r, m). place m) (dr_held d) d
      in (dr_messages d, dr_active d))"

definition head_seq_in :: "Event list \<Rightarrow> Seq" where
  "head_seq_in events = (if events = [] then 0 else ev_Seq (last events))"

definition active_run_of :: "Ctx \<Rightarrow> RunID \<Rightarrow> Store \<Rightarrow> Run option" where
  "active_run_of ctx rid s =
     (if rid = '''' then None
      else case get_run ctx rid s of
        Inl _ \<Rightarrow> None
      | Inr run \<Rightarrow> if is_terminal (ru_Status run) then None else Some run)"

record SessionView =
  sv_Session :: Session
  sv_Messages :: "ViewMessage list"
  sv_Pending :: "Approval list"
  sv_ActiveRun :: "Run option"
  sv_HeadSeq :: Seq
  sv_Truncated :: bool
  sv_Questions :: "Question list"
  sv_Plan :: "PlanItem list"

definition no_run :: "SessionID \<Rightarrow> Run" where
  "no_run sid = \<lparr>ru_ID = '''', ru_SessionID = sid, ru_Status = RunStatusOther '''',
     ru_Origin = \<lparr>or_Kind = OriginOther '''', or_ClientID = '''', or_Principal = None\<rparr>,
     ru_DeliveryTargets = [], ru_CreatedAt = zero_time, ru_FinishedAt = None, ru_Kind = RunKindOther '''',
     ru_ParentRunID = ''''\<rparr>"

definition session_view_of :: "Ctx \<Rightarrow> SessionID \<Rightarrow> int \<Rightarrow> Store \<Rightarrow> StoreError + SessionView" where
  "session_view_of ctx sid maxMessages s =
     (let maxMessages = (if maxMessages \<le> 0 then 50 else maxMessages) in
      case get_session ctx sid s of Inl err \<Rightarrow> Inl err
    | Inr session \<Rightarrow>
      (case list_after ctx sid 0 0 s of Inl err \<Rightarrow> Inl err
     | Inr events \<Rightarrow>
       (case events_visible_to ctx (no_run sid) events s of Inl err \<Rightarrow> Inl err
      | Inr visible \<Rightarrow>
        (let (messages, active) = fold_events visible;
             truncated = (int (length messages) > maxMessages);
             messages = (if truncated then drop (length messages - nat maxMessages) messages else messages)
         in case get_plan ctx sid s of Inl err \<Rightarrow> Inl err
          | Inr plan \<Rightarrow>
            (case pending_questions ctx sid s of Inl err \<Rightarrow> Inl err
           | Inr questions \<Rightarrow>
             (case pending_approvals ctx sid s of Inl err \<Rightarrow> Inl err
            | Inr pending \<Rightarrow>
               Inr \<lparr>sv_Session = session, sv_Messages = messages, sv_Pending = pending,
                    sv_ActiveRun = active_run_of ctx active s, sv_HeadSeq = head_seq_in events,
                    sv_Truncated = truncated, sv_Questions = questions, sv_Plan = plan\<rparr>))))))"

subsection \<open>The indices never point outside the drawing\<close>

definition drawing_ok :: "Drawing \<Rightarrow> bool" where
  "drawing_ok d \<longleftrightarrow>
     (\<forall>mid i. gm_get (dr_byMessage d) mid = Some i \<longrightarrow> i < length (dr_messages d)) \<and>
     (\<forall>call i c. gm_get (dr_byCall d) call = Some (i, c) \<longrightarrow>
        i < length (dr_messages d) \<and> c < length (vm_ToolCalls (dr_messages d ! i)))"

lemma drawing_ok_new: "drawing_ok new_drawing"
  by (simp add: drawing_ok_def new_drawing_def)

lemma place_ok: "drawing_ok d \<Longrightarrow> drawing_ok (place m d)"
  by (fastforce simp: drawing_ok_def place_def Let_def nth_append less_Suc_eq split: if_splits)

lemma place_messages [simp]: "dr_messages (place m d) = dr_messages d @ [m]"
  by (simp add: place_def Let_def)

lemma held_ok [simp]: "drawing_ok (d\<lparr>dr_held := h\<rparr>) = drawing_ok d" "drawing_ok (d\<lparr>dr_active := a\<rparr>) = drawing_ok d"
  by (simp_all add: drawing_ok_def)

lemma fold_place_ok: "drawing_ok d \<Longrightarrow> drawing_ok (fold (\<lambda>(r, m) d. if P r then place m d else d) h d)"
  by (induction h arbitrary: d) (simp_all add: split_beta place_ok)

lemma release_view_ok: "drawing_ok d \<Longrightarrow> drawing_ok (release_view run d)"
  unfolding release_view_def held_ok by (rule fold_place_ok)

lemma update_message_fields [simp]:
  "length (dr_messages (update_message i f d)) = length (dr_messages d)"
  "dr_byMessage (update_message i f d) = dr_byMessage d" "dr_byCall (update_message i f d) = dr_byCall d"
  "dr_held (update_message i f d) = dr_held d" "dr_active (update_message i f d) = dr_active d"
  by (simp_all add: update_message_def)

lemma update_message_nth: "j < length (dr_messages d) \<Longrightarrow>
    dr_messages (update_message i f d) ! j = (if i = j then f (dr_messages d ! j) else dr_messages d ! j)"
  by (simp add: update_message_def nth_list_update)

lemma update_message_ok:
  assumes ok: "drawing_ok d" and grow: "\<And>m. length (vm_ToolCalls m) \<le> length (vm_ToolCalls (f m))"
  shows "drawing_ok (update_message i f d)"
  unfolding drawing_ok_def
proof (intro conjI allI impI)
  fix mid k assume "gm_get (dr_byMessage (update_message i f d)) mid = Some k"
  then show "k < length (dr_messages (update_message i f d))" using ok by (simp add: drawing_ok_def)
next
  fix call k c assume "gm_get (dr_byCall (update_message i f d)) call = Some (k, c)"
  then have k: "k < length (dr_messages d)" "c < length (vm_ToolCalls (dr_messages d ! k))"
    using ok by (simp_all add: drawing_ok_def)
  then show "k < length (dr_messages (update_message i f d))" by simp
  show "c < length (vm_ToolCalls (dr_messages (update_message i f d) ! k))"
    using k grow [of "dr_messages d ! k"] by (simp add: update_message_nth)
qed

lemma message_for_ok:
  "drawing_ok d \<Longrightarrow> message_for mid e d = (i, d') \<Longrightarrow> drawing_ok d' \<and> i < length (dr_messages d')"
  by (auto simp: message_for_def append_message_def intro: place_ok split: option.splits)
    (auto simp: drawing_ok_def)

lemma last_assistant_less: "last_assistant ms = Some i \<Longrightarrow> i < length ms"
proof -
  assume "last_assistant ms = Some i"
  then have "i \<in> set (rev [0..<length ms])"
    unfolding last_assistant_def find_Some_iff by (metis nth_mem)
  then show "i < length ms" by simp
qed

lemma add_call_ok:
  assumes "drawing_ok d" and "i < length (dr_messages d)"
  shows "drawing_ok ((update_message i (\<lambda>m. m\<lparr>vm_ToolCalls := vm_ToolCalls m @ [call]\<rparr>) d)
    \<lparr>dr_byCall := gm_set (dr_byCall d) cid (i, length (vm_ToolCalls (dr_messages (update_message i
       (\<lambda>m. m\<lparr>vm_ToolCalls := vm_ToolCalls m @ [call]\<rparr>) d) ! i)) - 1)\<rparr>)"
proof -
  let ?d = "update_message i (\<lambda>m. m\<lparr>vm_ToolCalls := vm_ToolCalls m @ [call]\<rparr>) d"
  have "drawing_ok ?d" using assms(1) by (rule update_message_ok) simp
  moreover have "i < length (dr_messages ?d)" "0 < length (vm_ToolCalls (dr_messages ?d ! i))"
    using assms(2) by (simp_all add: update_message_nth)
  ultimately show ?thesis by (auto simp: drawing_ok_def)
qed

lemma last_or_new_ok:
  assumes "drawing_ok d" and "(case last_assistant (dr_messages d) of
      Some i \<Rightarrow> (i, d) | None \<Rightarrow> append_message '''' ViewAssistant e d) = (i, d')"
  shows "drawing_ok d' \<and> i < length (dr_messages d')"
  using assms last_assistant_less [of "dr_messages d"]
  by (auto simp: append_message_def intro: place_ok split: option.splits)

lemma draw_payload_ok: "drawing_ok d \<Longrightarrow> drawing_ok (draw_payload e d)"
proof (cases "ev_Payload e")
  case (PToolCallRequested p)
  assume ok: "drawing_ok d"
  obtain i d' where id: "(case last_assistant (dr_messages d) of
      Some i \<Rightarrow> (i, d) | None \<Rightarrow> append_message '''' ViewAssistant e d) = (i, d')" by fastforce
  have "drawing_ok d'" "i < length (dr_messages d')" using last_or_new_ok [OF ok id] by auto
  then show ?thesis unfolding draw_payload_def PToolCallRequested
    using id by (simp add: Let_def del: One_nat_def)
      (rule update_message_ok, rule add_call_ok, simp_all)
next
  case (PConversationCompacted p)
  have "drawing_ok (d\<lparr>dr_messages := [], dr_byMessage := [], dr_byCall := []\<rparr>)" by (simp add: drawing_ok_def)
  then show ?thesis unfolding draw_payload_def PConversationCompacted
    by (simp add: append_message_def) (intro update_message_ok place_ok, auto)
next
  case (PAssistantTextDelta p)
  assume ok: "drawing_ok d"
  obtain i d' where "message_for (td_MessageID p) e d = (i, d')" by fastforce
  then show ?thesis using message_for_ok [OF ok, of "td_MessageID p" e i d'] PAssistantTextDelta
    by (auto simp: draw_payload_def intro: update_message_ok)
next
  case (PAssistantReasoningDelta p)
  assume ok: "drawing_ok d"
  obtain i d' where "message_for (rd_MessageID p) e d = (i, d')" by fastforce
  then show ?thesis using message_for_ok [OF ok, of "rd_MessageID p" e i d'] PAssistantReasoningDelta
    by (auto simp: draw_payload_def intro: update_message_ok)
qed (auto simp: draw_payload_def Let_def intro: place_ok update_message_ok split: option.split)

lemma draw_event_ok: "drawing_ok d \<Longrightarrow> drawing_ok (draw_event e d)"
  unfolding draw_event_def discard_view_def by (intro draw_payload_ok) (auto intro: release_view_ok)

text \<open>Drawing a session never reads outside what it has drawn: whatever the log holds, at every
  point of folding it each remembered position of a message, and of a call inside a message, is
  one that exists, so the fold indexes neither list out of range, also after a compaction has
  emptied them.\<close>

theorem drawing_positions_exist:
  "drawing_ok (fold draw_event events new_drawing)"
proof -
  have "drawing_ok d \<Longrightarrow> drawing_ok (fold draw_event events d)" for d
    by (induction events arbitrary: d) (simp_all add: draw_event_ok)
  then show ?thesis by (simp add: drawing_ok_new)
qed

text \<open>A turn that begins with a tool call is drawn into the turn before it: the call is attached
  to the last assistant message there is, so when the model calls a tool before it writes any
  text, the call appears on the previous answer, above the question that caused it.\<close>

theorem first_call_drawn_on_previous_answer:
  "map (\<lambda>m. (vm_Text m, map vc_Name (vm_ToolCalls m))) (fst (fold_events
     [said_event ''main'' 1 ''hello'', state_event ''main'' 2 RunRunning, text_event ''main'' 3 ''hi there'',
      completed_event ''main'' 4, state_event ''main'' 5 RunCompleted,
      said_event ''next'' 6 ''list the files'', state_event ''next'' 7 RunRunning, call_event ''next'' 8 ''c'' ''glob_files'']))
   = [(''hello'', []), (''hi there'', [''glob_files'']), (''list the files'', [])]"
  by code_simp

text \<open>The run a view reports as active is the one whose state changed last, not the one in
  flight: while a run is working, one that joins the line behind it is reported instead, and once
  that one is taken back none is reported at all.\<close>

theorem active_run_is_the_queued_one:
  "snd (fold_events [said_event ''main'' 1 ''hello'', state_event ''main'' 2 RunRunning,
      said_event ''next'' 3 ''more'', state_event ''next'' 4 RunQueued, text_event ''main'' 5 ''hi'']) = ''next'' \<and>
   snd (fold_events [said_event ''main'' 1 ''hello'', state_event ''main'' 2 RunRunning,
      said_event ''next'' 3 ''more'', state_event ''next'' 4 RunQueued, text_event ''main'' 5 ''hi'',
      state_event ''next'' 6 RunCancelled, text_event ''main'' 7 '' there'']) = ''''"
  by code_simp

end
