(* ===== verification/TurnQueue.thy ===== *)
theory TurnQueue
imports Domain
begin

text \<open>
  One conversation, one turn at a time (\<open>core/internal/runtime/runtime.go\<close>: \<open>admit\<close>, \<open>launch\<close>,
  \<open>dequeue\<close>, \<open>next\<close>, \<open>releaseRun\<close>, the locked parts of \<open>InterruptRun\<close> and \<open>Shutdown\<close>, and the
  registrations of \<open>approval.go\<close>'s \<open>resume\<close> and \<open>investigate.go\<close>'s \<open>executeWorker\<close>).

  An \<open>*activeRun\<close> is shared: the map of active runs, the line of waiting runs and the run's
  goroutine all hold the same pointer, and \<open>dequeue\<close> changes it through one of them. So pointers
  are explicit: a token names an entry of \<open>tn_tracked\<close>. What a run does while it goes is not part of
  this model: it ends at some step, finished or parked.

  A function is divided into steps where it gives \<open>r.mu\<close> up and something may happen before it goes
  on: \<open>tn_going\<close> are the goroutines that execute a run (or wait for its wait to be recorded),
  \<open>tn_releasing\<close> those between the two halves of \<open>releaseRun\<close>, \<open>tn_leaving\<close> the runs that an
  interrupt or a failed \<open>admit\<close> has taken from the line and not released yet, \<open>tn_resuming\<close> the calls
  of \<open>resume\<close> that have passed its check and not registered yet.
\<close>

subsection \<open>State\<close>

datatype CancelCause = UserInterrupted string | ShuttingDown | AdmitFailed

record Tracked =
  tk_session :: SessionID
  tk_cancelled :: "CancelCause option"
  tk_done :: bool
  tk_owner :: bool

record QueuedRun =
  qr_run :: RunID
  qr_tracked :: nat
  qr_admitted :: bool

record Turns =
  tn_tracked :: "(nat, Tracked) gomap"
  tn_fresh :: nat
  tn_active :: "(RunID, nat) gomap"
  tn_queued :: "(SessionID, QueuedRun list) gomap"
  tn_busy :: "SessionID set"
  tn_draining :: bool
  tn_going :: "QueuedRun list"
  tn_releasing :: "QueuedRun list"
  tn_leaving :: "QueuedRun list"
  tn_resuming :: "RunID list"

definition new_turns :: Turns where
  "new_turns = \<lparr>tn_tracked = [], tn_fresh = 0, tn_active = [], tn_queued = [], tn_busy = {},
     tn_draining = False, tn_going = [], tn_releasing = [], tn_leaving = [], tn_resuming = []\<rparr>"

definition line_of :: "Turns \<Rightarrow> SessionID \<Rightarrow> QueuedRun list" where
  "line_of tn session = (case gm_get (tn_queued tn) session of None \<Rightarrow> [] | Some line \<Rightarrow> line)"

definition tracked_at :: "Turns \<Rightarrow> nat \<Rightarrow> Tracked" where
  "tracked_at tn k = (case gm_get (tn_tracked tn) k of
     Some t \<Rightarrow> t | None \<Rightarrow> \<lparr>tk_session = '''', tk_cancelled = None, tk_done = True, tk_owner = False\<rparr>)"

definition set_tracked :: "nat \<Rightarrow> (Tracked \<Rightarrow> Tracked) \<Rightarrow> Turns \<Rightarrow> Turns" where
  "set_tracked k f tn = tn\<lparr>tn_tracked := gm_set (tn_tracked tn) k (f (tracked_at tn k))\<rparr>"

text \<open>A context is cancelled once: the first cause stays.\<close>

definition cancelled_for :: "CancelCause \<Rightarrow> Tracked \<Rightarrow> Tracked" where
  "cancelled_for cause t = (case tk_cancelled t of None \<Rightarrow> t\<lparr>tk_cancelled := Some cause\<rparr> | Some _ \<Rightarrow> t)"

lemma cancelled_for_frame [simp]:
  "tk_owner (cancelled_for cause t) = tk_owner t" "tk_session (cancelled_for cause t) = tk_session t"
  "tk_done (cancelled_for cause t) = tk_done t"
  by (simp_all add: cancelled_for_def split: option.split)

subsection \<open>Operations\<close>

text \<open>\<open>&activeRun{...}\<close> and \<open>r.active[run.ID] = tracked\<close>\<close>

definition track :: "RunID \<Rightarrow> SessionID \<Rightarrow> bool \<Rightarrow> Turns \<Rightarrow> Turns" where
  "track run session owner tn =
     tn\<lparr>tn_tracked := gm_set (tn_tracked tn) (tn_fresh tn)
          \<lparr>tk_session = session, tk_cancelled = None, tk_done = False, tk_owner = owner\<rparr>,
        tn_fresh := tn_fresh tn + 1,
        tn_active := gm_set (tn_active tn) run (tn_fresh tn)\<rparr>"

definition launch :: "QueuedRun \<Rightarrow> Turns \<Rightarrow> Turns" where
  "launch waiting tn = tn\<lparr>tn_going := tn_going tn @ [waiting]\<rparr>"

text \<open>The locked part of \<open>admit\<close>, and the launch of a run that need not wait.\<close>

definition admit :: "RunID \<Rightarrow> SessionID \<Rightarrow> Turns \<Rightarrow> Turns" where
  "admit run session tn =
     (let waiting = \<lparr>qr_run = run, qr_tracked = tn_fresh tn, qr_admitted = False\<rparr>;
          tn = track run session True tn
      in if session \<in> tn_busy tn
         then tn\<lparr>tn_queued := gm_set (tn_queued tn) session (line_of tn session @ [waiting])\<rparr>
         else launch (waiting\<lparr>qr_admitted := True\<rparr>) (tn\<lparr>tn_busy := insert session (tn_busy tn)\<rparr>))"

definition dequeue :: "SessionID \<Rightarrow> RunID \<Rightarrow> Turns \<Rightarrow> (QueuedRun \<times> Turns) option" where
  "dequeue session run tn =
     (case find (\<lambda>w. qr_run w = run) (line_of tn session) of
        None \<Rightarrow> None
      | Some waiting \<Rightarrow>
          Some (waiting, set_tracked (qr_tracked waiting) (\<lambda>t. t\<lparr>tk_owner := False\<rparr>)
            (tn\<lparr>tn_queued := gm_set (tn_queued tn) session
                  (takeWhile (\<lambda>w. qr_run w \<noteq> run) (line_of tn session)
                    @ tl (dropWhile (\<lambda>w. qr_run w \<noteq> run) (line_of tn session)))\<rparr>)))"

text \<open>\<open>next\<close>: the run that has waited longest, or the session freed.\<close>

definition next_in_line :: "SessionID \<Rightarrow> Turns \<Rightarrow> QueuedRun option \<times> Turns" where
  "next_in_line session tn =
     (case line_of tn session of
        [] \<Rightarrow> (None, tn\<lparr>tn_busy := tn_busy tn - {session}, tn_queued := gm_del (tn_queued tn) session\<rparr>)
      | waiting # rest \<Rightarrow> (Some waiting, tn\<lparr>tn_queued := gm_set (tn_queued tn) session rest\<rparr>))"

text \<open>\<open>releaseRun\<close>: first the run is unregistered and its waiters told, then its session handed on
  when the turn was its own.\<close>

definition unregister :: "RunID \<Rightarrow> nat \<Rightarrow> Turns \<Rightarrow> Turns" where
  "unregister run k tn =
     set_tracked k (\<lambda>t. t\<lparr>tk_done := True\<rparr>)
       (if gm_get (tn_active tn) run = Some k then tn\<lparr>tn_active := gm_del (tn_active tn) run\<rparr> else tn)"

definition hand_on :: "nat \<Rightarrow> Turns \<Rightarrow> Turns" where
  "hand_on k tn =
     (if \<not> tk_owner (tracked_at tn k) then tn
      else case next_in_line (tk_session (tracked_at tn k)) tn of
        (None, tn) \<Rightarrow> tn
      | (Some following, tn) \<Rightarrow> launch following tn)"

definition release_run :: "RunID \<Rightarrow> nat \<Rightarrow> Turns \<Rightarrow> Turns" where
  "release_run run k tn = hand_on k (unregister run k tn)"

text \<open>A goroutine in \<open>releaseRun\<close>, deferred: the run ended or parked.\<close>

definition goes_no_more :: "QueuedRun \<Rightarrow> Turns \<Rightarrow> Turns" where
  "goes_no_more w tn =
     unregister (qr_run w) (qr_tracked w)
       (tn\<lparr>tn_going := remove1 w (tn_going tn), tn_releasing := tn_releasing tn @ [w]\<rparr>)"

definition returns :: "QueuedRun \<Rightarrow> Turns \<Rightarrow> Turns" where
  "returns w tn = hand_on (qr_tracked w) (tn\<lparr>tn_releasing := remove1 w (tn_releasing tn)\<rparr>)"

text \<open>\<open>close(admitted)\<close>, once the wait is on record: the same channel in the line and in the
  goroutine that may already hold the run.\<close>

definition mark_admitted :: "nat \<Rightarrow> Turns \<Rightarrow> Turns" where
  "mark_admitted k tn =
     (let mark = map (\<lambda>w. if qr_tracked w = k then w\<lparr>qr_admitted := True\<rparr> else w)
      in tn\<lparr>tn_queued := map (\<lambda>(s, line). (s, mark line)) (tn_queued tn), tn_going := mark (tn_going tn)\<rparr>)"

text \<open>A run taken out of the line, with the reason its context is given.\<close>

definition taken :: "CancelCause \<Rightarrow> QueuedRun \<times> Turns \<Rightarrow> Turns" where
  "taken cause = (\<lambda>(waiting, tn).
     set_tracked (qr_tracked waiting) (cancelled_for cause)
       (tn\<lparr>tn_leaving := tn_leaving tn @ [waiting]\<rparr>))"

text \<open>The end of \<open>admit\<close> when the wait could not be recorded.\<close>

definition admit_failed :: "SessionID \<Rightarrow> RunID \<Rightarrow> nat \<Rightarrow> Turns \<Rightarrow> Turns" where
  "admit_failed session run k tn =
     (case dequeue session run (mark_admitted k tn) of
        None \<Rightarrow> mark_admitted k tn
      | Some left \<Rightarrow> taken AdmitFailed left)"

text \<open>\<open>InterruptRun\<close>, for a run of the given session that has not ended; \<open>None\<close> is
  \<open>ErrRunNotFound\<close>.\<close>

definition interrupt :: "SessionID \<Rightarrow> RunID \<Rightarrow> string \<Rightarrow> Turns \<Rightarrow> Turns option" where
  "interrupt session run reason tn =
     (case gm_get (tn_active tn) run of
        None \<Rightarrow> None
      | Some k \<Rightarrow>
          (case dequeue session run tn of
             Some waiting \<Rightarrow> Some (taken (UserInterrupted reason) waiting)
           | None \<Rightarrow> Some (set_tracked k (cancelled_for (UserInterrupted reason)) tn)))"

text \<open>The release at the end of both.\<close>

definition leaves :: "QueuedRun \<Rightarrow> Turns \<Rightarrow> Turns" where
  "leaves w tn = release_run (qr_run w) (qr_tracked w) (tn\<lparr>tn_leaving := remove1 w (tn_leaving tn)\<rparr>)"

text \<open>\<open>resume\<close>: the check at its start, and the registration at its end, which does not check
  again: no session, and not the owner of a turn.\<close>

definition resume_check :: "RunID \<Rightarrow> Turns \<Rightarrow> bool" where
  "resume_check run tn \<longleftrightarrow> \<not> tn_draining tn \<and> gm_get (tn_active tn) run = None"

definition resume_run :: "RunID \<Rightarrow> Turns \<Rightarrow> Turns" where
  "resume_run run tn = launch \<lparr>qr_run = run, qr_tracked = tn_fresh tn, qr_admitted = True\<rparr> (track run '''' False tn)"

text \<open>The registration in \<open>executeWorker\<close>; the worker goes in its parent's goroutine.\<close>

definition start_worker :: "RunID \<Rightarrow> SessionID \<Rightarrow> Turns \<Rightarrow> Turns" where
  "start_worker run session tn =
     launch \<lparr>qr_run = run, qr_tracked = tn_fresh tn, qr_admitted = True\<rparr> (track run session False tn)"

definition shutdown :: "Turns \<Rightarrow> Turns" where
  "shutdown tn =
     tn\<lparr>tn_draining := True,
        tn_tracked := map (\<lambda>(k, t). if k \<in> snd ` set (tn_active tn) then (k, cancelled_for ShuttingDown t) else (k, t))
          (tn_tracked tn)\<rparr>"

subsection \<open>Steps\<close>

text \<open>
  Any interleaving of what clients, people and goroutines do. A run is admitted under an ID that
  no run has that is tracked, waits or goes.
\<close>

definition known_run :: "Turns \<Rightarrow> RunID \<Rightarrow> bool" where
  "known_run tn run \<longleftrightarrow> gm_get (tn_active tn) run \<noteq> None \<or>
     run \<in> qr_run ` set (tn_going tn @ tn_releasing tn @ tn_leaving tn)"

inductive turn_step :: "Turns \<Rightarrow> Turns \<Rightarrow> bool" where
  step_admit: "\<not> known_run tn run \<Longrightarrow> turn_step tn (admit run session tn)"
| step_admitted: "turn_step tn (mark_admitted k tn)"
| step_admit_failed: "w \<in> set (line_of tn session) \<Longrightarrow> \<not> qr_admitted w \<Longrightarrow>
    turn_step tn (admit_failed session (qr_run w) (qr_tracked w) tn)"
| step_interrupt: "interrupt session run reason tn = Some tn' \<Longrightarrow> turn_step tn tn'"
| step_leaves: "w \<in> set (tn_leaving tn) \<Longrightarrow> turn_step tn (leaves w tn)"
| step_resume_check: "resume_check run tn \<Longrightarrow> turn_step tn (tn\<lparr>tn_resuming := run # tn_resuming tn\<rparr>)"
| step_resume: "run \<in> set (tn_resuming tn) \<Longrightarrow>
    turn_step tn (resume_run run (tn\<lparr>tn_resuming := remove1 run (tn_resuming tn)\<rparr>))"
| step_worker: "\<not> known_run tn run \<Longrightarrow> turn_step tn (start_worker run session tn)"
| step_goes_no_more: "w \<in> set (tn_going tn) \<Longrightarrow> qr_admitted w \<Longrightarrow> turn_step tn (goes_no_more w tn)"
| step_returns: "w \<in> set (tn_releasing tn) \<Longrightarrow> turn_step tn (returns w tn)"
| step_shutdown: "turn_step tn (shutdown tn)"

inductive turns_reachable :: "Turns \<Rightarrow> bool" where
  reach_new: "turns_reachable new_turns"
| reach_step: "turns_reachable tn \<Longrightarrow> turn_step tn tn' \<Longrightarrow> turns_reachable tn'"

inductive_cases turn_stepE: "turn_step tn tn'"

subsection \<open>The invariant, over pointers\<close>

text \<open>
  What the invariant is about: for each pointer whether it owns a turn, of which session, and
  whether its channel is closed; the pointers of the goroutines that go (\<open>g\<close>), that are being
  released (\<open>r\<close>), that are leaving (\<open>v\<close>), and of each line (\<open>l\<close>).
\<close>

definition tview :: "Turns \<Rightarrow> nat \<Rightarrow> bool \<times> SessionID \<times> bool" where
  "tview tn k = (let t = tracked_at tn k in (tk_owner t, tk_session t, tk_done t))"

definition owners_in :: "(nat \<Rightarrow> bool \<times> SessionID \<times> bool) \<Rightarrow> SessionID \<Rightarrow> nat list \<Rightarrow> nat" where
  "owners_in T s g = length (filter (\<lambda>k. fst (T k) \<and> fst (snd (T k)) = s) g)"

definition tokens_ok ::
    "nat \<Rightarrow> (nat \<Rightarrow> bool \<times> SessionID \<times> bool) \<Rightarrow> nat list \<Rightarrow> nat list \<Rightarrow> nat list \<Rightarrow> (SessionID \<Rightarrow> nat list) \<Rightarrow> SessionID set \<Rightarrow> bool" where
  "tokens_ok n T g r v l busy \<longleftrightarrow>
     (\<forall>k \<in> set g. k < n \<and> \<not> snd (snd (T k))) \<and> (\<forall>k \<in> set r. k < n) \<and>
     (\<forall>k \<in> set v. k < n \<and> \<not> fst (T k) \<and> \<not> snd (snd (T k))) \<and>
     distinct g \<and> distinct r \<and> distinct v \<and> set g \<inter> set r = {} \<and> set g \<inter> set v = {} \<and> set r \<inter> set v = {} \<and>
     (\<forall>s. \<forall>k \<in> set (l s). k < n \<and> T k = (True, s, False) \<and> k \<notin> set g \<union> set r \<union> set v) \<and> (\<forall>s. distinct (l s)) \<and>
     (\<forall>s. owners_in T s g + owners_in T s r = (if s \<in> busy then 1 else 0)) \<and>
     (\<forall>s. s \<notin> busy \<longrightarrow> l s = [])"

lemma tokens_okI:
  assumes "\<And>k. k \<in> set g \<Longrightarrow> k < n \<and> \<not> snd (snd (T k))" "\<And>k. k \<in> set r \<Longrightarrow> k < n"
    "\<And>k. k \<in> set v \<Longrightarrow> k < n \<and> \<not> fst (T k) \<and> \<not> snd (snd (T k))"
    "distinct g" "distinct r" "distinct v" "set g \<inter> set r = {}" "set g \<inter> set v = {}" "set r \<inter> set v = {}"
    "\<And>s k. k \<in> set (l s) \<Longrightarrow> k < n \<and> T k = (True, s, False) \<and> k \<notin> set g \<and> k \<notin> set r \<and> k \<notin> set v"
    "\<And>s. distinct (l s)"
    "\<And>s. owners_in T s g + owners_in T s r = (if s \<in> b then 1 else 0)" "\<And>s. s \<notin> b \<Longrightarrow> l s = []"
  shows "tokens_ok n T g r v l b"
  unfolding tokens_ok_def using assms by blast

lemma tokens_okD:
  assumes "tokens_ok n T g r v l b"
  shows "k \<in> set g \<Longrightarrow> k < n \<and> \<not> snd (snd (T k))" "k \<in> set r \<Longrightarrow> k < n"
    "k \<in> set v \<Longrightarrow> k < n \<and> \<not> fst (T k) \<and> \<not> snd (snd (T k))"
    "k \<in> set (l s) \<Longrightarrow> k < n \<and> T k = (True, s, False) \<and> k \<notin> set g \<and> k \<notin> set r \<and> k \<notin> set v"
    "distinct g" "distinct r" "distinct v" "distinct (l s)"
    "set g \<inter> set r = {}" "set g \<inter> set v = {}" "set r \<inter> set v = {}"
    "owners_in T s g + owners_in T s r = (if s \<in> b then 1 else 0)" "s \<notin> b \<Longrightarrow> l s = []"
    "n \<notin> set g" "n \<notin> set r" "n \<notin> set v" "n \<notin> set (l s)"
    "s \<notin> b \<Longrightarrow> owners_in T s g = 0" "s \<notin> b \<Longrightarrow> owners_in T s r = 0"
proof -
  show "s \<notin> b \<Longrightarrow> owners_in T s g = 0" "s \<notin> b \<Longrightarrow> owners_in T s r = 0"
    using assms unfolding tokens_ok_def by (metis add_eq_0_iff_both_eq_0)+
qed (use assms in \<open>unfold tokens_ok_def, blast+\<close>)

lemma owners_in_simps [simp]:
  "owners_in T s [] = 0"
  "owners_in T s (k # g) = (if fst (T k) \<and> fst (snd (T k)) = s then 1 else 0) + owners_in T s g"
  "owners_in T s (g @ h) = owners_in T s g + owners_in T s h"
  by (simp_all add: owners_in_def)

lemma owners_in_upd [simp]: "k \<notin> set g \<Longrightarrow> owners_in (T(k := v)) s g = owners_in T s g"
  unfolding owners_in_def by (rule arg_cong [where f = length], rule filter_cong) auto

lemma owners_in_remove1:
  "k \<in> set g \<Longrightarrow> owners_in T s g = owners_in T s (remove1 k g) + (if fst (T k) \<and> fst (snd (T k)) = s then 1 else 0)"
  by (induction g) auto

lemma tok_add_going:
  assumes "tokens_ok n T g r v l b"
  shows "tokens_ok (Suc n) (T(n := (False, s, False))) (g @ [n]) r v l b"
proof -
  note d = tokens_okD [OF assms]
  show ?thesis by (rule tokens_okI) (auto dest: d(1-4) simp: d(5-19) less_Suc_eq)
qed

lemma tok_admit_wait:
  assumes "tokens_ok n T g r v l b" "s \<in> b"
  shows "tokens_ok (Suc n) (T(n := (True, s, False))) g r v (l(s := l s @ [n])) b"
proof -
  note d = tokens_okD [OF assms(1)]
  show ?thesis by (rule tokens_okI) (auto dest: d(1-4) simp: d(5-19) assms(2) less_Suc_eq split: if_splits)
qed

lemma tok_admit_go:
  assumes "tokens_ok n T g r v l b" "s \<notin> b"
  shows "tokens_ok (Suc n) (T(n := (True, s, False))) (g @ [n]) r v l (insert s b)"
proof -
  note d = tokens_okD [OF assms(1)]
  show ?thesis by (rule tokens_okI) (auto dest: d(1-4) simp: d(5-19) assms(2) less_Suc_eq split: if_splits)
qed

text \<open>A goroutine enters \<open>releaseRun\<close>.\<close>

lemma tok_release:
  assumes "tokens_ok n T g r v l b" "k \<in> set g"
  shows "tokens_ok n (T(k := (fst (T k), fst (snd (T k)), True))) (remove1 k g) (r @ [k]) v l b"
proof -
  note d = tokens_okD [OF assms(1)]
  have out: "k \<notin> set r" "k \<notin> set v" "k \<notin> set (l s)" for s using d(4,9,10) assms(2) by blast+
  have in': "k \<notin> set (remove1 k g)" "set (remove1 k g) \<subseteq> set g" by (simp_all add: d(5) set_remove1_subset)
  have count: "owners_in T s (remove1 k g) + (if fst (T k) \<and> fst (snd (T k)) = s then 1 else 0) + owners_in T s r =
      (if s \<in> b then 1 else 0)" for s
    using owners_in_remove1 [OF assms(2), of T s] d(12) [of s] by simp
  show ?thesis
  proof (rule tokens_okI)
    fix s
    show "owners_in (T(k := (fst (T k), fst (snd (T k)), True))) s (remove1 k g) +
        owners_in (T(k := (fst (T k), fst (snd (T k)), True))) s (r @ [k]) = (if s \<in> b then 1 else 0)"
      using count [of s] owners_in_upd [OF in'(1), of T "(fst (T k), fst (snd (T k)), True)" s] out(1) by simp
  qed (use d(9-11) out in' assms(2) d(1) in \<open>auto dest: d(1-4) simp: d(5-8,13)\<close>)
qed

text \<open>It hands the turn on, frees the session, or had nothing to hand on.\<close>

lemma tok_hand:
  assumes "tokens_ok n T g r v l b" "k \<in> set r" "fst (T k)" "l (fst (snd (T k))) = k' # rest"
  shows "tokens_ok n T (g @ [k']) (remove1 k r) v (l(fst (snd (T k)) := rest)) b"
proof -
  let ?s = "fst (snd (T k))"
  note d = tokens_okD [OF assms(1)]
  have k': "k' < n" "T k' = (True, ?s, False)" "k' \<notin> set g" "k' \<notin> set r" "k' \<notin> set v" "distinct (k' # rest)"
    using d(4) [of k' ?s] d(8) [of ?s] assms(4) by simp_all
  have rest: "j \<in> set rest \<Longrightarrow> j < n \<and> T j = (True, ?s, False) \<and> j \<notin> set g \<and> j \<notin> set r \<and> j \<notin> set v" for j
    using d(4) [of j ?s] assms(4) by simp
  have others: "k' \<notin> set (l s')" if "s' \<noteq> ?s" for s' using d(4) [of k' s'] k'(2) that by auto
  have sub: "set (remove1 k r) \<subseteq> set r" by (rule set_remove1_subset)
  have count: "owners_in T s (remove1 k r) + (if fst (T k) \<and> ?s = s then 1 else 0) + owners_in T s g =
      (if s \<in> b then 1 else 0)" for s
    using owners_in_remove1 [OF assms(2), of T s] d(12) [of s] by simp
  have lb: "?s \<in> b" using d(13) [of ?s] assms(4) by auto
  show ?thesis
  proof (rule tokens_okI)
    fix s
    show "owners_in T s (g @ [k']) + owners_in T s (remove1 k r) = (if s \<in> b then 1 else 0)"
      using count [of s] k'(2) assms(3) by (auto split: if_splits)
  next
    fix s j
    assume "j \<in> set ((l(?s := rest)) s)"
    then show "j < n \<and> T j = (True, s, False) \<and> j \<notin> set (g @ [k']) \<and> j \<notin> set (remove1 k r) \<and> j \<notin> set v"
      using rest [of j] d(4) [of j s] others [of s] k'(6) sub by (auto split: if_splits)
  qed (use d(9-11) k' sub lb in \<open>auto dest: d(1-4) simp: d(5-8,13)\<close>)
qed

lemma tok_free:
  assumes "tokens_ok n T g r v l b" "k \<in> set r" "fst (T k)" "l (fst (snd (T k))) = []"
  shows "tokens_ok n T g (remove1 k r) v l (b - {fst (snd (T k))})"
proof -
  note d = tokens_okD [OF assms(1)]
  have sub: "set (remove1 k r) \<subseteq> set r" by (rule set_remove1_subset)
  have count: "owners_in T s (remove1 k r) + (if fst (snd (T k)) = s then 1 else 0) + owners_in T s g =
      (if s \<in> b then 1 else 0)" for s
    using owners_in_remove1 [OF assms(2), of T s] d(12) [of s] assms(3) by simp
  show ?thesis
  proof (rule tokens_okI)
    fix s
    show "owners_in T s g + owners_in T s (remove1 k r) = (if s \<in> b - {fst (snd (T k))} then 1 else 0)"
      using count [of s] by (auto split: if_splits)
  qed (use d(9-11) sub assms(4) in \<open>auto dest: d(1-4) simp: d(5-8,13)\<close>)
qed

lemma tok_gone:
  assumes "tokens_ok n T g r v l b" "k \<in> set r" "\<not> fst (T k)"
  shows "tokens_ok n T g (remove1 k r) v l b"
proof -
  note d = tokens_okD [OF assms(1)]
  have sub: "set (remove1 k r) \<subseteq> set r" by (rule set_remove1_subset)
  show ?thesis
  proof (rule tokens_okI)
    fix s
    show "owners_in T s g + owners_in T s (remove1 k r) = (if s \<in> b then 1 else 0)"
      using owners_in_remove1 [OF assms(2), of T s] d(12) [of s] assms(3) by simp
  qed (use d(9-11) sub in \<open>auto dest: d(1-4) simp: d(5-8,13)\<close>)
qed

text \<open>A run is taken out of the line, and then released.\<close>

lemma tok_take:
  assumes "tokens_ok n T g r v l b" "k \<in> set (l s)"
  shows "tokens_ok n (T(k := (False, s, False))) g r (v @ [k]) (l(s := remove1 k (l s))) b"
proof -
  note d = tokens_okD [OF assms(1)]
  have k: "k < n" "T k = (True, s, False)" "k \<notin> set g" "k \<notin> set r" "k \<notin> set v" "distinct (l s)"
    using d(4) [OF assms(2)] d(8) by simp_all
  have others: "k \<notin> set (l s')" if "s' \<noteq> s" for s' using d(4) [of k s'] k(2) that by auto
  have lb: "s \<in> b" using d(13) [of s] assms(2) by (cases "s \<in> b") auto
  show ?thesis
    by (rule tokens_okI) (use d(9-11) k others lb in \<open>auto dest: d(1-4) simp: d(5-8,12,13) distinct_remove1 split: if_splits\<close>)
qed

lemma tok_leave:
  assumes "tokens_ok n T g r v l b" "k \<in> set v"
  shows "tokens_ok n (T(k := (False, s, True))) g r (remove1 k v) l b"
proof -
  note d = tokens_okD [OF assms(1)]
  have k: "k \<notin> set g" "k \<notin> set r" "k \<notin> set (l s)" for s using d(4,10,11) assms(2) by blast+
  show ?thesis
    by (rule tokens_okI) (use d(9-11) k in \<open>auto dest: d(1-4) simp: d(5-8,12,13) distinct_remove1\<close>)
qed

definition turns_inv :: "Turns \<Rightarrow> bool" where
  "turns_inv tn \<longleftrightarrow> tokens_ok (tn_fresh tn) (tview tn) (map qr_tracked (tn_going tn)) (map qr_tracked (tn_releasing tn))
     (map qr_tracked (tn_leaving tn)) (map qr_tracked \<circ> line_of tn) (tn_busy tn)"

subsection \<open>Every step keeps it\<close>

lemma tracked_at_set [simp]: "tracked_at (set_tracked k f tn) j = (if j = k then f (tracked_at tn k) else tracked_at tn j)"
  by (simp add: tracked_at_def set_tracked_def)

lemma set_tracked_frame [frame_simps]:
  "tn_fresh (set_tracked k f tn) = tn_fresh tn" "tn_going (set_tracked k f tn) = tn_going tn"
  "tn_busy (set_tracked k f tn) = tn_busy tn" "tn_queued (set_tracked k f tn) = tn_queued tn"
  "tn_active (set_tracked k f tn) = tn_active tn" "tn_releasing (set_tracked k f tn) = tn_releasing tn"
  "tn_leaving (set_tracked k f tn) = tn_leaving tn"
  by (simp_all add: set_tracked_def)

lemma tracked_at_frame [frame_simps]:
  "tracked_at (tn\<lparr>tn_going := g\<rparr>) k = tracked_at tn k" "tracked_at (tn\<lparr>tn_queued := q\<rparr>) k = tracked_at tn k"
  "tracked_at (tn\<lparr>tn_busy := b\<rparr>) k = tracked_at tn k" "tracked_at (tn\<lparr>tn_releasing := r\<rparr>) k = tracked_at tn k"
  "tracked_at (tn\<lparr>tn_leaving := v\<rparr>) k = tracked_at tn k" "tracked_at (tn\<lparr>tn_resuming := u\<rparr>) k = tracked_at tn k"
  "tracked_at (tn\<lparr>tn_active := a\<rparr>) k = tracked_at tn k"
  by (simp_all add: tracked_at_def)

lemma tview_frame [frame_simps]:
  "tview (tn\<lparr>tn_going := g\<rparr>) = tview tn" "tview (tn\<lparr>tn_queued := q\<rparr>) = tview tn" "tview (tn\<lparr>tn_busy := b\<rparr>) = tview tn"
  "tview (tn\<lparr>tn_releasing := r\<rparr>) = tview tn" "tview (tn\<lparr>tn_leaving := v\<rparr>) = tview tn"
  "tview (tn\<lparr>tn_resuming := u\<rparr>) = tview tn" "tview (tn\<lparr>tn_active := a\<rparr>) = tview tn"
  by (simp_all add: tview_def frame_simps fun_eq_iff)

lemma line_of_frame [frame_simps]:
  "line_of (tn\<lparr>tn_going := g\<rparr>) = line_of tn" "line_of (tn\<lparr>tn_busy := b\<rparr>) = line_of tn"
  "line_of (tn\<lparr>tn_releasing := r\<rparr>) = line_of tn" "line_of (tn\<lparr>tn_leaving := v\<rparr>) = line_of tn"
  "line_of (tn\<lparr>tn_resuming := u\<rparr>) = line_of tn" "line_of (tn\<lparr>tn_active := a\<rparr>) = line_of tn"
  "line_of (set_tracked k f tn) = line_of tn"
  by (simp_all add: line_of_def set_tracked_def fun_eq_iff)

lemma line_of_set [frame_simps]:
  "line_of (tn\<lparr>tn_queued := gm_set (tn_queued tn) s line\<rparr>) = (line_of tn)(s := line)"
  by (auto simp: line_of_def fun_eq_iff)

lemma line_of_del [frame_simps]:
  "line_of (tn\<lparr>tn_busy := b, tn_queued := gm_del (tn_queued tn) s\<rparr>) = (line_of tn)(s := [])"
  "line_of (tn\<lparr>tn_releasing := r, tn_busy := b, tn_queued := gm_del (tn_queued tn) s\<rparr>) = (line_of tn)(s := [])"
  by (auto simp: line_of_def fun_eq_iff)

lemma line_of_handed [frame_simps]:
  "line_of (tn\<lparr>tn_releasing := r, tn_queued := gm_set (tn_queued tn) s line\<rparr>) = (line_of tn)(s := line)"
  by (auto simp: line_of_def fun_eq_iff)

lemma map_line_upd [frame_simps]: "map f \<circ> L(s := line) = (map f \<circ> L)(s := map f line)"
  by auto

lemma tview_set_tracked [frame_simps]:
  "tview (set_tracked k f tn) = (tview tn)(k := (let t = f (tracked_at tn k) in (tk_owner t, tk_session t, tk_done t)))"
  by (rule ext) (simp add: tview_def)

lemma track_frame [frame_simps]:
  "tview (track run s b tn) = (tview tn)(tn_fresh tn := (b, s, False))"
  "tn_fresh (track run s b tn) = Suc (tn_fresh tn)" "tn_going (track run s b tn) = tn_going tn"
  "tn_busy (track run s b tn) = tn_busy tn" "tn_queued (track run s b tn) = tn_queued tn"
  "tn_releasing (track run s b tn) = tn_releasing tn" "tn_leaving (track run s b tn) = tn_leaving tn"
  "line_of (track run s b tn) = line_of tn"
  by (auto simp: track_def tview_def tracked_at_def line_of_def fun_eq_iff)

lemma tview_at: "tview tn k = (tk_owner (tracked_at tn k), tk_session (tracked_at tn k), tk_done (tracked_at tn k))"
  by (simp add: tview_def Let_def)

lemma inv_resume: "turns_inv tn \<Longrightarrow> turns_inv (resume_run run tn)"
  using tok_add_going [of "tn_fresh tn"] by (simp add: turns_inv_def resume_run_def launch_def frame_simps)

lemma inv_worker: "turns_inv tn \<Longrightarrow> turns_inv (start_worker run s tn)"
  using tok_add_going [of "tn_fresh tn"] by (simp add: turns_inv_def start_worker_def launch_def frame_simps)

lemma inv_admit:
  assumes "turns_inv tn"
  shows "turns_inv (admit run s tn)"
proof (cases "s \<in> tn_busy tn")
  case True
  have "line_of (admit run s tn) = (line_of tn)(s := line_of tn s @ [\<lparr>qr_run = run, qr_tracked = tn_fresh tn, qr_admitted = False\<rparr>])"
    using True by (auto simp: admit_def Let_def frame_simps line_of_def fun_eq_iff)
  with tok_admit_wait [OF assms [unfolded turns_inv_def] True] True show ?thesis
    by (simp add: turns_inv_def frame_simps) (simp add: admit_def Let_def frame_simps)
next
  case False
  from tok_admit_go [OF assms [unfolded turns_inv_def] False] False show ?thesis
    by (simp add: turns_inv_def admit_def Let_def launch_def frame_simps)
qed

lemma map_remove1_inj: "w \<in> set xs \<Longrightarrow> distinct (map f xs) \<Longrightarrow> map f (remove1 w xs) = remove1 (f w) (map f xs)"
  by (induction xs) (auto simp: image_iff)

lemma inv_goes_no_more:
  assumes "turns_inv tn" "w \<in> set (tn_going tn)"
  shows "turns_inv (goes_no_more w tn)"
  using tok_release [OF assms(1) [unfolded turns_inv_def], of "qr_tracked w"] assms(2)
    map_remove1_inj [OF assms(2) tokens_okD(5) [OF assms(1) [unfolded turns_inv_def]]]
  by (auto simp: turns_inv_def goes_no_more_def unregister_def frame_simps tview_at Let_def)

lemma inv_returns:
  assumes "turns_inv tn" "w \<in> set (tn_releasing tn)"
  shows "turns_inv (returns w tn)"
proof -
  let ?k = "qr_tracked w"
  note ok = assms(1) [unfolded turns_inv_def]
  have k: "?k \<in> set (map qr_tracked (tn_releasing tn))" using assms(2) by simp
  note m = map_remove1_inj [OF assms(2) tokens_okD(6) [OF ok]]
  show ?thesis
  proof (cases "tk_owner (tracked_at tn ?k)")
    case False
    with tok_gone [OF ok k] show ?thesis by (simp add: turns_inv_def returns_def hand_on_def frame_simps m tview_at)
  next
    case True
    show ?thesis
    proof (cases "line_of tn (tk_session (tracked_at tn ?k))")
      case Nil
      have "(line_of tn)(tk_session (tracked_at tn ?k) := []) = line_of tn" using Nil by auto
      with True Nil tok_free [OF ok k] show ?thesis
        by (simp add: turns_inv_def returns_def hand_on_def next_in_line_def frame_simps m tview_at)
    next
      case (Cons following rest)
      with True tok_hand [OF ok k] show ?thesis
        by (simp add: turns_inv_def returns_def hand_on_def next_in_line_def launch_def frame_simps m tview_at)
    qed
  qed
qed


lemma dequeue_some:
  assumes "dequeue s run tn = Some (w, tn')"
  shows "find (\<lambda>w. qr_run w = run) (line_of tn s) = Some w"
    "line_of tn' = (line_of tn)(s := takeWhile (\<lambda>w. qr_run w \<noteq> run) (line_of tn s)
      @ tl (dropWhile (\<lambda>w. qr_run w \<noteq> run) (line_of tn s)))"
    "tn_going tn' = tn_going tn" "tn_busy tn' = tn_busy tn" "tn_fresh tn' = tn_fresh tn"
    "tn_releasing tn' = tn_releasing tn" "tn_leaving tn' = tn_leaving tn"
    "tracked_at tn' k = (if k = qr_tracked w then (tracked_at tn k)\<lparr>tk_owner := False\<rparr> else tracked_at tn k)"
  using assms unfolding dequeue_def by (auto simp: frame_simps split: option.splits)

lemma map_cut_remove1:
  "find P xs = Some w \<Longrightarrow> distinct (map f xs) \<Longrightarrow>
    map f (takeWhile (\<lambda>x. \<not> P x) xs @ tl (dropWhile (\<lambda>x. \<not> P x) xs)) = remove1 (f w) (map f xs)"
proof (induction xs)
  case (Cons a xs)
  show ?case
  proof (cases "P a")
    case False
    then have "w \<in> set xs" using Cons.prems(1) by (auto simp: find_Some_iff)
    then have "f w \<in> f ` set xs" by (rule imageI)
    with Cons False show ?thesis by auto
  qed (use Cons in auto)
qed simp

lemma inv_taken:
  assumes "turns_inv tn" "dequeue s run tn = Some (w, tn')"
  shows "turns_inv (taken cause (w, tn'))"
proof -
  note d = dequeue_some [OF assms(2)]
  note ok = assms(1) [unfolded turns_inv_def]
  have "w \<in> set (line_of tn s)" using d(1) by (auto simp: find_Some_iff)
  then have mem: "qr_tracked w \<in> set ((map qr_tracked \<circ> line_of tn) s)" by simp
  have sess: "tk_session (tracked_at tn (qr_tracked w)) = s" "\<not> tk_done (tracked_at tn (qr_tracked w))"
    using tokens_okD(4) [OF ok mem] by (simp_all add: tview_at)
  have lines: "map qr_tracked \<circ> line_of tn' =
      (map qr_tracked \<circ> line_of tn)(s := remove1 (qr_tracked w) ((map qr_tracked \<circ> line_of tn) s))"
    using map_cut_remove1 [OF d(1), of qr_tracked] tokens_okD(8) [OF ok, of s] by (auto simp: d(2) fun_eq_iff)
  have view: "tview tn' = (tview tn)(qr_tracked w := (False, s, False))"
    using sess by (auto simp: fun_eq_iff tview_at d(8))
  from tok_take [OF ok mem, folded lines view] show ?thesis
    using sess by (simp add: turns_inv_def taken_def frame_simps d(3-8) Let_def view)
qed

lemma inv_leaves:
  assumes "turns_inv tn" "w \<in> set (tn_leaving tn)"
  shows "turns_inv (leaves w tn)"
proof -
  note ok = assms(1) [unfolded turns_inv_def]
  have k: "qr_tracked w \<in> set (map qr_tracked (tn_leaving tn))" using assms(2) by simp
  have "\<not> tk_owner (tracked_at tn (qr_tracked w))" using tokens_okD(3) [OF ok k] by (simp add: tview_at)
  then show ?thesis
    using tok_leave [OF ok k] map_remove1_inj [OF assms(2) tokens_okD(7) [OF ok]]
    by (simp add: turns_inv_def leaves_def release_run_def hand_on_def unregister_def frame_simps Let_def)
qed

lemma inv_cancel:
  "turns_inv (set_tracked k (cancelled_for c) tn) = turns_inv tn"
proof -
  have "tview (set_tracked k (cancelled_for c) tn) = tview tn"
    by (auto simp: frame_simps fun_eq_iff tview_at Let_def)
  then show ?thesis by (simp add: turns_inv_def) (simp add: frame_simps)
qed

lemma inv_interrupt:
  assumes "turns_inv tn" "interrupt s run reason tn = Some tn'"
  shows "turns_inv tn'"
  using assms by (auto simp: interrupt_def inv_cancel intro: inv_taken split: option.splits)

lemma gm_get_map_vals: "gm_get (map (\<lambda>(k, v). (k, f v)) m) j = map_option f (gm_get m j)"
  by (induction m) (auto simp: gm_get_def)

lemma line_mark_admitted:
  "line_of (mark_admitted k tn) s = map (\<lambda>w. if qr_tracked w = k then w\<lparr>qr_admitted := True\<rparr> else w) (line_of tn s)"
  by (simp add: line_of_def mark_admitted_def gm_get_map_vals Let_def split: option.splits)

lemma inv_mark_admitted: "turns_inv tn \<Longrightarrow> turns_inv (mark_admitted k tn)"
proof -
  have "map qr_tracked \<circ> line_of (mark_admitted k tn) = map qr_tracked \<circ> line_of tn"
    by (simp add: line_mark_admitted fun_eq_iff)
  moreover have "map qr_tracked (tn_going (mark_admitted k tn)) = map qr_tracked (tn_going tn)"
    "tn_fresh (mark_admitted k tn) = tn_fresh tn" "tn_busy (mark_admitted k tn) = tn_busy tn"
    "tn_releasing (mark_admitted k tn) = tn_releasing tn" "tn_leaving (mark_admitted k tn) = tn_leaving tn"
    "tview (mark_admitted k tn) = tview tn"
    by (simp_all add: mark_admitted_def Let_def tview_def tracked_at_def fun_eq_iff)
  ultimately show "turns_inv tn \<Longrightarrow> turns_inv (mark_admitted k tn)" by (simp add: turns_inv_def)
qed

lemma inv_admit_failed: "turns_inv tn \<Longrightarrow> turns_inv (admit_failed s run k tn)"
  by (cases "dequeue s run (mark_admitted k tn)")
    (auto simp: admit_failed_def inv_mark_admitted inv_taken [OF inv_mark_admitted])

lemma inv_shutdown: "turns_inv tn \<Longrightarrow> turns_inv (shutdown tn)"
proof -
  define f where "f k t = (if k \<in> snd ` set (tn_active tn) then cancelled_for ShuttingDown t else t)"
    for k and t :: Tracked
  have "gm_get (map (\<lambda>(k, t). (k, f k t)) m) j = map_option (f j) (gm_get m j)" for m j
    by (induction m) (auto simp: gm_get_def)
  moreover have "tn_tracked (shutdown tn) = map (\<lambda>(k, t). (k, f k t)) (tn_tracked tn)"
    by (auto simp: shutdown_def f_def)
  ultimately have "tview (shutdown tn) = tview tn"
    by (auto simp: tview_def tracked_at_def f_def fun_eq_iff Let_def split: option.splits)
  then show "turns_inv tn \<Longrightarrow> turns_inv (shutdown tn)"
    by (simp add: turns_inv_def) (simp add: shutdown_def line_of_def comp_def)
qed

lemma inv_resuming: "turns_inv (tn\<lparr>tn_resuming := u\<rparr>) = turns_inv tn"
  by (simp add: turns_inv_def frame_simps)

lemma turns_inv_step: "turn_step tn tn' \<Longrightarrow> turns_inv tn \<Longrightarrow> turns_inv tn'"
  by (induction rule: turn_step.induct)
    (auto simp: inv_admit inv_mark_admitted inv_admit_failed inv_goes_no_more inv_returns inv_leaves inv_shutdown
      inv_resuming inv_worker intro: inv_interrupt inv_resume)

lemma turns_inv_reachable: "turns_reachable tn \<Longrightarrow> turns_inv tn"
proof (induction rule: turns_reachable.induct)
  case reach_new
  show ?case by (simp add: turns_inv_def new_turns_def tokens_ok_def line_of_def)
qed (rule turns_inv_step)


subsection \<open>Properties\<close>

text \<open>C3. One turn at a time, whatever interleaving of messages, interrupts, approvals, workers and
  a shutdown: a session is busy exactly while one goroutine owns its turn, never two; nobody waits
  in a session that is not busy, so no run is stranded; a run in the line is not going, owns the
  session it waits for, and its channel is still open, so its waiters are not told before it ends;
  and whoever is about to close a channel finds it open, so \<open>releaseRun\<close> never panics.\<close>

theorem one_turn_at_a_time:
  assumes "turns_reachable tn"
  shows "length (filter (\<lambda>w. let t = tracked_at tn (qr_tracked w) in tk_owner t \<and> tk_session t = s)
      (tn_going tn @ tn_releasing tn)) = (if s \<in> tn_busy tn then 1 else 0) \<and>
    (s \<notin> tn_busy tn \<longrightarrow> line_of tn s = []) \<and>
    (\<forall>w \<in> set (line_of tn s). qr_tracked w \<notin> qr_tracked ` set (tn_going tn @ tn_releasing tn @ tn_leaving tn) \<and>
      (let t = tracked_at tn (qr_tracked w) in tk_owner t \<and> tk_session t = s \<and> \<not> tk_done t)) \<and>
    (\<forall>w \<in> set (tn_going tn @ tn_leaving tn). \<not> tk_done (tracked_at tn (qr_tracked w)))"
proof (intro conjI ballI impI)
  note d = tokens_okD [OF turns_inv_reachable [OF assms, unfolded turns_inv_def]]
  show "length (filter (\<lambda>w. let t = tracked_at tn (qr_tracked w) in tk_owner t \<and> tk_session t = s)
      (tn_going tn @ tn_releasing tn)) = (if s \<in> tn_busy tn then 1 else 0)"
    using d(12) [of s] by (simp add: owners_in_def filter_map o_def tview_def Let_def)
  show "line_of tn s = []" if "s \<notin> tn_busy tn" using d(13) [of s] that by simp
  show "qr_tracked w \<notin> qr_tracked ` set (tn_going tn @ tn_releasing tn @ tn_leaving tn)"
    "let t = tracked_at tn (qr_tracked w) in tk_owner t \<and> tk_session t = s \<and> \<not> tk_done t"
    if "w \<in> set (line_of tn s)" for w
    using d(4) [of "qr_tracked w" s] that by (auto simp: tview_at Let_def)
  show "\<not> tk_done (tracked_at tn (qr_tracked w))" if "w \<in> set (tn_going tn @ tn_leaving tn)" for w
    using d(1,3) [of "qr_tracked w"] that by (auto simp: tview_at)
qed

definition two_messages :: Turns where
  "two_messages = admit ''r2'' ''s'' (admit ''r1'' ''s'' new_turns)"

lemma two_messages_reachable: "turns_reachable two_messages"
proof -
  have "turns_reachable (admit ''r1'' ''s'' new_turns)"
    by (rule reach_step [OF reach_new step_admit]) (simp add: known_run_def new_turns_def line_of_def)
  moreover have "\<not> known_run (admit ''r1'' ''s'' new_turns) ''r2''"
    by (simp add: known_run_def admit_def Let_def launch_def track_def new_turns_def line_of_def)
  ultimately show ?thesis unfolding two_messages_def by (blast intro: reach_step step_admit)
qed

theorem one_turn_at_a_time_witness:
  "length (filter (\<lambda>w. let t = tracked_at two_messages (qr_tracked w) in tk_owner t \<and> tk_session t = ''s'')
      (tn_going two_messages @ tn_releasing two_messages)) = 1 \<and> line_of two_messages ''other'' = [] \<and>
    map qr_run (line_of two_messages ''s'') = [''r2'']"
proof -
  have busy: "tn_busy two_messages = {''s''}" and line: "map qr_run (line_of two_messages ''s'') = [''r2'']"
    by (simp_all add: two_messages_def admit_def Let_def launch_def track_def new_turns_def line_of_def)
  show ?thesis
    using one_turn_at_a_time [OF two_messages_reachable, of "''s''"] one_turn_at_a_time [OF two_messages_reachable, of "''other''"]
      busy line by simp
qed

text \<open>Pointers are numbered in the order they are made, so the number of a waiting run says when it was
  admitted. Every line stands in that order.\<close>

definition in_order :: "Turns \<Rightarrow> bool" where
  "in_order tn \<longleftrightarrow> (\<forall>s. sorted_wrt (<) (map qr_tracked (line_of tn s)))"

lemma in_order_admit:
  assumes "turns_inv tn" "in_order tn"
  shows "in_order (admit run s tn)"
proof (cases "s \<in> tn_busy tn")
  case True
  have l: "line_of (admit run s tn) = (line_of tn)(s := line_of tn s @ [\<lparr>qr_run = run, qr_tracked = tn_fresh tn, qr_admitted = False\<rparr>])"
    using True by (auto simp: admit_def Let_def frame_simps line_of_def fun_eq_iff)
  have "\<forall>v \<in> set (line_of tn s). qr_tracked v < tn_fresh tn"
    using tokens_okD(4) [OF assms(1) [unfolded turns_inv_def], of _ s] by auto
  with assms(2) show ?thesis by (auto simp: in_order_def l sorted_wrt_append)
next
  case False
  then have "line_of (admit run s tn) = line_of tn" by (simp add: admit_def Let_def launch_def frame_simps)
  with assms(2) show ?thesis by (simp add: in_order_def)
qed

lemma line_handed: "\<exists>s. line_of (hand_on k tn) = line_of tn \<or> line_of (hand_on k tn) = (line_of tn)(s := tl (line_of tn s))"
proof (cases "tk_owner (tracked_at tn k)")
  case True
  then show ?thesis
    by (cases "line_of tn (tk_session (tracked_at tn k))")
      (auto simp: hand_on_def next_in_line_def launch_def frame_simps intro!: exI [of _ "tk_session (tracked_at tn k)"])
qed (simp add: hand_on_def)

lemma sorted_without_first: "sorted_wrt P xs \<Longrightarrow> sorted_wrt P (tl xs)"
  by (cases xs) simp_all

lemma in_order_handed: "in_order tn \<Longrightarrow> line_of tn' = line_of tn \<Longrightarrow> in_order (hand_on k tn')"
  using line_handed [of k tn'] by (auto simp: in_order_def map_tl sorted_without_first)

lemma line_unregistered: "line_of (unregister run k tn) = line_of tn"
  by (simp add: unregister_def frame_simps)

lemma in_order_taken:
  assumes "in_order tn" "dequeue s run tn = Some (w, tn')"
  shows "in_order (taken cause (w, tn'))"
proof -
  note d = dequeue_some [OF assms(2)]
  let ?P = "\<lambda>v. qr_run v \<noteq> run" and ?xs = "line_of tn s"
  have cut: "sorted_wrt (<) (map qr_tracked (as @ tl bs))" if "sorted_wrt (<) (map qr_tracked (as @ bs))" for as bs
    using that by (cases bs) (simp_all add: sorted_wrt_append)
  have "sorted_wrt (<) (map qr_tracked (takeWhile ?P ?xs @ tl (dropWhile ?P ?xs)))"
    by (rule cut) (use assms(1) in \<open>simp add: in_order_def\<close>)
  then have "in_order tn'" using assms(1) by (simp add: in_order_def d(2))
  then show ?thesis by (simp add: in_order_def taken_def frame_simps)
qed

lemma in_order_marked: "in_order tn \<Longrightarrow> in_order (mark_admitted k tn)"
proof -
  have "map qr_tracked (line_of (mark_admitted k tn) s) = map qr_tracked (line_of tn s)" for s
    by (simp add: line_mark_admitted)
  then show "in_order tn \<Longrightarrow> in_order (mark_admitted k tn)" by (simp add: in_order_def)
qed

lemma in_order_step: "turn_step tn tn' \<Longrightarrow> turns_inv tn \<Longrightarrow> in_order tn \<Longrightarrow> in_order tn'"
proof (induction rule: turn_step.induct)
  case (step_admit tn run session)
  then show ?case by (simp add: in_order_admit)
next
  case (step_admit_failed w tn session)
  then show ?case
    by (cases "dequeue session (qr_run w) (mark_admitted (qr_tracked w) tn)")
      (auto simp: admit_failed_def in_order_marked intro: in_order_taken [OF in_order_marked])
next
  case (step_interrupt session run reason tn tn')
  then show ?case by (auto simp: interrupt_def intro: in_order_taken split: option.splits) (simp add: in_order_def frame_simps)
next
  case (step_leaves w tn)
  then show ?case unfolding leaves_def release_run_def by (intro in_order_handed) (simp_all add: line_unregistered frame_simps)
next
  case (step_returns w tn)
  then show ?case unfolding returns_def by (intro in_order_handed) (simp_all add: frame_simps)
next
  case (step_shutdown tn)
  then show ?case by (simp add: in_order_def shutdown_def line_of_def)
qed (simp_all add: in_order_def resume_run_def start_worker_def goes_no_more_def launch_def line_unregistered frame_simps in_order_marked [unfolded in_order_def])

lemma in_order_reachable: "turns_reachable tn \<Longrightarrow> in_order tn"
proof (induction rule: turns_reachable.induct)
  case reach_new
  show ?case by (simp add: in_order_def new_turns_def line_of_def)
qed (use in_order_step turns_inv_reachable in blast)

text \<open>C19. Turns are handed on in the order messages came, in every state that any interleaving reaches. A message
  for a busy session joins its line with a later number than everybody who waits there. When the goroutine that owns a session's
  turn is released, the one who goes is the one with the earliest number in the line, the one who has waited longest, and
  everybody else keeps waiting; the lines of other sessions and the goroutines that go are not touched; with nobody waiting the
  session is freed, and a goroutine that owns no turn, a worker's or a resumed run's, hands nothing on.\<close>

theorem turn_handed_to_the_longest_waiting:
  assumes "turns_reachable tn" "w \<in> set (tn_releasing tn)" "tracked_at tn (qr_tracked w) = t"
  shows "(\<forall>run s. s \<in> tn_busy tn \<longrightarrow> (\<exists>v. qr_run v = run \<and> (\<forall>u \<in> set (line_of tn s). qr_tracked u < qr_tracked v) \<and>
      set (line_of (admit run s tn) s) = insert v (set (line_of tn s)))) \<and>
    (if tk_owner t \<and> line_of tn (tk_session t) \<noteq> [] then
      (\<exists>v \<in> set (line_of tn (tk_session t)). (\<forall>u \<in> set (line_of tn (tk_session t)). u \<noteq> v \<longrightarrow> qr_tracked v < qr_tracked u) \<and>
        tn_going (returns w tn) = tn_going tn @ [v] \<and> tn_busy (returns w tn) = tn_busy tn \<and>
        line_of (returns w tn) = (line_of tn)(tk_session t := remove1 v (line_of tn (tk_session t))))
    else tn_going (returns w tn) = tn_going tn \<and> line_of (returns w tn) = line_of tn \<and>
      tn_busy (returns w tn) = (if tk_owner t then tn_busy tn - {tk_session t} else tn_busy tn))"
proof (intro conjI allI impI)
  note ok = turns_inv_reachable [OF assms(1), unfolded turns_inv_def]
  fix run s
  assume busy: "s \<in> tn_busy tn"
  let ?v = "\<lparr>qr_run = run, qr_tracked = tn_fresh tn, qr_admitted = False\<rparr>"
  have "line_of (admit run s tn) s = line_of tn s @ [?v]"
    using busy by (auto simp: admit_def Let_def frame_simps line_of_def fun_eq_iff)
  moreover have "\<forall>u \<in> set (line_of tn s). qr_tracked u < tn_fresh tn" using tokens_okD(4) [OF ok, of _ s] by auto
  ultimately show "\<exists>v. qr_run v = run \<and> (\<forall>u \<in> set (line_of tn s). qr_tracked u < qr_tracked v) \<and>
      set (line_of (admit run s tn) s) = insert v (set (line_of tn s))"
    by (intro exI [of _ ?v]) simp
next
  show "if tk_owner t \<and> line_of tn (tk_session t) \<noteq> [] then
      (\<exists>v \<in> set (line_of tn (tk_session t)). (\<forall>u \<in> set (line_of tn (tk_session t)). u \<noteq> v \<longrightarrow> qr_tracked v < qr_tracked u) \<and>
        tn_going (returns w tn) = tn_going tn @ [v] \<and> tn_busy (returns w tn) = tn_busy tn \<and>
        line_of (returns w tn) = (line_of tn)(tk_session t := remove1 v (line_of tn (tk_session t))))
    else tn_going (returns w tn) = tn_going tn \<and> line_of (returns w tn) = line_of tn \<and>
      tn_busy (returns w tn) = (if tk_owner t then tn_busy tn - {tk_session t} else tn_busy tn)"
  proof (cases "tk_owner t \<and> line_of tn (tk_session t) \<noteq> []")
    case True
    then obtain v rest where v: "line_of tn (tk_session t) = v # rest" by (cases "line_of tn (tk_session t)") auto
    have "sorted_wrt (<) (map qr_tracked (v # rest))"
      using in_order_reachable [OF assms(1)] v [symmetric] by (simp add: in_order_def)
    with True assms(3) v show ?thesis by (auto simp: returns_def hand_on_def next_in_line_def launch_def frame_simps)
  next
    case False
    have "(line_of tn)(tk_session t := []) = line_of tn" if "line_of tn (tk_session t) = []" using that by auto
    with False assms(3) show ?thesis
      by (cases "tk_owner t") (auto simp: returns_def hand_on_def next_in_line_def frame_simps)
  qed
qed

definition first_run :: QueuedRun where
  "first_run = \<lparr>qr_run = ''r1'', qr_tracked = 0, qr_admitted = True\<rparr>"

definition parked :: Turns where
  "parked = returns first_run (goes_no_more first_run two_messages)"

lemma two_messages_eq:
  "two_messages =
     \<lparr>tn_tracked = [(0, \<lparr>tk_session = ''s'', tk_cancelled = None, tk_done = False, tk_owner = True\<rparr>),
        (1, \<lparr>tk_session = ''s'', tk_cancelled = None, tk_done = False, tk_owner = True\<rparr>)],
      tn_fresh = 2, tn_active = [(''r1'', 0), (''r2'', 1)],
      tn_queued = [(''s'', [\<lparr>qr_run = ''r2'', qr_tracked = 1, qr_admitted = False\<rparr>])], tn_busy = {''s''},
      tn_draining = False, tn_going = [first_run], tn_releasing = [], tn_leaving = [], tn_resuming = []\<rparr>"
  by (simp add: two_messages_def admit_def Let_def launch_def track_def new_turns_def line_of_def gm_set_def gm_get_def
      first_run_def)

lemma first_run_released: "turns_reachable (goes_no_more first_run two_messages)" "first_run \<in> set (tn_releasing (goes_no_more first_run two_messages))"
proof -
  have "turn_step two_messages (goes_no_more first_run two_messages)"
    by (rule step_goes_no_more) (simp_all add: two_messages_eq first_run_def)
  then show "turns_reachable (goes_no_more first_run two_messages)" using two_messages_reachable by (blast intro: reach_step)
qed (simp add: goes_no_more_def unregister_def frame_simps)

theorem turn_handed_to_the_longest_waiting_witness:
  "map qr_run (tn_going parked) = [''r2''] \<and> tn_busy parked = {''s''}"
proof -
  have at: "tracked_at (goes_no_more first_run two_messages) (qr_tracked first_run) =
      \<lparr>tk_session = ''s'', tk_cancelled = None, tk_done = True, tk_owner = True\<rparr>"
    by (simp add: first_run_def two_messages_eq goes_no_more_def unregister_def gm_get_def gm_del_def)
      (simp add: tracked_at_def gm_get_def)
  have before: "line_of (goes_no_more first_run two_messages) ''s'' = [\<lparr>qr_run = ''r2'', qr_tracked = 1, qr_admitted = False\<rparr>]"
    "tn_going (goes_no_more first_run two_messages) = []" "tn_busy (goes_no_more first_run two_messages) = {''s''}"
    by (simp_all add: goes_no_more_def line_unregistered unregister_def frame_simps) (simp_all add: two_messages_eq line_of_def gm_get_def)
  from turn_handed_to_the_longest_waiting [OF first_run_released at] show ?thesis
    by (auto simp: parked_def before split: if_splits)
qed

text \<open>Two runs of one conversation at once, although a session is said to execute one run at a
  time, and even one run twice: the first run parks on an approval and hands its turn to the second;
  when a person decides, \<open>resume\<close> starts the first again without asking for the turn. \<open>resume\<close> gives
  the lock up between its check and its registration, so two decisions of one run that come
  together start it twice. And while it is parked nobody can stop it: \<open>InterruptRun\<close> does not find
  it.\<close>

theorem resumed_run_goes_beside_the_next:
  "\<exists>tn. turns_reachable parked \<and> interrupt ''s'' ''r1'' ''stop'' parked = None \<and>
     turns_reachable tn \<and> map qr_run (tn_going tn) = [''r2'', ''r1'', ''r1'']"
proof -
  let ?checked = "parked\<lparr>tn_resuming := [''r1'', ''r1'']\<rparr>"
  let ?first = "resume_run ''r1'' (?checked\<lparr>tn_resuming := [''r1'']\<rparr>)"
  let ?second = "resume_run ''r1'' (?first\<lparr>tn_resuming := []\<rparr>)"
  have parked_eq: "parked =
     \<lparr>tn_tracked = [(0, \<lparr>tk_session = ''s'', tk_cancelled = None, tk_done = True, tk_owner = True\<rparr>),
        (1, \<lparr>tk_session = ''s'', tk_cancelled = None, tk_done = False, tk_owner = True\<rparr>)],
      tn_fresh = 2, tn_active = [(''r2'', 1)], tn_queued = [(''s'', [])], tn_busy = {''s''},
      tn_draining = False, tn_going = [\<lparr>qr_run = ''r2'', qr_tracked = 1, qr_admitted = False\<rparr>],
      tn_releasing = [], tn_leaving = [], tn_resuming = []\<rparr>"
    by code_simp
  have start: "turns_reachable parked"
    unfolding parked_def by (rule reach_step [OF first_run_released(1) step_returns [OF first_run_released(2)]])
  have check: "resume_check ''r1'' (parked\<lparr>tn_resuming := u\<rparr>)" for u
    by (simp add: resume_check_def parked_eq gm_get_def)
  have once: "turns_reachable (parked\<lparr>tn_resuming := [''r1'']\<rparr>)"
    using reach_step [OF start step_resume_check, of "''r1''"] check [of "[]"] by (simp add: parked_eq)
  have "turns_reachable ?checked"
    using reach_step [OF once step_resume_check, of "''r1''"] check [of "[''r1'']"] by simp
  from reach_step [OF this step_resume, of "''r1''"] have "turns_reachable ?first" by simp
  moreover have "tn_resuming ?first = [''r1'']" by (simp add: resume_run_def launch_def track_def)
  ultimately have "turns_reachable ?second" using reach_step [of ?first, OF _ step_resume, of "''r1''"] by simp
  moreover have "map qr_run (tn_going ?second) = [''r2'', ''r1'', ''r1'']"
    by (simp add: parked_eq resume_run_def launch_def track_def)
  moreover have "interrupt ''s'' ''r1'' ''stop'' parked = None"
    by (simp add: parked_eq interrupt_def gm_get_def)
  ultimately show ?thesis using start by (intro exI [of _ ?second] conjI)
qed

end
