(* ===== verification/Retry.thy ===== *)
theory Retry
imports Storage
begin

text \<open>
  How failures of a model provider are told apart (\<open>core/internal/provider/errors.go\<close>) and which of
  them are sent again (\<open>retry.go\<close>). The wrapped provider is not part of the model: \<open>gen\<close> is what its
  \<open>n\<close>-th \<open>Generate\<close> answers, a failure or a stream, and a stream is the list of what \<open>Recv\<close> answers
  until \<open>io.EOF\<close>. \<open>slp\<close> is what the \<open>n\<close>-th wait ends with. Durations are nanoseconds in an \<open>int64\<close>, whose
  sums wrap around. The floating point
  arithmetic of \<open>Delay\<close> is a parameter.
\<close>

subsection \<open>Failures\<close>

datatype ErrorKind =
    KindRateLimited | KindQuotaExhausted | KindOverloaded | KindResourceExhausted | KindTransient
  | KindInvalidRequest | KindAuth | KindNotFound | KindContextOverflow | KindContentFiltered | KindUnknown

fun error_kind_text :: "ErrorKind \<Rightarrow> string" where
  "error_kind_text KindRateLimited = ''rate_limited''"
| "error_kind_text KindQuotaExhausted = ''quota_exhausted''"
| "error_kind_text KindOverloaded = ''overloaded''"
| "error_kind_text KindResourceExhausted = ''resource_exhausted''"
| "error_kind_text KindTransient = ''transient''"
| "error_kind_text KindInvalidRequest = ''invalid_request''"
| "error_kind_text KindAuth = ''auth''"
| "error_kind_text KindNotFound = ''not_found''"
| "error_kind_text KindContextOverflow = ''context_overflow''"
| "error_kind_text KindContentFiltered = ''content_filtered''"
| "error_kind_text KindUnknown = ''unknown''"

fun kind_retryable :: "ErrorKind \<Rightarrow> bool" where
  "kind_retryable KindRateLimited = True"
| "kind_retryable KindOverloaded = True"
| "kind_retryable KindTransient = True"
| "kind_retryable _ = False"

fun needs_operator :: "ErrorKind \<Rightarrow> bool" where
  "needs_operator KindQuotaExhausted = True"
| "needs_operator KindAuth = True"
| "needs_operator KindNotFound = True"
| "needs_operator KindResourceExhausted = True"
| "needs_operator _ = False"

record ProviderError =
  pr_Kind :: ErrorKind
  pr_Provider :: string
  pr_Model :: string
  pr_StatusCode :: int
  pr_RetryAfter :: "int option"
  pr_RequestID :: string
  pr_Message :: string

text \<open>The errors that reach the runtime, with what they wrap.\<close>

datatype Err =
    ErrProvider ProviderError "Err option"
  | ErrRetryBudgetExhausted int int Err
  | ErrContext CtxError
  | ErrEOF
  | ErrStore StoreError
  | ErrUserInterrupted string
  | ErrText string

fun err_chain :: "Err \<Rightarrow> Err list" where
  "err_chain (ErrProvider p None) = [ErrProvider p None]"
| "err_chain (ErrProvider p (Some cause)) = ErrProvider p (Some cause) # err_chain cause"
| "err_chain (ErrRetryBudgetExhausted w n cause) = ErrRetryBudgetExhausted w n cause # err_chain cause"
| "err_chain e = [e]"

text \<open>\<open>errors.Is\<close> for the values the code asks about, and \<open>errors.As\<close> for \<open>*provider.Error\<close>.\<close>

fun is_context_error :: "Err \<Rightarrow> bool" where
  "is_context_error (ErrContext _) = True"
| "is_context_error (ErrStore (CtxErr _)) = True"
| "is_context_error _ = False"

definition err_is_context :: "Err \<Rightarrow> bool" where
  "err_is_context e \<longleftrightarrow> list_ex is_context_error (err_chain e)"

definition err_is_eof :: "Err \<Rightarrow> bool" where
  "err_is_eof e \<longleftrightarrow> ErrEOF \<in> set (err_chain e)"

fun as_provider :: "Err list \<Rightarrow> ProviderError option" where
  "as_provider [] = None"
| "as_provider (ErrProvider p _ # _) = Some p"
| "as_provider (_ # es) = as_provider es"

definition kind_of :: "Err \<Rightarrow> ErrorKind" where
  "kind_of e = (case as_provider (err_chain e) of Some p \<Rightarrow> pr_Kind p | None \<Rightarrow> KindUnknown)"

definition is_retryable :: "Err \<Rightarrow> bool" where
  "is_retryable e = (case as_provider (err_chain e) of Some p \<Rightarrow> kind_retryable (pr_Kind p) | None \<Rightarrow> False)"

definition retry_after :: "Err \<Rightarrow> int option" where
  "retry_after e = (case as_provider (err_chain e) of Some p \<Rightarrow> pr_RetryAfter p | None \<Rightarrow> None)"

definition provider_error_text :: "ProviderError \<Rightarrow> string" where
  "provider_error_text e =
     (if pr_Model e = '''' then ''provider '' @ pr_Provider e @ '': '' @ error_kind_text (pr_Kind e)
      else ''provider '' @ pr_Provider e @ '' ('' @ pr_Model e @ ''): '' @ error_kind_text (pr_Kind e))
     @ (if pr_Message e = '''' then '''' else '': '' @ pr_Message e)
     @ (if pr_StatusCode e = 0 then '''' else '' [status '' @ itoa (pr_StatusCode e) @ '']'')"

subsection \<open>The policy\<close>

record RetryPolicy =
  po_MaxAttempts :: int
  po_Budget :: int

text \<open>\<open>Delay\<close>: a server's own figure, jittered upward only, or the computed backoff.\<close>

definition policy_delay :: "(int \<Rightarrow> int) \<Rightarrow> (int \<Rightarrow> int) \<Rightarrow> int \<Rightarrow> Err \<Rightarrow> int" where
  "policy_delay jittered backoff attempt err =
     (case retry_after err of Some after \<Rightarrow> wrap64 (after + jittered after) | None \<Rightarrow> backoff attempt)"

definition within_budget :: "RetryPolicy \<Rightarrow> int \<Rightarrow> int \<Rightarrow> bool" where
  "within_budget p spent following \<longleftrightarrow> po_Budget p \<le> 0 \<or> wrap64 (spent + following) \<le> po_Budget p"

definition attempts_of :: "RetryPolicy \<Rightarrow> int" where
  "attempts_of p = (if po_MaxAttempts p < 1 then 1 else po_MaxAttempts p)"

subsection \<open>Sending again\<close>

type_synonym 'e script = "(Err + 'e) list"

record 'e retrying_stream =
  ry_stream :: "'e script"
  ry_attempt :: int
  ry_spent :: int
  ry_emitted :: bool

text \<open>What the outside saw: the requests sent, the waits begun, the time waited out, the streams closed.
  A wait of no time or less is over at once (\<open>sleepContext\<close>).\<close>

record Outside =
  ou_generated :: nat
  ou_slept :: "int list"
  ou_waited :: int
  ou_closed :: nat

function generate_loop ::
    "(nat \<Rightarrow> Err + 'e script) \<Rightarrow> (nat \<Rightarrow> Err option) \<Rightarrow> (int \<Rightarrow> Err \<Rightarrow> int) \<Rightarrow> RetryPolicy \<Rightarrow> int \<Rightarrow> int \<Rightarrow> Err option \<Rightarrow> Outside
      \<Rightarrow> (Err option + 'e retrying_stream) \<times> Outside" where
  "generate_loop gen slp dly p attempt spent lastErr out =
     (if attempt > attempts_of p then (Inl lastErr, out)
      else
        let answer = gen (ou_generated out);
            out = out\<lparr>ou_generated := ou_generated out + 1\<rparr>
        in case answer of
             Inr stream \<Rightarrow>
               (Inr \<lparr>ry_stream = stream, ry_attempt = attempt, ry_spent = spent, ry_emitted = False\<rparr>, out)
           | Inl err \<Rightarrow>
               if err_is_context err then (Inl (Some err), out)
               else if \<not> is_retryable err \<or> attempt = attempts_of p then (Inl (Some err), out)
               else
                 let wait = dly attempt err
                 in if \<not> within_budget p spent wait then (Inl (Some (ErrRetryBudgetExhausted spent wait err)), out)
                    else
                      let slept = slp (length (ou_slept out)); out = out\<lparr>ou_slept := ou_slept out @ [wait]\<rparr>
                      in case slept of
                           Some e \<Rightarrow> (Inl (Some e), out)
                         | None \<Rightarrow>
                             generate_loop gen slp dly p (attempt + 1) (wrap64 (spent + wait)) (Some err)
                               (out\<lparr>ou_waited := ou_waited out + max 0 wait\<rparr>))"
  by pat_completeness auto
termination
  by (relation "measure (\<lambda>(gen, slp, dly, p, attempt, _). nat (attempts_of p + 1 - attempt))") auto

declare generate_loop.simps [simp del]

definition retry_generate ::
    "(nat \<Rightarrow> Err + 'e script) \<Rightarrow> (nat \<Rightarrow> Err option) \<Rightarrow> (int \<Rightarrow> Err \<Rightarrow> int) \<Rightarrow> RetryPolicy \<Rightarrow> Outside
      \<Rightarrow> (Err option + 'e retrying_stream) \<times> Outside" where
  "retry_generate gen slp dly p out = generate_loop gen slp dly p 1 0 None out"

function retry_recv ::
    "(nat \<Rightarrow> Err + 'e script) \<Rightarrow> (nat \<Rightarrow> Err option) \<Rightarrow> (int \<Rightarrow> Err \<Rightarrow> int) \<Rightarrow> RetryPolicy \<Rightarrow> 'e retrying_stream \<Rightarrow> Outside
      \<Rightarrow> (Err + 'e) \<times> 'e retrying_stream \<times> Outside" where
  "retry_recv gen slp dly p s out =
     (case ry_stream s of
        [] \<Rightarrow> (Inl ErrEOF, s, out)
      | Inr event # rest \<Rightarrow> (Inr event, s\<lparr>ry_stream := rest, ry_emitted := True\<rparr>, out)
      | Inl err # rest \<Rightarrow>
          let s = s\<lparr>ry_stream := rest\<rparr> in
          if ry_emitted s \<or> err_is_eof err then (Inl err, s, out)
          else if err_is_context err then (Inl err, s, out)
          else if \<not> is_retryable err \<or> ry_attempt s \<ge> attempts_of p then (Inl err, s, out)
          else
            let wait = dly (ry_attempt s) err
            in if \<not> within_budget p (ry_spent s) wait
               then (Inl (ErrRetryBudgetExhausted (ry_spent s) wait err), s, out)
               else
                 let slept = slp (length (ou_slept out)); out = out\<lparr>ou_slept := ou_slept out @ [wait]\<rparr>
                 in case slept of
                      Some e \<Rightarrow> (Inl e, s, out)
                    | None \<Rightarrow>
                        let answer = gen (ou_generated out);
                            out = out\<lparr>ou_waited := ou_waited out + max 0 wait, ou_closed := ou_closed out + 1,
                              ou_generated := ou_generated out + 1\<rparr>;
                            s = s\<lparr>ry_spent := wrap64 (ry_spent s + wait), ry_attempt := ry_attempt s + 1\<rparr>
                        in case answer of
                             Inl e \<Rightarrow> (Inl e, s, out)
                           | Inr stream \<Rightarrow> retry_recv gen slp dly p (s\<lparr>ry_stream := stream\<rparr>) out)"
  by pat_completeness auto
termination
  by (relation "measure (\<lambda>(gen, slp, dly, p, s, _). nat (attempts_of p - ry_attempt s))") auto

declare retry_recv.simps [simp del]

text \<open>A caller that asks for one request and then reads \<open>n\<close> times.\<close>

fun read_times ::
    "(nat \<Rightarrow> Err + 'e script) \<Rightarrow> (nat \<Rightarrow> Err option) \<Rightarrow> (int \<Rightarrow> Err \<Rightarrow> int) \<Rightarrow> RetryPolicy \<Rightarrow> nat \<Rightarrow> 'e retrying_stream \<Rightarrow> Outside
      \<Rightarrow> (Err + 'e) list \<times> Outside" where
  "read_times gen slp dly p 0 s out = ([], out)"
| "read_times gen slp dly p (Suc n) s out =
     (let (answer, s, out) = retry_recv gen slp dly p s out;
          (answers, out) = read_times gen slp dly p n s out
      in (answer # answers, out))"

definition untouched :: Outside where
  "untouched = \<lparr>ou_generated = 0, ou_slept = [], ou_waited = 0, ou_closed = 0\<rparr>"

subsection \<open>What a caller can rely on\<close>

text \<open>The failures a provider gives, on opening a stream or in one.\<close>

definition fails_with :: "(nat \<Rightarrow> Err + 'e script) \<Rightarrow> Err \<Rightarrow> bool" where
  "fails_with gen err \<longleftrightarrow> (\<exists>n. gen n = Inl err \<or> (\<exists>stream. gen n = Inr stream \<and> Inl err \<in> set stream))"

text \<open>No failure asks for a negative wait, or for one that overflows beside the budget.\<close>

definition waits_fit :: "(nat \<Rightarrow> Err + 'e script) \<Rightarrow> (int \<Rightarrow> Err \<Rightarrow> int) \<Rightarrow> RetryPolicy \<Rightarrow> bool" where
  "waits_fit gen dly p \<longleftrightarrow> (\<forall>err attempt. fails_with gen err \<longrightarrow> 0 \<le> dly attempt err \<and> po_Budget p + dly attempt err < 2 ^ 63)"

text \<open>The attempts used and, where the waits fit, the time waited, kept in step with what the outside saw.\<close>

definition accounted :: "bool \<Rightarrow> RetryPolicy \<Rightarrow> int \<Rightarrow> int \<Rightarrow> Outside \<Rightarrow> bool" where
  "accounted fit p attempt spent out \<longleftrightarrow> int (ou_generated out) = attempt \<and> attempt \<le> attempts_of p \<and>
     (fit \<and> 0 < po_Budget p \<longrightarrow> ou_waited out = spent \<and> 0 \<le> spent \<and> spent \<le> po_Budget p)"

lemma affordable_wait:
  assumes "waits_fit gen dly p" "fails_with gen err" "0 < po_Budget p" "0 \<le> spent" "spent \<le> po_Budget p"
    and "within_budget p spent (dly attempt err)"
  shows "wrap64 (spent + dly attempt err) = spent + dly attempt err \<and> max 0 (dly attempt err) = dly attempt err \<and>
    0 \<le> spent + dly attempt err \<and> spent + dly attempt err \<le> po_Budget p"
proof -
  have d: "0 \<le> dly attempt err" "po_Budget p + dly attempt err < 2 ^ 63" using assms(1,2) by (auto simp: waits_fit_def)
  then have "wrap64 (spent + dly attempt err) = spent + dly attempt err" using assms(4,5) by (intro wrap64_id) simp_all
  with assms(3,4,6) d show ?thesis by (simp add: within_budget_def)
qed

lemma accounted_after_wait:
  assumes "accounted (waits_fit gen dly p) p attempt spent out" "fails_with gen err" "within_budget p spent (dly at err)"
    and "attempt < attempts_of p" "int (ou_generated out') = attempt + 1" "ou_waited out' = ou_waited out + max 0 (dly at err)"
  shows "accounted (waits_fit gen dly p) p (attempt + 1) (wrap64 (spent + dly at err)) out'"
  using assms affordable_wait [of gen dly p err spent at] by (auto simp: accounted_def)

lemma attempts_of_pos: "1 \<le> attempts_of p"
  by (simp add: attempts_of_def)

lemma generate_loop_accounted:
  assumes "int (ou_generated out) = attempt - 1"
    and "waits_fit gen dly p \<and> 0 < po_Budget p \<longrightarrow> ou_waited out = spent \<and> 0 \<le> spent \<and> spent \<le> po_Budget p" "attempt \<le> attempts_of p"
    and "generate_loop gen slp dly p attempt spent lastErr out = (answer, out')"
  shows "int (ou_generated out') \<le> attempts_of p \<and> (waits_fit gen dly p \<and> 0 < po_Budget p \<longrightarrow> ou_waited out' \<le> po_Budget p) \<and>
    (\<forall>s. answer = Inr s \<longrightarrow> accounted (waits_fit gen dly p) p (ry_attempt s) (ry_spent s) out' \<and> \<not> ry_emitted s \<and>
       gen (ou_generated out' - 1) = Inr (ry_stream s) \<and> 0 < ou_generated out')"
  using assms
proof (induction "nat (attempts_of p + 1 - attempt)" arbitrary: attempt spent lastErr out rule: less_induct)
  case less
  show ?case
  proof (cases "gen (ou_generated out)")
    case (Inr stream)
    with less.prems show ?thesis unfolding generate_loop.simps [of gen slp dly p attempt spent lastErr out]
      by (auto simp: Let_def accounted_def split: if_splits)
  next
    case (Inl err)
    let ?wait = "dly attempt err"
    show ?thesis
    proof (cases "\<not> err_is_context err \<and> is_retryable err \<and> attempt \<noteq> attempts_of p \<and> within_budget p spent ?wait \<and>
        slp (length (ou_slept out)) = None")
      case False
      with less.prems Inl show ?thesis
        unfolding generate_loop.simps [of gen slp dly p attempt spent lastErr out]
        by (auto simp: Let_def split: if_splits option.splits)
    next
      case True
      let ?out' = "out\<lparr>ou_generated := ou_generated out + 1, ou_slept := ou_slept out @ [?wait], ou_waited := ou_waited out + max 0 ?wait\<rparr>"
      have go: "generate_loop gen slp dly p (attempt + 1) (wrap64 (spent + ?wait)) (Some err) ?out' = (answer, out')"
        using less.prems(4) True Inl less.prems(3) unfolding generate_loop.simps [of gen slp dly p attempt] by (simp add: Let_def)
      have "fails_with gen err" using Inl by (auto simp: fails_with_def)
      then have "waits_fit gen dly p \<and> 0 < po_Budget p \<longrightarrow>
          ou_waited ?out' = wrap64 (spent + ?wait) \<and> 0 \<le> wrap64 (spent + ?wait) \<and> wrap64 (spent + ?wait) \<le> po_Budget p"
        using less.prems(2) True affordable_wait [of gen dly p err spent attempt] by auto
      from less.hyps [of "attempt + 1", OF _ _ this _ go] less.prems(1,3) True show ?thesis by auto
    qed
  qed
qed

text \<open>What has been read so far is the beginning of what one stream gave.\<close>

definition oks :: "(Err + 'e) list \<Rightarrow> 'e list" where
  "oks xs = map projr (filter (\<lambda>x. \<not> isl x) xs)"

lemma oks_simps [simp]: "oks [] = []" "oks (Inr e # xs) = e # oks xs" "oks (Inl f # xs) = oks xs" "oks (xs @ ys) = oks xs @ oks ys"
  by (simp_all add: oks_def)

definition reading_from ::
    "(nat \<Rightarrow> Err + 'e script) \<Rightarrow> 'e retrying_stream \<Rightarrow> Outside \<Rightarrow> 'e list \<Rightarrow> bool" where
  "reading_from gen s out given \<longleftrightarrow> (\<exists>k < ou_generated out. \<exists>before. gen k = Inr (before @ ry_stream s) \<and> oks before = given) \<and>
     (\<not> ry_emitted s \<longrightarrow> given = [])"

lemma reading_from_later:
  "reading_from gen s out given \<Longrightarrow> ry_stream s' = ry_stream s \<Longrightarrow> ry_emitted s' = ry_emitted s \<Longrightarrow>
    ou_generated out \<le> ou_generated out' \<Longrightarrow> reading_from gen s' out' given"
  unfolding reading_from_def by (metis order_less_le_trans)

lemma retry_recv_step:
  assumes "accounted (waits_fit gen dly p) p (ry_attempt s) (ry_spent s) out" "reading_from gen s out given"
    and "retry_recv gen slp dly p s out = (answer, s', out')"
  shows "accounted (waits_fit gen dly p) p (ry_attempt s') (ry_spent s') out' \<and> reading_from gen s' out' (given @ oks [answer])"
  using assms
proof (induction "nat (attempts_of p - ry_attempt s)" arbitrary: s out rule: less_induct)
  case less
  obtain k before where k: "k < ou_generated out" "gen k = Inr (before @ ry_stream s)" "oks before = given"
    using less.prems(2) by (auto simp: reading_from_def)
  show ?case
  proof (cases "ry_stream s")
    case Nil
    with less.prems show ?thesis by (subst (asm) retry_recv.simps) (auto simp: reading_from_def)
  next
    case (Cons first rest)
    have next_k: "gen k = Inr ((before @ [first]) @ rest)" using k(2) Cons by simp
    show ?thesis
    proof (cases first)
      case (Inr event)
      with Cons less.prems next_k k show ?thesis
        by (subst (asm) retry_recv.simps) (auto simp: reading_from_def accounted_def intro!: exI [of _ k] exI [of _ "before @ [first]"])
    next
      case (Inl err)
      let ?wait = "dly (ry_attempt s) err"
      have plain: "reading_from gen (s\<lparr>ry_stream := rest\<rparr>) out given"
        using next_k k Inl less.prems(2) by (auto simp: reading_from_def intro!: exI [of _ k] exI [of _ "before @ [first]"])
      show ?thesis
      proof (cases "ry_emitted s \<or> err_is_eof err \<or> err_is_context err \<or> \<not> is_retryable err \<or> ry_attempt s \<ge> attempts_of p \<or>
          \<not> within_budget p (ry_spent s) ?wait \<or> slp (length (ou_slept out)) \<noteq> None")
        case True
        have "(\<exists>e. answer = Inl e) \<and> s' = s\<lparr>ry_stream := rest\<rparr> \<and>
            (out' = out \<or> out' = out\<lparr>ou_slept := ou_slept out @ [?wait]\<rparr>)"
          using less.prems(3) unfolding retry_recv.simps [of gen slp dly p s out] Cons Inl Let_def
          using True by (simp split: if_splits option.splits) auto
        with plain less.prems(1) show ?thesis by (auto simp: accounted_def reading_from_def)
      next
        case False
        let ?out' = "out\<lparr>ou_slept := ou_slept out @ [?wait], ou_waited := ou_waited out + max 0 ?wait, ou_closed := ou_closed out + 1,
            ou_generated := ou_generated out + 1\<rparr>"
        let ?s = "s\<lparr>ry_stream := rest, ry_spent := wrap64 (ry_spent s + ?wait), ry_attempt := ry_attempt s + 1\<rparr>"
        have acc: "accounted (waits_fit gen dly p) p (ry_attempt ?s) (ry_spent ?s) ?out'"
        proof -
          have "fails_with gen err" using next_k Inl unfolding fails_with_def by (intro exI [of _ k] disjI2) simp
          then have "accounted (waits_fit gen dly p) p (ry_attempt s + 1) (wrap64 (ry_spent s + ?wait)) ?out'"
            using less.prems(1) False by (intro accounted_after_wait [where out = out]) (auto simp: accounted_def)
          then show ?thesis by simp
        qed
        have none: "given = []" using less.prems(2) False by (simp add: reading_from_def)
        show ?thesis
        proof (cases "gen (ou_generated out)")
          case (Inl e)
          then have "answer = Inl e \<and> s' = ?s \<and> out' = ?out'"
            using Cons \<open>first = Inl err\<close> False less.prems(3) by (subst (asm) retry_recv.simps) (auto simp: Let_def)
          with acc reading_from_later [OF plain, of ?s ?out'] show ?thesis by simp
        next
          case (Inr stream)
          have "retry_recv gen slp dly p (?s\<lparr>ry_stream := stream\<rparr>) ?out' = (answer, s', out')"
            using Cons \<open>first = Inl err\<close> False less.prems(3) Inr by (subst (asm) retry_recv.simps) (auto simp: Let_def)
          moreover have "reading_from gen (?s\<lparr>ry_stream := stream\<rparr>) ?out' given"
            using Inr none by (auto simp: reading_from_def intro!: exI [of _ "ou_generated out"])
          ultimately show ?thesis using less.hyps [of "?s\<lparr>ry_stream := stream\<rparr>" ?out'] acc False by auto
        qed
      qed
    qed
  qed
qed

lemma read_times_steps:
  assumes "accounted (waits_fit gen dly p) p (ry_attempt s) (ry_spent s) out" "reading_from gen s out given"
    and "read_times gen slp dly p n s out = (answers, out')"
  shows "\<exists>s'. accounted (waits_fit gen dly p) p (ry_attempt s') (ry_spent s') out' \<and> reading_from gen s' out' (given @ oks answers)"
  using assms
proof (induction n arbitrary: s out given answers)
  case (Suc n)
  obtain answer s1 out1 where step: "retry_recv gen slp dly p s out = (answer, s1, out1)" by (metis prod_cases3)
  obtain rest out2 where more: "read_times gen slp dly p n s1 out1 = (rest, out2)" by fastforce
  have "answers = answer # rest" "out' = out2" using Suc.prems(3) step more by auto
  moreover have "\<exists>s'. accounted (waits_fit gen dly p) p (ry_attempt s') (ry_spent s') out2 \<and> reading_from gen s' out2 ((given @ oks [answer]) @ oks rest)"
    using retry_recv_step [OF Suc.prems(1,2) step] more Suc.IH [of s1 out1 "given @ oks [answer]" rest] \<open>out' = out2\<close> by auto
  moreover have "oks (answer # rest) = oks [answer] @ oks rest" by (cases answer) auto
  ultimately show ?case by simp
qed auto

text \<open>C36. A request is never sent more often than the policy allows, however its failures are split between
  opening the stream and reading it; what a caller has been given is never replayed: everything it has read is the beginning
  of what one single stream produced, in order. And it is not waited for longer than the budget, as long as the
  figures that servers name with their failures are not negative and, jittered and beside the budget, do not overflow an
  \<open>int64\<close> of nanoseconds, about 292 years; jitter and backoff are never negative.\<close>

theorem retry_within_limits_no_replay:
  assumes "retry_generate gen slp (policy_delay jittered backoff) p untouched = (Inr s, out)"
    and "read_times gen slp (policy_delay jittered backoff) p n s out = (answers, out')"
  shows "int (ou_generated out') \<le> attempts_of p \<and>
    (\<exists>k < ou_generated out'. \<exists>stream rest. gen k = Inr stream \<and> oks stream = oks answers @ rest) \<and>
    (0 < po_Budget p \<and>
     (\<forall>err after. fails_with gen err \<and> retry_after err = Some after \<longrightarrow>
        0 \<le> after \<and> 0 \<le> jittered after \<and> po_Budget p + (after + jittered after) < 2 ^ 63) \<and>
     (\<forall>attempt. 0 \<le> backoff attempt \<and> po_Budget p + backoff attempt < 2 ^ 63) \<longrightarrow> ou_waited out' \<le> po_Budget p)"
proof -
  let ?dly = "policy_delay jittered backoff"
  have "int (ou_generated untouched) = 1 - 1" "waits_fit gen ?dly p \<and> 0 < po_Budget p \<longrightarrow> ou_waited untouched = 0 \<and> 0 \<le> (0 :: int) \<and> 0 \<le> po_Budget p"
    by (simp_all add: untouched_def)
  from generate_loop_accounted [OF this attempts_of_pos assms(1) [unfolded retry_generate_def]]
  have acc: "accounted (waits_fit gen ?dly p) p (ry_attempt s) (ry_spent s) out" and emitted: "\<not> ry_emitted s"
    and full: "gen (ou_generated out - 1) = Inr (ry_stream s)" "0 < ou_generated out" by auto
  have "reading_from gen s out []"
    using full by (auto simp: reading_from_def intro!: exI [of _ "ou_generated out - 1"])
  from read_times_steps [OF acc this assms(2)] obtain s' where
    s': "accounted (waits_fit gen ?dly p) p (ry_attempt s') (ry_spent s') out'" "reading_from gen s' out' (oks answers)" by auto
  then obtain k before where k: "k < ou_generated out'" "gen k = Inr (before @ ry_stream s')" "oks before = oks answers"
    by (auto simp: reading_from_def)
  have "waits_fit gen ?dly p" if "0 < po_Budget p" "\<forall>err after. fails_with gen err \<and> retry_after err = Some after \<longrightarrow>
        0 \<le> after \<and> 0 \<le> jittered after \<and> po_Budget p + (after + jittered after) < 2 ^ 63"
      "\<forall>attempt. 0 \<le> backoff attempt \<and> po_Budget p + backoff attempt < 2 ^ 63"
  proof -
    have "wrap64 (after + jittered after) = after + jittered after" if "fails_with gen err" "retry_after err = Some after" for err after
      using \<open>\<forall>err after. _\<close> \<open>0 < po_Budget p\<close> that by (intro wrap64_id) fastforce+
    then show ?thesis using that by (auto simp: waits_fit_def policy_delay_def split: option.split)
  qed
  with s'(1) k show ?thesis
    by (auto simp: accounted_def intro!: exI [of _ k] exI [of _ "before @ ry_stream s'"] exI [of _ "oks (ry_stream s')"])
qed

definition limited :: Err where
  "limited = ErrProvider \<lparr>pr_Kind = KindRateLimited, pr_Provider = ''p'', pr_Model = '''', pr_StatusCode = 429,
     pr_RetryAfter = Some 20, pr_RequestID = '''', pr_Message = ''''\<rparr> None"

definition four_attempts :: RetryPolicy where
  "four_attempts = \<lparr>po_MaxAttempts = 4, po_Budget = 90\<rparr>"

theorem retry_within_limits_no_replay_witness:
  "case retry_generate (\<lambda>n. if n = 0 then Inl limited else if n = 1 then Inr [Inl limited] else Inr [Inr ''hel'', Inr ''lo'', Inl limited])
      (\<lambda>_. None) (policy_delay (\<lambda>_. 0) (\<lambda>_. 1)) four_attempts untouched of
    (Inr s, out) \<Rightarrow>
      (case read_times (\<lambda>n. if n = 0 then Inl limited else if n = 1 then Inr [Inl limited] else Inr [Inr ''hel'', Inr ''lo'', Inl limited])
          (\<lambda>_. None) (policy_delay (\<lambda>_. 0) (\<lambda>_. 1)) four_attempts 3 s out of
        (answers, out') \<Rightarrow> answers = [Inr ''hel'', Inr ''lo'', Inl limited] \<and> ou_generated out' = 3 \<and> ou_waited out' = 40 \<and>
          int (ou_generated out') \<le> 4 \<and> ou_waited out' \<le> 90)
  | _ \<Rightarrow> False"
proof -
  let ?gen = "\<lambda>n. if n = 0 then Inl limited else if n = 1 then Inr [Inl limited] else Inr [Inr ''hel'', Inr ''lo'', Inl limited]"
  let ?dly = "policy_delay (\<lambda>_. 0) (\<lambda>_. 1)"
  have g: "retry_generate ?gen (\<lambda>_. None) ?dly four_attempts untouched =
      (Inr \<lparr>ry_stream = [Inl limited], ry_attempt = 2, ry_spent = 20, ry_emitted = False\<rparr>,
       \<lparr>ou_generated = 2, ou_slept = [20], ou_waited = 20, ou_closed = 0\<rparr>)"
    by code_simp
  have r: "read_times ?gen (\<lambda>_. None) ?dly four_attempts 3
        \<lparr>ry_stream = [Inl limited], ry_attempt = 2, ry_spent = 20, ry_emitted = False\<rparr>
        \<lparr>ou_generated = 2, ou_slept = [20], ou_waited = 20, ou_closed = 0\<rparr> =
      ([Inr ''hel'', Inr ''lo'', Inl limited], \<lparr>ou_generated = 3, ou_slept = [20, 20], ou_waited = 40, ou_closed = 1\<rparr>)"
    by code_simp
  have "retry_after err = Some 20" if "fails_with ?gen err" for err
    using that by (auto simp: fails_with_def retry_after_def limited_def split: if_splits)
  then have figures: "\<forall>err after. fails_with ?gen err \<and> retry_after err = Some after \<longrightarrow>
      0 \<le> after \<and> 0 \<le> (0 :: int) \<and> po_Budget four_attempts + (after + 0) < 2 ^ 63"
    by (auto simp: four_attempts_def)
  have "int 3 \<le> attempts_of four_attempts" using retry_within_limits_no_replay [OF g r] by simp
  moreover have "(40 :: int) \<le> po_Budget four_attempts"
    using retry_within_limits_no_replay [OF g r] figures by (simp add: four_attempts_def)
  ultimately show ?thesis using g r by (simp add: attempts_of_def four_attempts_def)
qed

text \<open>A figure near the largest \<open>int64\<close> passes the budget of ninety seconds once anything has been waited: the sum
  wraps around, and the request sleeps for three centuries.\<close>

theorem huge_wait_passes_the_budget:
  "let p = \<lparr>po_MaxAttempts = 4, po_Budget = 90 * 10 ^ 9\<rparr>; asked = 9223372036 * 10 ^ 9 in
     \<not> within_budget p 0 asked \<and> within_budget p (10 ^ 9) asked"
  by (simp add: within_budget_def wrap64_def Let_def)

text \<open>A failure to send again is not itself sent again: when the first read of a stream is limited and
  the request made in its place is limited too, the caller is given the failure after two attempts of
  four, although a request limited twice before its stream opened would have been tried a third time.\<close>

lemma second_request_not_retried:
  "(case retry_generate (\<lambda>n. if n = 0 then Inr [Inl limited] else if n = 1 then Inl limited else Inr [Inr ''hello''])
      (\<lambda>_. None) (policy_delay (\<lambda>_. 0) (\<lambda>_. 1)) four_attempts untouched of
    (Inr s, out) \<Rightarrow>
      fst (retry_recv (\<lambda>n. if n = 0 then Inr [Inl limited] else if n = 1 then Inl limited else Inr [Inr ''hello''])
        (\<lambda>_. None) (policy_delay (\<lambda>_. 0) (\<lambda>_. 1)) four_attempts s out) = Inl limited
  | _ \<Rightarrow> False)"
  by code_simp

end
