(* ===== verification/EventHub.thy ===== *)
theory EventHub
imports Domain
begin

text \<open>
  Waking the readers of the log (\<open>core/internal/event/hub.go\<close>). A subscription is a channel of
  capacity one: \<open>hb_notify\<close> says whether a wake-up lies in it. Subscriptions are pointers, so a token
  names one. \<open>Publish\<close> takes its list of subscribers under the lock and signals them after giving it
  up, one after the other, so it is several steps here: the log grows and somebody is about to
  publish, the list is taken, each subscriber is signalled. A reader takes the wake-up out of the
  channel and reads the log some time after.
\<close>

subsection \<open>The hub\<close>

record Subscription =
  su_session :: SessionID
  su_all :: bool

record Hub =
  hb_subscribers :: "(SessionID, nat list) gomap"
  hb_everything :: "nat list"
  hb_notify :: "(nat, bool) gomap"

definition new_hub :: Hub where
  "new_hub = \<lparr>hb_subscribers = [], hb_everything = [], hb_notify = []\<rparr>"

definition subscribers_of :: "Hub \<Rightarrow> SessionID \<Rightarrow> nat list" where
  "subscribers_of h sid = (case gm_get (hb_subscribers h) sid of None \<Rightarrow> [] | Some ks \<Rightarrow> ks)"

definition signal :: "nat \<Rightarrow> Hub \<Rightarrow> Hub" where
  "signal k h = h\<lparr>hb_notify := gm_set (hb_notify h) k True\<rparr>"

definition armed :: "Hub \<Rightarrow> nat \<Rightarrow> bool" where
  "armed h k \<longleftrightarrow> gm_get (hb_notify h) k = Some True"

definition subscribe :: "nat \<Rightarrow> SessionID \<Rightarrow> Hub \<Rightarrow> Hub" where
  "subscribe k sid h = signal k (h\<lparr>hb_subscribers := gm_set (hb_subscribers h) sid (k # subscribers_of h sid)\<rparr>)"

definition subscribe_all :: "nat \<Rightarrow> Hub \<Rightarrow> Hub" where
  "subscribe_all k h = signal k (h\<lparr>hb_everything := k # hb_everything h\<rparr>)"

definition unsubscribe :: "nat \<Rightarrow> Subscription \<Rightarrow> Hub \<Rightarrow> Hub" where
  "unsubscribe k sub h =
     (if su_all sub then h\<lparr>hb_everything := removeAll k (hb_everything h)\<rparr>
      else case gm_get (hb_subscribers h) (su_session sub) of
        None \<Rightarrow> h
      | Some ks \<Rightarrow>
          (if removeAll k ks = [] then h\<lparr>hb_subscribers := gm_del (hb_subscribers h) (su_session sub)\<rparr>
           else h\<lparr>hb_subscribers := gm_set (hb_subscribers h) (su_session sub) (removeAll k ks)\<rparr>))"

text \<open>The locked half of \<open>Publish\<close>.\<close>

definition publish_to :: "SessionID \<Rightarrow> Hub \<Rightarrow> nat list" where
  "publish_to sid h = subscribers_of h sid @ hb_everything h"

text \<open>A reader takes the wake-up.\<close>

definition receive :: "nat \<Rightarrow> Hub \<Rightarrow> Hub" where
  "receive k h = h\<lparr>hb_notify := gm_set (hb_notify h) k False\<rparr>"

subsection \<open>Publishers and readers\<close>

text \<open>
  \<open>hw_log\<close> is the log, of which only the session of each event matters; \<open>hw_publishing\<close> the calls of
  \<open>Publish\<close> under way, with the list of subscribers still to be signalled once it has been taken;
  \<open>hw_subs\<close> the open subscriptions; \<open>hw_reading\<close> the readers that took a wake-up and have not read
  yet; \<open>hw_seen\<close> how much of the log that concerns it a reader had before it when it last read.
\<close>

record HubWorld =
  hw_hub :: Hub
  hw_fresh :: nat
  hw_log :: "SessionID list"
  hw_publishing :: "(SessionID \<times> nat list option) list"
  hw_subs :: "(nat, Subscription) gomap"
  hw_reading :: "nat list"
  hw_seen :: "(nat, nat) gomap"

definition new_world :: HubWorld where
  "new_world = \<lparr>hw_hub = new_hub, hw_fresh = 0, hw_log = [], hw_publishing = [], hw_subs = [], hw_reading = [], hw_seen = []\<rparr>"

definition concerns :: "Subscription \<Rightarrow> SessionID \<Rightarrow> bool" where
  "concerns sub sid \<longleftrightarrow> su_all sub \<or> su_session sub = sid"

definition relevant :: "HubWorld \<Rightarrow> Subscription \<Rightarrow> nat" where
  "relevant w sub = length (filter (concerns sub) (hw_log w))"

definition seen :: "HubWorld \<Rightarrow> nat \<Rightarrow> nat" where
  "seen w k = (case gm_get (hw_seen w) k of None \<Rightarrow> 0 | Some n \<Rightarrow> n)"

inductive hub_step :: "HubWorld \<Rightarrow> HubWorld \<Rightarrow> bool" where
  step_append: "hub_step w (w\<lparr>hw_log := hw_log w @ [sid], hw_publishing := hw_publishing w @ [(sid, None)]\<rparr>)"
| step_take: "hw_publishing w = before @ (sid, None) # after \<Longrightarrow>
    hub_step w (w\<lparr>hw_publishing := before @ (sid, Some (publish_to sid (hw_hub w))) # after\<rparr>)"
| step_signal: "hw_publishing w = before @ (sid, Some (k # ks)) # after \<Longrightarrow>
    hub_step w (w\<lparr>hw_hub := signal k (hw_hub w), hw_publishing := before @ (sid, Some ks) # after\<rparr>)"
| step_published: "hw_publishing w = before @ (sid, Some []) # after \<Longrightarrow>
    hub_step w (w\<lparr>hw_publishing := before @ after\<rparr>)"
| step_subscribe: "hub_step w (w\<lparr>hw_hub := subscribe (hw_fresh w) sid (hw_hub w), hw_fresh := Suc (hw_fresh w),
    hw_subs := gm_set (hw_subs w) (hw_fresh w) \<lparr>su_session = sid, su_all = False\<rparr>\<rparr>)"
| step_subscribe_all: "hub_step w (w\<lparr>hw_hub := subscribe_all (hw_fresh w) (hw_hub w), hw_fresh := Suc (hw_fresh w),
    hw_subs := gm_set (hw_subs w) (hw_fresh w) \<lparr>su_session = '''', su_all = True\<rparr>\<rparr>)"
| step_close: "gm_get (hw_subs w) k = Some sub \<Longrightarrow>
    hub_step w (w\<lparr>hw_hub := unsubscribe k sub (hw_hub w), hw_subs := gm_del (hw_subs w) k\<rparr>)"
| step_receive: "armed (hw_hub w) k \<Longrightarrow> hub_step w (w\<lparr>hw_hub := receive k (hw_hub w), hw_reading := k # hw_reading w\<rparr>)"
| step_read: "k \<in> set (hw_reading w) \<Longrightarrow> gm_get (hw_subs w) k = Some sub \<Longrightarrow>
    hub_step w (w\<lparr>hw_reading := remove1 k (hw_reading w), hw_seen := gm_set (hw_seen w) k (relevant w sub)\<rparr>)"

inductive hub_reachable :: "HubWorld \<Rightarrow> bool" where
  hub_start: "hub_reachable new_world"
| hub_next: "hub_reachable w \<Longrightarrow> hub_step w w' \<Longrightarrow> hub_reachable w'"

subsection \<open>The invariant\<close>

text \<open>Somebody is still going to signal the subscription.\<close>

definition coming :: "HubWorld \<Rightarrow> nat \<Rightarrow> Subscription \<Rightarrow> bool" where
  "coming w k sub \<longleftrightarrow> (\<exists>(sid, ks) \<in> set (hw_publishing w). case ks of None \<Rightarrow> concerns sub sid | Some ks \<Rightarrow> k \<in> set ks)"

definition not_lost :: "HubWorld \<Rightarrow> nat \<Rightarrow> Subscription \<Rightarrow> bool" where
  "not_lost w k sub \<longleftrightarrow> seen w k = relevant w sub \<or> armed (hw_hub w) k \<or> k \<in> set (hw_reading w) \<or> coming w k sub"

definition registered :: "Hub \<Rightarrow> nat \<Rightarrow> Subscription \<Rightarrow> bool" where
  "registered h k sub \<longleftrightarrow> (if su_all sub then k \<in> set (hb_everything h) else k \<in> set (subscribers_of h (su_session sub)))"

definition hub_inv :: "HubWorld \<Rightarrow> bool" where
  "hub_inv w \<longleftrightarrow> (\<forall>k sub. gm_get (hw_subs w) k = Some sub \<longrightarrow> registered (hw_hub w) k sub \<and> not_lost w k sub)"

lemma armed_signal [simp]: "armed (signal k h) j \<longleftrightarrow> j = k \<or> armed h j"
  by (simp add: armed_def signal_def)

lemma armed_receive [simp]: "armed (receive k h) j \<longleftrightarrow> j \<noteq> k \<and> armed h j"
  by (simp add: armed_def receive_def)

lemma registered_frame [simp]:
  "registered (signal k h) j sub = registered h j sub" "registered (receive k h) j sub = registered h j sub"
  by (simp_all add: registered_def signal_def receive_def subscribers_of_def)

lemma registered_publish: "registered h k sub \<Longrightarrow> concerns sub sid \<Longrightarrow> k \<in> set (publish_to sid h)"
  by (auto simp: registered_def concerns_def publish_to_def split: if_splits)

lemma registered_subscribe: "registered h k sub \<Longrightarrow> registered (subscribe j sid h) k sub"
  "registered (subscribe j sid h) j \<lparr>su_session = sid, su_all = False\<rparr>"
  by (auto simp: registered_def subscribe_def signal_def subscribers_of_def split: if_splits)

lemma registered_subscribe_all: "registered h k sub \<Longrightarrow> registered (subscribe_all j h) k sub"
  "registered (subscribe_all j h) j \<lparr>su_session = s, su_all = True\<rparr>"
  by (auto simp: registered_def subscribe_all_def signal_def subscribers_of_def split: if_splits)

lemma removeAll_empty: "removeAll j xs = [] \<Longrightarrow> k \<in> set xs \<Longrightarrow> k = j"
  by (induction xs) (auto split: if_splits)

lemma registered_unsubscribe: "registered h k sub \<Longrightarrow> k \<noteq> j \<Longrightarrow> registered (unsubscribe j other h) k sub"
  by (auto simp: registered_def unsubscribe_def subscribers_of_def dest: removeAll_empty split: if_splits option.splits)

lemma armed_frame [simp]:
  "armed (subscribe j sid h) k \<longleftrightarrow> k = j \<or> armed h k" "armed (subscribe_all j h) k \<longleftrightarrow> k = j \<or> armed h k"
  "armed (unsubscribe j other h) k = armed h k"
  by (auto simp: subscribe_def subscribe_all_def unsubscribe_def armed_def signal_def split: option.splits)

lemma not_lost_mono:
  assumes "not_lost w k sub" "seen w' k = seen w k" "relevant w' sub = relevant w sub"
    and "armed (hw_hub w) k \<Longrightarrow> armed (hw_hub w') k \<or> k \<in> set (hw_reading w')"
    and "k \<in> set (hw_reading w) \<Longrightarrow> k \<in> set (hw_reading w')"
    and "coming w k sub \<Longrightarrow> armed (hw_hub w') k \<or> coming w' k sub"
  shows "not_lost w' k sub"
  using assms unfolding not_lost_def by auto

lemma hub_inv_same:
  assumes "hub_inv w" "hw_subs w' = hw_subs w" "hw_fresh w' = hw_fresh w" "hw_seen w' = hw_seen w" "hw_log w' = hw_log w"
    and "\<And>k sub. registered (hw_hub w') k sub = registered (hw_hub w) k sub"
    and "\<And>k. armed (hw_hub w) k \<Longrightarrow> armed (hw_hub w') k \<or> k \<in> set (hw_reading w')"
    and "\<And>k. k \<in> set (hw_reading w) \<Longrightarrow> k \<in> set (hw_reading w')"
    and "\<And>k sub. gm_get (hw_subs w) k = Some sub \<Longrightarrow> registered (hw_hub w) k sub \<Longrightarrow> coming w k sub \<Longrightarrow>
      armed (hw_hub w') k \<or> coming w' k sub"
  shows "hub_inv w'"
proof -
  have "not_lost w' k sub" if "gm_get (hw_subs w) k = Some sub" for k sub
    by (rule not_lost_mono [of w])
      (use assms that in \<open>auto simp: hub_inv_def seen_def relevant_def\<close>)
  then show ?thesis using assms(1-6) unfolding hub_inv_def by auto
qed

lemma seen_frame [simp]: "seen (w\<lparr>hw_hub := h\<rparr>) k = seen w k" "seen (w\<lparr>hw_log := l\<rparr>) k = seen w k"
  "seen (w\<lparr>hw_publishing := p\<rparr>) k = seen w k" "seen (w\<lparr>hw_subs := s\<rparr>) k = seen w k"
  "seen (w\<lparr>hw_fresh := n\<rparr>) k = seen w k" "seen (w\<lparr>hw_reading := r\<rparr>) k = seen w k"
  by (simp_all add: seen_def)

lemma relevant_frame [simp]: "relevant (w\<lparr>hw_hub := h\<rparr>) k = relevant w k" "relevant (w\<lparr>hw_seen := l\<rparr>) k = relevant w k"
  "relevant (w\<lparr>hw_publishing := p\<rparr>) k = relevant w k" "relevant (w\<lparr>hw_subs := s\<rparr>) k = relevant w k"
  "relevant (w\<lparr>hw_fresh := n\<rparr>) k = relevant w k" "relevant (w\<lparr>hw_reading := r\<rparr>) k = relevant w k"
  by (simp_all add: relevant_def)

lemma coming_frame [simp]: "coming (w\<lparr>hw_hub := h\<rparr>) k sub = coming w k sub" "coming (w\<lparr>hw_seen := l\<rparr>) k sub = coming w k sub"
  "coming (w\<lparr>hw_log := p\<rparr>) k sub = coming w k sub" "coming (w\<lparr>hw_subs := s\<rparr>) k sub = coming w k sub"
  "coming (w\<lparr>hw_fresh := n\<rparr>) k sub = coming w k sub" "coming (w\<lparr>hw_reading := r\<rparr>) k sub = coming w k sub"
  by (simp_all add: coming_def)

lemma hub_inv_append: "hub_inv w \<Longrightarrow> hub_inv (w\<lparr>hw_log := hw_log w @ [sid], hw_publishing := hw_publishing w @ [(sid, None)]\<rparr>)"
  by (auto simp: hub_inv_def not_lost_def relevant_def coming_def)

lemma hub_inv_joined:
  assumes "hub_inv w" and h: "h = subscribe (hw_fresh w) sid (hw_hub w) \<and> sub = \<lparr>su_session = sid, su_all = False\<rparr> \<or>
      h = subscribe_all (hw_fresh w) (hw_hub w) \<and> sub = \<lparr>su_session = sid, su_all = True\<rparr>"
  shows "hub_inv (w\<lparr>hw_hub := h, hw_fresh := Suc (hw_fresh w), hw_subs := gm_set (hw_subs w) (hw_fresh w) sub\<rparr>)"
proof -
  let ?w = "w\<lparr>hw_hub := h, hw_fresh := Suc (hw_fresh w), hw_subs := gm_set (hw_subs w) (hw_fresh w) sub\<rparr>"
  have "not_lost ?w k other" if "k \<noteq> hw_fresh w" "gm_get (hw_subs w) k = Some other" for k other
  proof (rule not_lost_mono)
    show "not_lost w k other" using assms(1) that(2) by (simp add: hub_inv_def)
  qed (use h in auto)
  moreover have "not_lost ?w (hw_fresh w) sub" using h by (auto simp: not_lost_def)
  ultimately show ?thesis
    using assms(1) h by (auto simp: hub_inv_def registered_subscribe registered_subscribe_all)
qed

lemma hub_inv_close:
  assumes "hub_inv w" "gm_get (hw_subs w) k = Some sub"
  shows "hub_inv (w\<lparr>hw_hub := unsubscribe k sub (hw_hub w), hw_subs := gm_del (hw_subs w) k\<rparr>)"
  using assms unfolding hub_inv_def not_lost_def by (auto simp: registered_unsubscribe)

lemma hub_inv_read:
  assumes "hub_inv w" "k \<in> set (hw_reading w)" "gm_get (hw_subs w) k = Some sub"
  shows "hub_inv (w\<lparr>hw_reading := remove1 k (hw_reading w), hw_seen := gm_set (hw_seen w) k (relevant w sub)\<rparr>)"
proof -
  let ?w = "w\<lparr>hw_reading := remove1 k (hw_reading w), hw_seen := gm_set (hw_seen w) k (relevant w sub)\<rparr>"
  have "not_lost ?w j other" if "gm_get (hw_subs w) j = Some other" for j other
  proof (cases "j = k")
    case True
    then show ?thesis using that assms(3) by (simp add: not_lost_def seen_def)
  next
    case False
    have "not_lost w j other" using assms(1) that by (simp add: hub_inv_def)
    then show ?thesis by (rule not_lost_mono) (use False in \<open>simp_all add: seen_def\<close>)
  qed
  then show ?thesis using assms(1,3) by (auto simp: hub_inv_def)
qed

lemma hub_inv_step: "hub_step w w' \<Longrightarrow> hub_inv w \<Longrightarrow> hub_inv w'"
proof (induction rule: hub_step.induct)
  case (step_take w before sid after)
  show ?case
    by (rule hub_inv_same [OF step_take.prems]) (use step_take.hyps in \<open>auto simp: coming_def dest: registered_publish\<close>)
next
  case (step_signal w before sid k ks after)
  show ?case
    by (rule hub_inv_same [OF step_signal.prems]) (use step_signal.hyps in \<open>auto simp: coming_def\<close>)
next
  case (step_published w before sid after)
  show ?case
    by (rule hub_inv_same [OF step_published.prems]) (use step_published.hyps in \<open>auto simp: coming_def\<close>)
next
  case (step_receive w k)
  show ?case by (rule hub_inv_same [OF step_receive.prems]) auto
qed (auto intro: hub_inv_append hub_inv_joined hub_inv_close hub_inv_read)

lemma hub_inv_reachable: "hub_reachable w \<Longrightarrow> hub_inv w"
proof (induction rule: hub_reachable.induct)
  case hub_start
  show ?case by (simp add: hub_inv_def new_world_def)
qed (rule hub_inv_step)

text \<open>C34. No wake-up is lost although they coalesce: whatever appends, publishers, readers and closing
  subscriptions do in between, once no publisher is under way every open subscription that has not
  read all of the log that concerns it has a wake-up in its channel or is about to read; and while a
  publisher is under way one that is behind has that, or will be signalled by it.\<close>

theorem no_wakeup_lost:
  assumes "hub_reachable w" "gm_get (hw_subs w) k = Some sub" "seen w k \<noteq> relevant w sub"
  shows "armed (hw_hub w) k \<or> k \<in> set (hw_reading w) \<or>
    (\<exists>(sid, ks) \<in> set (hw_publishing w). case ks of None \<Rightarrow> concerns sub sid | Some ks \<Rightarrow> k \<in> set ks)"
  using hub_inv_reachable [OF assms(1)] assms(2,3) by (auto simp: hub_inv_def not_lost_def coming_def)

text \<open>One reader subscribes, takes its first wake-up and reads; then an event is appended.\<close>

definition one_behind :: HubWorld where
  "one_behind =
     \<lparr>hw_hub = \<lparr>hb_subscribers = [(''s'', [0])], hb_everything = [], hb_notify = [(0, False)]\<rparr>, hw_fresh = 1, hw_log = [''s''],
      hw_publishing = [(''s'', Some [0])], hw_subs = [(0, \<lparr>su_session = ''s'', su_all = False\<rparr>)], hw_reading = [], hw_seen = [(0, 0)]\<rparr>"

lemma one_behind_reachable: "hub_reachable one_behind"
proof -
  note maps = gm_set_def gm_get_def new_world_def new_hub_def subscribers_of_def
  let ?a = "new_world\<lparr>hw_hub := subscribe 0 ''s'' new_hub, hw_fresh := 1, hw_subs := [(0, \<lparr>su_session = ''s'', su_all = False\<rparr>)]\<rparr>"
  have a: "hub_reachable ?a"
    using hub_next [OF hub_start step_subscribe, of "''s''"] by (simp add: maps)
  have "armed (hw_hub ?a) 0" by simp
  from hub_next [OF a step_receive [OF this]]
  have b: "hub_reachable (?a\<lparr>hw_hub := receive 0 (hw_hub ?a), hw_reading := [0]\<rparr>)" by (simp add: maps)
  let ?b = "?a\<lparr>hw_hub := receive 0 (hw_hub ?a), hw_reading := [0]\<rparr>"
  have "0 \<in> set (hw_reading ?b)" "gm_get (hw_subs ?b) 0 = Some \<lparr>su_session = ''s'', su_all = False\<rparr>" by (simp_all add: maps)
  from hub_next [OF b step_read [OF this]]
  have "hub_reachable (?b\<lparr>hw_reading := [], hw_seen := [(0, 0)]\<rparr>)" by (simp add: maps relevant_def)
  from hub_next [OF this step_append, of "''s''"]
  have c: "hub_reachable (?b\<lparr>hw_reading := [], hw_seen := [(0, 0)], hw_log := [''s''], hw_publishing := [(''s'', None)]\<rparr>)"
    by (simp add: maps)
  from hub_next [OF c step_take [where before = "[]" and after = "[]"], of "''s''"]
  show ?thesis by (simp add: maps one_behind_def publish_to_def subscribe_def signal_def receive_def)
qed

theorem no_wakeup_lost_witness:
  "seen one_behind 0 \<noteq> relevant one_behind \<lparr>su_session = ''s'', su_all = False\<rparr> \<and>
   (armed (hw_hub one_behind) 0 \<or> 0 \<in> set (hw_reading one_behind) \<or>
    (\<exists>(sid, ks) \<in> set (hw_publishing one_behind). case ks of None \<Rightarrow> sid = ''s'' | Some ks \<Rightarrow> (0::nat) \<in> set ks))"
proof -
  have s: "gm_get (hw_subs one_behind) 0 = Some \<lparr>su_session = ''s'', su_all = False\<rparr>"
    "seen one_behind 0 \<noteq> relevant one_behind \<lparr>su_session = ''s'', su_all = False\<rparr>"
    by (simp_all add: one_behind_def gm_get_def seen_def relevant_def concerns_def)
  show ?thesis using no_wakeup_lost [OF one_behind_reachable s] s by (simp add: concerns_def one_behind_def)
qed

end
