(* ===== verification/ToolRegistry.thy ===== *)
theory ToolRegistry
imports Permission Storage
begin

text \<open>
  The tool registry (\<open>core/internal/tool/registry.go\<close>, with the types of \<open>core/internal/tool/tool.go\<close>):
  what a tool is, which tools a run is shown, and how a call is checked before a tool sees it.

  A tool is code behind an interface; here it is a record of functions over \<open>'w\<close>, whatever it can
  reach. JSON and JSON schemas are other people's libraries: \<open>ToolEnv\<close> holds what the registry asks of
  them. A compiled schema is kept as the text it was compiled from.
\<close>

subsection \<open>Calls, results and failures\<close>

record CallContext =
  cx_SessionID :: SessionID
  cx_RunID :: RunID
  cx_Trust :: TrustLevel
  cx_From :: Provenance
  cx_Origin :: RunOrigin
  cx_Seq :: Seq

record ToolCall = Call +
  ca_Context :: CallContext

definition trust_or_untrusted :: "CallContext \<Rightarrow> TrustLevel" where
  "trust_or_untrusted c = (if cx_Trust c = TrustOther '''' then TrustUntrusted else cx_Trust c)"

definition principal_key :: "CallContext \<Rightarrow> string" where
  "principal_key c =
     (case or_Principal (cx_Origin c) of
        Some p \<Rightarrow> pr_Platform p @ '':'' @ pr_PrincipalID p
      | None \<Rightarrow> ''local:'' @ or_ClientID (cx_Origin c))"

definition from_gateway :: "CallContext \<Rightarrow> bool" where
  "from_gateway c \<longleftrightarrow> or_Kind (cx_Origin c) = OriginGateway"

record Result =
  re_Content :: string
  re_Summary :: string
  re_IsError :: bool
  re_Truncated :: bool
  re_OriginalBytes :: int
  re_Artifact :: "Artifact option"

definition no_result :: Result where
  "no_result = \<lparr>re_Content = '''', re_Summary = '''', re_IsError = False, re_Truncated = False,
     re_OriginalBytes = 0, re_Artifact = None\<rparr>"

datatype ErrorCode =
    CodeInvalidArguments | CodeNotFound | CodePermissionDenied | CodeOutsideWorkspace
  | CodeTooLarge | CodeUnsupported | CodeTimeout | CodeInternal | CodeOther string

fun error_code_text :: "ErrorCode \<Rightarrow> string" where
  "error_code_text CodeInvalidArguments = ''invalid_arguments''"
| "error_code_text CodeNotFound = ''not_found''"
| "error_code_text CodePermissionDenied = ''permission_denied''"
| "error_code_text CodeOutsideWorkspace = ''outside_workspace''"
| "error_code_text CodeTooLarge = ''too_large''"
| "error_code_text CodeUnsupported = ''unsupported''"
| "error_code_text CodeTimeout = ''timeout''"
| "error_code_text CodeInternal = ''internal''"
| "error_code_text (CodeOther s) = s"

record ToolError =
  te_Code :: ErrorCode
  te_Message :: string
  te_SuggestedAction :: string
  te_Retryable :: bool
  te_Artifact :: "Artifact option"

definition tool_errorf :: "ErrorCode \<Rightarrow> string \<Rightarrow> string \<Rightarrow> ToolError" where
  "tool_errorf code suggested message =
     \<lparr>te_Code = code, te_Message = message, te_SuggestedAction = suggested, te_Retryable = False, te_Artifact = None\<rparr>"

definition tool_error_text :: "ToolError \<Rightarrow> string" where
  "tool_error_text e =
     (if te_SuggestedAction e = '''' then error_code_text (te_Code e) @ '': '' @ te_Message e
      else error_code_text (te_Code e) @ '': '' @ te_Message e @ '' ('' @ te_SuggestedAction e @ '')'')"

text \<open>
  What is asked of libraries: \<open>%q\<close> of a string, \<open>json.Marshal\<close> of an error, \<open>json.Unmarshal\<close> of
  arguments (the error's text), reading and compiling a schema (the error's text) and validating
  arguments against one (the tree of causes).
\<close>

datatype Validation = Validation "string list" string "Validation list"

record ToolEnv =
  tv_Quote :: "string \<Rightarrow> string"
  tv_Marshal :: "ToolError \<Rightarrow> string option"
  tv_Unmarshal :: "string \<Rightarrow> string option"
  tv_ParseSchema :: "string \<Rightarrow> string option"
  tv_Compile :: "string \<Rightarrow> string option"
  tv_Validate :: "string \<Rightarrow> string \<Rightarrow> Validation option"

definition error_result :: "ToolEnv \<Rightarrow> ToolError \<Rightarrow> Result" where
  "error_result env e =
     (case tv_Marshal env e of
        None \<Rightarrow> no_result\<lparr>re_Content := tool_error_text e, re_Summary := te_Message e, re_IsError := True, re_Artifact := te_Artifact e\<rparr>
      | Some encoded \<Rightarrow> no_result\<lparr>re_Content := encoded, re_Summary := te_Message e, re_IsError := True, re_Artifact := te_Artifact e\<rparr>)"

lemma error_result_simps [simp]:
  "re_IsError (error_result env e)" "re_Summary (error_result env e) = te_Message e" "re_Artifact (error_result env e) = te_Artifact e"
  by (simp_all add: error_result_def no_result_def split: option.split)

subsection \<open>The registry\<close>

datatype ToolFailure = ToolFault ToolError | OtherFault string

record 'w Tool =
  to_Spec :: Spec
  to_LevelFor :: "(ToolCall \<Rightarrow> Level) option"
  to_Preview :: "(string \<Rightarrow> string option) option" \<comment> \<open>\<open>None\<close> inside: it panicked\<close>
  to_Execute :: "Ctx \<Rightarrow> ToolCall \<Rightarrow> 'w \<Rightarrow> (ToolFailure + Result) \<times> 'w"

record 'w Registry =
  rg_tools :: "(string, 'w Tool) gomap"
  rg_compiled :: "(string, string option) gomap"

definition new_registry :: "'w Registry" where
  "new_registry = \<lparr>rg_tools = [], rg_compiled = []\<rparr>"

definition compile_schema :: "ToolEnv \<Rightarrow> Spec \<Rightarrow> string + string option" where
  "compile_schema env spec =
     (if sp_InputSchema spec = '''' then Inr None
      else case tv_ParseSchema env (sp_InputSchema spec) of
        Some err \<Rightarrow> Inl (''tool '' @ sp_Name spec @ '': input schema is not valid JSON: '' @ err)
      | None \<Rightarrow>
          (case tv_Compile env (sp_InputSchema spec) of
             Some err \<Rightarrow> Inl (''tool '' @ sp_Name spec @ '': input schema: '' @ err)
           | None \<Rightarrow> Inr (Some (sp_InputSchema spec))))"

definition register :: "ToolEnv \<Rightarrow> 'w Tool \<Rightarrow> 'w Registry \<Rightarrow> string + 'w Registry" where
  "register env t r =
     (let spec = to_Spec t in
      if sp_Name spec = '''' then Inl ''tool: registered with no name''
      else case compile_schema env spec of
        Inl err \<Rightarrow> Inl err
      | Inr schema \<Rightarrow>
          if gm_get (rg_tools r) (sp_Name spec) \<noteq> None then Inl (''tool: '' @ sp_Name spec @ '' is already registered'')
          else Inr (r\<lparr>rg_tools := gm_set (rg_tools r) (sp_Name spec) t,
                 rg_compiled := gm_set (rg_compiled r) (sp_Name spec) schema\<rparr>))"

fun register_all :: "ToolEnv \<Rightarrow> 'w Tool list \<Rightarrow> 'w Registry \<Rightarrow> string + 'w Registry" where
  "register_all env [] r = Inr r"
| "register_all env (t # ts) r = (case register env t r of Inl err \<Rightarrow> Inl err | Inr r \<Rightarrow> register_all env ts r)"

definition lookup_tool :: "'w Registry \<Rightarrow> string \<Rightarrow> 'w Tool option" where
  "lookup_tool r name = gm_get (rg_tools r) name"

definition spec_less :: "Spec \<Rightarrow> Spec \<Rightarrow> bool" where
  "spec_less a b \<longleftrightarrow> sp_Name a < sp_Name b"

definition specs_where :: "(Spec \<Rightarrow> bool) \<Rightarrow> 'w Registry \<Rightarrow> Spec list" where
  "specs_where keep r = sort_slice spec_less (filter keep (map to_Spec (gm_vals (rg_tools r))))"

definition specs :: "'w Registry \<Rightarrow> Spec list" where
  "specs = specs_where (\<lambda>spec. \<not> sp_Deferred spec)"

definition deferred_specs :: "'w Registry \<Rightarrow> Spec list" where
  "deferred_specs = specs_where sp_Deferred"

subsection \<open>Checking a call\<close>

fun collect_leaves :: "Validation \<Rightarrow> string list" where
  "collect_leaves (Validation location message causes) =
     (if causes = [] then
        [if location = [] then message
         else concat (map (\<lambda>segment. ''/'' @ segment) location) @ '': '' @ message]
      else concat (map collect_leaves causes))"

definition schema_failure :: "Validation \<Rightarrow> string" where
  "schema_failure v = str_join ''; '' (take 5 (collect_leaves v))"

definition validate :: "ToolEnv \<Rightarrow> string option \<Rightarrow> string \<Rightarrow> ToolError option" where
  "validate env schema arguments =
     (case schema of
        None \<Rightarrow> None
      | Some compiled \<Rightarrow>
          let raw = (if arguments = '''' then ''{}'' else arguments) in
          (case tv_Unmarshal env raw of
             Some err \<Rightarrow> Some (tool_errorf CodeInvalidArguments
               ''Send the arguments as a JSON object matching the tool's schema.''
               (''arguments are not valid JSON: '' @ err))
           | None \<Rightarrow>
               (case tv_Validate env compiled raw of
                  Some v \<Rightarrow> Some (tool_errorf CodeInvalidArguments
                    ''Correct the arguments and call the tool again.'' (schema_failure v))
                | None \<Rightarrow> None)))"

definition unknown_tool :: "ToolEnv \<Rightarrow> string \<Rightarrow> string \<Rightarrow> Result" where
  "unknown_tool env suggested name =
     error_result env (tool_errorf CodeNotFound suggested (''no tool named '' @ tv_Quote env name))"

definition registry_execute :: "ToolEnv \<Rightarrow> 'w Registry \<Rightarrow> Ctx \<Rightarrow> ToolCall \<Rightarrow> 'w \<Rightarrow> Result \<times> 'w" where
  "registry_execute env r ctx call w =
     (case lookup_tool r (ca_Name call) of
        None \<Rightarrow> (unknown_tool env ''Use one of the tools listed in this conversation.'' (ca_Name call), w)
      | Some t \<Rightarrow>
          (case validate env (case gm_get (rg_compiled r) (ca_Name call) of None \<Rightarrow> None | Some schema \<Rightarrow> schema) (ca_Arguments call) of
             Some err \<Rightarrow> (error_result env err, w)
           | None \<Rightarrow>
               (case to_Execute t ctx call w of
                  (Inr result, w) \<Rightarrow> (result, w)
                | (Inl (ToolFault err), w) \<Rightarrow> (error_result env err, w)
                | (Inl (OtherFault text), w) \<Rightarrow>
                    (error_result env (tool_errorf CodeInternal '''' (ca_Name call @ '' failed: '' @ text)), w))))"


subsection \<open>What is registered is listed, once\<close>

abbreviation name_of :: "'w Tool \<Rightarrow> string" where
  "name_of t \<equiv> sp_Name (to_Spec t)"

definition schema_of :: "'w Tool \<Rightarrow> string option" where
  "schema_of t = (if sp_InputSchema (to_Spec t) = '''' then None else Some (sp_InputSchema (to_Spec t)))"

definition holds_tools :: "'w Tool list \<Rightarrow> 'w Registry \<Rightarrow> bool" where
  "holds_tools ts r \<longleftrightarrow> rg_tools r = map (\<lambda>t. (name_of t, t)) ts \<and>
     rg_compiled r = map (\<lambda>t. (name_of t, schema_of t)) ts \<and> distinct (map name_of ts) \<and> '''' \<notin> set (map name_of ts)"

lemma gm_set_absent: "gm_get m k = None \<Longrightarrow> gm_set m k v = m @ [(k, v)]"
  by (induction m) (auto simp: gm_get_def gm_set_def split: if_splits)

lemma gm_get_mapped: "gm_get (map (\<lambda>t. (f t, g t)) ts) k = map_option g (find (\<lambda>t. f t = k) ts)"
  by (induction ts) (auto simp: gm_get_def)

lemma gm_get_pair: "distinct (map f ts) \<Longrightarrow> t \<in> set ts \<Longrightarrow> gm_get (map (\<lambda>t. (f t, g t)) ts) (f t) = Some (g t)"
  by (induction ts) (auto simp: gm_get_def image_iff)

lemma sorted_specs: "sorted_wrt (\<lambda>a b. \<not> spec_less b a) xs \<Longrightarrow> distinct (map sp_Name xs) \<Longrightarrow> sorted_wrt spec_less xs"
  by (induction xs) (auto simp: spec_less_def not_less le_less)

lemma register_ok:
  assumes "register env t r = Inr r'" "holds_tools ts r"
  shows "holds_tools (ts @ [t]) r'"
proof -
  have t: "name_of t \<noteq> ''''" "compile_schema env (to_Spec t) = Inr (schema_of t)" "gm_get (rg_tools r) (name_of t) = None"
    and r': "r' = r\<lparr>rg_tools := gm_set (rg_tools r) (name_of t) t, rg_compiled := gm_set (rg_compiled r) (name_of t) (schema_of t)\<rparr>"
    using assms(1) by (auto simp: register_def Let_def compile_schema_def schema_of_def split: if_splits option.splits)
  have "find (\<lambda>u. name_of u = name_of t) ts = None"
    using t(3) assms(2) by (simp add: holds_tools_def gm_get_mapped)
  then have "name_of t \<notin> set (map name_of ts)" "gm_get (rg_compiled r) (name_of t) = None"
    using assms(2) by (auto simp: holds_tools_def gm_get_mapped find_None_iff)
  then show ?thesis using assms(2) t by (simp add: holds_tools_def r' gm_set_absent)
qed

lemma register_all_ok: "register_all env us r = Inr r' \<Longrightarrow> holds_tools ts r \<Longrightarrow> holds_tools (ts @ us) r'"
proof (induction us arbitrary: ts r)
  case (Cons u us)
  then obtain s where "register env u r = Inr s" "register_all env us s = Inr r'" by (auto split: sum.splits)
  then show ?case using Cons.IH [of s "ts @ [u]"] register_ok Cons.prems(2) by fastforce
qed simp

interpretation spec_order: sort_less spec_less
  by unfold_locales (auto simp: spec_less_def)

lemma specs_where_holds:
  assumes "holds_tools ts r"
  shows "mset (specs_where keep r) = mset (filter keep (map to_Spec ts)) \<and> sorted_wrt spec_less (specs_where keep r)"
proof -
  have vals: "gm_vals (rg_tools r) = ts"
    using assms by (simp add: holds_tools_def gm_vals_def comp_def)
  let ?specs = "specs_where keep r"
  have m: "mset ?specs = mset (filter keep (map to_Spec ts))" by (simp add: specs_where_def vals)
  have "distinct (map sp_Name (map to_Spec ts))" using assms by (simp add: holds_tools_def comp_def)
  then have "distinct (map sp_Name (filter keep (map to_Spec ts)))" by (rule distinct_map_filter)
  moreover have "mset (map sp_Name ?specs) = mset (map sp_Name (filter keep (map to_Spec ts)))"
    unfolding mset_map m ..
  ultimately have "distinct (map sp_Name ?specs)"
    using mset_eq_imp_distinct_iff by blast
  moreover have "sorted_wrt (\<lambda>a b. \<not> spec_less b a) ?specs"
    by (simp add: specs_where_def spec_order.sorted_sort_slice)
  ultimately show ?thesis using m sorted_specs by blast
qed

text \<open>C40. Every tool registered at startup is there under its own name, checked against its own schema
  and shown to the model exactly once: what the model is shown at the start and what it can load later
  are the registered tools' declarations, each in one of the two lists and each list in the strict order
  of the names, so that the same tools always make the same prompt.\<close>

theorem registered_tools_are_listed_once:
  assumes "register_all env ts new_registry = Inr r"
  shows "mset (specs r) + mset (deferred_specs r) = mset (map to_Spec ts) \<and>
    sorted_wrt (\<lambda>a b. sp_Name a < sp_Name b) (specs r) \<and> sorted_wrt (\<lambda>a b. sp_Name a < sp_Name b) (deferred_specs r) \<and>
    (\<forall>s \<in> set (specs r). \<not> sp_Deferred s) \<and>
    (\<forall>t \<in> set ts. sp_Name (to_Spec t) \<noteq> '''' \<and> lookup_tool r (sp_Name (to_Spec t)) = Some t \<and>
      gm_get (rg_compiled r) (sp_Name (to_Spec t)) =
        Some (if sp_InputSchema (to_Spec t) = '''' then None else Some (sp_InputSchema (to_Spec t))))"
proof -
  have h: "holds_tools ts r"
    using register_all_ok [OF assms, of "[]"] by (simp add: holds_tools_def new_registry_def)
  have "mset (filter (\<lambda>s. \<not> sp_Deferred s) xs) + mset (filter sp_Deferred xs) = mset xs" for xs :: "Spec list"
    by (induction xs) auto
  then have "mset (specs r) + mset (deferred_specs r) = mset (map to_Spec ts)"
    using specs_where_holds [OF h] by (simp add: specs_def deferred_specs_def)
  moreover have "set (specs r) = {s \<in> to_Spec ` set ts. \<not> sp_Deferred s}"
    using specs_where_holds [OF h, of "\<lambda>s. \<not> sp_Deferred s"] by (metis specs_def set_mset_mset set_filter set_map)
  moreover have "lookup_tool r (name_of t) = Some t" "gm_get (rg_compiled r) (name_of t) = Some (schema_of t)" "name_of t \<noteq> ''''"
    if "t \<in> set ts" for t
    using h that gm_get_pair [of name_of ts t "\<lambda>t. t"] gm_get_pair [of name_of ts t schema_of]
    by (simp_all add: holds_tools_def lookup_tool_def image_iff) metis
  ultimately show ?thesis
    using specs_where_holds [OF h] by (simp add: specs_def deferred_specs_def spec_less_def [abs_def] schema_of_def)
qed

definition lenient :: ToolEnv where
  "lenient = \<lparr>tv_Quote = (\<lambda>s. [CHR 0x22] @ s @ [CHR 0x22]), tv_Marshal = (\<lambda>_. None), tv_Unmarshal = (\<lambda>_. None),
     tv_ParseSchema = (\<lambda>_. None), tv_Compile = (\<lambda>_. None),
     tv_Validate = (\<lambda>_ args. if args = ''{}'' then Some (Validation [] '''' [Validation [''path''] ''missing'' []]) else None)\<rparr>"

definition sample_spec :: "string \<Rightarrow> Level \<Rightarrow> bool \<Rightarrow> Spec" where
  "sample_spec name level deferred = \<lparr>sp_Name = name, sp_Description = '''', sp_InputSchema = ''{path}'', sp_Level = level,
     sp_Capabilities = \<lparr>ca_ReadFS = True, ca_WriteFS = False, ca_Execute = False, ca_Network = False, ca_Secrets = False,
       ca_Destructive = False, ca_Idempotent = True, ca_ParallelSafe = True, ca_ForeignContent = False,
       ca_Provenance = ProvenanceLocalUnknown\<rparr>, sp_Deferred = deferred\<rparr>"

definition sample_tool :: "string \<Rightarrow> Level \<Rightarrow> bool \<Rightarrow> 'w Tool" where
  "sample_tool name level deferred = \<lparr>to_Spec = sample_spec name level deferred, to_LevelFor = None, to_Preview = None,
     to_Execute = (\<lambda>_ call w. (Inr (no_result\<lparr>re_Content := ''did '' @ ca_Name call\<rparr>), w))\<rparr>"

theorem registered_tools_are_listed_once_witness:
  "\<exists>r :: nat Registry. register_all lenient [sample_tool ''write_file'' LevelWorkspaceWrite False,
       sample_tool ''grep'' LevelWorkspaceRead False, sample_tool ''jira'' LevelNetworkRead True] new_registry = Inr r \<and>
     mset (specs r) + mset (deferred_specs r) = {#sample_spec ''write_file'' LevelWorkspaceWrite False,
       sample_spec ''grep'' LevelWorkspaceRead False, sample_spec ''jira'' LevelNetworkRead True#}"
proof -
  let ?ts = "[sample_tool ''write_file'' LevelWorkspaceWrite False, sample_tool ''grep'' LevelWorkspaceRead False,
    sample_tool ''jira'' LevelNetworkRead True] :: nat Tool list"
  obtain r where r: "register_all lenient ?ts new_registry = Inr r"
    by (auto simp: register_def compile_schema_def lenient_def sample_tool_def sample_spec_def new_registry_def gm_get_def gm_set_def)
  from registered_tools_are_listed_once [OF r] r show ?thesis
    by (auto simp: sample_tool_def)
qed

text \<open>A tool never sees a call the registry could not vouch for: when the name is unknown, the
  arguments are not JSON or they do not fit the tool's schema, no tool runs, nothing the tools can reach
  changes, and the model is told so in a result marked as an error.\<close>

theorem unchecked_call_reaches_no_tool:
  assumes "lookup_tool r (ca_Name call) = None \<or>
    (\<exists>compiled. gm_get (rg_compiled r) (ca_Name call) = Some (Some compiled) \<and>
      (tv_Unmarshal env (if ca_Arguments call = '''' then ''{}'' else ca_Arguments call) \<noteq> None \<or>
       tv_Validate env compiled (if ca_Arguments call = '''' then ''{}'' else ca_Arguments call) \<noteq> None))"
  shows "snd (registry_execute env r ctx call w) = w \<and> re_IsError (fst (registry_execute env r ctx call w)) \<and>
    (\<exists>e. fst (registry_execute env r ctx call w) = error_result env e \<and> te_Code e \<in> {CodeNotFound, CodeInvalidArguments})"
proof (cases "lookup_tool r (ca_Name call)")
  case None
  then show ?thesis
    by (auto simp: registry_execute_def unknown_tool_def tool_errorf_def intro!: exI)
next
  case (Some t)
  with assms obtain compiled where c: "gm_get (rg_compiled r) (ca_Name call) = Some (Some compiled)"
    and bad: "tv_Unmarshal env (if ca_Arguments call = '''' then ''{}'' else ca_Arguments call) \<noteq> None \<or>
       tv_Validate env compiled (if ca_Arguments call = '''' then ''{}'' else ca_Arguments call) \<noteq> None" by auto
  show ?thesis
  proof (cases "validate env (Some compiled) (ca_Arguments call)")
    case None
    with bad show ?thesis by (auto simp: validate_def Let_def split: option.splits if_splits)
  next
    case (Some err)
    moreover from Some have "te_Code err = CodeInvalidArguments"
      by (auto simp: validate_def Let_def tool_errorf_def split: option.splits)
    ultimately show ?thesis
      using \<open>lookup_tool r (ca_Name call) = _\<close> c by (auto simp: registry_execute_def)
  qed
qed

theorem unchecked_call_reaches_no_tool_witness:
  "\<forall>ctxt. \<exists>r :: nat Registry. register lenient (sample_tool ''read_file'' LevelWorkspaceRead False) new_registry = Inr r \<and>
     snd (registry_execute lenient r None (Call.extend \<lparr>ca_ID = ''c'', ca_Name = ''read_file'', ca_Arguments = ''''\<rparr>
       \<lparr>ca_Context = ctxt\<rparr>) 7) = 7"
proof
  fix ctxt
  obtain r :: "nat Registry" where r: "register lenient (sample_tool ''read_file'' LevelWorkspaceRead False) new_registry = Inr r"
    and c: "gm_get (rg_compiled r) ''read_file'' = Some (Some ''{path}'')"
    by (simp add: register_def compile_schema_def lenient_def sample_tool_def sample_spec_def new_registry_def gm_get_def gm_set_def)
  have "tv_Validate lenient ''{path}'' ''{}'' \<noteq> None" by (simp add: lenient_def)
  with r c unchecked_call_reaches_no_tool [of r "Call.extend \<lparr>ca_ID = ''c'', ca_Name = ''read_file'', ca_Arguments = ''''\<rparr>
       \<lparr>ca_Context = ctxt\<rparr>" lenient None 7]
  show "\<exists>r :: nat Registry. register lenient (sample_tool ''read_file'' LevelWorkspaceRead False) new_registry = Inr r \<and>
     snd (registry_execute lenient r None (Call.extend \<lparr>ca_ID = ''c'', ca_Name = ''read_file'', ca_Arguments = ''''\<rparr>
       \<lparr>ca_Context = ctxt\<rparr>) 7) = 7" by (auto simp: Call.defs)
qed

end
