(* ===== verification/RunLog.thy ===== *)
theory RunLog
imports MemSessions MemEvents LogReadings TurnQueue Retry ToolRegistry
begin

text \<open>
  The runtime's writes (\<open>core/internal/runtime/runtime.go\<close>): \<open>append\<close>, \<open>notifyDelivery\<close>, \<open>transition\<close>,
  \<open>finish\<close>, \<open>finishFromError\<close>, \<open>SendTurnTo\<close>, \<open>admit\<close> with what it records, \<open>RecoverOrphanedRuns\<close>.

  \<open>Rt\<close> is everything they write to: the store, the turn queue of \<open>TurnQueue\<close>, the permission engine,
  and what leaves the runtime: the sessions published to the hub, the events handed to the delivery
  observer, the runs told to \<open>AfterRun\<close>, the calls handed to the registry, and what was recalled for a
  registered run (the field \<open>recalled\<close> of \<open>activeRun\<close>). The clock and the ID
  generators are functions of a counter, so nothing is assumed about what they return. An operation
  is a function from \<open>Rt\<close> to its result or error and the new \<open>Rt\<close>: a failing operation keeps what it
  wrote before it failed.
\<close>

subsection \<open>State and environment\<close>


record Rt =
  rt_Store :: Store
  rt_Turns :: Turns
  rt_Permissions :: "Engine option"
  rt_Tick :: nat
  rt_Published :: "SessionID list"
  rt_Delivered :: "(Run \<times> Event) list"
  rt_Told :: "Run list"
  rt_Executed :: "ToolCall list"
  rt_Recalled :: "(nat, string) gomap"

record RtEnv =
  rv_Now :: "nat \<Rightarrow> instant"
  rv_NewID :: "nat \<Rightarrow> string"
  rv_Delivery :: bool
  rv_AfterRun :: bool
  rv_Duration :: "int \<Rightarrow> string"

definition new_rt :: "Store \<Rightarrow> Rt" where
  "new_rt s = \<lparr>rt_Store = s, rt_Turns = new_turns, rt_Permissions = None, rt_Tick = 0, rt_Published = [],
     rt_Delivered = [], rt_Told = [], rt_Executed = [], rt_Recalled = []\<rparr>"

type_synonym 'a rt = "Rt \<Rightarrow> (Err + 'a) \<times> Rt"

definition ok :: "'a \<Rightarrow> 'a rt" where
  "ok x s = (Inr x, s)"

definition fail :: "Err \<Rightarrow> 'a rt" where
  "fail e s = (Inl e, s)"

text \<open>\<open>x, err := m; if err != nil { return ..., err }\<close>\<close>

definition rbind :: "'a rt \<Rightarrow> ('a \<Rightarrow> 'b rt) \<Rightarrow> 'b rt" where
  "rbind m k s = (case m s of (Inl e, s') \<Rightarrow> (Inl e, s') | (Inr x, s') \<Rightarrow> k x s')"

text \<open>\<open>x, err := m\<close>, with both answers looked at.\<close>

definition rtry :: "'a rt \<Rightarrow> (Err + 'a \<Rightarrow> 'b rt) \<Rightarrow> 'b rt" where
  "rtry m k s = (case m s of (r, s') \<Rightarrow> k r s')"

definition st_read :: "(Store \<Rightarrow> StoreError + 'a) \<Rightarrow> 'a rt" where
  "st_read f s = (case f (rt_Store s) of Inl e \<Rightarrow> (Inl (ErrStore e), s) | Inr x \<Rightarrow> (Inr x, s))"

definition st_write :: "(Store \<Rightarrow> StoreError + Store) \<Rightarrow> unit rt" where
  "st_write f s = (case f (rt_Store s) of Inl e \<Rightarrow> (Inl (ErrStore e), s) | Inr t \<Rightarrow> (Inr (), s\<lparr>rt_Store := t\<rparr>))"

definition now :: "RtEnv \<Rightarrow> instant rt" where
  "now env s = (Inr (rv_Now env (rt_Tick s)), s\<lparr>rt_Tick := Suc (rt_Tick s)\<rparr>)"

definition new_id :: "RtEnv \<Rightarrow> string rt" where
  "new_id env s = (Inr (rv_NewID env (rt_Tick s)), s\<lparr>rt_Tick := Suc (rt_Tick s)\<rparr>)"

lemmas rt_ops = ok_def fail_def rbind_def rtry_def st_read_def st_write_def now_def new_id_def

text \<open>A run's context: the reason it was cancelled with, once it is.\<close>

type_synonym RunCtx = "CancelCause option"

definition ctx_of :: "RunCtx \<Rightarrow> Ctx" where
  "ctx_of rc = (case rc of None \<Rightarrow> None | Some _ \<Rightarrow> Some Canceled)"

subsection \<open>What failures say\<close>

fun ctx_error_text :: "CtxError \<Rightarrow> string" where
  "ctx_error_text Canceled = ''context canceled''"
| "ctx_error_text DeadlineExceeded = ''context deadline exceeded''"

fun store_error_text :: "StoreError \<Rightarrow> string" where
  "store_error_text (CtxErr e) = ctx_error_text e"
| "store_error_text ErrSessionNotFound = ''storage: session not found''"
| "store_error_text ErrRunNotFound = ''storage: run not found''"
| "store_error_text ErrDuplicateSession = ''storage: session already exists''"
| "store_error_text ErrDuplicateRun = ''storage: run already exists''"
| "store_error_text ErrApprovalNotFound = ''storage: approval not found''"
| "store_error_text ErrMemoryNotFound = ''storage: memory not found''"
| "store_error_text ErrApprovalDecided = ''storage: approval has already been decided''"
| "store_error_text ErrQuestionNotFound = ''storage: question not found''"
| "store_error_text ErrQuestionAnswered = ''storage: question has already been answered''"
| "store_error_text ErrScheduleNotFound = ''storage: schedule not found''"
| "store_error_text ErrDuplicateSchedule = ''storage: schedule already exists''"
| "store_error_text ErrFiringAlreadyResolved = ''storage: that firing is already resolved''"
| "store_error_text ErrFiringNotResolved = ''storage: that firing was never resolved''"
| "store_error_text _ = ''''"

fun cause_text :: "CancelCause \<Rightarrow> string" where
  "cause_text (UserInterrupted reason) =
     (if reason = '''' then ''runtime: interrupted by user'' else ''runtime: interrupted by user: '' @ reason)"
| "cause_text ShuttingDown = ''runtime: shutting down''"
| "cause_text AdmitFailed = ''''"

fun err_text :: "RtEnv \<Rightarrow> Err \<Rightarrow> string" where
  "err_text env (ErrProvider p _) = provider_error_text p"
| "err_text env (ErrRetryBudgetExhausted waited needed cause) =
     ''provider: gave up after waiting '' @ rv_Duration env waited @ ''; the next attempt was '' @ rv_Duration env needed
       @ '' away: '' @ err_text env cause"
| "err_text env (ErrContext e) = ctx_error_text e"
| "err_text env ErrEOF = ''EOF''"
| "err_text env (ErrStore e) = store_error_text e"
| "err_text env (ErrUserInterrupted reason) = cause_text (UserInterrupted reason)"
| "err_text env (ErrText t) = t"

fun is_budget :: "Err \<Rightarrow> bool" where
  "is_budget (ErrRetryBudgetExhausted _ _ _) = True"
| "is_budget _ = False"

fun is_interrupt :: "Err \<Rightarrow> bool" where
  "is_interrupt (ErrUserInterrupted _) = True"
| "is_interrupt _ = False"

definition classify_failure :: "Err \<Rightarrow> string" where
  "classify_failure err =
     (if list_ex is_interrupt (err_chain err) then ''interrupted''
      else if list_ex is_budget (err_chain err) then ''retry_budget_exhausted''
      else if kind_of err \<noteq> KindUnknown then error_kind_text (kind_of err)
      else '''')"

subsection \<open>Writing to the log\<close>

definition notify_delivery :: "RtEnv \<Rightarrow> Ctx \<Rightarrow> RunID \<Rightarrow> Event \<Rightarrow> Rt \<Rightarrow> Rt" where
  "notify_delivery env ctx rid event s =
     (if \<not> rv_Delivery env \<or> rid = '''' then s
      else case get_run ctx rid (rt_Store s) of
        Inl _ \<Rightarrow> s
      | Inr run \<Rightarrow> if has_external_target run then s\<lparr>rt_Delivered := rt_Delivered s @ [(run, event)]\<rparr> else s)"

definition rt_append :: "RtEnv \<Rightarrow> Ctx \<Rightarrow> SessionID \<Rightarrow> RunID \<Rightarrow> EventKind \<Rightarrow> EventPayload \<Rightarrow> unit rt" where
  "rt_append env ctx sid rid kind payload =
     rbind (new_id env) (\<lambda>eid. rbind (now env) (\<lambda>at s.
       let event = \<lparr>ev_ID = eid, ev_SessionID = sid, ev_RunID = rid, ev_Seq = 0, ev_GlobalSeq = 0,
             ev_OccurredAt = at, ev_Kind = kind, ev_Payload = payload\<rparr>
       in case append_event ctx event (rt_Store s) of
            Inl e \<Rightarrow> (Inl (ErrStore e), s)
          | Inr (t, q) \<Rightarrow>
              (Inr (), notify_delivery env ctx rid (event\<lparr>ev_Seq := q\<rparr>)
                (s\<lparr>rt_Store := t, rt_Published := rt_Published s @ [sid]\<rparr>))))"

definition transition :: "RtEnv \<Rightarrow> Ctx \<Rightarrow> Run \<Rightarrow> RunStatus \<Rightarrow> string \<Rightarrow> string \<Rightarrow> unit rt" where
  "transition env ctx run status reason kind =
     rbind (if is_terminal status then rbind (now env) (\<lambda>at. ok (Some at)) else ok (ru_FinishedAt run)) (\<lambda>finished.
     rbind (st_write (update_run ctx (run\<lparr>ru_Status := status, ru_FinishedAt := finished\<rparr>))) (\<lambda>_.
     rt_append env ctx (ru_SessionID run) (ru_ID run) EventRunStateChanged
       (PRunStateChanged \<lparr>rs_Status = status, rs_Reason = reason, rs_FailureKind = kind\<rparr>)))"

definition tell_after_run :: "RtEnv \<Rightarrow> Run \<Rightarrow> RunStatus \<Rightarrow> Rt \<Rightarrow> Rt" where
  "tell_after_run env run status s =
     (if \<not> rv_AfterRun env \<or> status \<noteq> RunCompleted \<or> ru_Kind run = RunWorker then s
      else s\<lparr>rt_Told := rt_Told s @ [run\<lparr>ru_Status := status\<rparr>]\<rparr>)"

definition finish_run :: "RtEnv \<Rightarrow> Ctx \<Rightarrow> Run \<Rightarrow> RunStatus \<Rightarrow> string \<Rightarrow> string \<Rightarrow> Rt \<Rightarrow> Rt" where
  "finish_run env ctx run status reason kind s =
     (case transition env ctx run status reason kind s of
        (Inl _, s) \<Rightarrow> s
      | (Inr _, s) \<Rightarrow> tell_after_run env run status s)"

definition finish_from_error :: "RtEnv \<Rightarrow> RunCtx \<Rightarrow> Run \<Rightarrow> Err \<Rightarrow> Rt \<Rightarrow> Rt" where
  "finish_from_error env rc run err =
     (case rc of
        Some (UserInterrupted reason) \<Rightarrow> finish_run env None run RunCancelled (cause_text (UserInterrupted reason)) ''''
      | _ \<Rightarrow>
          if err_is_context err then finish_run env None run RunCancelled (err_text env err) ''''
          else finish_run env None run RunFailed (err_text env err) (classify_failure err))"

subsection \<open>Sessions, turns and recovery\<close>

definition err_shutting_down :: Err where "err_shutting_down = ErrText ''runtime: shutting down''"
definition err_run_not_found :: Err where "err_run_not_found = ErrText ''runtime: run not found''"

definition rt_create_session :: "RtEnv \<Rightarrow> Ctx \<Rightarrow> string \<Rightarrow> Session rt" where
  "rt_create_session env ctx title s =
     (if tn_draining (rt_Turns s) then (Inl err_shutting_down, s)
      else rbind (now env) (\<lambda>at. rbind (new_id env) (\<lambda>sid.
        let session = \<lparr>se_ID = sid, se_Title = title, se_Model = '''', se_CreatedAt = at, se_UpdatedAt = at\<rparr>
        in rbind (st_write (create_session ctx session)) (\<lambda>_. ok session))) s)"

definition rt_set_session_model :: "RtEnv \<Rightarrow> Ctx \<Rightarrow> SessionID \<Rightarrow> string \<Rightarrow> Session rt" where
  "rt_set_session_model env ctx sid model =
     rbind (now env) (\<lambda>at. rbind (st_write (set_session_model ctx sid model at)) (\<lambda>_. st_read (get_session ctx sid)))"

text \<open>\<open>admit\<close>, undisturbed: the registration, and for a run that has to wait the record of its wait.\<close>

definition rt_admit :: "RtEnv \<Rightarrow> Ctx \<Rightarrow> Run \<Rightarrow> unit rt" where
  "rt_admit env ctx run s =
     (let k = tn_fresh (rt_Turns s);
          waits = ru_SessionID run \<in> tn_busy (rt_Turns s);
          s = s\<lparr>rt_Turns := admit (ru_ID run) (ru_SessionID run) (rt_Turns s)\<rparr>
      in if \<not> waits then (Inr (), s)
         else case transition env ctx run RunQueued '''' '''' s of
           (Inr _, s) \<Rightarrow> (Inr (), s\<lparr>rt_Turns := mark_admitted k (rt_Turns s)\<rparr>)
         | (Inl e, s) \<Rightarrow>
             (Inl e, s\<lparr>rt_Turns :=
                (case dequeue (ru_SessionID run) (ru_ID run) (mark_admitted k (rt_Turns s)) of
                   None \<Rightarrow> mark_admitted k (rt_Turns s)
                 | Some (waiting, tn) \<Rightarrow>
                     release_run (ru_ID run) (qr_tracked waiting)
                       (set_tracked (qr_tracked waiting) (cancelled_for AdmitFailed) tn))\<rparr>))"

definition send_turn_to :: "RtEnv \<Rightarrow> Ctx \<Rightarrow> SessionID \<Rightarrow> Turn \<Rightarrow> (RunID \<times> MessageID) rt" where
  "send_turn_to env ctx sid turn s =
     (if tn_draining (rt_Turns s) then (Inl err_shutting_down, s)
      else rbind (st_read (get_session ctx sid)) (\<lambda>_.
        rbind (new_id env) (\<lambda>rid. rbind (new_id env) (\<lambda>mid. rbind (now env) (\<lambda>at.
          let run = \<lparr>ru_ID = rid, ru_SessionID = sid, ru_Status = RunQueued, ru_Origin = tu_Origin turn,
                ru_DeliveryTargets = tu_Targets turn, ru_CreatedAt = at, ru_FinishedAt = None,
                ru_Kind = RunConversation, ru_ParentRunID = ''''\<rparr>
          in rbind (st_write (create_run ctx run)) (\<lambda>_.
             rbind (rt_append env ctx sid rid EventUserMessageAdded
               (PUserMessageAdded \<lparr>um_MessageID = mid, um_Text = tu_Text turn, um_Trust = trust_for_origin (tu_Origin turn),
                  um_Origin = tu_Origin turn, um_Attachments = tu_Attachments turn\<rparr>)) (\<lambda>_.
             rbind (rt_admit env ctx run) (\<lambda>_. ok (rid, mid)))))))) s)"

definition is_durably_paused :: "RunStatus \<Rightarrow> bool" where
  "is_durably_paused status \<longleftrightarrow> status = RunAwaitingApproval \<or> status = RunAwaitingInput"

definition orphan_reason :: string where
  "orphan_reason = ''runtime: interrupted by daemon restart''"

fun requeue :: "RtEnv \<Rightarrow> Ctx \<Rightarrow> Run list \<Rightarrow> unit rt" where
  "requeue env ctx [] = ok ()"
| "requeue env ctx (run # runs) = rbind (rt_admit env ctx run) (\<lambda>_. requeue env ctx runs)"

fun fail_orphans :: "RtEnv \<Rightarrow> Ctx \<Rightarrow> Run list \<Rightarrow> unit rt" where
  "fail_orphans env ctx [] = ok ()"
| "fail_orphans env ctx (run # runs) =
     rbind (now env) (\<lambda>at.
     rbind (st_write (update_run ctx (run\<lparr>ru_Status := RunFailed, ru_FinishedAt := Some at\<rparr>))) (\<lambda>_.
     rbind (rt_append env ctx (ru_SessionID run) (ru_ID run) EventRunStateChanged
       (PRunStateChanged \<lparr>rs_Status = RunFailed, rs_Reason = orphan_reason, rs_FailureKind = ''''\<rparr>)) (\<lambda>_.
     fail_orphans env ctx runs)))"

definition created_before :: "Run \<Rightarrow> Run \<Rightarrow> bool" where
  "created_before a b \<longleftrightarrow> ru_CreatedAt a < ru_CreatedAt b"

definition recover_orphaned_runs :: "RtEnv \<Rightarrow> Ctx \<Rightarrow> nat rt" where
  "recover_orphaned_runs env ctx =
     rbind (st_read (unfinished_runs ctx)) (\<lambda>unfinished.
       let live = filter (\<lambda>r. \<not> is_durably_paused (ru_Status r)) unfinished;
           waiting = sort_slice created_before (filter (\<lambda>r. ru_Status r = RunQueued) live);
           orphans = filter (\<lambda>r. ru_Status r \<noteq> RunQueued) live
       in rbind (requeue env ctx waiting) (\<lambda>_. rbind (fail_orphans env ctx orphans) (\<lambda>_. ok (length orphans))))"

text \<open>\<open>Wait\<close>, where it does not block: what it answers at once, if anything.\<close>

definition wait_answer :: "Ctx \<Rightarrow> RunID \<Rightarrow> Rt \<Rightarrow> (Err + unit) option" where
  "wait_answer ctx rid s =
     (case gm_get (tn_active (rt_Turns s)) rid of
        None \<Rightarrow>
          (case get_run ctx rid (rt_Store s) of
             Inl e \<Rightarrow> Some (Inl (ErrStore e))
           | Inr run \<Rightarrow>
               if is_terminal (ru_Status run) \<or> is_durably_paused (ru_Status run) then Some (Inr ())
               else Some (Inl err_run_not_found))
      | Some k \<Rightarrow>
          (case ctx of Some e \<Rightarrow> Some (Inl (ErrContext e))
           | None \<Rightarrow> if tk_done (tracked_at (rt_Turns s) k) then Some (Inr ()) else None))"

definition active_runs :: "Rt \<Rightarrow> nat" where
  "active_runs s = length (tn_active (rt_Turns s))"

subsection \<open>What a write leaves\<close>

text \<open>\<open>t\<close> is \<open>s\<close> with one more event.\<close>

definition appended :: "SessionID \<Rightarrow> RunID \<Rightarrow> EventKind \<Rightarrow> EventPayload \<Rightarrow> Store \<Rightarrow> Store \<Rightarrow> bool" where
  "appended sid rid kind p s t \<longleftrightarrow> (\<exists>e q. append_event None e s = Inr (t, q) \<and> ev_SessionID e = sid \<and> ev_RunID e = rid \<and>
     ev_Kind e = kind \<and> ev_Payload e = p)"

lemma appended_frame:
  assumes "appended sid rid kind p s t"
  shows "st_runs t = st_runs s" "st_sessions t = st_sessions s" "st_approvals t = st_approvals s"
    "st_questions t = st_questions s" "st_plans t = st_plans s" "st_pruned t = st_pruned s"
    "\<exists>e. gm_list (st_events t) sid = gm_list (st_events s) sid @ [e] \<and> ev_RunID e = rid \<and> ev_Payload e = p \<and>
      ev_SessionID e = sid \<and> ev_Kind e = kind"
    "x \<noteq> sid \<Longrightarrow> gm_list (st_events t) x = gm_list (st_events s) x"
    "gm_get (st_sessions s) sid \<noteq> None"
proof -
  obtain e q where a: "append_event None e s = Inr (t, q)" and e: "ev_SessionID e = sid" "ev_RunID e = rid" "ev_Kind e = kind" "ev_Payload e = p"
    using assms by (auto simp: appended_def)
  note f = append_event_fields [OF a]
  show "st_runs t = st_runs s" "st_sessions t = st_sessions s" "st_approvals t = st_approvals s"
    "st_questions t = st_questions s" "st_plans t = st_plans s" "st_pruned t = st_pruned s"
    "x \<noteq> sid \<Longrightarrow> gm_list (st_events t) x = gm_list (st_events s) x" "gm_get (st_sessions s) sid \<noteq> None"
    using f(4) e by (simp_all add: f(3))
  show "\<exists>e. gm_list (st_events t) sid = gm_list (st_events s) sid @ [e] \<and> ev_RunID e = rid \<and> ev_Payload e = p \<and>
      ev_SessionID e = sid \<and> ev_Kind e = kind"
    by (rule exI [of _ "e\<lparr>ev_Seq := q, ev_GlobalSeq := st_logSeq s + 1\<rparr>"]) (simp add: f(3) e)
qed

lemma append_event_possible: "gm_get (st_sessions s) (ev_SessionID e) \<noteq> None \<Longrightarrow> \<exists>t q. append_event None e s = Inr (t, q)"
  by (auto simp: append_event_def Let_def)

lemma notify_frame [simp]:
  "rt_Store (notify_delivery env ctx rid e s) = rt_Store s" "rt_Turns (notify_delivery env ctx rid e s) = rt_Turns s"
  "rt_Permissions (notify_delivery env ctx rid e s) = rt_Permissions s"
  "rt_Executed (notify_delivery env ctx rid e s) = rt_Executed s" "rt_Told (notify_delivery env ctx rid e s) = rt_Told s"
  by (simp_all add: notify_delivery_def split: sum.split)

lemma rt_append_ok:
  assumes "gm_get (st_sessions (rt_Store s)) sid \<noteq> None"
  shows "\<exists>s'. rt_append env None sid rid kind p s = (Inr (), s') \<and> appended sid rid kind p (rt_Store s) (rt_Store s') \<and>
    rt_Turns s' = rt_Turns s \<and> rt_Permissions s' = rt_Permissions s \<and> rt_Executed s' = rt_Executed s"
proof -
  define e where "e = \<lparr>ev_ID = rv_NewID env (rt_Tick s), ev_SessionID = sid, ev_RunID = rid, ev_Seq = 0, ev_GlobalSeq = 0,
             ev_OccurredAt = rv_Now env (Suc (rt_Tick s)), ev_Kind = kind, ev_Payload = p\<rparr>"
  obtain t q where t: "append_event None e (rt_Store s) = Inr (t, q)"
    using append_event_possible [of "rt_Store s" e] assms by (auto simp: e_def)
  moreover have "appended sid rid kind p (rt_Store s) t" using t by (auto simp: appended_def e_def)
  ultimately show ?thesis
    by (simp add: rt_append_def rbind_def new_id_def now_def e_def [symmetric])
qed

text \<open>What a successful append leaves alone, whatever the context.\<close>

lemma rt_append_frame:
  "rt_append env ctx sid rid kind p s = (r, s') \<Longrightarrow> rt_Turns s' = rt_Turns s \<and> rt_Permissions s' = rt_Permissions s \<and>
    rt_Executed s' = rt_Executed s \<and> (r = Inr () \<longrightarrow> appended sid rid kind p (rt_Store s) (rt_Store s')) \<and>
    (r \<noteq> Inr () \<longrightarrow> rt_Store s' = rt_Store s)"
proof -
  assume run: "rt_append env ctx sid rid kind p s = (r, s')"
  define e where "e = \<lparr>ev_ID = rv_NewID env (rt_Tick s), ev_SessionID = sid, ev_RunID = rid, ev_Seq = 0, ev_GlobalSeq = 0,
             ev_OccurredAt = rv_Now env (Suc (rt_Tick s)), ev_Kind = kind, ev_Payload = p\<rparr>"
  show ?thesis
  proof (cases "append_event ctx e (rt_Store s)")
    case (Inl err)
    with run show ?thesis by (auto simp: rt_append_def rbind_def new_id_def now_def e_def)
  next
    case (Inr tq)
    obtain t q where tq: "tq = (t, q)" by fastforce
    have "append_event None e (rt_Store s) = Inr (t, q)" using Inr tq append_event_fields(2) by metis
    then have "appended sid rid kind p (rt_Store s) t" by (auto simp: appended_def e_def)
    with run Inr tq show ?thesis by (auto simp: rt_append_def rbind_def new_id_def now_def e_def)
  qed
qed

text \<open>The state of a run as the log tells it.\<close>

definition last_state :: "RunID \<Rightarrow> Event list \<Rightarrow> RunStatus option" where
  "last_state rid events = fold (\<lambda>e acc. if ev_RunID e = rid then (case ev_Payload e of PRunStateChanged p \<Rightarrow> Some (rs_Status p) | _ \<Rightarrow> acc) else acc)
     events None"

lemma last_state_append:
  "last_state rid (es @ [e]) = (if ev_RunID e = rid then (case ev_Payload e of PRunStateChanged p \<Rightarrow> Some (rs_Status p) | _ \<Rightarrow> last_state rid es) else last_state rid es)"
  by (simp add: last_state_def split: EventPayload.split)

definition told_in_log :: "Run \<Rightarrow> RunStatus \<Rightarrow> Store \<Rightarrow> bool" where
  "told_in_log run status t \<longleftrightarrow> last_state (ru_ID run) (gm_list (st_events t) (ru_SessionID run)) = Some status"

lemma transition_ok:
  assumes "gm_get (st_runs (rt_Store s)) (ru_ID run) = Some stored"
    and "gm_get (st_sessions (rt_Store s)) (ru_SessionID run) \<noteq> None"
  shows "\<exists>s' finished. transition env None run status reason kind s = (Inr (), s') \<and>
    (if is_terminal status then finished \<noteq> None else finished = ru_FinishedAt run) \<and>
    appended (ru_SessionID run) (ru_ID run) EventRunStateChanged
      (PRunStateChanged \<lparr>rs_Status = status, rs_Reason = reason, rs_FailureKind = kind\<rparr>)
      (rt_Store s\<lparr>st_runs := gm_set (st_runs (rt_Store s)) (ru_ID run) (stored\<lparr>ru_Status := status, ru_FinishedAt := finished\<rparr>)\<rparr>)
      (rt_Store s') \<and>
    rt_Turns s' = rt_Turns s \<and> rt_Permissions s' = rt_Permissions s \<and> rt_Executed s' = rt_Executed s"
proof -
  define tick finished where "tick = (if is_terminal status then Suc (rt_Tick s) else rt_Tick s)"
    and "finished = (if is_terminal status then Some (rv_Now env (rt_Tick s)) else ru_FinishedAt run)"
  define s1 where "s1 = s\<lparr>rt_Tick := tick,
    rt_Store := rt_Store s\<lparr>st_runs := gm_set (st_runs (rt_Store s)) (ru_ID run) (stored\<lparr>ru_Status := status, ru_FinishedAt := finished\<rparr>)\<rparr>\<rparr>"
  have "transition env None run status reason kind s =
      rt_append env None (ru_SessionID run) (ru_ID run) EventRunStateChanged
        (PRunStateChanged \<lparr>rs_Status = status, rs_Reason = reason, rs_FailureKind = kind\<rparr>) s1"
    using assms(1)
    by (simp add: transition_def rbind_def now_def ok_def st_write_def update_run_def s1_def tick_def finished_def)
  moreover have "gm_get (st_sessions (rt_Store s1)) (ru_SessionID run) \<noteq> None" using assms(2) by (simp add: s1_def)
  from rt_append_ok [OF this, of env "ru_ID run" EventRunStateChanged
      "PRunStateChanged \<lparr>rs_Status = status, rs_Reason = reason, rs_FailureKind = kind\<rparr>"]
  obtain s' where "rt_append env None (ru_SessionID run) (ru_ID run) EventRunStateChanged
        (PRunStateChanged \<lparr>rs_Status = status, rs_Reason = reason, rs_FailureKind = kind\<rparr>) s1 = (Inr (), s')"
    "appended (ru_SessionID run) (ru_ID run) EventRunStateChanged
      (PRunStateChanged \<lparr>rs_Status = status, rs_Reason = reason, rs_FailureKind = kind\<rparr>) (rt_Store s1) (rt_Store s')"
    "rt_Turns s' = rt_Turns s1" "rt_Permissions s' = rt_Permissions s1" "rt_Executed s' = rt_Executed s1" by blast
  ultimately show ?thesis by (intro exI [of _ s'] exI [of _ finished]) (simp add: s1_def finished_def)
qed

lemma transition_told:
  assumes "gm_get (st_runs (rt_Store s)) (ru_ID run) = Some stored"
    and "gm_get (st_sessions (rt_Store s)) (ru_SessionID run) \<noteq> None"
    and "transition env None run status reason kind s = (r, s')"
  shows "r = Inr () \<and> told_in_log run status (rt_Store s') \<and>
    (\<exists>finished. gm_get (st_runs (rt_Store s')) (ru_ID run) = Some (stored\<lparr>ru_Status := status, ru_FinishedAt := finished\<rparr>) \<and>
      (if is_terminal status then finished \<noteq> None else finished = ru_FinishedAt run)) \<and>
    (\<forall>other. other \<noteq> ru_ID run \<longrightarrow> gm_get (st_runs (rt_Store s')) other = gm_get (st_runs (rt_Store s)) other) \<and>
    st_sessions (rt_Store s') = st_sessions (rt_Store s) \<and> rt_Turns s' = rt_Turns s"
proof -
  obtain s1 finished where t: "transition env None run status reason kind s = (Inr (), s1)"
    "if is_terminal status then finished \<noteq> None else finished = ru_FinishedAt run" "rt_Turns s1 = rt_Turns s"
    and a: "appended (ru_SessionID run) (ru_ID run) EventRunStateChanged
      (PRunStateChanged \<lparr>rs_Status = status, rs_Reason = reason, rs_FailureKind = kind\<rparr>)
      (rt_Store s\<lparr>st_runs := gm_set (st_runs (rt_Store s)) (ru_ID run) (stored\<lparr>ru_Status := status, ru_FinishedAt := finished\<rparr>)\<rparr>)
      (rt_Store s1)"
    using transition_ok [OF assms(1,2)] by blast
  have "s1 = s'" "r = Inr ()" using t(1) assms(3) by simp_all
  with t a appended_frame [OF a] show ?thesis by (auto simp: told_in_log_def last_state_append)
qed

text \<open>C29. A run that cannot go on leaves a record of how it ended, even when its own context is dead:
  the stored run becomes cancelled, exactly when a person interrupted it or the failure is a context's,
  and failed otherwise, with a finish time; the log's last word on the run says the same; and no other
  run is touched.\<close>

theorem ended_run_leaves_a_record:
  assumes "gm_get (st_runs (rt_Store s)) (ru_ID run) = Some stored"
    and "gm_get (st_sessions (rt_Store s)) (ru_SessionID run) \<noteq> None"
  shows "\<exists>status finished. status = (if (\<exists>reason. rc = Some (UserInterrupted reason)) \<or> err_is_context err then RunCancelled else RunFailed) \<and>
    gm_get (st_runs (rt_Store (finish_from_error env rc run err s))) (ru_ID run) =
      Some (stored\<lparr>ru_Status := status, ru_FinishedAt := Some finished\<rparr>) \<and>
    told_in_log run status (rt_Store (finish_from_error env rc run err s)) \<and>
    (\<forall>other. other \<noteq> ru_ID run \<longrightarrow>
      gm_get (st_runs (rt_Store (finish_from_error env rc run err s))) other = gm_get (st_runs (rt_Store s)) other)"
proof -
  have fin: "\<exists>finished. gm_get (st_runs (rt_Store (finish_run env None run status reason kind s))) (ru_ID run) =
        Some (stored\<lparr>ru_Status := status, ru_FinishedAt := Some finished\<rparr>) \<and>
      told_in_log run status (rt_Store (finish_run env None run status reason kind s)) \<and>
      (\<forall>other. other \<noteq> ru_ID run \<longrightarrow>
        gm_get (st_runs (rt_Store (finish_run env None run status reason kind s))) other = gm_get (st_runs (rt_Store s)) other)"
    if "is_terminal status" for status reason kind
  proof -
    obtain r s' where t: "transition env None run status reason kind s = (r, s')" by fastforce
    have "rt_Store (tell_after_run env run status s') = rt_Store s'" by (simp add: tell_after_run_def)
    with transition_told [OF assms t] t that show ?thesis by (auto simp: finish_run_def)
  qed
  consider (user) reason where "rc = Some (UserInterrupted reason)"
    | (ctx) "\<nexists>reason. rc = Some (UserInterrupted reason)" "err_is_context err"
    | (other) "\<nexists>reason. rc = Some (UserInterrupted reason)" "\<not> err_is_context err" by blast
  then show ?thesis
  proof cases
    case user
    then show ?thesis using fin [of RunCancelled "cause_text (UserInterrupted reason)" "''''"]
      by (simp add: finish_from_error_def)
  next
    case ctx
    then have "finish_from_error env rc run err = finish_run env None run RunCancelled (err_text env err) ''''"
      by (auto simp: finish_from_error_def split: option.splits CancelCause.splits)
    then show ?thesis using ctx fin [of RunCancelled "err_text env err" "''''"] by simp
  next
    case other
    then have "finish_from_error env rc run err = finish_run env None run RunFailed (err_text env err) (classify_failure err)"
      by (auto simp: finish_from_error_def split: option.splits CancelCause.splits)
    then show ?thesis using other fin [of RunFailed "err_text env err" "classify_failure err"] by simp
  qed
qed


subsection \<open>Admission and recovery\<close>

text \<open>What the writes of recovery keep: the table's keys, and a session for every run.\<close>

definition runs_housed :: "Store \<Rightarrow> bool" where
  "runs_housed t \<longleftrightarrow> runs_wf t \<and> (\<forall>rid run. gm_get (st_runs t) rid = Some run \<longrightarrow> gm_get (st_sessions t) (ru_SessionID run) \<noteq> None)"

lemma runs_housed_get: "runs_housed t \<Longrightarrow> gm_get (st_runs t) rid = Some run \<Longrightarrow> ru_ID run = rid"
  by (auto simp: runs_housed_def runs_wf_def dest: gm_keyed_get)

lemma runs_housed_upd:
  assumes "runs_housed s" "gm_get (st_runs s) (ru_ID run) = Some stored"
    and "appended sid rid kind p (s\<lparr>st_runs := gm_set (st_runs s) (ru_ID run) (stored\<lparr>ru_Status := status, ru_FinishedAt := f\<rparr>)\<rparr>) t"
  shows "runs_housed t"
proof -
  note a = appended_frame [OF assms(3)]
  have "runs_wf t" using assms(1,2) gm_keyed_update [of ru_ID "st_runs s" "ru_ID run" stored]
    by (simp add: runs_housed_def runs_wf_def a(1))
  then show ?thesis using assms(1,2) by (auto simp: runs_housed_def a(1,2))
qed

lemma told_in_log_later:
  assumes "told_in_log run status s" "appended sid rid kind p s t" "rid \<noteq> ru_ID run"
  shows "told_in_log run status t"
  using assms(1,3) appended_frame(7,8) [OF assms(2)]
  by (cases "ru_SessionID run = sid") (auto simp: told_in_log_def last_state_append)

lemma told_in_log_runs [simp]: "told_in_log run status (s\<lparr>st_runs := m\<rparr>) = told_in_log run status s"
  by (simp add: told_in_log_def)

lemma active_mark_admitted [simp]: "tn_active (mark_admitted k tn) = tn_active tn"
  by (simp add: mark_admitted_def Let_def)

lemma active_admit [simp]: "gm_get (tn_active (admit rid sid tn)) x = (if x = rid then Some (tn_fresh tn) else gm_get (tn_active tn) x)"
  by (simp add: admit_def Let_def track_def launch_def)

lemma rt_admit_ok:
  assumes "runs_housed (rt_Store s)" "gm_get (st_runs (rt_Store s)) (ru_ID run) = Some run" "ru_Status run = RunQueued"
  shows "\<exists>s'. rt_admit env None run s = (Inr (), s') \<and> runs_housed (rt_Store s') \<and>
    (\<forall>x. gm_get (st_runs (rt_Store s')) x = gm_get (st_runs (rt_Store s)) x) \<and>
    (\<forall>x. gm_get (tn_active (rt_Turns s')) x = (if x = ru_ID run then Some (tn_fresh (rt_Turns s)) else gm_get (tn_active (rt_Turns s)) x))"
proof (cases "ru_SessionID run \<in> tn_busy (rt_Turns s)")
  case False
  then show ?thesis using assms(1) by (simp add: rt_admit_def Let_def)
next
  case True
  let ?s = "s\<lparr>rt_Turns := admit (ru_ID run) (ru_SessionID run) (rt_Turns s)\<rparr>"
  have sess: "gm_get (st_sessions (rt_Store ?s)) (ru_SessionID run) \<noteq> None" using assms(1,2) by (auto simp: runs_housed_def)
  have stored: "gm_get (st_runs (rt_Store ?s)) (ru_ID run) = Some run" using assms(2) by simp
  obtain s1 finished where t: "transition env None run RunQueued '''' '''' ?s = (Inr (), s1)" "finished = ru_FinishedAt run"
    "rt_Turns s1 = rt_Turns ?s"
    and a: "appended (ru_SessionID run) (ru_ID run) EventRunStateChanged
      (PRunStateChanged \<lparr>rs_Status = RunQueued, rs_Reason = '''', rs_FailureKind = ''''\<rparr>)
      (rt_Store ?s\<lparr>st_runs := gm_set (st_runs (rt_Store ?s)) (ru_ID run) (run\<lparr>ru_Status := RunQueued, ru_FinishedAt := finished\<rparr>)\<rparr>)
      (rt_Store s1)"
    using transition_ok [OF stored sess, of env RunQueued "''''" "''''"] by auto
  have "runs_housed (rt_Store s1)" by (rule runs_housed_upd [OF _ stored a]) (use assms(1) in simp)
  moreover have "gm_get (st_runs (rt_Store s1)) x = gm_get (st_runs (rt_Store s)) x" for x
    using assms(2,3) t(2) by (simp add: appended_frame(1) [OF a])
  ultimately show ?thesis using True t by (simp add: rt_admit_def Let_def)
qed

lemma requeue_ok:
  assumes "runs_housed (rt_Store s)" "\<forall>run \<in> set runs. gm_get (st_runs (rt_Store s)) (ru_ID run) = Some run \<and> ru_Status run = RunQueued"
  shows "\<exists>s'. requeue env None runs s = (Inr (), s') \<and> runs_housed (rt_Store s') \<and>
    (\<forall>x. gm_get (st_runs (rt_Store s')) x = gm_get (st_runs (rt_Store s)) x) \<and>
    (\<forall>x. x \<in> ru_ID ` set runs \<or> gm_get (tn_active (rt_Turns s)) x \<noteq> None \<longrightarrow> gm_get (tn_active (rt_Turns s')) x \<noteq> None)"
  using assms
proof (induction runs arbitrary: s)
  case (Cons run runs)
  obtain s1 where s1: "rt_admit env None run s = (Inr (), s1)" "runs_housed (rt_Store s1)"
    "\<forall>x. gm_get (st_runs (rt_Store s1)) x = gm_get (st_runs (rt_Store s)) x"
    "\<forall>x. gm_get (tn_active (rt_Turns s1)) x = (if x = ru_ID run then Some (tn_fresh (rt_Turns s)) else gm_get (tn_active (rt_Turns s)) x)"
    using rt_admit_ok [of s run env] Cons.prems by auto
  with Cons.IH [of s1] Cons.prems obtain s2 where "requeue env None runs s1 = (Inr (), s2)" "runs_housed (rt_Store s2)"
    "\<forall>x. gm_get (st_runs (rt_Store s2)) x = gm_get (st_runs (rt_Store s1)) x"
    "\<forall>x. x \<in> ru_ID ` set runs \<or> gm_get (tn_active (rt_Turns s1)) x \<noteq> None \<longrightarrow> gm_get (tn_active (rt_Turns s2)) x \<noteq> None"
    by auto
  with s1 show ?case by (intro exI [of _ s2]) (auto simp: rbind_def)
qed (auto simp: ok_def)

lemma fail_orphans_ok:
  assumes "runs_housed (rt_Store s)" "distinct (map ru_ID runs)"
    and "\<forall>run \<in> set runs. gm_get (st_runs (rt_Store s)) (ru_ID run) = Some run"
  shows "\<exists>s'. fail_orphans env None runs s = (Inr (), s') \<and> runs_housed (rt_Store s') \<and> rt_Turns s' = rt_Turns s \<and>
    (\<forall>x. x \<notin> ru_ID ` set runs \<longrightarrow> gm_get (st_runs (rt_Store s')) x = gm_get (st_runs (rt_Store s)) x) \<and>
    (\<forall>run \<in> set runs. (\<exists>at. gm_get (st_runs (rt_Store s')) (ru_ID run) = Some (run\<lparr>ru_Status := RunFailed, ru_FinishedAt := Some at\<rparr>)) \<and>
      told_in_log run RunFailed (rt_Store s')) \<and>
    (\<forall>run status. ru_ID run \<notin> ru_ID ` set runs \<longrightarrow> told_in_log run status (rt_Store s) \<longrightarrow> told_in_log run status (rt_Store s'))"
  using assms
proof (induction runs arbitrary: s)
  case (Cons run runs)
  define at where "at = rv_Now env (rt_Tick s)"
  let ?failed = "run\<lparr>ru_Status := RunFailed, ru_FinishedAt := Some at\<rparr>"
  let ?p = "PRunStateChanged \<lparr>rs_Status = RunFailed, rs_Reason = orphan_reason, rs_FailureKind = ''''\<rparr>"
  define s1 where "s1 = s\<lparr>rt_Tick := Suc (rt_Tick s), rt_Store := rt_Store s\<lparr>st_runs := gm_set (st_runs (rt_Store s)) (ru_ID run) ?failed\<rparr>\<rparr>"
  have stored: "gm_get (st_runs (rt_Store s)) (ru_ID run) = Some run" using Cons.prems(3) by simp
  then have "gm_get (st_sessions (rt_Store s1)) (ru_SessionID run) \<noteq> None"
    using Cons.prems(1) by (auto simp: runs_housed_def s1_def)
  from rt_append_ok [OF this, of env "ru_ID run" EventRunStateChanged ?p]
  obtain s2 where s2: "rt_append env None (ru_SessionID run) (ru_ID run) EventRunStateChanged ?p s1 = (Inr (), s2)"
    and a: "appended (ru_SessionID run) (ru_ID run) EventRunStateChanged ?p (rt_Store s1) (rt_Store s2)"
    and "rt_Turns s2 = rt_Turns s1" by blast
  have step: "fail_orphans env None (run # runs) s = fail_orphans env None runs s2"
    using stored s2 by (simp add: rbind_def now_def st_write_def update_run_def s1_def at_def)
  have housed: "runs_housed (rt_Store s2)"
    by (rule runs_housed_upd [OF Cons.prems(1) stored, where status = RunFailed and f = "Some at"]) (use a in \<open>simp add: s1_def\<close>)
  have runs: "gm_get (st_runs (rt_Store s2)) x = (if x = ru_ID run then Some ?failed else gm_get (st_runs (rt_Store s)) x)" for x
    by (simp add: appended_frame(1) [OF a] s1_def)
  have told: "told_in_log run RunFailed (rt_Store s2)"
    using appended_frame(7) [OF a] by (auto simp: told_in_log_def last_state_append)
  have stored': "\<forall>r \<in> set runs. gm_get (st_runs (rt_Store s2)) (ru_ID r) = Some r"
  proof
    fix r
    assume r: "r \<in> set runs"
    then have "ru_ID r \<noteq> ru_ID run" using Cons.prems(2) by (metis distinct.simps(2) imageI list.set_map list.simps(9))
    then show "gm_get (st_runs (rt_Store s2)) (ru_ID r) = Some r" using Cons.prems(3) r by (simp add: runs)
  qed
  have "distinct (map ru_ID runs)" using Cons.prems(2) by simp
  from Cons.IH [OF housed this stored'] obtain s3 where s3: "fail_orphans env None runs s2 = (Inr (), s3)" "runs_housed (rt_Store s3)"
    "rt_Turns s3 = rt_Turns s2" "\<forall>x. x \<notin> ru_ID ` set runs \<longrightarrow> gm_get (st_runs (rt_Store s3)) x = gm_get (st_runs (rt_Store s2)) x"
    "\<forall>r \<in> set runs. (\<exists>at. gm_get (st_runs (rt_Store s3)) (ru_ID r) = Some (r\<lparr>ru_Status := RunFailed, ru_FinishedAt := Some at\<rparr>)) \<and>
      told_in_log r RunFailed (rt_Store s3)"
    "\<forall>r status. ru_ID r \<notin> ru_ID ` set runs \<longrightarrow> told_in_log r status (rt_Store s2) \<longrightarrow> told_in_log r status (rt_Store s3)"
    by blast
  have later: "told_in_log r status (rt_Store s2)" if "ru_ID r \<noteq> ru_ID run" "told_in_log r status (rt_Store s)" for r status
    by (rule told_in_log_later [OF _ a]) (use that in \<open>simp_all add: s1_def\<close>)
  have new: "ru_ID run \<notin> ru_ID ` set runs" using Cons.prems(2) by simp
  have one: "gm_get (st_runs (rt_Store s3)) (ru_ID run) = Some ?failed" "told_in_log run RunFailed (rt_Store s3)"
    using s3(4,6) new runs told by auto
  show ?case
  proof (intro exI [of _ s3] conjI ballI allI impI)
    show "fail_orphans env None (run # runs) s = (Inr (), s3)" using step s3(1) by simp
    show "rt_Turns s3 = rt_Turns s" using s3(3) \<open>rt_Turns s2 = rt_Turns s1\<close> by (simp add: s1_def)
    show "gm_get (st_runs (rt_Store s3)) x = gm_get (st_runs (rt_Store s)) x" if "x \<notin> ru_ID ` set (run # runs)" for x
      using that s3(4) runs by auto
    show "\<exists>at. gm_get (st_runs (rt_Store s3)) (ru_ID r) = Some (r\<lparr>ru_Status := RunFailed, ru_FinishedAt := Some at\<rparr>)"
      "told_in_log r RunFailed (rt_Store s3)" if "r \<in> set (run # runs)" for r
      using that one s3(5) by auto
    show "told_in_log r status (rt_Store s3)" if "ru_ID r \<notin> ru_ID ` set (run # runs)" "told_in_log r status (rt_Store s)" for r status
      using that later s3(6) by auto
  qed (rule s3(2))
qed (auto simp: ok_def)


definition orphaned :: "Run \<Rightarrow> bool" where
  "orphaned run \<longleftrightarrow> \<not> is_terminal (ru_Status run) \<and> \<not> is_durably_paused (ru_Status run) \<and> ru_Status run \<noteq> RunQueued"

lemma housed_vals: "runs_housed t \<Longrightarrow> run \<in> set (gm_vals (st_runs t)) \<longleftrightarrow> gm_get (st_runs t) (ru_ID run) = Some run"
  by (simp add: runs_housed_def runs_wf_def gm_keyed_vals)

lemma unfinished_none: "\<exists>us. unfinished_runs None t = Inr us \<and> mset us = mset (filter (\<lambda>r. \<not> is_terminal (ru_Status r)) (gm_vals (st_runs t)))"
  by (simp add: unfinished_runs_def filter_runs_def)

lemma orphans_counted:
  assumes "mset us = mset (filter (\<lambda>r. \<not> is_terminal (ru_Status r)) runs)"
  shows "length (filter (\<lambda>r. \<not> is_durably_paused (ru_Status r) \<and> ru_Status r \<noteq> RunQueued) us) = length (filter orphaned runs)"
proof -
  have "filter_mset (\<lambda>r. \<not> is_durably_paused (ru_Status r) \<and> ru_Status r \<noteq> RunQueued) (mset us) = filter_mset orphaned (mset runs)"
    by (simp add: assms filter_filter_mset) (rule filter_mset_cong; auto simp: orphaned_def)
  then show ?thesis by (metis mset_filter size_mset)
qed

text \<open>What one recovery does.\<close>

lemma recover_once:
  assumes housed: "runs_housed (rt_Store s)"
  shows "\<exists>n s'. recover_orphaned_runs env None s = (Inr n, s') \<and> runs_housed (rt_Store s') \<and>
    n = length (filter orphaned (gm_vals (st_runs (rt_Store s)))) \<and>
    (\<forall>rid. gm_get (st_runs (rt_Store s)) rid = None \<longrightarrow> gm_get (st_runs (rt_Store s')) rid = None) \<and>
    (\<forall>rid run. gm_get (st_runs (rt_Store s)) rid = Some run \<longrightarrow>
      (if orphaned run
       then (\<exists>at. gm_get (st_runs (rt_Store s')) rid = Some (run\<lparr>ru_Status := RunFailed, ru_FinishedAt := Some at\<rparr>)) \<and>
         told_in_log run RunFailed (rt_Store s')
       else gm_get (st_runs (rt_Store s')) rid = Some run) \<and>
      (ru_Status run = RunQueued \<longrightarrow> gm_get (tn_active (rt_Turns s')) rid \<noteq> None))"
proof -
  obtain us where us: "unfinished_runs None (rt_Store s) = Inr us"
    "mset us = mset (filter (\<lambda>r. \<not> is_terminal (ru_Status r)) (gm_vals (st_runs (rt_Store s))))"
    using unfinished_none by blast
  define live waiting orphans where "live = filter (\<lambda>r. \<not> is_durably_paused (ru_Status r)) us"
    and "waiting = sort_slice created_before (filter (\<lambda>r. ru_Status r = RunQueued) live)"
    and "orphans = filter (\<lambda>r. ru_Status r \<noteq> RunQueued) live"
  note defs = live_def waiting_def orphans_def
  have members: "run \<in> set us \<longleftrightarrow> gm_get (st_runs (rt_Store s)) (ru_ID run) = Some run \<and> \<not> is_terminal (ru_Status run)" for run
    using arg_cong [OF us(2), of set_mset] housed_vals [OF housed] by auto
  have keys: "distinct (map ru_ID (gm_vals (st_runs (rt_Store s))))"
    using housed by (simp add: runs_housed_def runs_wf_def gm_keyed_distinct)
  have "distinct (map ru_ID us)"
    using distinct_map_filter [OF keys] us(2) by (metis mset_eq_imp_distinct_iff mset_map)
  then have ids: "distinct (map ru_ID orphans)" by (simp add: defs distinct_map_filter)
  have waits: "\<forall>run \<in> set waiting. gm_get (st_runs (rt_Store s)) (ru_ID run) = Some run \<and> ru_Status run = RunQueued"
    by (auto simp: defs members)
  obtain s1 where s1: "requeue env None waiting s = (Inr (), s1)" "runs_housed (rt_Store s1)"
    "\<forall>x. gm_get (st_runs (rt_Store s1)) x = gm_get (st_runs (rt_Store s)) x"
    "\<forall>x. x \<in> ru_ID ` set waiting \<or> gm_get (tn_active (rt_Turns s)) x \<noteq> None \<longrightarrow> gm_get (tn_active (rt_Turns s1)) x \<noteq> None"
    using requeue_ok [OF housed waits] by blast
  have "\<forall>run \<in> set orphans. gm_get (st_runs (rt_Store s1)) (ru_ID run) = Some run"
    using s1(3) by (auto simp: defs members)
  from fail_orphans_ok [OF s1(2) ids this] obtain s2 where s2: "fail_orphans env None orphans s1 = (Inr (), s2)"
    "runs_housed (rt_Store s2)" "rt_Turns s2 = rt_Turns s1"
    "\<forall>x. x \<notin> ru_ID ` set orphans \<longrightarrow> gm_get (st_runs (rt_Store s2)) x = gm_get (st_runs (rt_Store s1)) x"
    "\<forall>run \<in> set orphans. (\<exists>at. gm_get (st_runs (rt_Store s2)) (ru_ID run) = Some (run\<lparr>ru_Status := RunFailed, ru_FinishedAt := Some at\<rparr>)) \<and>
      told_in_log run RunFailed (rt_Store s2)" by blast
  have orphans: "run \<in> set orphans \<longleftrightarrow> gm_get (st_runs (rt_Store s)) (ru_ID run) = Some run \<and> orphaned run" for run
    by (auto simp: defs members orphaned_def)
  have "length orphans = length (filter orphaned (gm_vals (st_runs (rt_Store s))))"
    by (simp add: defs orphans_counted [OF us(2)])
  moreover have "recover_orphaned_runs env None s = (Inr (length orphans), s2)"
    using us(1) s1(1) s2(1) by (simp add: recover_orphaned_runs_def rbind_def st_read_def Let_def ok_def defs)
  moreover have "(if orphaned run
     then (\<exists>at. gm_get (st_runs (rt_Store s2)) rid = Some (run\<lparr>ru_Status := RunFailed, ru_FinishedAt := Some at\<rparr>)) \<and>
       told_in_log run RunFailed (rt_Store s2)
     else gm_get (st_runs (rt_Store s2)) rid = Some run) \<and>
    (ru_Status run = RunQueued \<longrightarrow> gm_get (tn_active (rt_Turns s2)) rid \<noteq> None)"
    if run: "gm_get (st_runs (rt_Store s)) rid = Some run" for rid run
  proof -
    have rid: "ru_ID run = rid" using runs_housed_get [OF housed run] .
    have "ru_Status run = RunQueued \<Longrightarrow> rid \<in> ru_ID ` set waiting"
      using run rid by (auto simp: defs members is_durably_paused_def intro!: rev_image_eqI)
    then have q: "ru_Status run = RunQueued \<longrightarrow> gm_get (tn_active (rt_Turns s2)) rid \<noteq> None"
      using s1(4) s2(3) by simp
    show ?thesis
    proof (cases "orphaned run")
      case True
      then have "run \<in> set orphans" using orphans run rid by simp
      then show ?thesis using True q s2(5) rid by auto
    next
      case False
      have "rid \<notin> ru_ID ` set orphans"
      proof
        assume "rid \<in> ru_ID ` set orphans"
        then obtain other where "other \<in> set orphans" "ru_ID other = rid" by auto
        then show False using orphans run False by auto
      qed
      then show ?thesis using False q s2(4) s1(3) run by simp
    qed
  qed
  moreover have "gm_get (st_runs (rt_Store s2)) rid = None" if "gm_get (st_runs (rt_Store s)) rid = None" for rid
  proof -
    have "rid \<notin> ru_ID ` set orphans" using that orphans by auto
    then show ?thesis using s2(4) s1(3) that by simp
  qed
  ultimately show ?thesis using s2(2) by (intro exI [of _ "length orphans"] exI [of _ s2]) simp
qed



lemma line_run_mark_admitted: "map qr_run (line_of (mark_admitted k tn) s) = map qr_run (line_of tn s)"
  by (simp add: line_mark_admitted)

lemma line_admit_wait:
  "sid \<in> tn_busy tn \<Longrightarrow> map qr_run (line_of (admit rid sid tn) sid) = map qr_run (line_of tn sid) @ [rid]"
  by (simp add: admit_def Let_def frame_simps line_of_def)

lemma going_admit_go: "sid \<notin> tn_busy tn \<Longrightarrow> map qr_run (tn_going (admit rid sid tn)) = map qr_run (tn_going tn) @ [rid]"
  by (simp add: admit_def Let_def launch_def frame_simps)

text \<open>The message of a turn and the run it becomes.\<close>

definition turn_run :: "RunID \<Rightarrow> SessionID \<Rightarrow> Turn \<Rightarrow> instant \<Rightarrow> Run" where
  "turn_run rid sid turn at = \<lparr>ru_ID = rid, ru_SessionID = sid, ru_Status = RunQueued, ru_Origin = tu_Origin turn,
     ru_DeliveryTargets = tu_Targets turn, ru_CreatedAt = at, ru_FinishedAt = None, ru_Kind = RunConversation, ru_ParentRunID = ''''\<rparr>"

definition turn_message :: "MessageID \<Rightarrow> Turn \<Rightarrow> EventPayload" where
  "turn_message mid turn = PUserMessageAdded \<lparr>um_MessageID = mid, um_Text = tu_Text turn, um_Trust = trust_for_origin (tu_Origin turn),
     um_Origin = tu_Origin turn, um_Attachments = tu_Attachments turn\<rparr>"

lemma send_turn_parts:
  assumes "send_turn_to env None sid turn s = (Inr (rid, mid), s')"
  shows "\<exists>at (s1 :: Rt) s2. gm_get (st_sessions (rt_Store s)) sid \<noteq> None \<and> gm_get (st_runs (rt_Store s)) rid = None \<and>
    rt_Store s1 = rt_Store s\<lparr>st_runs := gm_set (st_runs (rt_Store s)) rid (turn_run rid sid turn at)\<rparr> \<and> rt_Turns s1 = rt_Turns s \<and>
    appended sid rid EventUserMessageAdded (turn_message mid turn) (rt_Store s1) (rt_Store s2) \<and> rt_Turns s2 = rt_Turns s \<and>
    rt_admit env None (turn_run rid sid turn at) s2 = (Inr (), s')"
proof -
  define s0 at where "s0 = s\<lparr>rt_Tick := Suc (Suc (Suc (rt_Tick s)))\<rparr>" and "at = rv_Now env (Suc (Suc (rt_Tick s)))"
  let ?run = "turn_run rid sid turn at"
  define s1 where "s1 = s0\<lparr>rt_Store := rt_Store s\<lparr>st_runs := gm_set (st_runs (rt_Store s)) rid ?run\<rparr>\<rparr>"
  have sess: "gm_get (st_sessions (rt_Store s)) sid \<noteq> None"
    using assms by (auto simp: send_turn_to_def rbind_def st_read_def get_session_def split: if_splits option.splits)
  have ids: "rid = rv_NewID env (rt_Tick s)" "mid = rv_NewID env (Suc (rt_Tick s))"
    using assms
    by (auto simp: send_turn_to_def rbind_def st_read_def st_write_def new_id_def now_def ok_def Let_def
        split: if_splits sum.splits prod.splits)
  have fresh: "gm_get (st_runs (rt_Store s)) rid = None"
    using assms sess ids
    by (auto simp: send_turn_to_def rbind_def st_read_def st_write_def get_session_def create_run_def new_id_def now_def Let_def
        split: if_splits option.splits)
  have "gm_get (st_sessions (rt_Store s1)) sid \<noteq> None" using sess by (simp add: s1_def)
  from rt_append_ok [OF this, of env rid EventUserMessageAdded "turn_message mid turn"] obtain s2 where
    s2: "rt_append env None sid rid EventUserMessageAdded (turn_message mid turn) s1 = (Inr (), s2)"
    "appended sid rid EventUserMessageAdded (turn_message mid turn) (rt_Store s1) (rt_Store s2)" "rt_Turns s2 = rt_Turns s1" by blast
  have "send_turn_to env None sid turn s = rbind (rt_admit env None ?run) (\<lambda>_. ok (rid, mid)) s2"
  proof -
    obtain session where "gm_get (st_sessions (rt_Store s)) sid = Some session" using sess by auto
    then show ?thesis
      using assms s2(1) fresh ids
      by (auto simp: send_turn_to_def rbind_def st_read_def st_write_def get_session_def create_run_def new_id_def now_def Let_def
          s1_def s0_def at_def turn_run_def turn_message_def split: if_splits)
  qed
  with assms have "rt_admit env None ?run s2 = (Inr (), s')"
    by (auto simp: rbind_def ok_def split: sum.splits prod.splits)
  moreover have "rt_Store s1 = rt_Store s\<lparr>st_runs := gm_set (st_runs (rt_Store s)) rid ?run\<rparr>" "rt_Turns s1 = rt_Turns s"
    by (simp_all add: s1_def s0_def)
  ultimately show ?thesis
    using sess fresh s2 by - (rule exI [of _ at], rule exI [of _ s1], rule exI [of _ s2], simp)
qed

text \<open>A message that is accepted is never forgotten: the run made for it is stored as queued under
  the sender's origin and targets, its text is in the session's log with the trust its origin
  deserves, and the run is tracked: it goes at once when its session is idle, and otherwise is last
  in the session's line, with the log saying that it waits.\<close>

theorem accepted_turn_is_tracked:
  assumes "send_turn_to env None sid turn s = (Inr (rid, mid), s')"
  shows "\<exists>at msg more. gm_get (st_runs (rt_Store s')) rid = Some (turn_run rid sid turn at) \<and>
    gm_list (st_events (rt_Store s')) sid = gm_list (st_events (rt_Store s)) sid @ msg # more \<and>
    ev_RunID msg = rid \<and> ev_Payload msg = turn_message mid turn \<and>
    gm_get (tn_active (rt_Turns s')) rid = Some (tn_fresh (rt_Turns s)) \<and>
    (if sid \<in> tn_busy (rt_Turns s)
     then map qr_run (line_of (rt_Turns s') sid) = map qr_run (line_of (rt_Turns s) sid) @ [rid] \<and>
       told_in_log (turn_run rid sid turn at) RunQueued (rt_Store s')
     else map qr_run (tn_going (rt_Turns s')) = map qr_run (tn_going (rt_Turns s)) @ [rid] \<and> more = [])"
proof -
  obtain at and s1 :: Rt and s2 where p: "gm_get (st_sessions (rt_Store s)) sid \<noteq> None"
    "rt_Store s1 = rt_Store s\<lparr>st_runs := gm_set (st_runs (rt_Store s)) rid (turn_run rid sid turn at)\<rparr>"
    "rt_Turns s2 = rt_Turns s" "rt_admit env None (turn_run rid sid turn at) s2 = (Inr (), s')"
    and a: "appended sid rid EventUserMessageAdded (turn_message mid turn) (rt_Store s1) (rt_Store s2)"
    using send_turn_parts [OF assms] by blast
  let ?run = "turn_run rid sid turn at"
  have run: "ru_ID ?run = rid" "ru_SessionID ?run = sid" "ru_Status ?run = RunQueued" "ru_FinishedAt ?run = None"
    by (simp_all add: turn_run_def)
  note f = appended_frame [OF a]
  obtain msg where msg: "gm_list (st_events (rt_Store s2)) sid = gm_list (st_events (rt_Store s)) sid @ [msg]"
    "ev_RunID msg = rid" "ev_Payload msg = turn_message mid turn" using f(7) p(2) by auto
  have stored: "gm_get (st_runs (rt_Store s2)) rid = Some ?run" using f(1) p(2) by simp
  show ?thesis
  proof (cases "sid \<in> tn_busy (rt_Turns s)")
    case False
    then have "s' = s2\<lparr>rt_Turns := admit rid sid (rt_Turns s2)\<rparr>" using p(3,4) run by (simp add: rt_admit_def Let_def)
    with False stored msg p(3) show ?thesis
      by - (rule exI [of _ at], rule exI [of _ msg], rule exI [of _ "[]"], simp add: going_admit_go)
  next
    case True
    let ?s = "s2\<lparr>rt_Turns := admit rid sid (rt_Turns s2)\<rparr>"
    have sess: "gm_get (st_sessions (rt_Store ?s)) (ru_SessionID ?run) \<noteq> None"
      "gm_get (st_runs (rt_Store ?s)) (ru_ID ?run) = Some ?run" using p(1,2) f(2) stored run by simp_all
    obtain r s3 where t: "transition env None ?run RunQueued '''' '''' ?s = (r, s3)" by fastforce
    note told = transition_told [OF sess(2,1) t]
    have "s' = s3\<lparr>rt_Turns := mark_admitted (tn_fresh (rt_Turns s2)) (rt_Turns s3)\<rparr>"
      using p(3,4) t told True run by (auto simp: rt_admit_def Let_def)
    moreover obtain more where "gm_list (st_events (rt_Store s3)) sid = gm_list (st_events (rt_Store s2)) sid @ more"
    proof -
      obtain s4 finished where "transition env None ?run RunQueued '''' '''' ?s = (Inr (), s4)"
        and a': "appended (ru_SessionID ?run) (ru_ID ?run) EventRunStateChanged
          (PRunStateChanged \<lparr>rs_Status = RunQueued, rs_Reason = '''', rs_FailureKind = ''''\<rparr>)
          (rt_Store ?s\<lparr>st_runs := gm_set (st_runs (rt_Store ?s)) (ru_ID ?run) (?run\<lparr>ru_Status := RunQueued, ru_FinishedAt := finished\<rparr>)\<rparr>)
          (rt_Store s4)"
        using transition_ok [OF sess(2,1), of env RunQueued "''''" "''''"] by blast
      with t that appended_frame(7) [OF a'] run show thesis by auto
    qed
    moreover have "gm_get (st_runs (rt_Store s3)) rid = Some ?run"
      using told run by (auto simp: turn_run_def)
    ultimately show ?thesis
      using True told run msg p(3) line_admit_wait [OF True, of rid]
      by (auto simp: line_run_mark_admitted told_in_log_def intro!: exI [of _ at])
  qed
qed


subsection \<open>At concrete inputs\<close>

definition plain_rt_env :: RtEnv where
  "plain_rt_env = \<lparr>rv_Now = int, rv_NewID = (\<lambda>n. itoa (int n)), rv_Delivery = False, rv_AfterRun = False, rv_Duration = (\<lambda>_. ''0s'')\<rparr>"

definition restarted :: Rt where
  "restarted = new_rt (new_store\<lparr>st_sessions := [(''s'', sample_session ''s'' 1)],
     st_runs := [(''r1'', sample_run ''r1'' ''s'' RunRunning), (''r2'', sample_run ''r2'' ''s'' RunQueued),
       (''r3'', sample_run ''r3'' ''s'' RunAwaitingApproval)]\<rparr>)"

lemma restarted_housed: "runs_housed (rt_Store restarted)"
  by (simp add: runs_housed_def runs_wf_def gm_keyed_def gm_wf_def restarted_def new_rt_def new_store_def gm_get_def sample_run_def)

theorem ended_run_leaves_a_record_witness:
  "\<exists>finished. gm_get (st_runs (rt_Store (finish_from_error plain_rt_env (Some (UserInterrupted ''stop'')) (sample_run ''r1'' ''s'' RunRunning)
      (ErrContext Canceled) restarted))) ''r1'' = Some (sample_run ''r1'' ''s'' RunRunning\<lparr>ru_Status := RunCancelled, ru_FinishedAt := Some finished\<rparr>)"
proof -
  have r: "gm_get (st_runs (rt_Store restarted)) (ru_ID (sample_run ''r1'' ''s'' RunRunning)) = Some (sample_run ''r1'' ''s'' RunRunning)"
    "gm_get (st_sessions (rt_Store restarted)) (ru_SessionID (sample_run ''r1'' ''s'' RunRunning)) \<noteq> None"
    by (simp_all add: restarted_def new_rt_def new_store_def gm_get_def sample_run_def)
  have "ru_ID (sample_run ''r1'' ''s'' RunRunning) = ''r1''" by (simp add: sample_run_def)
  with ended_run_leaves_a_record [OF r, of "Some (UserInterrupted ''stop'')" "ErrContext Canceled" plain_rt_env]
  show ?thesis by auto
qed


definition first_turn :: Turn where
  "first_turn = \<lparr>tu_Text = ''hello'', tu_Origin = sample_origin, tu_Targets = [], tu_Attachments = []\<rparr>"

theorem accepted_turn_is_tracked_witness:
  "\<exists>s' at. send_turn_to plain_rt_env None ''s'' first_turn restarted = (Inr (''0'', ''1''), s') \<and>
    gm_get (st_runs (rt_Store s')) ''0'' = Some (turn_run ''0'' ''s'' first_turn at) \<and>
    map qr_run (tn_going (rt_Turns s')) = [''0'']"
proof -
  have "fst (send_turn_to plain_rt_env None ''s'' first_turn restarted) = Inr (''0'', ''1'')" by code_simp
  then obtain s' where s': "send_turn_to plain_rt_env None ''s'' first_turn restarted = (Inr (''0'', ''1''), s')"
    by (metis prod.collapse)
  have "tn_busy (rt_Turns restarted) = {}" "tn_going (rt_Turns restarted) = []" by (simp_all add: restarted_def new_rt_def new_turns_def)
  with accepted_turn_is_tracked [OF s'] s' show ?thesis by auto
qed

end
