(* ===== verification/Coalescer.thy ===== *)
theory Coalescer
imports RunLog
begin

text \<open>
  Batching what a provider streams into events worth keeping (\<open>coalescer\<close> and \<open>Coalescing\<close> in
  \<open>core/internal/runtime/runtime.go\<close>). The coalescer is a pointer the code changes in place; here an
  operation returns it changed, beside its error and the new \<open>Rt\<close>. A text is a list of bytes, so its
  length is Go's \<open>len\<close>.
\<close>

subsection \<open>The coalescer\<close>

record Coalescing =
  ci_TextFlushBytes :: int
  ci_TextFlushInterval :: int
  ci_UsageFlushInterval :: int

definition default_coalescing :: Coalescing where
  "default_coalescing = \<lparr>ci_TextFlushBytes = 240, ci_TextFlushInterval = 200000000, ci_UsageFlushInterval = 2000000000\<rparr>"

definition with_defaults :: "Coalescing \<Rightarrow> Coalescing" where
  "with_defaults c =
     \<lparr>ci_TextFlushBytes = (if ci_TextFlushBytes c \<le> 0 then ci_TextFlushBytes default_coalescing else ci_TextFlushBytes c),
      ci_TextFlushInterval = (if ci_TextFlushInterval c \<le> 0 then ci_TextFlushInterval default_coalescing else ci_TextFlushInterval c),
      ci_UsageFlushInterval = (if ci_UsageFlushInterval c \<le> 0 then ci_UsageFlushInterval default_coalescing else ci_UsageFlushInterval c)\<rparr>"

record Coalescer =
  co_run :: Run
  co_messageID :: MessageID
  co_limits :: Coalescing
  co_text :: string
  co_lastTextFlush :: instant
  co_reasoning :: string
  co_lastReasoningFlush :: instant
  co_usage :: Usage
  co_usagePending :: bool
  co_lastUsageFlush :: instant

type_synonym 'a coalescing = "Coalescer \<Rightarrow> Rt \<Rightarrow> (Err + 'a) \<times> Coalescer \<times> Rt"

definition no_usage :: Usage where
  "no_usage = \<lparr>us_InputTokens = 0, us_CachedInputTokens = 0, us_OutputTokens = 0, us_ReasoningTokens = 0\<rparr>"

definition new_coalescer :: "RtEnv \<Rightarrow> Coalescing \<Rightarrow> Run \<Rightarrow> MessageID \<Rightarrow> Coalescer rt" where
  "new_coalescer env limits run mid = rbind (now env) (\<lambda>at. ok
     \<lparr>co_run = run, co_messageID = mid, co_limits = with_defaults limits, co_text = '''', co_lastTextFlush = at,
      co_reasoning = '''', co_lastReasoningFlush = at, co_usage = no_usage, co_usagePending = False, co_lastUsageFlush = at\<rparr>)"

text \<open>\<open>r.opts.Now()\<close>, whose answer never fails.\<close>

definition tick :: "Rt \<Rightarrow> Rt" where "tick s = s\<lparr>rt_Tick := Suc (rt_Tick s)\<rparr>"

definition clock :: "RtEnv \<Rightarrow> Rt \<Rightarrow> instant" where "clock env s = rv_Now env (rt_Tick s)"

definition flush_reasoning :: "RtEnv \<Rightarrow> Ctx \<Rightarrow> unit coalescing" where
  "flush_reasoning env ctx c s =
     (if co_reasoning c = '''' then (Inr (), c, s)
      else
        let text = co_reasoning c; c = c\<lparr>co_reasoning := '''', co_lastReasoningFlush := clock env s\<rparr>;
            (r, s) = rt_append env ctx (ru_SessionID (co_run c)) (ru_ID (co_run c)) EventAssistantReasoningDelta
              (PAssistantReasoningDelta \<lparr>rd_MessageID = co_messageID c, rd_Text = text\<rparr>) (tick s)
        in (r, c, s))"

definition flush_text :: "RtEnv \<Rightarrow> Ctx \<Rightarrow> unit coalescing" where
  "flush_text env ctx c s =
     (if co_text c = '''' then (Inr (), c, s)
      else
        let text = co_text c; c = c\<lparr>co_text := '''', co_lastTextFlush := clock env s\<rparr>;
            (r, s) = rt_append env ctx (ru_SessionID (co_run c)) (ru_ID (co_run c)) EventAssistantTextDelta
              (PAssistantTextDelta \<lparr>td_MessageID = co_messageID c, td_Text = text\<rparr>) (tick s)
        in (r, c, s))"

definition flush_usage :: "RtEnv \<Rightarrow> Ctx \<Rightarrow> unit coalescing" where
  "flush_usage env ctx c s =
     (if \<not> co_usagePending c then (Inr (), c, s)
      else
        let c = c\<lparr>co_usagePending := False, co_lastUsageFlush := clock env s\<rparr>;
            (r, s) = rt_append env ctx (ru_SessionID (co_run c)) (ru_ID (co_run c)) EventUsageChanged
              (PUsageChanged \<lparr>uc_Usage = co_usage c\<rparr>) (tick s)
        in (r, c, s))"

definition add_text :: "RtEnv \<Rightarrow> Ctx \<Rightarrow> string \<Rightarrow> unit coalescing" where
  "add_text env ctx text c s =
     (if text = '''' then (Inr (), c, s)
      else
        let c = c\<lparr>co_text := co_text c @ text\<rparr>; elapsed = clock env s - co_lastTextFlush c; s = tick s
        in if int (length (co_text c)) < ci_TextFlushBytes (co_limits c) \<and> elapsed < ci_TextFlushInterval (co_limits c)
           then (Inr (), c, s) else flush_text env ctx c s)"

definition add_reasoning :: "RtEnv \<Rightarrow> Ctx \<Rightarrow> string \<Rightarrow> unit coalescing" where
  "add_reasoning env ctx text c s =
     (if text = '''' then (Inr (), c, s)
      else
        let c = c\<lparr>co_reasoning := co_reasoning c @ text\<rparr>; elapsed = clock env s - co_lastReasoningFlush c; s = tick s
        in if int (length (co_reasoning c)) < ci_TextFlushBytes (co_limits c) \<and> elapsed < ci_TextFlushInterval (co_limits c)
           then (Inr (), c, s) else flush_reasoning env ctx c s)"

definition set_usage :: "RtEnv \<Rightarrow> Ctx \<Rightarrow> Usage \<Rightarrow> unit coalescing" where
  "set_usage env ctx usage c s =
     (let c = c\<lparr>co_usage := usage, co_usagePending := True\<rparr>; elapsed = clock env s - co_lastUsageFlush c; s = tick s
      in if elapsed < ci_UsageFlushInterval (co_limits c) then (Inr (), c, s) else flush_usage env ctx c s)"

definition flush :: "RtEnv \<Rightarrow> Ctx \<Rightarrow> unit coalescing" where
  "flush env ctx c s =
     (case flush_reasoning env ctx c s of
        (Inl e, c, s) \<Rightarrow> (Inl e, c, s)
      | (Inr _, c, s) \<Rightarrow>
          (case flush_text env ctx c s of
             (Inl e, c, s) \<Rightarrow> (Inl e, c, s)
           | (Inr _, c, s) \<Rightarrow> flush_usage env ctx c s))"

subsection \<open>Deltas in, events out\<close>

datatype delta = DText string | DReasoning string | DUsage Usage

fun take_delta :: "RtEnv \<Rightarrow> Ctx \<Rightarrow> delta \<Rightarrow> unit coalescing" where
  "take_delta env ctx (DText t) = add_text env ctx t"
| "take_delta env ctx (DReasoning t) = add_reasoning env ctx t"
| "take_delta env ctx (DUsage u) = set_usage env ctx u"

fun take_deltas :: "RtEnv \<Rightarrow> Ctx \<Rightarrow> delta list \<Rightarrow> unit coalescing" where
  "take_deltas env ctx [] c s = (Inr (), c, s)"
| "take_deltas env ctx (d # ds) c s =
     (case take_delta env ctx d c s of
        (Inl e, c, s) \<Rightarrow> (Inl e, c, s)
      | (Inr _, c, s) \<Rightarrow> take_deltas env ctx ds c s)"

fun delta_text :: "delta \<Rightarrow> string" where "delta_text (DText t) = t" | "delta_text _ = ''''"
fun delta_reasoning :: "delta \<Rightarrow> string" where "delta_reasoning (DReasoning t) = t" | "delta_reasoning _ = ''''"

text \<open>What the log says of one message.\<close>

definition said_in :: "MessageID \<Rightarrow> Event list \<Rightarrow> string" where
  "said_in mid es = concat (map (\<lambda>e. case ev_Payload e of PAssistantTextDelta p \<Rightarrow> if td_MessageID p = mid then td_Text p else '''' | _ \<Rightarrow> '''') es)"

definition thought_in :: "MessageID \<Rightarrow> Event list \<Rightarrow> string" where
  "thought_in mid es = concat (map (\<lambda>e. case ev_Payload e of PAssistantReasoningDelta p \<Rightarrow> if rd_MessageID p = mid then rd_Text p else '''' | _ \<Rightarrow> '''') es)"

definition used_in :: "RunID \<Rightarrow> Event list \<Rightarrow> Usage option" where
  "used_in rid es = fold (\<lambda>e acc. case ev_Payload e of PUsageChanged p \<Rightarrow> if ev_RunID e = rid then Some (uc_Usage p) else acc | _ \<Rightarrow> acc) es None"

definition events_of :: "Coalescer \<Rightarrow> Rt \<Rightarrow> Event list" where
  "events_of c s = gm_list (st_events (rt_Store s)) (ru_SessionID (co_run c))"

text \<open>The whole of a message: what is in the log and what is still buffered.\<close>

definition whole_text :: "Coalescer \<Rightarrow> Rt \<Rightarrow> string" where
  "whole_text c s = said_in (co_messageID c) (events_of c s) @ co_text c"

definition whole_reasoning :: "Coalescer \<Rightarrow> Rt \<Rightarrow> string" where
  "whole_reasoning c s = thought_in (co_messageID c) (events_of c s) @ co_reasoning c"

definition whole_usage :: "Coalescer \<Rightarrow> Rt \<Rightarrow> Usage option" where
  "whole_usage c s = (if co_usagePending c then Some (co_usage c) else used_in (ru_ID (co_run c)) (events_of c s))"

definition delta_usage :: "delta list \<Rightarrow> Usage option \<Rightarrow> Usage option" where
  "delta_usage ds u = fold (\<lambda>d acc. case d of DUsage u \<Rightarrow> Some u | _ \<Rightarrow> acc) ds u"

text \<open>The coalescer's fixed parts, and the bounds on its buffers.\<close>

definition same_message :: "Coalescer \<Rightarrow> Coalescer \<Rightarrow> bool" where
  "same_message c c' \<longleftrightarrow> co_run c' = co_run c \<and> co_messageID c' = co_messageID c \<and> co_limits c' = co_limits c"

definition buffers_bounded :: "Coalescer \<Rightarrow> bool" where
  "buffers_bounded c \<longleftrightarrow> int (length (co_text c)) < ci_TextFlushBytes (co_limits c) \<and>
     int (length (co_reasoning c)) < ci_TextFlushBytes (co_limits c)"

subsection \<open>Nothing is lost, nothing is invented\<close>

lemma said_in_append: "said_in mid (es @ [e]) = said_in mid es @
    (case ev_Payload e of PAssistantTextDelta p \<Rightarrow> if td_MessageID p = mid then td_Text p else '''' | _ \<Rightarrow> '''')"
  by (simp add: said_in_def)

lemma thought_in_append: "thought_in mid (es @ [e]) = thought_in mid es @
    (case ev_Payload e of PAssistantReasoningDelta p \<Rightarrow> if rd_MessageID p = mid then rd_Text p else '''' | _ \<Rightarrow> '''')"
  by (simp add: thought_in_def)

lemma used_in_append: "used_in rid (es @ [e]) =
    (case ev_Payload e of PUsageChanged p \<Rightarrow> if ev_RunID e = rid then Some (uc_Usage p) else used_in rid es | _ \<Rightarrow> used_in rid es)"
  by (simp add: used_in_def split: EventPayload.split)

lemmas logged_append = said_in_append thought_in_append used_in_append

definition conserves :: "Coalescer \<Rightarrow> Rt \<Rightarrow> Coalescer \<Rightarrow> Rt \<Rightarrow> delta list \<Rightarrow> bool" where
  "conserves c s c' s' ds \<longleftrightarrow> same_message c c' \<and>
     whole_text c' s' = whole_text c s @ concat (map delta_text ds) \<and>
     whole_reasoning c' s' = whole_reasoning c s @ concat (map delta_reasoning ds) \<and>
     whole_usage c' s' = delta_usage ds (whole_usage c s)"

lemma conserves_refl [simp]: "conserves c s c s []"
  by (simp add: conserves_def same_message_def delta_usage_def)

lemma conserves_trans: "conserves c s c1 s1 ds \<Longrightarrow> conserves c1 s1 c2 s2 es \<Longrightarrow> conserves c s c2 s2 (ds @ es)"
  by (auto simp: conserves_def same_message_def delta_usage_def)

lemma rt_append_events:
  assumes "rt_append env ctx sid rid kind p s = (Inr (), s')"
  shows "\<exists>e. gm_list (st_events (rt_Store s')) sid = gm_list (st_events (rt_Store s)) sid @ [e] \<and> ev_RunID e = rid \<and> ev_Payload e = p"
  using rt_append_frame [OF assms] appended_frame(7) by blast

lemma flush_text_ok:
  assumes "flush_text env ctx c s = (Inr (), c', s')"
  shows "conserves c s c' s' [] \<and> co_text c' = '''' \<and> co_reasoning c' = co_reasoning c \<and> co_usagePending c' = co_usagePending c"
proof (cases "co_text c = ''''")
  case False
  from assms False obtain s1 where "rt_append env ctx (ru_SessionID (co_run c)) (ru_ID (co_run c)) EventAssistantTextDelta
      (PAssistantTextDelta \<lparr>td_MessageID = co_messageID c, td_Text = co_text c\<rparr>) (tick s) = (Inr (), s')"
    and "c' = c\<lparr>co_text := '''', co_lastTextFlush := clock env s\<rparr>"
    by (auto simp: flush_text_def Let_def split: prod.splits)
  with rt_append_events [OF this(1)] show ?thesis
    by (auto simp: conserves_def same_message_def whole_text_def whole_reasoning_def whole_usage_def events_of_def tick_def logged_append delta_usage_def)
qed (use assms in \<open>simp add: flush_text_def\<close>)

lemma flush_reasoning_ok:
  assumes "flush_reasoning env ctx c s = (Inr (), c', s')"
  shows "conserves c s c' s' [] \<and> co_reasoning c' = '''' \<and> co_text c' = co_text c \<and> co_usagePending c' = co_usagePending c"
proof (cases "co_reasoning c = ''''")
  case False
  from assms False obtain s1 where "rt_append env ctx (ru_SessionID (co_run c)) (ru_ID (co_run c)) EventAssistantReasoningDelta
      (PAssistantReasoningDelta \<lparr>rd_MessageID = co_messageID c, rd_Text = co_reasoning c\<rparr>) (tick s) = (Inr (), s')"
    and "c' = c\<lparr>co_reasoning := '''', co_lastReasoningFlush := clock env s\<rparr>"
    by (auto simp: flush_reasoning_def Let_def split: prod.splits)
  with rt_append_events [OF this(1)] show ?thesis
    by (auto simp: conserves_def same_message_def whole_text_def whole_reasoning_def whole_usage_def events_of_def tick_def logged_append delta_usage_def)
qed (use assms in \<open>simp add: flush_reasoning_def\<close>)

lemma flush_usage_ok:
  assumes "flush_usage env ctx c s = (Inr (), c', s')"
  shows "conserves c s c' s' [] \<and> \<not> co_usagePending c' \<and> co_text c' = co_text c \<and> co_reasoning c' = co_reasoning c"
proof (cases "co_usagePending c")
  case True
  from assms True obtain s1 where "rt_append env ctx (ru_SessionID (co_run c)) (ru_ID (co_run c)) EventUsageChanged
      (PUsageChanged \<lparr>uc_Usage = co_usage c\<rparr>) (tick s) = (Inr (), s')"
    and "c' = c\<lparr>co_usagePending := False, co_lastUsageFlush := clock env s\<rparr>"
    by (auto simp: flush_usage_def Let_def split: prod.splits)
  with True rt_append_events [OF this(1)] show ?thesis
    by (auto simp: conserves_def same_message_def whole_text_def whole_reasoning_def whole_usage_def events_of_def tick_def logged_append delta_usage_def)
qed (use assms in \<open>simp add: flush_usage_def\<close>)

lemma flush_ok:
  assumes "flush env ctx c s = (Inr (), c', s')"
  shows "conserves c s c' s' [] \<and> co_text c' = '''' \<and> co_reasoning c' = '''' \<and> \<not> co_usagePending c'"
proof -
  obtain r1 c1 s1 where f1: "flush_reasoning env ctx c s = (r1, c1, s1)" by (metis prod_cases3)
  obtain r2 c2 s2 where f2: "flush_text env ctx c1 s1 = (r2, c2, s2)" by (metis prod_cases3)
  have "r1 = Inr ()" "r2 = Inr ()" "flush_usage env ctx c2 s2 = (Inr (), c', s')"
    using assms f1 f2 by (auto simp: flush_def split: sum.splits)
  then have ok: "conserves c s c1 s1 [] \<and> co_reasoning c1 = '''' \<and> co_text c1 = co_text c \<and> co_usagePending c1 = co_usagePending c"
    "conserves c1 s1 c2 s2 [] \<and> co_text c2 = '''' \<and> co_reasoning c2 = co_reasoning c1 \<and> co_usagePending c2 = co_usagePending c1"
    "conserves c2 s2 c' s' [] \<and> \<not> co_usagePending c' \<and> co_text c' = co_text c2 \<and> co_reasoning c' = co_reasoning c2"
    using flush_reasoning_ok f1 flush_text_ok f2 flush_usage_ok by metis+
  then have steps: "conserves c s c1 s1 []" "conserves c1 s1 c2 s2 []" "conserves c2 s2 c' s' []" by simp_all
  from conserves_trans [OF conserves_trans [OF steps(1,2)] steps(3)] ok show ?thesis by simp
qed

text \<open>A delta that is only buffered: the buffers hold it.\<close>

lemma buffered:
  "conserves c s (c\<lparr>co_text := co_text c @ t\<rparr>) (tick s) [DText t]"
  "conserves c s (c\<lparr>co_reasoning := co_reasoning c @ t\<rparr>) (tick s) [DReasoning t]"
  "conserves c s (c\<lparr>co_usage := u, co_usagePending := True\<rparr>) (tick s) [DUsage u]"
  by (simp_all add: conserves_def same_message_def whole_text_def whole_reasoning_def whole_usage_def events_of_def tick_def delta_usage_def)

lemma empty_delta: "conserves c s c s [DText '''']" "conserves c s c s [DReasoning '''']"
  by (simp_all add: conserves_def same_message_def delta_usage_def)

lemma take_delta_ok:
  assumes "take_delta env ctx d c s = (Inr (), c', s')"
  shows "conserves c s c' s' [d] \<and> (buffers_bounded c \<longrightarrow> 0 < ci_TextFlushBytes (co_limits c) \<longrightarrow> buffers_bounded c')"
proof (cases d)
  case (DText t)
  let ?c = "c\<lparr>co_text := co_text c @ t\<rparr>"
  have "t = '''' \<and> c' = c \<and> s' = s \<or> t \<noteq> '''' \<and> c' = ?c \<and> s' = tick s \<and> int (length (co_text ?c)) < ci_TextFlushBytes (co_limits c) \<or>
    flush_text env ctx ?c (tick s) = (Inr (), c', s')"
    using assms DText by (simp add: add_text_def Let_def not_le split: if_split_asm)
  then consider "t = ''''" "c' = c" "s' = s" | "t \<noteq> ''''" "c' = ?c" "s' = tick s" "int (length (co_text ?c)) < ci_TextFlushBytes (co_limits c)"
    | "flush_text env ctx ?c (tick s) = (Inr (), c', s')" by blast
  then show ?thesis
  proof cases
    case 3
    from flush_text_ok [OF 3] conserves_trans [OF buffered(1) [of c s t], of c' s' "[]"] show ?thesis
      by (auto simp: DText buffers_bounded_def conserves_def same_message_def)
  qed (use DText buffered(1) [of c s t] empty_delta(1) in \<open>auto simp: buffers_bounded_def\<close>)
next
  case (DReasoning t)
  let ?c = "c\<lparr>co_reasoning := co_reasoning c @ t\<rparr>"
  have "t = '''' \<and> c' = c \<and> s' = s \<or> t \<noteq> '''' \<and> c' = ?c \<and> s' = tick s \<and> int (length (co_reasoning ?c)) < ci_TextFlushBytes (co_limits c) \<or>
    flush_reasoning env ctx ?c (tick s) = (Inr (), c', s')"
    using assms DReasoning by (simp add: add_reasoning_def Let_def not_le split: if_split_asm)
  then consider "t = ''''" "c' = c" "s' = s" | "t \<noteq> ''''" "c' = ?c" "s' = tick s" "int (length (co_reasoning ?c)) < ci_TextFlushBytes (co_limits c)"
    | "flush_reasoning env ctx ?c (tick s) = (Inr (), c', s')" by blast
  then show ?thesis
  proof cases
    case 3
    from flush_reasoning_ok [OF 3] conserves_trans [OF buffered(2) [of c s t], of c' s' "[]"] show ?thesis
      by (auto simp: DReasoning buffers_bounded_def conserves_def same_message_def)
  qed (use DReasoning buffered(2) [of c s t] empty_delta(2) in \<open>auto simp: buffers_bounded_def\<close>)
next
  case (DUsage u)
  let ?c = "c\<lparr>co_usage := u, co_usagePending := True\<rparr>"
  have "c' = ?c \<and> s' = tick s \<or> flush_usage env ctx ?c (tick s) = (Inr (), c', s')"
    using assms DUsage by (simp add: set_usage_def Let_def split: if_split_asm)
  then consider "c' = ?c" "s' = tick s" | "flush_usage env ctx ?c (tick s) = (Inr (), c', s')" by blast
  then show ?thesis
  proof cases
    case 2
    from flush_usage_ok [OF 2] conserves_trans [OF buffered(3) [of c s u], of c' s' "[]"] show ?thesis
      by (auto simp: DUsage buffers_bounded_def conserves_def same_message_def)
  qed (use DUsage buffered(3) [of c s u] in \<open>auto simp: buffers_bounded_def\<close>)
qed

lemma take_deltas_ok:
  assumes "take_deltas env ctx ds c s = (Inr (), c', s')"
  shows "conserves c s c' s' ds \<and> (buffers_bounded c \<longrightarrow> 0 < ci_TextFlushBytes (co_limits c) \<longrightarrow> buffers_bounded c')"
  using assms
proof (induction ds arbitrary: c s)
  case (Cons d ds)
  obtain r c1 s1 where d: "take_delta env ctx d c s = (r, c1, s1)" by (metis prod_cases3)
  with Cons.prems have r: "r = Inr ()" "take_deltas env ctx ds c1 s1 = (Inr (), c', s')" by (auto split: sum.splits)
  from take_delta_ok [OF d [unfolded r(1)]] Cons.IH [OF r(2)] conserves_trans [of c s c1 s1 "[d]" c' s' ds]
  show ?case by (auto simp: conserves_def same_message_def)
qed simp

text \<open>C32. Batching changes when words are logged and nothing else: however a provider cuts its answer and
  its reasoning into deltas, and whatever the clock says, once the batch is flushed the text events of
  the message spell exactly the text given, the reasoning events exactly the reasoning, neither mixed
  into the other, and the last usage logged is the last one reported; until then no buffer reaches the
  size that forces a flush.\<close>

theorem coalescing_conserves_text:
  assumes "take_deltas env ctx ds c s = (Inr (), c', s')" "flush env ctx c' s' = (Inr (), c'', s'')"
    and "co_text c = ''''" "co_reasoning c = ''''" "\<not> co_usagePending c" "0 < ci_TextFlushBytes (co_limits c)"
  shows "said_in (co_messageID c) (events_of c s'') = said_in (co_messageID c) (events_of c s) @ concat (map delta_text ds) \<and>
    thought_in (co_messageID c) (events_of c s'') = thought_in (co_messageID c) (events_of c s) @ concat (map delta_reasoning ds) \<and>
    used_in (ru_ID (co_run c)) (events_of c s'') = delta_usage ds (used_in (ru_ID (co_run c)) (events_of c s)) \<and>
    buffers_bounded c'"
proof -
  have "conserves c s c'' s'' (ds @ [])"
    using take_deltas_ok [OF assms(1)] flush_ok [OF assms(2)] conserves_trans by blast
  with flush_ok [OF assms(2)] take_deltas_ok [OF assms(1)] assms(3-6) show ?thesis
    by (auto simp: conserves_def same_message_def whole_text_def whole_reasoning_def whole_usage_def events_of_def buffers_bounded_def)
qed

definition answering :: Coalescer where
  "answering = \<lparr>co_run = sample_run ''r1'' ''s'' RunRunning, co_messageID = ''m'', co_limits = default_coalescing, co_text = '''',
     co_lastTextFlush = 0, co_reasoning = '''', co_lastReasoningFlush = 0, co_usage = no_usage, co_usagePending = False, co_lastUsageFlush = 0\<rparr>"

theorem coalescing_conserves_text_witness:
  "\<exists>c' s' c'' s''. take_deltas plain_rt_env None [DReasoning ''hm'', DText ''hel'', DUsage no_usage, DText ''lo''] answering restarted = (Inr (), c', s') \<and>
     flush plain_rt_env None c' s' = (Inr (), c'', s'') \<and>
     said_in ''m'' (events_of answering s'') = ''hello'' \<and> thought_in ''m'' (events_of answering s'') = ''hm'' \<and>
     used_in ''r1'' (events_of answering s'') = Some no_usage"
proof -
  let ?ds = "[DReasoning ''hm'', DText ''hel'', DUsage no_usage, DText ''lo'']"
  define t where "t = take_deltas plain_rt_env None ?ds answering restarted"
  define f where "f = flush plain_rt_env None (fst (snd t)) (snd (snd t))"
  have "fst t = Inr ()" "fst f = Inr ()" unfolding f_def t_def by code_simp+
  then have t: "take_deltas plain_rt_env None ?ds answering restarted = (Inr (), fst (snd t), snd (snd t))"
    and f: "flush plain_rt_env None (fst (snd t)) (snd (snd t)) = (Inr (), fst (snd f), snd (snd f))"
    by (metis t_def prod.collapse) (metis f_def \<open>fst f = Inr ()\<close> prod.collapse)
  have start: "co_text answering = ''''" "co_reasoning answering = ''''" "\<not> co_usagePending answering"
    "0 < ci_TextFlushBytes (co_limits answering)" "co_messageID answering = ''m''" "ru_ID (co_run answering) = ''r1''"
    "events_of answering restarted = []"
    by (simp_all add: answering_def default_coalescing_def sample_run_def events_of_def restarted_def new_rt_def new_store_def)
  from coalescing_conserves_text [OF t f start(1-4)]
  have "said_in ''m'' (events_of answering (snd (snd f))) = ''hello'' \<and> thought_in ''m'' (events_of answering (snd (snd f))) = ''hm'' \<and>
     used_in ''r1'' (events_of answering (snd (snd f))) = Some no_usage"
    by (simp add: start said_in_def thought_in_def used_in_def delta_usage_def)
  with t f show ?thesis by blast
qed

text \<open>Interrupting a reply can lose words although \<open>abort\<close> is there to keep them: the buffer is
  emptied before the write, so when the write is the one that meets the dead context, the buffered
  words are in no buffer and in no event, and the flush of \<open>abort\<close>, whose context is alive, writes
  nothing.\<close>

theorem interrupted_flush_drops_words:
  "\<exists>e c s c' s'. add_text plain_rt_env (Some Canceled) '' world'' (answering\<lparr>co_text := ''hello'', co_lastTextFlush := - 200000000\<rparr>) restarted = (Inl e, c, s) \<and>
     flush plain_rt_env None c s = (Inr (), c', s') \<and> said_in ''m'' (events_of answering s') = '''' \<and> co_text c' = ''''"
proof -
  define a where "a = add_text plain_rt_env (Some Canceled) '' world'' (answering\<lparr>co_text := ''hello'', co_lastTextFlush := - 200000000\<rparr>) restarted"
  define f where "f = flush plain_rt_env None (fst (snd a)) (snd (snd a))"
  have "isl (fst a)" "fst f = Inr ()" "said_in ''m'' (events_of answering (snd (snd f))) = ''''" "co_text (fst (snd f)) = ''''"
    unfolding f_def a_def by code_simp+
  then show ?thesis
    by (intro exI [of _ "projl (fst a)"] exI [of _ "fst (snd a)"] exI [of _ "snd (snd a)"] exI [of _ "fst (snd f)"] exI [of _ "snd (snd f)"])
      (simp add: a_def [symmetric] f_def [symmetric] prod_eq_iff)
qed

end
