(* ===== verification/ToolLoop.thy ===== *)
theory ToolLoop
imports RunLog MemPrompts
begin

text \<open>
  What becomes of a call the model asked for (\<open>core/internal/runtime/runtime.go\<close>: \<open>runTools\<close>,
  \<open>settleCall\<close>, \<open>recordToolResult\<close>; \<open>approval.go\<close>; \<open>question.go\<close>): it is run, refused, or parked
  until a person answers, and what they answer is found again when the run goes on.

  \<open>LoopEnv\<close> is what the runtime was built with: the registry, and what it asks of libraries. \<open>wire\<close>
  is a call's arguments as \<open>json.Unmarshal\<close> reads them into the fields of \<open>parseAsk\<close>; Unicode case
  tables and \<open>%q\<close> are functions. A tool that runs may change the runtime's state in any way, as tools
  that call back into it do; what is handed to the registry is kept in \<open>rt_Executed\<close>. The context is
  read once for each step, and may end between two.
\<close>

subsection \<open>The gate\<close>

record AskWire =
  aw_Prompt :: string
  aw_Kind :: string
  aw_Options :: "QuestionOption list"

record LoopEnv =
  lv_Rt :: RtEnv
  lv_Tools :: "Rt Registry option"
  lv_Lib :: ToolEnv
  lv_Decode :: "string \<Rightarrow> arguments"
  lv_AskWire :: "string \<Rightarrow> string + AskWire"
  lv_ToLower :: "string \<Rightarrow> string"
  lv_EqualFold :: "string \<Rightarrow> string \<Rightarrow> bool"

datatype Parked = NotParked | ParkedForApproval | ParkedForAnswer

definition no_origin :: RunOrigin where
  "no_origin = \<lparr>or_Kind = OriginOther '''', or_ClientID = '''', or_Principal = None\<rparr>"

definition no_outcome :: Outcome where
  "no_outcome = \<lparr>oc_Decision = Allow, oc_Summary = '''', oc_Effects = [], oc_Reason = ''''\<rparr>"

definition gate_evaluate :: "LoopEnv \<Rightarrow> Run \<Rightarrow> Spec \<Rightarrow> ToolCall \<Rightarrow> Rt \<Rightarrow> Outcome" where
  "gate_evaluate env run spec call s =
     (case rt_Permissions s of
        None \<Rightarrow> no_outcome
      | Some engine \<Rightarrow>
          let spec = (case (case lv_Tools env of None \<Rightarrow> None | Some r \<Rightarrow> lookup_tool r (ca_Name call)) of
                None \<Rightarrow> spec
              | Some invoked \<Rightarrow> spec\<lparr>sp_Level := effective_level (sp_Level (to_Spec invoked)) (to_LevelFor invoked) call\<rparr>)
          in evaluate (lv_Decode env) \<lparr>rq_Spec = spec, rq_Call = Call.truncate call, rq_SessionID = ru_SessionID run,
               rq_RunID = ru_ID run, rq_Origin = ru_Origin run\<rparr> engine)"

definition preview_of :: "Rt Tool \<Rightarrow> ToolCall \<Rightarrow> string" where
  "preview_of registered call =
     (case to_Preview registered of
        None \<Rightarrow> ''''
      | Some preview \<Rightarrow> (case preview (ca_Arguments call) of None \<Rightarrow> '''' | Some text \<Rightarrow> text))"

definition denied_result :: "LoopEnv \<Rightarrow> ToolCall \<Rightarrow> string \<Rightarrow> Result" where
  "denied_result env call reason =
     error_result (lv_Lib env) (tool_errorf CodePermissionDenied
       ''Do not retry this call. Explain what you wanted to do, or propose a different approach.''
       (ca_Name call @ '' was not permitted'' @ (if reason \<noteq> '''' then '': '' @ reason else '''')))"

definition raise_approval :: "LoopEnv \<Rightarrow> Ctx \<Rightarrow> Run \<Rightarrow> Rt Tool \<Rightarrow> ToolCall \<Rightarrow> Outcome \<Rightarrow> bool \<Rightarrow> unit rt" where
  "raise_approval env ctx run registered call outcome readForeign =
     rbind (new_id (lv_Rt env)) (\<lambda>aid. rbind (now (lv_Rt env)) (\<lambda>at.
        let approval = \<lparr>ap_ID = aid, ap_SessionID = ru_SessionID run, ap_RunID = ru_ID run, ap_ToolCallID = ca_ID call,
              ap_ToolName = ca_Name call, ap_Arguments = ca_Arguments call, ap_Summary = oc_Summary outcome,
              ap_Effects = oc_Effects outcome, ap_Preview = preview_of registered call, ap_ReadForeign = readForeign,
              ap_Status = ApprovalPending, ap_Scope = RememberOnce, ap_CreatedAt = at, ap_DecidedAt = None,
              ap_DecidedBy = no_origin\<rparr>
        in rbind (st_write (create_approval ctx approval)) (\<lambda>_.
             rt_append (lv_Rt env) ctx (ru_SessionID run) (ru_ID run) EventApprovalRequested
               (PApprovalRequested \<lparr>aq_ApprovalID = aid, aq_CallID = ca_ID call, aq_ToolName = ca_Name call,
                  aq_Arguments = ca_Arguments call, aq_Summary = oc_Summary outcome, aq_Effects = oc_Effects outcome,
                  aq_Preview = preview_of registered call, aq_ReadForeign = readForeign\<rparr>))))"

definition request_approval :: "LoopEnv \<Rightarrow> Ctx \<Rightarrow> Run \<Rightarrow> Rt Tool \<Rightarrow> ToolCall \<Rightarrow> Outcome \<Rightarrow> unit rt" where
  "request_approval env ctx run registered call outcome s =
     raise_approval env ctx run registered call outcome
       (case read_foreign_so_far ctx run (rt_Store s) of Inl _ \<Rightarrow> False | Inr r \<Rightarrow> r) s"

subsection \<open>Questions\<close>

record AskArguments =
  ak_Prompt :: string
  ak_Kind :: QuestionKind
  ak_Options :: "QuestionOption list"

definition question_kind_of :: "string \<Rightarrow> QuestionKind" where
  "question_kind_of k = (if k = ''choice'' then QuestionChoice else if k = ''text'' then QuestionText else QuestionKindOther k)"

fun ask_options :: "LoopEnv \<Rightarrow> QuestionOption list \<Rightarrow> string set \<Rightarrow> ToolError + QuestionOption list" where
  "ask_options env [] seen = Inr []"
| "ask_options env (one # others) seen =
     (let oid = trim_space (qo_ID one); label = trim_space (qo_Label one) in
      if oid = '''' \<or> label = '''' then
        Inl (tool_errorf CodeInvalidArguments ''Every option needs an id and a label.'' ''an option is incomplete'')
      else if lv_ToLower env oid \<in> seen then
        Inl (tool_errorf CodeInvalidArguments ''Give each option its own id.''
          (''two options share the id '' @ tv_Quote (lv_Lib env) oid))
      else case ask_options env others (insert (lv_ToLower env oid) seen) of
        Inl err \<Rightarrow> Inl err
      | Inr options \<Rightarrow> Inr (\<lparr>qo_ID = oid, qo_Label = label, qo_Detail = qo_Detail one\<rparr> # options))"

definition parse_ask :: "LoopEnv \<Rightarrow> string \<Rightarrow> ToolError + AskArguments" where
  "parse_ask env arguments =
     (case lv_AskWire env arguments of
        Inl err \<Rightarrow> Inl (tool_errorf CodeInvalidArguments '''' err)
      | Inr wire \<Rightarrow>
          let prompt = trim_space (aw_Prompt wire) in
          if prompt = '''' then Inl (tool_errorf CodeInvalidArguments ''Say what you want to know.'' ''there is no question'')
          else
            let kind = (if aw_Kind wire = '''' then (if aw_Options wire \<noteq> [] then QuestionChoice else QuestionText)
                  else question_kind_of (aw_Kind wire)) in
            if \<not> question_kind_is_valid kind then
              Inl (tool_errorf CodeInvalidArguments (''Use '' @ [CHR 0x22] @ ''choice'' @ [CHR 0x22] @ '' or '' @ [CHR 0x22] @ ''text'' @ [CHR 0x22] @ ''.'')
                (tv_Quote (lv_Lib env) (aw_Kind wire) @ '' is not a kind of question''))
            else case ask_options env (aw_Options wire) {} of
              Inl err \<Rightarrow> Inl err
            | Inr options \<Rightarrow>
                if kind = QuestionChoice \<and> length options < 2 then
                  Inl (tool_errorf CodeInvalidArguments ''Offer at least two options, or ask for text instead.''
                    (''a choice with '' @ itoa (int (length options)) @ '' options is not a choice''))
                else if kind = QuestionText \<and> options \<noteq> [] then
                  Inl (tool_errorf CodeInvalidArguments (''Use kind '' @ [CHR 0x22] @ ''choice'' @ [CHR 0x22] @ '' when you are offering options.'')
                    ''a text question was given options nobody can pick'')
                else Inr \<lparr>ak_Prompt = prompt, ak_Kind = kind, ak_Options = options\<rparr>)"

definition ask_name :: string where "ask_name = ''ask_user''"
definition err_no_answer :: Err where "err_no_answer = ErrText ''runtime: an answer cannot be empty''"

definition ask_question :: "LoopEnv \<Rightarrow> Ctx \<Rightarrow> Run \<Rightarrow> ToolCall \<Rightarrow> AskArguments \<Rightarrow> unit rt" where
  "ask_question env ctx run call asked =
     rbind (new_id (lv_Rt env)) (\<lambda>qid. rbind (now (lv_Rt env)) (\<lambda>at.
       let question = \<lparr>qu_ID = qid, qu_SessionID = ru_SessionID run, qu_RunID = ru_ID run, qu_ToolCallID = ca_ID call,
             qu_Prompt = ak_Prompt asked, qu_Kind = ak_Kind asked, qu_Options = ak_Options asked, qu_Status = AnswerPending,
             qu_Answer = '''', qu_AnsweredBy = no_origin, qu_CreatedAt = at, qu_AnsweredAt = None\<rparr>
       in rbind (st_write (create_question ctx question)) (\<lambda>_.
            rt_append (lv_Rt env) ctx (ru_SessionID run) (ru_ID run) EventQuestionAsked
              (PQuestionAsked \<lparr>qa_QuestionID = qid, qa_CallID = ca_ID call, qa_Prompt = ak_Prompt asked,
                 qa_Kind = ak_Kind asked, qa_Options = ak_Options asked\<rparr>))))"

definition is_option :: "LoopEnv \<Rightarrow> string \<Rightarrow> QuestionOption \<Rightarrow> bool" where
  "is_option env answer opt \<longleftrightarrow> lv_EqualFold env (qo_ID opt) answer \<or> lv_EqualFold env (qo_Label opt) answer"

definition check_choice :: "LoopEnv \<Rightarrow> Question \<Rightarrow> string \<Rightarrow> Err option" where
  "check_choice env asked answer =
     (if list_ex (is_option env answer) (qu_Options asked) then None
      else Some (ErrText (''runtime: '' @ tv_Quote (lv_Lib env) answer @ '' is not one of the options (''
        @ str_join '', '' (map qo_ID (qu_Options asked)) @ '')'')))"

definition answered_result :: "LoopEnv \<Rightarrow> Question \<Rightarrow> Result" where
  "answered_result env question =
     (if qu_Kind question \<noteq> QuestionChoice then
        no_result\<lparr>re_Content := ''They answered: '' @ qu_Answer question, re_Summary := ''answered''\<rparr>
      else case find (is_option env (qu_Answer question)) (qu_Options question) of
        Some opt \<Rightarrow> no_result\<lparr>re_Content := ''They chose '' @ qo_ID opt @ '': '' @ qo_Label opt, re_Summary := ''chose '' @ qo_ID opt\<rparr>
      | None \<Rightarrow> no_result\<lparr>re_Content := ''They answered: '' @ qu_Answer question, re_Summary := ''answered''\<rparr>)"

definition settle_ask :: "LoopEnv \<Rightarrow> Ctx \<Rightarrow> Run \<Rightarrow> ToolCall \<Rightarrow> (Result \<times> Parked) rt" where
  "settle_ask env ctx run call =
     rtry (st_read (question_for_call ctx (ru_ID run) (ca_ID call))) (\<lambda>existing.
       let ask = (case parse_ask env (ca_Arguments call) of
             Inl err \<Rightarrow> ok (error_result (lv_Lib env) err, NotParked)
           | Inr asked \<Rightarrow> rbind (ask_question env ctx run call asked) (\<lambda>_. ok (no_result, ParkedForAnswer)))
       in case existing of
         Inr q \<Rightarrow>
           (case qu_Status q of
              AnswerGiven \<Rightarrow> ok (answered_result env q, NotParked)
            | AnswerAbandoned \<Rightarrow>
                ok (no_result\<lparr>re_Content := ''Nobody answered, and the run this question belonged to ended.'', re_IsError := True\<rparr>, NotParked)
            | AnswerPending \<Rightarrow> ok (no_result, ParkedForAnswer)
            | QuestionStatusOther _ \<Rightarrow> ask)
       | Inl err \<Rightarrow> if err = ErrStore ErrQuestionNotFound then ask else fail err)"

subsection \<open>One call\<close>

definition read_only_for_workers :: "string list" where
  "read_only_for_workers = [''read_file'', ''glob_files'', ''grep'', ''git_status'', ''git_diff'', ''read_artifact'', ''skill_load'']"

definition execute_call :: "LoopEnv \<Rightarrow> Rt Registry \<Rightarrow> Ctx \<Rightarrow> ToolCall \<Rightarrow> (Result \<times> Parked) rt" where
  "execute_call env r ctx call s =
     (case registry_execute (lv_Lib env) r ctx call (s\<lparr>rt_Executed := rt_Executed s @ [call]\<rparr>) of
        (result, s) \<Rightarrow> (Inr (result, NotParked), s))"

text \<open>A call nobody was asked about: the last switch of \<open>settleCall\<close>.\<close>

definition judge_call :: "LoopEnv \<Rightarrow> Rt Registry \<Rightarrow> Ctx \<Rightarrow> Run \<Rightarrow> Rt Tool \<Rightarrow> ToolCall \<Rightarrow> (Result \<times> Parked) rt" where
  "judge_call env r ctx run registered call s =
     (let outcome = gate_evaluate env run (to_Spec registered) call s in
      case oc_Decision outcome of
        Allow \<Rightarrow> execute_call env r ctx call s
      | Deny \<Rightarrow> (Inr (denied_result env call (oc_Reason outcome), NotParked), s)
      | Ask \<Rightarrow> rbind (request_approval env ctx run registered call outcome) (\<lambda>_. ok (no_result, ParkedForApproval)) s)"

definition settle_call :: "LoopEnv \<Rightarrow> Ctx \<Rightarrow> Run \<Rightarrow> ToolCall \<Rightarrow> (Result \<times> Parked) rt" where
  "settle_call env ctx run call s =
     (case lv_Tools env of
        None \<Rightarrow> (Inr (error_result (lv_Lib env) (tool_errorf CodeNotFound '''' ''no tools are available in this session''), NotParked), s)
      | Some r \<Rightarrow>
          if ru_Kind run = RunWorker \<and> ca_Name call \<notin> set read_only_for_workers then
            (Inr (unknown_tool (lv_Lib env) ''Answer from what you can read, or say you cannot.'' (ca_Name call), NotParked), s)
          else if ca_Name call = ask_name then settle_ask env ctx run call s
          else case lookup_tool r (ca_Name call) of
            None \<Rightarrow> execute_call env r ctx call s
          | Some registered \<Rightarrow>
              (case approval_for_call ctx (ru_ID run) (ca_ID call) (rt_Store s) of
                 Inr decided \<Rightarrow>
                   (case ap_Status decided of
                      ApprovalAllowed \<Rightarrow> execute_call env r ctx call s
                    | ApprovalDenied \<Rightarrow> (Inr (denied_result env call ''a human declined this action'', NotParked), s)
                    | ApprovalPending \<Rightarrow> (Inr (no_result, ParkedForApproval), s)
                    | ApprovalStatusOther _ \<Rightarrow> judge_call env r ctx run registered call s)
               | Inl err \<Rightarrow> if err = ErrApprovalNotFound then judge_call env r ctx run registered call s else (Inl (ErrStore err), s)))"


subsection \<open>Results and parking\<close>

definition returns_foreign_content :: "LoopEnv \<Rightarrow> string \<Rightarrow> bool" where
  "returns_foreign_content env name =
     (case lv_Tools env of
        None \<Rightarrow> False
      | Some r \<Rightarrow> (case lookup_tool r name of None \<Rightarrow> False | Some t \<Rightarrow> ca_ForeignContent (sp_Capabilities (to_Spec t))))"

definition provenance_of :: "LoopEnv \<Rightarrow> string \<Rightarrow> Provenance" where
  "provenance_of env name =
     (case lv_Tools env of
        None \<Rightarrow> ProvenanceExternal
      | Some r \<Rightarrow> (case lookup_tool r name of None \<Rightarrow> ProvenanceExternal | Some t \<Rightarrow> ca_Provenance (sp_Capabilities (to_Spec t))))"

text \<open>\<open>time.Duration.Milliseconds\<close>: the quotient, cut off towards zero.\<close>

definition milliseconds :: "int \<Rightarrow> int" where
  "milliseconds d = (if d \<ge> 0 then d div 1000000 else - ((- d) div 1000000))"

definition record_tool_result :: "LoopEnv \<Rightarrow> Ctx \<Rightarrow> Run \<Rightarrow> ToolCall \<Rightarrow> Result \<Rightarrow> instant \<Rightarrow> unit rt" where
  "record_tool_result env ctx run call result started =
     rbind (now (lv_Rt env)) (\<lambda>finished.
       rt_append (lv_Rt env) ctx (ru_SessionID run) (ru_ID run) EventToolCallCompleted
         (PToolCallCompleted \<lparr>tc_CallID = ca_ID call, tc_Name = ca_Name call, tc_Summary = re_Summary result,
            tc_Content = re_Content result, tc_IsError = re_IsError result, tc_Truncated = re_Truncated result,
            tc_Foreign = returns_foreign_content env (ca_Name call), tc_From = provenance_of env (ca_Name call),
            tc_Artifact = re_Artifact result, tc_DurationMS = milliseconds (finished - started)\<rparr>))"

definition suspend :: "LoopEnv \<Rightarrow> Ctx \<Rightarrow> Run \<Rightarrow> Parked \<Rightarrow> Rt \<Rightarrow> Rt" where
  "suspend env ctx run why s =
     (let (status, reason) = (if why = ParkedForAnswer then (RunAwaitingInput, ''waiting for an answer'')
            else (RunAwaitingApproval, ''waiting for approval''))
      in snd (transition (lv_Rt env) ctx run status reason '''' s))"

record ToolDeclaration =
  td_Name :: string
  td_Description :: string
  td_InputSchema :: string

definition declaration_of :: "Spec \<Rightarrow> ToolDeclaration" where
  "declaration_of spec = \<lparr>td_Name = sp_Name spec, td_Description = sp_Description spec, td_InputSchema = sp_InputSchema spec\<rparr>"

definition tool_declarations :: "LoopEnv \<Rightarrow> ToolDeclaration list" where
  "tool_declarations env = (case lv_Tools env of None \<Rightarrow> [] | Some r \<Rightarrow> map declaration_of (specs r))"

definition declarations_for :: "LoopEnv \<Rightarrow> Run \<Rightarrow> ToolDeclaration list" where
  "declarations_for env run =
     (let declared = tool_declarations env in
      if ru_Kind run \<noteq> RunWorker then declared else filter (\<lambda>d. td_Name d \<in> set read_only_for_workers) declared)"

definition tools_for :: "LoopEnv \<Rightarrow> Run \<Rightarrow> string list" where
  "tools_for env run = map td_Name (declarations_for env run)"

text \<open>A run's context at this moment.\<close>

type_synonym RunClock = "nat \<Rightarrow> RunCtx"

definition ctx_at :: "RunClock \<Rightarrow> Rt \<Rightarrow> Ctx" where
  "ctx_at rc s = ctx_of (rc (rt_Tick s))"

definition in_ctx :: "RunClock \<Rightarrow> (Ctx \<Rightarrow> 'a rt) \<Rightarrow> 'a rt" where
  "in_ctx rc m s = m (ctx_at rc s) s"

definition call_of_pending :: "Run \<Rightarrow> PendingCall \<Rightarrow> TrustLevel \<Rightarrow> Provenance \<Rightarrow> ToolCall" where
  "call_of_pending run pending trust from_prov =
     \<lparr>ca_ID = pe_CallID pending, ca_Name = pe_Name pending, ca_Arguments = pe_Arguments pending,
      ca_Context = \<lparr>cx_SessionID = ru_SessionID run, cx_RunID = ru_ID run, cx_Trust = trust, cx_From = from_prov,
        cx_Origin = ru_Origin run, cx_Seq = pe_Seq pending\<rparr>\<rparr>"

text \<open>The end of the loop's body: what the run has spent is added, and the result recorded.\<close>

definition note_and_record :: "LoopEnv \<Rightarrow> RunClock \<Rightarrow> Run \<Rightarrow> ToolCall \<Rightarrow> Result \<Rightarrow> Parked rt" where
  "note_and_record env rc run call result s =
     (let notice = spend_notice (tools_for env run) (ctx_at rc s) run (ca_Name call) (rt_Store s);
          result = (if notice \<noteq> '''' then result\<lparr>re_Content := re_Content result @ notice\<rparr> else result)
      in rbind (now (lv_Rt env)) (\<lambda>started.
         rbind (in_ctx rc (\<lambda>ctx. record_tool_result env ctx run call result started)) (\<lambda>_. ok NotParked)) s)"

text \<open>One turn of the loop in \<open>runTools\<close>: why the call is parked, once its result is on record when it
  is not.\<close>

definition run_tool :: "LoopEnv \<Rightarrow> RunClock \<Rightarrow> Run \<Rightarrow> PendingCall \<Rightarrow> Parked rt" where
  "run_tool env rc run pending s =
     (case ctx_at rc s of
        Some e \<Rightarrow> (Inl (ErrContext e), s)
      | None \<Rightarrow>
          rbind (in_ctx rc (\<lambda>ctx. st_read (conversation_trust ctx run (pe_Seq pending)))) (\<lambda>trust.
          rbind (in_ctx rc (\<lambda>ctx. st_read (provenance_so_far ctx run (pe_Seq pending)))) (\<lambda>from_prov.
          let call = call_of_pending run pending trust from_prov in
          rbind (in_ctx rc (\<lambda>ctx. settle_call env ctx run call)) (\<lambda>(result, park).
            if park \<noteq> NotParked then ok park else note_and_record env rc run call result))) s)"

fun run_calls :: "LoopEnv \<Rightarrow> RunClock \<Rightarrow> Run \<Rightarrow> PendingCall list \<Rightarrow> Parked rt" where
  "run_calls env rc run [] = ok NotParked"
| "run_calls env rc run (pending # calls) =
     rbind (run_tool env rc run pending) (\<lambda>park. if park \<noteq> NotParked then ok park else run_calls env rc run calls)"

definition run_tools :: "LoopEnv \<Rightarrow> RunClock \<Rightarrow> Run \<Rightarrow> PendingCall list \<Rightarrow> bool rt" where
  "run_tools env rc run calls =
     rbind (run_calls env rc run calls) (\<lambda>why s.
       if why = NotParked then (Inr False, s) else (Inr True, suspend env (ctx_at rc s) run why s))"

subsection \<open>Answers\<close>

definition resume :: "Ctx \<Rightarrow> RunID \<Rightarrow> unit rt" where
  "resume ctx rid s =
     (if tn_draining (rt_Turns s) then (Inl err_shutting_down, s)
      else if gm_get (tn_active (rt_Turns s)) rid \<noteq> None then (Inr (), s)
      else rbind (st_read (get_run ctx rid)) (\<lambda>run.
        if is_terminal (ru_Status run) then ok ()
        else rbind (st_read (pending_approvals ctx (ru_SessionID run))) (\<lambda>pending.
          if \<exists>a \<in> set pending. ap_RunID a = rid then ok ()
          else rbind (st_read (pending_questions ctx (ru_SessionID run))) (\<lambda>questions.
            if \<exists>q \<in> set questions. qu_RunID q = rid then ok ()
            else (\<lambda>s. (Inr (), s\<lparr>rt_Turns := resume_run rid (rt_Turns s)\<rparr>))))) s)"

definition st_update :: "(Store \<Rightarrow> StoreError + ('a \<times> Store)) \<Rightarrow> 'a rt" where
  "st_update f s = (case f (rt_Store s) of Inl e \<Rightarrow> (Inl (ErrStore e), s) | Inr (x, t) \<Rightarrow> (Inr x, s\<lparr>rt_Store := t\<rparr>))"

definition err_approval_not_pending :: Err where
  "err_approval_not_pending = ErrText ''domain: approval has already been decided''"

definition rt_decide_approval :: "LoopEnv \<Rightarrow> Ctx \<Rightarrow> ApprovalID \<Rightarrow> bool \<Rightarrow> RememberScope \<Rightarrow> RunOrigin \<Rightarrow> Approval rt" where
  "rt_decide_approval env ctx aid allow scope decidedBy =
     (let status = (if allow then ApprovalAllowed else ApprovalDenied);
          scope = (if scope = RememberOther '''' then RememberOnce else scope)
      in rbind (now (lv_Rt env)) (\<lambda>at.
         rbind (rtry (st_update (decide_approval ctx aid status scope decidedBy at))
           (\<lambda>r. case r of Inr approval \<Rightarrow> ok approval
              | Inl err \<Rightarrow> fail (if err = ErrStore ErrApprovalDecided then err_approval_not_pending else err))) (\<lambda>approval.
         rbind (\<lambda>s. (Inr (), if allow \<and> scope = RememberSession
              then s\<lparr>rt_Permissions := map_option (grant_for_session (ap_SessionID approval) (ap_ToolName approval)) (rt_Permissions s)\<rparr>
              else s)) (\<lambda>_.
         rbind (rt_append (lv_Rt env) ctx (ap_SessionID approval) (ap_RunID approval) EventApprovalResolved
           (PApprovalResolved \<lparr>ar_ApprovalID = ap_ID approval, ar_CallID = ap_ToolCallID approval, ar_ToolName = ap_ToolName approval,
              ar_Status = ap_Status approval, ar_Scope = ap_Scope approval, ar_DecidedBy = decidedBy\<rparr>)) (\<lambda>_.
         rbind (resume ctx (ap_RunID approval)) (\<lambda>_. ok approval))))))"

definition rt_answer_question :: "LoopEnv \<Rightarrow> Ctx \<Rightarrow> QuestionID \<Rightarrow> string \<Rightarrow> RunOrigin \<Rightarrow> Question rt" where
  "rt_answer_question env ctx qid answer answeredBy =
     (let answer = trim_space answer in
      if answer = '''' then fail err_no_answer
      else rbind (st_read (get_question ctx qid)) (\<lambda>asked.
        case (if qu_Kind asked = QuestionChoice then check_choice env asked answer else None) of
          Some err \<Rightarrow> fail err
        | None \<Rightarrow>
            rbind (now (lv_Rt env)) (\<lambda>at.
            rbind (st_update (store_answer ctx qid AnswerGiven answer answeredBy at)) (\<lambda>question.
            rbind (rt_append (lv_Rt env) ctx (qu_SessionID question) (qu_RunID question) EventQuestionAnswered
              (PQuestionAnswered \<lparr>qd_QuestionID = qu_ID question, qd_CallID = qu_ToolCallID question, qd_Status = qu_Status question,
                 qd_Answer = qu_Answer question, qd_AnsweredBy = answeredBy\<rparr>)) (\<lambda>_.
            rbind (resume ctx (qu_RunID question)) (\<lambda>_. ok question))))))"

definition rt_pending_approvals :: "Ctx \<Rightarrow> SessionID \<Rightarrow> Approval list rt" where
  "rt_pending_approvals ctx sid = st_read (pending_approvals ctx sid)"

definition rt_pending_questions :: "Ctx \<Rightarrow> SessionID \<Rightarrow> Question list rt" where
  "rt_pending_questions ctx sid = st_read (pending_questions ctx sid)"


subsection \<open>What an operation leaves alone\<close>

definition keeps :: "(Rt \<Rightarrow> 'x) \<Rightarrow> 'a rt \<Rightarrow> bool" where
  "keeps f m \<longleftrightarrow> (\<forall>s. f (snd (m s)) = f s)"

definition tickless :: "(Rt \<Rightarrow> 'x) \<Rightarrow> bool" where
  "tickless f \<longleftrightarrow> (\<forall>s n. f (s\<lparr>rt_Tick := n\<rparr>) = f s)"

lemma keepsD: "keeps f m \<Longrightarrow> m s = (r, s') \<Longrightarrow> f s' = f s"
  by (metis keeps_def snd_conv)

lemma tickless_parts: "tickless rt_Executed" "tickless rt_Store" "tickless rt_Turns" "tickless rt_Permissions"
  by (simp_all add: tickless_def)

lemma keeps_basic: "keeps f (ok x)" "keeps f (fail e)" "keeps f (st_read g)"
  "tickless f \<Longrightarrow> keeps f (now env)" "tickless f \<Longrightarrow> keeps f (new_id env)"
  by (simp_all add: keeps_def rt_ops tickless_def split: sum.split)

lemma keeps_rbind:
  assumes "keeps f m" "\<And>x. keeps f (k x)"
  shows "keeps f (rbind m k)"
  unfolding keeps_def
proof
  fix s
  obtain r t where m: "m s = (r, t)" by fastforce
  then have "f t = f s" using assms(1) keepsD by blast
  then show "f (snd (rbind m k s)) = f s"
    using assms(2) m by (cases r) (auto simp: rbind_def keeps_def)
qed

lemma keeps_rtry: "keeps f m \<Longrightarrow> (\<And>x. keeps f (k x)) \<Longrightarrow> keeps f (rtry m k)"
  by (auto simp: keeps_def rtry_def split: prod.split) (metis snd_conv)

lemma keeps_write: "keeps rt_Executed (st_write g)" "keeps rt_Turns (st_write g)" "keeps rt_Permissions (st_write g)"
  by (simp_all add: keeps_def st_write_def split: sum.split)

lemma keeps_append: "keeps rt_Executed (rt_append env ctx sid rid kind p)" "keeps rt_Turns (rt_append env ctx sid rid kind p)"
  "keeps rt_Permissions (rt_append env ctx sid rid kind p)"
  using rt_append_frame [OF surjective_pairing] by (simp_all add: keeps_def)

lemmas keeps_rules = keeps_basic keeps_rbind keeps_rtry keeps_write keeps_append tickless_parts

lemma keeps_ask: "keeps rt_Executed (settle_ask env ctx run call)"
  unfolding settle_ask_def ask_question_def Let_def
  by (auto intro!: keeps_rules split: sum.split QuestionStatus.split)

lemma keeps_request: "keeps rt_Executed (request_approval env ctx run t call outcome)"
proof -
  have "keeps rt_Executed (raise_approval env ctx run t call outcome b)" for b
    unfolding raise_approval_def Let_def by (intro keeps_rules)
  then show ?thesis by (simp add: keeps_def request_approval_def)
qed


subsection \<open>Nothing runs that was not let through\<close>


lemma approval_for_call_Inr: "approval_for_call ctx rid cid t = Inr a \<Longrightarrow>
    a \<in> set (gm_vals (st_approvals t)) \<and> ap_RunID a = rid \<and> ap_ToolCallID a = cid"
  by (auto simp: approval_for_call_def find_Some_iff split: option.splits)

lemma approval_for_call_None: "approval_for_call ctx rid cid t = Inl ErrApprovalNotFound \<Longrightarrow>
    a \<in> set (gm_vals (st_approvals t)) \<Longrightarrow> \<not> (ap_RunID a = rid \<and> ap_ToolCallID a = cid)"
  by (cases ctx) (auto simp: approval_for_call_def find_None_iff split: option.splits)

text \<open>What settles a call that names a known tool and may be made at all.\<close>

definition gated :: "LoopEnv \<Rightarrow> Run \<Rightarrow> ToolCall \<Rightarrow> Rt Registry \<Rightarrow> Rt Tool \<Rightarrow> bool" where
  "gated env run call reg t \<longleftrightarrow> lv_Tools env = Some reg \<and> lookup_tool reg (ca_Name call) = Some t \<and> ca_Name call \<noteq> ask_name \<and>
     (ru_Kind run = RunWorker \<longrightarrow> ca_Name call \<in> set read_only_for_workers)"

lemma settle_gated:
  "gated env run call reg t \<Longrightarrow> settle_call env ctx run call s =
     (case approval_for_call ctx (ru_ID run) (ca_ID call) (rt_Store s) of
        Inr decided \<Rightarrow>
          (case ap_Status decided of
             ApprovalAllowed \<Rightarrow> execute_call env reg ctx call s
           | ApprovalDenied \<Rightarrow> (Inr (denied_result env call ''a human declined this action'', NotParked), s)
           | ApprovalPending \<Rightarrow> (Inr (no_result, ParkedForApproval), s)
           | ApprovalStatusOther _ \<Rightarrow> judge_call env reg ctx run t call s)
      | Inl err \<Rightarrow> if err = ErrApprovalNotFound then judge_call env reg ctx run t call s else (Inl (ErrStore err), s))"
  by (auto simp: gated_def settle_call_def split: sum.split)

lemma settle_ungated:
  assumes "settle_call env ctx run call s = (r, s')" "\<nexists>reg t. gated env run call reg t"
  shows "s' = s \<or> settle_ask env ctx run call s = (r, s') \<or>
    (\<exists>reg. lv_Tools env = Some reg \<and> lookup_tool reg (ca_Name call) = None \<and> ca_Name call \<noteq> ask_name \<and>
      (ru_Kind run = RunWorker \<longrightarrow> ca_Name call \<in> set read_only_for_workers) \<and> execute_call env reg ctx call s = (r, s'))"
  using assms by (auto simp: settle_call_def gated_def split: option.splits if_splits)

lemma judge_call_quiet:
  assumes "judge_call env reg ctx run t call s = (r, s')" "rt_Executed s' \<noteq> rt_Executed s"
  shows "oc_Decision (gate_evaluate env run (to_Spec t) call s) = Allow"
proof (cases "oc_Decision (gate_evaluate env run (to_Spec t) call s)")
  case Ask
  let ?m = "rbind (request_approval env ctx run t call (gate_evaluate env run (to_Spec t) call s)) (\<lambda>_. ok (no_result, ParkedForApproval))"
  have "keeps rt_Executed ?m" by (rule keeps_rbind [OF keeps_request keeps_basic(1)])
  moreover have "?m s = (r, s')" using assms(1) Ask by (simp add: judge_call_def)
  ultimately show ?thesis using assms(2) keepsD by metis
qed (use assms in \<open>simp_all add: judge_call_def\<close>)

text \<open>C1. The gate: whatever the model asks for, a call reaches the registry only with leave. It is not
  the question tool, whose answer a person types; a delegated worker's call names one of the tools
  that only read; and for a tool the registry knows, either a person allowed this call of this run,
  or nobody was asked about it and the policy engine, judging the call at its effective level for this
  session, allows it outright. What a person denied is never run, and what waits is not run before
  the answer.\<close>

theorem no_tool_runs_ungated:
  assumes "settle_call env ctx run call s = (r, s')" "rt_Executed s' \<noteq> rt_Executed s"
  shows "\<exists>reg. lv_Tools env = Some reg \<and> ca_Name call \<noteq> ask_name \<and>
    (ru_Kind run = RunWorker \<longrightarrow> ca_Name call \<in> set read_only_for_workers) \<and>
    (\<forall>t. lookup_tool reg (ca_Name call) = Some t \<longrightarrow>
       (\<exists>a. approval_for_call ctx (ru_ID run) (ca_ID call) (rt_Store s) = Inr a \<and> ap_Status a = ApprovalAllowed \<and>
          ap_RunID a = ru_ID run \<and> ap_ToolCallID a = ca_ID call) \<or>
       oc_Decision (gate_evaluate env run (to_Spec t) call s) = Allow \<and>
       (\<forall>a. approval_for_call ctx (ru_ID run) (ca_ID call) (rt_Store s) = Inr a \<longrightarrow>
          ap_Status a \<notin> {ApprovalAllowed, ApprovalDenied, ApprovalPending}))"
proof -
  consider (gated) reg t where "gated env run call reg t" | (other) "\<nexists>reg t. gated env run call reg t" by blast
  then show ?thesis
  proof cases
    case gated
    then show ?thesis
      using assms judge_call_quiet [OF _ assms(2)] approval_for_call_Inr [of ctx "ru_ID run" "ca_ID call" "rt_Store s"]
      by (auto simp: settle_gated gated_def split: sum.splits ApprovalStatus.splits if_splits)
  next
    case other
    with settle_ungated [OF assms(1)] assms(2) keepsD [OF keeps_ask, of env ctx run call s r s'] show ?thesis by auto
  qed
qed



subsection \<open>One prompt for a call, and its answer decides\<close>

lemma vals_set_sub: "set (gm_vals (gm_set m k v)) \<subseteq> insert v (set (gm_vals m))"
  by (induction m) (auto simp: gm_vals_def gm_set_def)

lemma vals_set_has: "v \<in> set (gm_vals (gm_set m k v))"
  by (induction m) (auto simp: gm_vals_def gm_set_def)

lemma created_is_found:
  assumes "create_approval ctx a t = Inr u"
  shows "ctx = None \<and> approval_for_call None (ap_RunID a) (ap_ToolCallID a) u = Inr a"
proof -
  from assms have u: "ctx = None" "u = t\<lparr>st_approvals := gm_set (st_approvals t) (ap_ID a) a\<rparr>"
    and new: "\<And>b. b \<in> set (gm_vals (st_approvals t)) \<Longrightarrow> \<not> (ap_RunID b = ap_RunID a \<and> ap_ToolCallID b = ap_ToolCallID a)"
    by (auto simp: create_approval_def split: if_splits)
  have "find (\<lambda>b. ap_RunID b = ap_RunID a \<and> ap_ToolCallID b = ap_ToolCallID a) (gm_vals (st_approvals u)) = Some a"
    using new vals_set_sub [of "st_approvals t" "ap_ID a" a] vals_set_has [of a "st_approvals t" "ap_ID a"]
    by (intro find_unique) (auto simp: u(2))
  then show ?thesis using u(1) by (simp add: approval_for_call_def)
qed

lemma raise_approval_ok:
  assumes "raise_approval env ctx run t call outcome b s = (Inr (), s')"
  shows "\<exists>a. approval_for_call None (ru_ID run) (ca_ID call) (rt_Store s') = Inr a \<and> ap_Status a = ApprovalPending \<and>
    ap_ToolName a = ca_Name call \<and> ap_Arguments a = ca_Arguments call \<and> ap_ReadForeign a = b \<and> ap_SessionID a = ru_SessionID run"
proof -
  define a where "a = \<lparr>ap_ID = rv_NewID (lv_Rt env) (rt_Tick s), ap_SessionID = ru_SessionID run, ap_RunID = ru_ID run, ap_ToolCallID = ca_ID call,
              ap_ToolName = ca_Name call, ap_Arguments = ca_Arguments call, ap_Summary = oc_Summary outcome,
              ap_Effects = oc_Effects outcome, ap_Preview = preview_of t call, ap_ReadForeign = b,
              ap_Status = ApprovalPending, ap_Scope = RememberOnce, ap_CreatedAt = rv_Now (lv_Rt env) (Suc (rt_Tick s)), ap_DecidedAt = None,
              ap_DecidedBy = no_origin\<rparr>"
  obtain u where u: "create_approval ctx a (rt_Store s) = Inr u"
    and ap: "\<exists>kind p s1. rt_Store s1 = u \<and> rt_append (lv_Rt env) ctx (ru_SessionID run) (ru_ID run) kind p s1 = (Inr (), s')"
  proof (cases "create_approval ctx a (rt_Store s)")
    case (Inl err)
    with assms show ?thesis by (auto simp: raise_approval_def rbind_def new_id_def now_def st_write_def Let_def a_def)
  next
    case (Inr u)
    with assms have "rt_append (lv_Rt env) ctx (ru_SessionID run) (ru_ID run) EventApprovalRequested
               (PApprovalRequested \<lparr>aq_ApprovalID = ap_ID a, aq_CallID = ca_ID call, aq_ToolName = ca_Name call,
                  aq_Arguments = ca_Arguments call, aq_Summary = oc_Summary outcome, aq_Effects = oc_Effects outcome,
                  aq_Preview = preview_of t call, aq_ReadForeign = b\<rparr>) (s\<lparr>rt_Tick := Suc (Suc (rt_Tick s)), rt_Store := u\<rparr>) = (Inr (), s')"
      by (simp add: raise_approval_def rbind_def new_id_def now_def st_write_def Let_def a_def)
    then show ?thesis using that [OF Inr] by fastforce
  qed
  from ap obtain kind p s1 where s1: "rt_Store s1 = u" "rt_append (lv_Rt env) ctx (ru_SessionID run) (ru_ID run) kind p s1 = (Inr (), s')"
    by blast
  from rt_append_frame [OF s1(2)] s1(1) have "st_approvals (rt_Store s') = st_approvals u" by (auto dest: appended_frame(3))
  with created_is_found [OF u] show ?thesis by (simp add: approval_for_call_def a_def)
qed

lemma settle_ask_park: "settle_ask env ctx run call s = (Inr (result, park), s') \<Longrightarrow> park \<noteq> ParkedForApproval"
  by (auto simp: settle_ask_def rt_ops Let_def split: sum.splits prod.splits QuestionStatus.splits if_splits)

text \<open>A call is parked for approval in one of two ways: its prompt stands already, or it is raised now.\<close>

lemma parked_cases:
  assumes "settle_call env ctx run call s = (Inr (result, ParkedForApproval), s')"
  shows "\<exists>reg t. gated env run call reg t \<and>
    ((\<exists>a. approval_for_call ctx (ru_ID run) (ca_ID call) (rt_Store s) = Inr a \<and> ap_Status a = ApprovalPending \<and> s' = s) \<or>
     (oc_Decision (gate_evaluate env run (to_Spec t) call s) = Ask \<and>
      approval_for_call ctx (ru_ID run) (ca_ID call) (rt_Store s) = Inl ErrApprovalNotFound \<and>
      request_approval env ctx run t call (gate_evaluate env run (to_Spec t) call s) s = (Inr (), s')))"
proof -
  have exec: "execute_call env reg ctx call s \<noteq> (Inr (result, ParkedForApproval), s')" for reg
    by (simp add: execute_call_def split: prod.splits)
  have "\<exists>reg t. gated env run call reg t"
  proof (rule ccontr)
    assume no: "\<nexists>reg t. gated env run call reg t"
    show False
      using assms no exec settle_ask_park [of env ctx run call s result ParkedForApproval s']
      by (auto simp: settle_call_def gated_def split: option.splits if_splits)
  qed
  then obtain reg t where g: "gated env run call reg t" by blast
  have judged: "oc_Decision (gate_evaluate env run (to_Spec t) call s) = Ask \<and>
      request_approval env ctx run t call (gate_evaluate env run (to_Spec t) call s) s = (Inr (), s')"
    if "judge_call env reg ctx run t call s = (Inr (result, ParkedForApproval), s')"
    using that exec by (auto simp: judge_call_def Let_def rbind_def ok_def split: Decision.splits sum.splits prod.splits)
  have raised: "approval_for_call ctx (ru_ID run) (ca_ID call) (rt_Store s) \<noteq> Inr a"
    if "request_approval env ctx run t call (gate_evaluate env run (to_Spec t) call s) s = (Inr (), s')" for a
    using that approval_for_call_Inr [of ctx "ru_ID run" "ca_ID call" "rt_Store s" a]
    by (auto simp: request_approval_def raise_approval_def rbind_def new_id_def now_def st_write_def Let_def create_approval_def
        guard_ctx_def split: option.splits if_splits)
  show ?thesis
    using g assms exec judged raised
    by (auto simp: settle_gated split: sum.splits ApprovalStatus.splits if_splits)
qed

text \<open>C21. A call that has to wait is asked about once: while it is parked for approval the store holds
  exactly the prompt that will be found for it, pending; settling it again raises no second prompt and
  changes nothing; nothing has run; and a prompt raised now shows the very tool and arguments of the call.\<close>

theorem parked_call_waits_for_one_decision:
  assumes "settle_call env ctx run call s = (Inr (result, ParkedForApproval), s')"
  shows "\<exists>a. approval_for_call None (ru_ID run) (ca_ID call) (rt_Store s') = Inr a \<and> ap_Status a = ApprovalPending \<and>
    ap_RunID a = ru_ID run \<and> ap_ToolCallID a = ca_ID call \<and>
    settle_call env None run call s' = (Inr (no_result, ParkedForApproval), s') \<and> rt_Executed s' = rt_Executed s \<and>
    (s' \<noteq> s \<longrightarrow> ap_ToolName a = ca_Name call \<and> ap_Arguments a = ca_Arguments call \<and> ap_SessionID a = ru_SessionID run)"
proof -
  obtain reg t where g: "gated env run call reg t" and
    c: "(\<exists>a. approval_for_call ctx (ru_ID run) (ca_ID call) (rt_Store s) = Inr a \<and> ap_Status a = ApprovalPending \<and> s' = s) \<or>
      request_approval env ctx run t call (gate_evaluate env run (to_Spec t) call s) s = (Inr (), s')"
    using parked_cases [OF assms] by blast
  from c show ?thesis
  proof
    assume "\<exists>a. approval_for_call ctx (ru_ID run) (ca_ID call) (rt_Store s) = Inr a \<and> ap_Status a = ApprovalPending \<and> s' = s"
    then obtain a where a: "approval_for_call ctx (ru_ID run) (ca_ID call) (rt_Store s) = Inr a" "ap_Status a = ApprovalPending" "s' = s"
      by blast
    then have "approval_for_call None (ru_ID run) (ca_ID call) (rt_Store s) = Inr a"
      by (simp add: approval_for_call_def)
    with a g approval_for_call_Inr [OF a(1)] show ?thesis by (simp add: settle_gated)
  next
    assume r: "request_approval env ctx run t call (gate_evaluate env run (to_Spec t) call s) s = (Inr (), s')"
    then obtain b where "raise_approval env ctx run t call (gate_evaluate env run (to_Spec t) call s) b s = (Inr (), s')"
      by (simp add: request_approval_def)
    from raise_approval_ok [OF this] obtain a where a: "approval_for_call None (ru_ID run) (ca_ID call) (rt_Store s') = Inr a"
      "ap_Status a = ApprovalPending" "ap_ToolName a = ca_Name call" "ap_Arguments a = ca_Arguments call" "ap_SessionID a = ru_SessionID run"
      by blast
    with g approval_for_call_Inr [OF a(1)] keepsD [OF keeps_request r] show ?thesis by (simp add: settle_gated)
  qed
qed


text \<open>\<open>resume\<close> only ever touches the turn queue.\<close>

lemma keeps_resume: "keeps rt_Store (resume ctx rid)" "keeps rt_Executed (resume ctx rid)" "keeps rt_Permissions (resume ctx rid)"
proof -
  have go: "keeps rt_Store (\<lambda>s. (Inr (), s\<lparr>rt_Turns := f s\<rparr>))" "keeps rt_Executed (\<lambda>s. (Inr (), s\<lparr>rt_Turns := f s\<rparr>))"
    "keeps rt_Permissions (\<lambda>s. (Inr (), s\<lparr>rt_Turns := f s\<rparr>))" for f :: "Rt \<Rightarrow> Turns"
    by (simp_all add: keeps_def)
  have split: "keeps f (resume ctx rid)"
    if "\<And>g. keeps f (\<lambda>s. (Inr (), s\<lparr>rt_Turns := g s\<rparr>))" for f :: "Rt \<Rightarrow> 'x"
  proof -
    have "keeps f (rbind (st_read (get_run ctx rid)) (\<lambda>run.
        if is_terminal (ru_Status run) then ok ()
        else rbind (st_read (pending_approvals ctx (ru_SessionID run))) (\<lambda>pending.
          if \<exists>a \<in> set pending. ap_RunID a = rid then ok ()
          else rbind (st_read (pending_questions ctx (ru_SessionID run))) (\<lambda>questions.
            if \<exists>q \<in> set questions. qu_RunID q = rid then ok ()
            else (\<lambda>s. (Inr (), s\<lparr>rt_Turns := resume_run rid (rt_Turns s)\<rparr>)))))) "
      using that by (auto intro!: keeps_rbind keeps_basic(1-3))
    then show ?thesis by (simp add: keeps_def resume_def)
  qed
  show "keeps rt_Store (resume ctx rid)" "keeps rt_Executed (resume ctx rid)" "keeps rt_Permissions (resume ctx rid)"
    by (rule split, rule go)+
qed

text \<open>What a decision leaves, once it was accepted.\<close>

lemma decided_store:
  assumes "rt_decide_approval env ctx aid allow scope by s = (Inr a, s')"
  shows "\<exists>t sc at. decide_approval ctx aid (if allow then ApprovalAllowed else ApprovalDenied) sc by at (rt_Store s) = Inr (a, t) \<and>
    st_approvals (rt_Store s') = st_approvals t \<and> rt_Executed s' = rt_Executed s"
proof -
  define sc where "sc = (if scope = RememberOther '''' then RememberOnce else scope)"
  let ?at = "rv_Now (lv_Rt env) (rt_Tick s)"
  obtain u t where d: "decide_approval ctx aid (if allow then ApprovalAllowed else ApprovalDenied) sc by ?at (rt_Store s) = Inr (u, t)"
    using assms by (auto simp: rt_decide_approval_def Let_def rbind_def now_def rtry_def st_update_def fail_def sc_def
        split: sum.splits prod.splits)
  let ?s1 = "s\<lparr>rt_Tick := Suc (rt_Tick s), rt_Store := t\<rparr>"
  let ?s2 = "if allow \<and> sc = RememberSession
              then ?s1\<lparr>rt_Permissions := map_option (grant_for_session (ap_SessionID u) (ap_ToolName u)) (rt_Permissions ?s1)\<rparr>
              else ?s1"
  let ?ap = "rt_append (lv_Rt env) ctx (ap_SessionID u) (ap_RunID u) EventApprovalResolved
           (PApprovalResolved \<lparr>ar_ApprovalID = ap_ID u, ar_CallID = ap_ToolCallID u, ar_ToolName = ap_ToolName u,
              ar_Status = ap_Status u, ar_Scope = ap_Scope u, ar_DecidedBy = by\<rparr>)"
  have m: "rbind ?ap (\<lambda>_. rbind (resume ctx (ap_RunID u)) (\<lambda>_. ok u)) ?s2 = (Inr a, s')"
    using assms d by (simp add: rt_decide_approval_def Let_def rbind_def now_def rtry_def st_update_def ok_def sc_def)
  obtain r s3 where ap: "?ap ?s2 = (r, s3)" by fastforce
  with m have r: "r = Inr ()" and m2: "rbind (resume ctx (ap_RunID u)) (\<lambda>_. ok u) s3 = (Inr a, s')"
    by (auto simp: rbind_def split: sum.splits)
  obtain r4 s4 where rs: "resume ctx (ap_RunID u) s3 = (r4, s4)" by fastforce
  with m2 have a: "u = a" "s4 = s'" by (auto simp: rbind_def ok_def split: sum.splits)
  have "rt_Store s' = rt_Store s3" "rt_Executed s' = rt_Executed s3" using keeps_resume [THEN keepsD, OF rs] a by simp_all
  moreover from rt_append_frame [OF ap] r have "st_approvals (rt_Store s3) = st_approvals t" "rt_Executed s3 = rt_Executed s"
    by (auto dest: appended_frame(3))
  ultimately have "st_approvals (rt_Store s') = st_approvals t" "rt_Executed s' = rt_Executed s" by simp_all
  then show ?thesis using d [unfolded a(1)] by blast
qed

lemma gm_keyed_Cons: "gm_keyed key ((k, v) # m) \<longleftrightarrow> key v = k \<and> k \<notin> fst ` set m \<and> gm_keyed key m"
  by (auto simp: gm_keyed_def gm_wf_def gm_get_def split: if_splits) (metis fst_conv image_eqI map_of_SomeD)+

lemma find_after_update:
  assumes "gm_keyed key m" "gm_get m (key a) = Some a" "find P (gm_vals m) = Some a" "P b"
  shows "find P (gm_vals (gm_set m (key a) b)) = Some b"
proof -
  have "gm_keyed key m \<Longrightarrow> find P (gm_vals m) = Some a \<Longrightarrow> find P (gm_vals (gm_set m (key a) b)) = Some b"
  proof (induction m)
    case (Cons x m)
    obtain k v where x: "x = (k, v)" by fastforce
    have k: "key v = k" "gm_keyed key m" "k \<notin> fst ` set m"
      using Cons.prems(1) x by (simp_all add: gm_keyed_Cons)
    show ?case
    proof (cases "P v")
      case True
      with Cons.prems(2) x k show ?thesis using assms(4) by (simp add: gm_vals_def gm_set_def)
    next
      case False
      with Cons.prems(2) x have f: "find P (gm_vals m) = Some a" by (simp add: gm_vals_def)
      then have "a \<in> set (gm_vals m)" by (auto dest: find_SomeD)
      then have "gm_get m (key a) = Some a" using gm_keyed_vals [OF k(2)] by blast
      then have "key a \<noteq> k" using k(3) gm_get_mem by force
      with Cons.IH [OF k(2) f] False x show ?thesis by (simp add: gm_vals_def gm_set_def)
    qed
  qed (simp add: gm_vals_def)
  then show ?thesis using assms by blast
qed

text \<open>C16. The decision a person makes is the one that is carried out: once it was accepted, the run that
  comes back to the call runs it when it was allowed and is told it was declined when it was not, the
  policy is not consulted again, no second answer to the same prompt is accepted, and deciding runs
  nothing by itself.\<close>

theorem decision_governs_the_call:
  assumes "approvals_wf (rt_Store s)" "approval_for_call None (ru_ID run) (ca_ID call) (rt_Store s) = Inr a"
    and "rt_decide_approval env None (ap_ID a) allow scope by s = (Inr b, s')" "gated env run call reg t"
  shows "settle_call env None run call s' =
      (if allow then execute_call env reg None call s'
       else (Inr (denied_result env call ''a human declined this action'', NotParked), s')) \<and>
    rt_Executed s' = rt_Executed s \<and> ap_Status b = (if allow then ApprovalAllowed else ApprovalDenied) \<and>
    fst (rt_decide_approval env None (ap_ID a) allow' scope' by' s') = Inl err_approval_not_pending"
proof -
  obtain t1 sc at where d: "decide_approval None (ap_ID a) (if allow then ApprovalAllowed else ApprovalDenied) sc by at (rt_Store s) = Inr (b, t1)"
    and s': "st_approvals (rt_Store s') = st_approvals t1" "rt_Executed s' = rt_Executed s"
    using decided_store [OF assms(3)] by blast
  have k: "gm_keyed ap_ID (st_approvals (rt_Store s))" using assms(1) by (simp add: approvals_wf_def)
  have f: "find (\<lambda>x. ap_RunID x = ru_ID run \<and> ap_ToolCallID x = ca_ID call) (gm_vals (st_approvals (rt_Store s))) = Some a"
    using assms(2) by (auto simp: approval_for_call_def split: option.splits)
  then have a: "gm_get (st_approvals (rt_Store s)) (ap_ID a) = Some a" "ap_RunID a = ru_ID run" "ap_ToolCallID a = ca_ID call"
    using find_SomeD [OF f] by (simp_all add: gm_keyed_vals [OF k])
  with d have b: "b = a\<lparr>ap_Status := if allow then ApprovalAllowed else ApprovalDenied, ap_Scope := sc, ap_DecidedBy := by, ap_DecidedAt := Some at\<rparr>"
    and t1: "st_approvals t1 = gm_set (st_approvals (rt_Store s)) (ap_ID a) b"
    by (auto simp: decide_approval_def Let_def split: if_splits)
  have "approval_for_call None (ru_ID run) (ca_ID call) (rt_Store s') = Inr b"
    using find_after_update [OF k a(1) f, of b] a(2,3) by (simp add: approval_for_call_def s' t1 b)
  moreover have "fst (rt_decide_approval env None (ap_ID a) allow' scope' by' s') = Inl err_approval_not_pending"
    by (simp add: rt_decide_approval_def Let_def rbind_def now_def rtry_def st_update_def fail_def decide_approval_def s' t1 b
        approval_is_pending_def)
  ultimately show ?thesis using s'(2) assms(4) by (simp add: settle_gated b)
qed


definition workshop :: LoopEnv where
  "workshop = \<lparr>lv_Rt = plain_rt_env,
     lv_Tools = Some \<lparr>rg_tools = [(''write_file'', sample_tool ''write_file'' LevelWorkspaceWrite False),
         (''grep'', sample_tool ''grep'' LevelWorkspaceRead False), (''exec_command'', sample_tool ''exec_command'' LevelExecute False)],
       rg_compiled = [(''write_file'', Some ''{path}''), (''grep'', Some ''{path}''), (''exec_command'', None)]\<rparr>,
     lv_Lib = lenient, lv_Decode = (\<lambda>_. []),
     lv_AskWire = (\<lambda>prompt. Inr \<lparr>aw_Prompt = prompt, aw_Kind = '''',
       aw_Options = [\<lparr>qo_ID = ''a'', qo_Label = ''apples'', qo_Detail = ''''\<rparr>, \<lparr>qo_ID = ''b'', qo_Label = ''pears'', qo_Detail = ''''\<rparr>]\<rparr>),
     lv_ToLower = to_lower, lv_EqualFold = equal_fold\<rparr>"

definition at_work :: Rt where
  "at_work = (new_rt (new_store\<lparr>st_sessions := [(''s'', sample_session ''s'' 1)],
     st_runs := [(''r1'', sample_run ''r1'' ''s'' RunRunning)]\<rparr>))\<lparr>rt_Permissions := Some (new_engine local_profile)\<rparr>"

abbreviation working :: Run where
  "working \<equiv> sample_run ''r1'' ''s'' RunRunning"

definition asked_for :: "string \<Rightarrow> string \<Rightarrow> string \<Rightarrow> ToolCall" where
  "asked_for cid name args = \<lparr>ca_ID = cid, ca_Name = name, ca_Arguments = args,
     ca_Context = \<lparr>cx_SessionID = ''s'', cx_RunID = ''r1'', cx_Trust = TrustUser, cx_From = ProvenanceOperator,
       cx_Origin = sample_origin, cx_Seq = 1\<rparr>\<rparr>"

lemma of_result: "fst m = r \<Longrightarrow> m = (r, snd m)"
  by (cases m) simp

theorem no_tool_runs_ungated_witness:
  "\<exists>s' reg. settle_call workshop None (working\<lparr>ru_Kind := RunWorker\<rparr>) (asked_for ''c1'' ''grep'' ''x'') at_work =
       (Inr (no_result\<lparr>re_Content := ''did grep''\<rparr>, NotParked), s') \<and>
     rt_Executed s' = [asked_for ''c1'' ''grep'' ''x''] \<and> lv_Tools workshop = Some reg \<and>
     ca_Name (asked_for ''c1'' ''grep'' ''x'') \<in> set read_only_for_workers"
proof -
  let ?m = "settle_call workshop None (working\<lparr>ru_Kind := RunWorker\<rparr>) (asked_for ''c1'' ''grep'' ''x'') at_work"
  have "fst ?m = Inr (no_result\<lparr>re_Content := ''did grep''\<rparr>, NotParked)" by code_simp
  from of_result [OF this] have m: "?m = (Inr (no_result\<lparr>re_Content := ''did grep''\<rparr>, NotParked), snd ?m)" .
  have e: "rt_Executed (snd ?m) = [asked_for ''c1'' ''grep'' ''x'']" by code_simp
  have ne: "rt_Executed (snd ?m) \<noteq> rt_Executed at_work" unfolding e by (simp add: at_work_def new_rt_def)
  from no_tool_runs_ungated [OF m ne] m e show ?thesis by auto
qed

theorem parked_call_waits_for_one_decision_witness:
  "\<exists>s' a. settle_call workshop None working (asked_for ''c1'' ''write_file'' ''x'') at_work = (Inr (no_result, ParkedForApproval), s') \<and>
     approval_for_call None ''r1'' ''c1'' (rt_Store s') = Inr a \<and> ap_Status a = ApprovalPending"
proof -
  let ?m = "settle_call workshop None working (asked_for ''c1'' ''write_file'' ''x'') at_work"
  have "fst ?m = Inr (no_result, ParkedForApproval)" by code_simp
  from of_result [OF this] have m: "?m = (Inr (no_result, ParkedForApproval), snd ?m)" .
  from parked_call_waits_for_one_decision [OF m] m show ?thesis by (auto simp: sample_run_def asked_for_def)
qed

definition parked_at_work :: Rt where
  "parked_at_work = snd (settle_call workshop None working (asked_for ''c1'' ''write_file'' ''x'') at_work)"

definition the_prompt :: Approval where
  "the_prompt = projr (approval_for_call None ''r1'' ''c1'' (rt_Store parked_at_work))"

theorem decision_governs_the_call_witness:
  "\<exists>b s' reg. rt_decide_approval workshop None (ap_ID the_prompt) True RememberOnce sample_origin parked_at_work = (Inr b, s') \<and>
     settle_call workshop None working (asked_for ''c1'' ''write_file'' ''x'') s' =
       execute_call workshop reg None (asked_for ''c1'' ''write_file'' ''x'') s' \<and>
     fst (rt_decide_approval workshop None (ap_ID the_prompt) False RememberOnce sample_origin s') = Inl err_approval_not_pending"
proof -
  let ?d = "rt_decide_approval workshop None (ap_ID the_prompt) True RememberOnce sample_origin parked_at_work"
  have "\<not> isl (fst ?d)" by code_simp
  then obtain b where d: "?d = (Inr b, snd ?d)" by (metis isl_def of_result sum.exhaust)
  have wf: "approvals_wf (rt_Store parked_at_work)"
  proof -
    have "map (\<lambda>(k, a). (k, ap_ID a)) (st_approvals (rt_Store parked_at_work)) = [(''0'', ''0'')]" by code_simp
    then show ?thesis by (auto simp: approvals_wf_def gm_keyed_def gm_wf_def gm_get_def split: if_splits)
  qed
  have "approval_for_call None ''r1'' ''c1'' (rt_Store parked_at_work) = Inr the_prompt" by code_simp
  then have f: "approval_for_call None (ru_ID working) (ca_ID (asked_for ''c1'' ''write_file'' ''x'')) (rt_Store parked_at_work) = Inr the_prompt"
    by (simp add: sample_run_def asked_for_def)
  have g: "gated workshop working (asked_for ''c1'' ''write_file'' ''x'') (the (lv_Tools workshop)) (sample_tool ''write_file'' LevelWorkspaceWrite False)"
    by (simp add: gated_def workshop_def lookup_tool_def gm_get_def asked_for_def ask_name_def sample_run_def)
  from decision_governs_the_call [OF wf f d g, of False RememberOnce sample_origin] d show ?thesis by auto
qed


subsection \<open>Results are recorded in the order of the calls\<close>

text \<open>What a run's loop goes by, in the order of the log: the calls the model asked for, the calls that
  have a result, the ends of its turns.\<close>

datatype entry = Asked ToolCallID | Settled ToolCallID | Turned

fun entries_of :: "EventKind \<Rightarrow> EventPayload \<Rightarrow> entry list" where
  "entries_of kind (PToolCallRequested p) = [Asked (tq_CallID p)] @ (if kind = EventAssistantMessageCompleted then [Turned] else [])"
| "entries_of kind (PToolCallCompleted p) = [Settled (tc_CallID p)] @ (if kind = EventAssistantMessageCompleted then [Turned] else [])"
| "entries_of kind p = (if kind = EventAssistantMessageCompleted then [Turned] else [])"

definition ledger_of :: "RunID \<Rightarrow> Event list \<Rightarrow> entry list" where
  "ledger_of rid events = concat (map (\<lambda>e. if ev_RunID e = rid then entries_of (ev_Kind e) (ev_Payload e) else []) events)"

definition ledger_in :: "RunID \<Rightarrow> SessionID \<Rightarrow> Rt \<Rightarrow> entry list" where
  "ledger_in rid sid s = ledger_of rid (gm_list (st_events (rt_Store s)) sid)"

text \<open>A tool may do what it likes, but it writes none of this for the run that called it.\<close>

definition keeps_ledger :: "RunID \<Rightarrow> SessionID \<Rightarrow> LoopEnv \<Rightarrow> bool" where
  "keeps_ledger rid sid env \<longleftrightarrow> (\<forall>reg name t ctx call w r w'. lv_Tools env = Some reg \<longrightarrow> lookup_tool reg name = Some t \<longrightarrow>
     to_Execute t ctx call w = (r, w') \<longrightarrow> ledger_in rid sid w' = ledger_in rid sid w)"

lemma ledger_in_simps [simp]:
  "ledger_in rid sid (s\<lparr>rt_Tick := n\<rparr>) = ledger_in rid sid s" "ledger_in rid sid (s\<lparr>rt_Executed := x\<rparr>) = ledger_in rid sid s"
  "ledger_in rid sid (s\<lparr>rt_Turns := tn\<rparr>) = ledger_in rid sid s"
  by (simp_all add: ledger_in_def)

lemma tickless_ledger: "tickless (ledger_in rid sid)"
  by (simp add: tickless_def)

lemma append_ledger:
  assumes "rt_append env ctx sid rid kind p s = (r, s')"
  shows "ledger_in rid' sid' s' = ledger_in rid' sid' s @ (if r = Inr () \<and> sid' = sid \<and> rid' = rid then entries_of kind p else [])"
proof (cases "r = Inr ()")
  case True
  with rt_append_frame [OF assms] have a: "appended sid rid kind p (rt_Store s) (rt_Store s')" by blast
  obtain e where e: "gm_list (st_events (rt_Store s')) sid = gm_list (st_events (rt_Store s)) sid @ [e]" "ev_RunID e = rid"
    "ev_Payload e = p" "ev_Kind e = kind"
    using appended_frame(7) [OF a] by blast
  show ?thesis
  proof (cases "sid' = sid")
    case True
    then show ?thesis using e \<open>r = Inr ()\<close> by (simp add: ledger_in_def ledger_of_def)
  next
    case False
    then show ?thesis using appended_frame(8) [OF a] by (simp add: ledger_in_def)
  qed
next
  case False
  with rt_append_frame [OF assms] show ?thesis by (simp add: ledger_in_def)
qed

lemma keeps_ledger_append: "entries_of kind p = [] \<Longrightarrow> keeps (ledger_in rid' sid') (rt_append env ctx sid rid kind p)"
  using append_ledger [OF surjective_pairing, of rid' sid' env ctx sid rid kind p] by (simp add: keeps_def)

lemma keeps_ledger_write: "(\<And>s t. g s = Inr t \<Longrightarrow> st_events t = st_events s) \<Longrightarrow> keeps (ledger_in rid sid) (st_write g)"
  by (auto simp: keeps_def st_write_def ledger_in_def split: sum.split)

lemma prompt_writes: "create_approval ctx a s = Inr t \<Longrightarrow> st_events t = st_events s"
  "create_question ctx q s = Inr t \<Longrightarrow> st_events t = st_events s"
  by (auto simp: create_approval_def create_question_def split: if_splits)

lemmas ledger_rules = keeps_basic(1-3) keeps_basic(4,5) [OF tickless_ledger] keeps_rbind keeps_rtry keeps_ledger_append
  keeps_ledger_write

text \<open>Settling a call either writes what a prompt takes, or is a tool's doing.\<close>

lemma settle_call_via:
  assumes "settle_call env ctx run call s = (r, s')" "keeps f (settle_ask env ctx run call)"
    and "\<And>t outcome. keeps f (request_approval env ctx run t call outcome)" "\<And>u x. f (u\<lparr>rt_Executed := x\<rparr>) = f u"
  shows "f s' = f s \<or> (\<exists>reg t o1. lv_Tools env = Some reg \<and> lookup_tool reg (ca_Name call) = Some t \<and>
    to_Execute t ctx call (s\<lparr>rt_Executed := rt_Executed s @ [call]\<rparr>) = (o1, s'))"
proof -
  have req: "keeps f (rbind (request_approval env ctx run t call outcome) (\<lambda>_. ok (no_result, ParkedForApproval)))" for t outcome
    by (intro keeps_rbind keeps_basic(1) assms(3))
  have exec: "f s' = f s \<or> (\<exists>t o1. lookup_tool reg (ca_Name call) = Some t \<and>
      to_Execute t ctx call (s\<lparr>rt_Executed := rt_Executed s @ [call]\<rparr>) = (o1, s'))"
    if "execute_call env reg ctx call s = (r, s')" for reg
    using that assms(4)
    by (auto simp: execute_call_def registry_execute_def split: option.splits sum.splits ToolFailure.splits prod.splits)
  have judge: "f s' = f s \<or> (\<exists>t o1. lookup_tool reg (ca_Name call) = Some t \<and>
      to_Execute t ctx call (s\<lparr>rt_Executed := rt_Executed s @ [call]\<rparr>) = (o1, s'))"
    if "judge_call env reg ctx run t call s = (r, s')" for reg t
    using that exec keepsD [OF req] by (auto simp: judge_call_def Let_def split: Decision.splits)
  consider (gated) reg t where "gated env run call reg t" | (other) "\<nexists>reg t. gated env run call reg t" by blast
  then show ?thesis
  proof cases
    case gated
    then have "lv_Tools env = Some reg" by (simp add: gated_def)
    with gated assms(1) exec judge show ?thesis
      by (auto simp: settle_gated split: sum.splits ApprovalStatus.splits if_splits)
  next
    case other
    with settle_ungated [OF assms(1)] keepsD [OF assms(2)] exec show ?thesis by blast
  qed
qed

lemma settle_call_ledger:
  assumes "settle_call env ctx run call s = (r, s')" "keeps_ledger rid sid env"
  shows "ledger_in rid sid s' = ledger_in rid sid s"
proof -
  have ask: "keeps (ledger_in rid sid) (settle_ask env ctx run call)"
    unfolding settle_ask_def ask_question_def Let_def
    by (auto intro!: ledger_rules prompt_writes split: sum.split QuestionStatus.split)
  have "keeps (ledger_in rid sid) (raise_approval env ctx run t call outcome b)" for t outcome b
    unfolding raise_approval_def Let_def by (intro ledger_rules) (auto dest: prompt_writes)
  then have "keeps (ledger_in rid sid) (request_approval env ctx run t call outcome)" for t outcome
    by (simp add: keeps_def request_approval_def)
  from settle_call_via [OF assms(1) ask this]
  show ?thesis using assms(2) unfolding keeps_ledger_def by fastforce
qed

subsection \<open>A run keeps its row\<close>

definition housed :: "RunID \<Rightarrow> SessionID \<Rightarrow> Rt \<Rightarrow> bool" where
  "housed rid sid s \<longleftrightarrow> gm_get (st_runs (rt_Store s)) rid \<noteq> None \<and> gm_get (st_sessions (rt_Store s)) sid \<noteq> None"

text \<open>A tool does not take away the run or the session it works for.\<close>

definition keeps_house :: "RunID \<Rightarrow> SessionID \<Rightarrow> LoopEnv \<Rightarrow> bool" where
  "keeps_house rid sid env \<longleftrightarrow> (\<forall>reg name t ctx call w r w'. lv_Tools env = Some reg \<longrightarrow> lookup_tool reg name = Some t \<longrightarrow>
     to_Execute t ctx call w = (r, w') \<longrightarrow> housed rid sid w \<longrightarrow> housed rid sid w')"

lemma housed_simps [simp]:
  "housed rid sid (s\<lparr>rt_Tick := n\<rparr>) = housed rid sid s" "housed rid sid (s\<lparr>rt_Executed := x\<rparr>) = housed rid sid s"
  "housed rid sid (s\<lparr>rt_Turns := tn\<rparr>) = housed rid sid s"
  by (simp_all add: housed_def)

lemma keeps_housed_append: "keeps (housed rid sid) (rt_append env ctx sid' rid' kind p)"
  unfolding keeps_def
proof
  fix s
  let ?m = "rt_append env ctx sid' rid' kind p s"
  have "?m = (fst ?m, snd ?m)" by simp
  from rt_append_frame [OF this]
  have "st_runs (rt_Store (snd ?m)) = st_runs (rt_Store s) \<and> st_sessions (rt_Store (snd ?m)) = st_sessions (rt_Store s)"
    by (cases "fst ?m = Inr ()") (auto dest: appended_frame(1,2))
  then show "housed rid sid (snd ?m) = housed rid sid s" by (simp add: housed_def)
qed

lemma keeps_housed_prompts: "keeps (housed rid sid) (st_write (create_approval ctx a))" "keeps (housed rid sid) (st_write (create_question ctx q))"
  by (auto simp: keeps_def st_write_def housed_def create_approval_def create_question_def split: sum.split if_splits)

lemma tickless_housed: "tickless (housed rid sid)"
  by (simp add: tickless_def)

lemmas housed_rules = keeps_basic(1-3) keeps_basic(4,5) [OF tickless_housed] keeps_rbind keeps_rtry keeps_housed_append keeps_housed_prompts

lemma settle_call_housed:
  assumes "settle_call env ctx run call s = (r, s')" "keeps_house rid sid env" "housed rid sid s"
  shows "housed rid sid s'"
proof -
  have ask: "keeps (housed rid sid) (settle_ask env ctx run call)"
    unfolding settle_ask_def ask_question_def Let_def
    by (auto intro!: housed_rules split: sum.split QuestionStatus.split)
  have "keeps (housed rid sid) (raise_approval env ctx run t call outcome b)" for t outcome b
    unfolding raise_approval_def Let_def by (intro housed_rules)
  then have "keeps (housed rid sid) (request_approval env ctx run t call outcome)" for t outcome
    by (simp add: keeps_def request_approval_def)
  from settle_call_via [OF assms(1) ask this]
  show ?thesis using assms(2,3) unfolding keeps_house_def by fastforce
qed

lemma st_read_frame: "in_ctx rc (\<lambda>ctx. st_read (g ctx)) s = (r, s') \<Longrightarrow> s' = s"
  by (auto simp: in_ctx_def st_read_def split: sum.splits)

lemma note_and_record_ledger:
  assumes "note_and_record env rc run call result s = (r, s')"
  shows "ledger_in (ru_ID run) (ru_SessionID run) s' = ledger_in (ru_ID run) (ru_SessionID run) s @
    (if r = Inr NotParked then [Settled (ca_ID call)] else [])"
proof -
  obtain result' where m: "rbind (now (lv_Rt env)) (\<lambda>started.
         rbind (in_ctx rc (\<lambda>ctx. record_tool_result env ctx run call result' started)) (\<lambda>_. ok NotParked)) s = (r, s')"
    using assms by (auto simp: note_and_record_def Let_def)
  define s4 where "s4 = s\<lparr>rt_Tick := Suc (rt_Tick s)\<rparr>"
  define started where "started = rv_Now (lv_Rt env) (rt_Tick s)"
  obtain r5 s5 where 5: "rt_append (lv_Rt env) (ctx_at rc s4) (ru_SessionID run) (ru_ID run) EventToolCallCompleted
         (PToolCallCompleted \<lparr>tc_CallID = ca_ID call, tc_Name = ca_Name call, tc_Summary = re_Summary result',
            tc_Content = re_Content result', tc_IsError = re_IsError result', tc_Truncated = re_Truncated result',
            tc_Foreign = returns_foreign_content env (ca_Name call), tc_From = provenance_of env (ca_Name call),
            tc_Artifact = re_Artifact result', tc_DurationMS = milliseconds (rv_Now (lv_Rt env) (rt_Tick s4) - started)\<rparr>)
            (s4\<lparr>rt_Tick := Suc (rt_Tick s4)\<rparr>) = (r5, s5)" by fastforce
  with m have "s5 = s'" "r = Inr NotParked \<longleftrightarrow> r5 = Inr ()"
    by (auto simp: rbind_def in_ctx_def record_tool_result_def now_def ok_def s4_def started_def split: sum.splits)
  with append_ledger [OF 5, of "ru_ID run" "ru_SessionID run"] show ?thesis by (simp add: s4_def)
qed

lemma run_tool_ledger:
  assumes "run_tool env rc run pending s = (r, s')" "keeps_ledger (ru_ID run) (ru_SessionID run) env"
  shows "ledger_in (ru_ID run) (ru_SessionID run) s' = ledger_in (ru_ID run) (ru_SessionID run) s @
    (if r = Inr NotParked then [Settled (pe_CallID pending)] else [])"
proof (cases "ctx_at rc s")
  case (Some e)
  with assms(1) show ?thesis by (auto simp: run_tool_def)
next
  case None
  note run = assms(1) [unfolded run_tool_def None option.case]
  obtain r1 s1 where 1: "in_ctx rc (\<lambda>ctx. st_read (conversation_trust ctx run (pe_Seq pending))) s = (r1, s1)" by fastforce
  then have s1: "s1 = s" by (rule st_read_frame)
  obtain r2 s2 where 2: "in_ctx rc (\<lambda>ctx. st_read (provenance_so_far ctx run (pe_Seq pending))) s = (r2, s2)" by fastforce
  then have s2: "s2 = s" by (rule st_read_frame)
  show ?thesis
  proof (cases "isl r1 \<or> isl r2")
    case True
    with run 1 2 s1 s2 show ?thesis by (cases r1; cases r2) (auto simp: rbind_def)
  next
    case False
    then obtain trust prov where ok: "r1 = Inr trust" "r2 = Inr prov" by (metis isl_def sum.exhaust)
    define call where "call = call_of_pending run pending trust prov"
    have cid: "ca_ID call = pe_CallID pending" by (simp add: call_def call_of_pending_def)
    obtain r3 s3 where 3: "settle_call env (ctx_at rc s) run call s = (r3, s3)" by fastforce
    note same = settle_call_ledger [OF 3 assms(2)]
    show ?thesis
    proof (cases r3)
      case (Inl err)
      with run 1 2 3 ok s1 s2 same show ?thesis by (auto simp: rbind_def in_ctx_def call_def Let_def)
    next
      case (Inr rp)
      obtain result park where rp: "rp = (result, park)" by fastforce
      show ?thesis
      proof (cases "park = NotParked")
        case False
        with run 1 2 3 ok s1 s2 same Inr rp show ?thesis by (auto simp: rbind_def in_ctx_def call_def Let_def ok_def)
      next
        case True
        from run 1 2 3 ok s1 s2 Inr rp True have "note_and_record env rc run call result s3 = (r, s')"
          by (simp add: rbind_def in_ctx_def call_def Let_def)
        from note_and_record_ledger [OF this] same cid show ?thesis by simp
      qed
    qed
  qed
qed

lemma run_calls_ledger:
  assumes "run_calls env rc run calls s = (r, s')" "keeps_ledger (ru_ID run) (ru_SessionID run) env"
  shows "\<exists>k \<le> length calls. ledger_in (ru_ID run) (ru_SessionID run) s' =
      ledger_in (ru_ID run) (ru_SessionID run) s @ map (Settled \<circ> pe_CallID) (take k calls) \<and>
    (r = Inr NotParked \<longrightarrow> k = length calls) \<and> (\<forall>why. r = Inr why \<longrightarrow> why \<noteq> NotParked \<longrightarrow> k < length calls)"
  using assms(1)
proof (induction calls arbitrary: s)
  case (Cons c calls)
  obtain r1 s1 where 1: "run_tool env rc run c s = (r1, s1)" by fastforce
  note one = run_tool_ledger [OF 1 assms(2)]
  show ?case
  proof (cases "r1 = Inr NotParked")
    case True
    with Cons.prems 1 have "run_calls env rc run calls s1 = (r, s')" by (simp add: rbind_def)
    from Cons.IH [OF this] obtain k where "k \<le> length calls" "ledger_in (ru_ID run) (ru_SessionID run) s' =
      ledger_in (ru_ID run) (ru_SessionID run) s1 @ map (Settled \<circ> pe_CallID) (take k calls)"
      "r = Inr NotParked \<longrightarrow> k = length calls" "\<forall>why. r = Inr why \<longrightarrow> why \<noteq> NotParked \<longrightarrow> k < length calls" by blast
    with one True show ?thesis by (intro exI [of _ "Suc k"]) simp
  next
    case False
    with Cons.prems 1 have "s' = s1" "r \<noteq> Inr NotParked" by (auto simp: rbind_def ok_def split: sum.splits if_splits)
    with one False show ?thesis by (intro exI [of _ 0]) simp
  qed
qed (auto simp: ok_def)

lemma run_tools_ledger:
  assumes "run_tools env rc run calls s = (r, s')" "keeps_ledger (ru_ID run) (ru_SessionID run) env"
  shows "\<exists>k \<le> length calls. ledger_in (ru_ID run) (ru_SessionID run) s' =
      ledger_in (ru_ID run) (ru_SessionID run) s @ map (Settled \<circ> pe_CallID) (take k calls) \<and>
    (r = Inr False \<longrightarrow> k = length calls) \<and> (r = Inr True \<longrightarrow> k < length calls)"
proof -
  obtain r1 s1 where 1: "run_calls env rc run calls s = (r1, s1)" by fastforce
  have park: "ledger_in rid sid (suspend env ctx run why s1) = ledger_in rid sid s1" for rid sid ctx why
  proof -
    have "keeps (ledger_in rid sid) (transition e ctx run status reason kind)" for e status reason kind
      unfolding transition_def
      by (auto intro!: ledger_rules simp: update_run_def split: option.splits)
    then show ?thesis by (simp add: suspend_def keeps_def split: prod.split)
  qed
  show ?thesis
  proof (cases r1)
    case (Inl err)
    with assms(1) 1 have "r = Inl err" "s' = s1" by (auto simp: run_tools_def rbind_def)
    with run_calls_ledger [OF 1 assms(2)] show ?thesis by auto
  next
    case (Inr why)
    show ?thesis
    proof (cases "why = NotParked")
      case True
      with Inr assms(1) 1 have "r = Inr False" "s' = s1" by (auto simp: run_tools_def rbind_def)
      with run_calls_ledger [OF 1 assms(2)] Inr True show ?thesis by auto
    next
      case False
      with Inr assms(1) 1 have "r = Inr True" "s' = suspend env (ctx_at rc s1) run why s1" by (auto simp: run_tools_def rbind_def)
      with run_calls_ledger [OF 1 assms(2)] Inr False park show ?thesis by auto
    qed
  qed
qed

lemma run_tool_housed:
  assumes "run_tool env rc run pending s = (r, s')" "keeps_house rid sid env" "housed rid sid s"
  shows "housed rid sid s'"
proof (cases "ctx_at rc s")
  case None
  note run = assms(1) [unfolded run_tool_def None option.case]
  obtain r1 s1 where 1: "in_ctx rc (\<lambda>ctx. st_read (conversation_trust ctx run (pe_Seq pending))) s = (r1, s1)" by fastforce
  obtain r2 s2 where 2: "in_ctx rc (\<lambda>ctx. st_read (provenance_so_far ctx run (pe_Seq pending))) s = (r2, s2)" by fastforce
  have same: "s1 = s" "s2 = s" using 1 2 by (auto dest: st_read_frame)
  have note_housed: "housed rid sid s4 = housed rid sid s3" if nr: "note_and_record env rc run call result s3 = (r4, s4)" for call result s3 r4 s4
  proof -
    have rec: "keeps (housed rid sid) (record_tool_result env ctx run call res started)" for ctx res started
      unfolding record_tool_result_def by (intro housed_rules)
    have "keeps (housed rid sid) (rbind (now (lv_Rt env)) (\<lambda>started.
         rbind (in_ctx rc (\<lambda>ctx. record_tool_result env ctx run call res started)) (\<lambda>_. ok NotParked)))" for res
      using rec by (intro housed_rules) (simp add: keeps_def in_ctx_def)
    moreover obtain res where "rbind (now (lv_Rt env)) (\<lambda>started.
         rbind (in_ctx rc (\<lambda>ctx. record_tool_result env ctx run call res started)) (\<lambda>_. ok NotParked)) s3 = (r4, s4)"
      using nr by (auto simp: note_and_record_def Let_def)
    ultimately show ?thesis by (rule keepsD)
  qed
  show ?thesis
  proof (cases "isl r1 \<or> isl r2")
    case True
    with run 1 2 same assms(3) show ?thesis by (cases r1; cases r2) (auto simp: rbind_def)
  next
    case False
    then obtain trust prov where ok: "r1 = Inr trust" "r2 = Inr prov" by (metis isl_def sum.exhaust)
    obtain r3 s3 where 3: "settle_call env (ctx_at rc s) run (call_of_pending run pending trust prov) s = (r3, s3)" by fastforce
    from settle_call_housed [OF 3 assms(2,3)] run 1 2 same ok 3 note_housed show ?thesis
      by (auto simp: rbind_def in_ctx_def Let_def ok_def split: sum.splits if_splits)
  qed
qed (use assms in \<open>simp add: run_tool_def\<close>)

lemma run_calls_housed:
  "run_calls env rc run calls s = (r, s') \<Longrightarrow> keeps_house rid sid env \<Longrightarrow> housed rid sid s \<Longrightarrow> housed rid sid s'"
proof (induction calls arbitrary: s)
  case (Cons c calls)
  obtain r1 s1 where 1: "run_tool env rc run c s = (r1, s1)" by fastforce
  with Cons.prems run_tool_housed [OF 1] have "housed rid sid s1" by blast
  with Cons 1 show ?case by (auto simp: rbind_def ok_def split: sum.splits if_splits)
qed (simp add: ok_def)

text \<open>C30. Results keep the order of the calls: of the calls a turn left outstanding, a prefix gets a
  result on record, each one once and in the order asked; the whole list does when the round ends
  with nobody to wait for; and when it parks, the call it waits for and every call after it have
  none, so nothing acts on an answer nobody has given. Of what the run's loop goes by nothing else is
  written: no call is added and no turn of the model counted.\<close>

theorem results_keep_the_order_of_calls:
  assumes "run_tools env rc run calls s = (r, s')" "keeps_ledger (ru_ID run) (ru_SessionID run) env"
  shows "\<exists>k \<le> length calls. ledger_in (ru_ID run) (ru_SessionID run) s' =
      ledger_in (ru_ID run) (ru_SessionID run) s @ map (Settled \<circ> pe_CallID) (take k calls) \<and>
    (r = Inr False \<longrightarrow> k = length calls) \<and> (r = Inr True \<longrightarrow> k < length calls)"
  using run_tools_ledger [OF assms] .

abbreviation pending_call :: "string \<Rightarrow> string \<Rightarrow> Seq \<Rightarrow> PendingCall" where
  "pending_call cid name q \<equiv> \<lparr>pe_CallID = cid, pe_Name = name, pe_Arguments = ''x'', pe_Seq = q\<rparr>"

lemma workshop_tools:
  "lookup_tool (the (lv_Tools workshop)) name = Some t \<Longrightarrow> \<exists>n l. t = sample_tool n l False"
  by (auto simp: workshop_def lookup_tool_def gm_get_def split: if_splits)

lemma workshop_keeps_ledger: "keeps_ledger rid sid workshop"
  unfolding keeps_ledger_def
proof (intro allI impI)
  fix reg name t ctx call and w w' :: Rt and r
  assume "lv_Tools workshop = Some reg" "lookup_tool reg name = Some t" "to_Execute t ctx call w = (r, w')"
  then show "ledger_in rid sid w' = ledger_in rid sid w"
    using workshop_tools [of name t] by (auto simp: sample_tool_def)
qed

theorem results_keep_the_order_of_calls_witness:
  "\<exists>s' k. run_tools workshop (\<lambda>_. None) working [pending_call ''c0'' ''grep'' 1, pending_call ''c1'' ''write_file'' 2, pending_call ''c2'' ''grep'' 3] at_work
      = (Inr True, s') \<and> k < 3 \<and> ledger_in ''r1'' ''s'' s' = map Settled (take k [''c0'', ''c1'', ''c2''])"
proof -
  let ?calls = "[pending_call ''c0'' ''grep'' 1, pending_call ''c1'' ''write_file'' 2, pending_call ''c2'' ''grep'' 3]"
  let ?m = "run_tools workshop (\<lambda>_. None) working ?calls at_work"
  have "fst ?m = Inr True" by code_simp
  from of_result [OF this] have m: "?m = (Inr True, snd ?m)" .
  have r: "ledger_in ''r1'' ''s'' at_work = []" "ru_ID working = ''r1''" "ru_SessionID working = ''s''"
    by (simp_all add: ledger_in_def ledger_of_def at_work_def new_rt_def new_store_def sample_run_def)
  from results_keep_the_order_of_calls [OF m workshop_keeps_ledger] obtain k where
    "k < length ?calls" "ledger_in ''r1'' ''s'' (snd ?m) = ledger_in ''r1'' ''s'' at_work @ map (Settled \<circ> pe_CallID) (take k ?calls)"
    unfolding r(2,3) by blast
  then have "k < 3" "ledger_in ''r1'' ''s'' (snd ?m) = map (Settled \<circ> pe_CallID) (take k ?calls)" by (simp_all add: r(1))
  then have "ledger_in ''r1'' ''s'' (snd ?m) = map Settled (take k [''c0'', ''c1'', ''c2''])" by (simp add: take_map [symmetric])
  with m \<open>k < 3\<close> show ?thesis by blast
qed

subsection \<open>Three ways this goes wrong\<close>

text \<open>An answer can come too early: the prompt is on record, and announced, before the run that raised
  it has parked. A decision made in between finds the run still registered and leaves resuming to it;
  the run then parks, with nothing left to wait for: no prompt is pending, no goroutine holds it, and a
  restart leaves paused runs as they are.\<close>

theorem early_decision_strands_run:
  "let s = at_work\<lparr>rt_Turns := admit ''r1'' ''s'' new_turns\<rparr>;
       asks = settle_call workshop None working (asked_for ''c1'' ''write_file'' ''x'') s;
       decided = rt_decide_approval workshop None ''0'' True RememberOnce sample_origin (snd asks);
       parked = suspend workshop None working ParkedForApproval (snd decided);
       gone = parked\<lparr>rt_Turns := release_run ''r1'' 0 (rt_Turns parked)\<rparr>;
       recovered = recover_orphaned_runs plain_rt_env None (new_rt (rt_Store gone))
   in fst asks = Inr (no_result, ParkedForApproval) \<and> \<not> isl (fst decided) \<and>
      map_option ru_Status (gm_get (st_runs (rt_Store gone)) ''r1'') = Some RunAwaitingApproval \<and>
      pending_approvals None ''s'' (rt_Store gone) = Inr [] \<and> active_runs gone = 0 \<and>
      fst recovered = Inr 0 \<and> active_runs (snd recovered) = 0 \<and>
      map_option ru_Status (gm_get (st_runs (rt_Store (snd recovered))) ''r1'') = Some RunAwaitingApproval"
  by code_simp

text \<open>One approval lets through every outstanding call that carries its ID: a model that gives two
  calls of one turn the same ID, a file to write and a program to run, has a person shown the first
  alone, and both run once it is allowed.\<close>

theorem one_approval_runs_both_calls:
  "let decided = snd (rt_decide_approval workshop None ''0'' True RememberOnce sample_origin parked_at_work);
       resumed = run_tools workshop (\<lambda>_. None) working [pending_call ''c1'' ''write_file'' 1, pending_call ''c1'' ''exec_command'' 2] decided
   in map ap_ToolName (gm_vals (st_approvals (rt_Store decided))) = [''write_file''] \<and> fst resumed = Inr False \<and>
      map ca_Name (rt_Executed (snd resumed)) = [''write_file'', ''exec_command''] \<and>
      oc_Decision (gate_evaluate workshop working (sample_spec ''exec_command'' LevelExecute False) (asked_for ''c1'' ''exec_command'' ''x'') decided) = Ask"
  by code_simp

text \<open>The duration recorded for a tool is not the tool's: both readings of the clock are taken once
  the call is settled, so a tool that takes a thousand milliseconds is recorded as taking one.\<close>

theorem tool_time_is_not_measured:
  "let slow = workshop\<lparr>lv_Rt := plain_rt_env\<lparr>rv_Now := \<lambda>n. int n * 1000000\<rparr>,
         lv_Tools := Some \<lparr>rg_tools = [(''grep'', (sample_tool ''grep'' LevelWorkspaceRead False)
           \<lparr>to_Execute := \<lambda>_ call w. (Inr no_result, w\<lparr>rt_Tick := rt_Tick w + 1000\<rparr>)\<rparr>)], rg_compiled = []\<rparr>\<rparr>;
       done = snd (run_tools slow (\<lambda>_. None) working [pending_call ''c1'' ''grep'' 1] at_work)
   in rt_Tick done > 1000 \<and>
      concat (map (\<lambda>e. case ev_Payload e of PToolCallCompleted p \<Rightarrow> [tc_DurationMS p] | _ \<Rightarrow> []) (gm_list (st_events (rt_Store done)) ''s'')) = [1]"
  by code_simp


subsection \<open>A question and its answer\<close>

lemma answered_store:
  assumes "rt_answer_question env ctx qid answer by s = (Inr b, s')"
  shows "\<exists>asked t at. get_question ctx qid (rt_Store s) = Inr asked \<and> trim_space answer \<noteq> '''' \<and>
    (qu_Kind asked = QuestionChoice \<longrightarrow> check_choice env asked (trim_space answer) = None) \<and>
    store_answer ctx qid AnswerGiven (trim_space answer) by at (rt_Store s) = Inr (b, t) \<and>
    st_questions (rt_Store s') = st_questions t \<and> rt_Executed s' = rt_Executed s"
proof -
  let ?at = "rv_Now (lv_Rt env) (rt_Tick s)"
  have ne: "trim_space answer \<noteq> ''''" using assms by (auto simp: rt_answer_question_def fail_def)
  obtain asked where g: "get_question ctx qid (rt_Store s) = Inr asked"
    using assms ne by (auto simp: rt_answer_question_def Let_def rbind_def st_read_def split: sum.splits)
  have c: "(if qu_Kind asked = QuestionChoice then check_choice env asked (trim_space answer) else None) = None"
    using assms ne g by (auto simp: rt_answer_question_def Let_def rbind_def st_read_def fail_def split: option.splits)
  obtain u t where d: "store_answer ctx qid AnswerGiven (trim_space answer) by ?at (rt_Store s) = Inr (u, t)"
    using assms ne g by (auto simp: rt_answer_question_def rbind_def st_read_def now_def st_update_def Let_def c split: sum.splits prod.splits)
  let ?s1 = "s\<lparr>rt_Tick := Suc (rt_Tick s), rt_Store := t\<rparr>"
  let ?ap = "rt_append (lv_Rt env) ctx (qu_SessionID u) (qu_RunID u) EventQuestionAnswered
              (PQuestionAnswered \<lparr>qd_QuestionID = qu_ID u, qd_CallID = qu_ToolCallID u, qd_Status = qu_Status u,
                 qd_Answer = qu_Answer u, qd_AnsweredBy = by\<rparr>)"
  have m: "rbind ?ap (\<lambda>_. rbind (resume ctx (qu_RunID u)) (\<lambda>_. ok u)) ?s1 = (Inr b, s')"
    using assms ne g d by (simp add: rt_answer_question_def rbind_def st_read_def now_def st_update_def Let_def c)
  obtain r s3 where ap: "?ap ?s1 = (r, s3)" by fastforce
  with m have r: "r = Inr ()" and m2: "rbind (resume ctx (qu_RunID u)) (\<lambda>_. ok u) s3 = (Inr b, s')"
    by (auto simp: rbind_def split: sum.splits)
  obtain r4 s4 where rs: "resume ctx (qu_RunID u) s3 = (r4, s4)" by fastforce
  with m2 have a: "u = b" "s4 = s'" by (auto simp: rbind_def ok_def split: sum.splits)
  have "rt_Store s' = rt_Store s3" "rt_Executed s' = rt_Executed s3" using keeps_resume [THEN keepsD, OF rs] a by simp_all
  moreover from rt_append_frame [OF ap] r have "st_questions (rt_Store s3) = st_questions t" "rt_Executed s3 = rt_Executed s"
    by (auto dest: appended_frame(4))
  ultimately have "st_questions (rt_Store s') = st_questions t" "rt_Executed s' = rt_Executed s" by simp_all
  moreover have "qu_Kind asked = QuestionChoice \<longrightarrow> check_choice env asked (trim_space answer) = None" using c by auto
  ultimately show ?thesis using g ne d [unfolded a(1)] by blast
qed

lemma answered_result_choice:
  assumes "qu_Kind q = QuestionChoice" "check_choice env q (qu_Answer q) = None"
  shows "\<exists>opt \<in> set (qu_Options q). is_option env (qu_Answer q) opt \<and>
    re_Content (answered_result env q) = ''They chose '' @ qo_ID opt @ '': '' @ qo_Label opt"
proof -
  from assms(2) have "\<exists>opt \<in> set (qu_Options q). is_option env (qu_Answer q) opt"
    by (auto simp: check_choice_def list_ex_iff split: if_splits)
  then obtain opt where f: "find (is_option env (qu_Answer q)) (qu_Options q) = Some opt"
    by (cases "find (is_option env (qu_Answer q)) (qu_Options q)") (auto simp: find_None_iff)
  with find_SomeD [OF f] assms(1) show ?thesis by (auto simp: answered_result_def)
qed

text \<open>C38. What a person answers is what the model is told: an answer is accepted only when it says
  something and, for a choice, names one of the options offered; the run that comes back to its
  question gets it as the call's result, in the words of the option it names, is not asked again, and
  nobody can answer a second time.\<close>

theorem answer_reaches_the_model:
  assumes "questions_wf (rt_Store s)" "question_for_call None (ru_ID run) (ca_ID call) (rt_Store s) = Inr q"
    and "rt_answer_question env None (qu_ID q) answer by s = (Inr b, s')"
    and "lv_Tools env \<noteq> None" "ru_Kind run \<noteq> RunWorker" "ca_Name call = ask_name"
  shows "settle_call env None run call s' = (Inr (answered_result env b, NotParked), s') \<and>
    qu_Answer b = trim_space answer \<and> qu_Answer b \<noteq> '''' \<and> qu_Options b = qu_Options q \<and>
    (if qu_Kind q = QuestionChoice
     then \<exists>opt \<in> set (qu_Options q). is_option env (trim_space answer) opt \<and>
       re_Content (answered_result env b) = ''They chose '' @ qo_ID opt @ '': '' @ qo_Label opt
     else re_Content (answered_result env b) = ''They answered: '' @ trim_space answer) \<and>
    isl (fst (rt_answer_question env None (qu_ID q) answer' by' s'))"
proof -
  have k: "gm_keyed qu_ID (st_questions (rt_Store s))" using assms(1) by (simp add: questions_wf_def)
  have f: "find (\<lambda>x. qu_RunID x = ru_ID run \<and> qu_ToolCallID x = ca_ID call) (gm_vals (st_questions (rt_Store s))) = Some q"
    using assms(2) by (auto simp: question_for_call_def split: option.splits)
  then have q: "gm_get (st_questions (rt_Store s)) (qu_ID q) = Some q" "qu_RunID q = ru_ID run" "qu_ToolCallID q = ca_ID call"
    using find_SomeD [OF f] by (simp_all add: gm_keyed_vals [OF k])
  obtain asked t at where st: "get_question None (qu_ID q) (rt_Store s) = Inr asked" "trim_space answer \<noteq> ''''"
    "qu_Kind asked = QuestionChoice \<longrightarrow> check_choice env asked (trim_space answer) = None"
    "store_answer None (qu_ID q) AnswerGiven (trim_space answer) by at (rt_Store s) = Inr (b, t)"
    "st_questions (rt_Store s') = st_questions t"
    using answered_store [OF assms(3)] by blast
  have asked: "asked = q" using st(1) q(1) by (simp add: get_question_def)
  have b: "b = q\<lparr>qu_Status := AnswerGiven, qu_Answer := trim_space answer, qu_AnsweredBy := by, qu_AnsweredAt := Some at\<rparr>"
    and t: "st_questions t = gm_set (st_questions (rt_Store s)) (qu_ID q) b"
    using st(4) q(1) by (auto simp: store_answer_def Let_def split: if_splits)
  have found: "question_for_call None (ru_ID run) (ca_ID call) (rt_Store s') = Inr b"
    using find_after_update [OF k q(1) f, of b] q(2,3) by (simp add: question_for_call_def st(5) t b)
  have "settle_ask env None run call s' = (Inr (answered_result env b, NotParked), s')"
    by (simp add: settle_ask_def rtry_def st_read_def found Let_def ok_def) (simp add: b ok_def)
  then have "settle_call env None run call s' = (Inr (answered_result env b, NotParked), s')"
    using assms(4-6) by (auto simp: settle_call_def)
  moreover have "if qu_Kind q = QuestionChoice
     then \<exists>opt \<in> set (qu_Options q). is_option env (trim_space answer) opt \<and>
       re_Content (answered_result env b) = ''They chose '' @ qo_ID opt @ '': '' @ qo_Label opt
     else re_Content (answered_result env b) = ''They answered: '' @ trim_space answer"
  proof (cases "qu_Kind q = QuestionChoice")
    case True
    then have "check_choice env b (qu_Answer b) = None" using st(3) by (auto simp: asked b check_choice_def split: if_splits)
    with True answered_result_choice [of b env] show ?thesis by (simp add: b)
  next
    case False
    then show ?thesis by (simp add: b answered_result_def)
  qed
  moreover have "isl (fst (rt_answer_question env None (qu_ID q) answer' by' s'))"
    by (simp add: rt_answer_question_def fail_def rbind_def st_read_def now_def st_update_def get_question_def store_answer_def
        st(5) t b question_is_pending_def Let_def split: option.split)
  ultimately show ?thesis using st(2) by (simp add: b)
qed

definition asking :: Rt where
  "asking = snd (settle_call workshop None working (asked_for ''c1'' ''ask_user'' ''which?'') at_work)"

theorem answer_reaches_the_model_witness:
  "\<exists>b s'. rt_answer_question workshop None ''0'' '' PEARS '' sample_origin asking = (Inr b, s') \<and>
     settle_call workshop None working (asked_for ''c1'' ''ask_user'' ''which?'') s' = (Inr (answered_result workshop b, NotParked), s') \<and>
     re_Content (answered_result workshop b) = ''They chose b: pears''"
proof -
  let ?a = "rt_answer_question workshop None ''0'' '' PEARS '' sample_origin asking"
  have "\<not> isl (fst ?a)" by code_simp
  then obtain b where a: "?a = (Inr b, snd ?a)" by (metis isl_def of_result sum.exhaust)
  have c: "case fst ?a of Inl _ \<Rightarrow> False | Inr b \<Rightarrow> re_Content (answered_result workshop b) = ''They chose b: pears''" by code_simp
  obtain q where q: "question_for_call None ''r1'' ''c1'' (rt_Store asking) = Inr q" "qu_ID q = ''0''"
  proof -
    have "case question_for_call None ''r1'' ''c1'' (rt_Store asking) of Inl _ \<Rightarrow> False | Inr q \<Rightarrow> qu_ID q = ''0''" by code_simp
    then show ?thesis using that by (auto split: sum.splits)
  qed
  have wf: "questions_wf (rt_Store asking)"
  proof -
    have "map (\<lambda>(k, a). (k, qu_ID a)) (st_questions (rt_Store asking)) = [(''0'', ''0'')]" by code_simp
    then show ?thesis by (auto simp: questions_wf_def gm_keyed_def gm_wf_def gm_get_def split: if_splits)
  qed
  have f: "question_for_call None (ru_ID working) (ca_ID (asked_for ''c1'' ''ask_user'' ''which?'')) (rt_Store asking) = Inr q"
    using q(1) by (simp add: sample_run_def asked_for_def)
  have "lv_Tools workshop \<noteq> None" "ru_Kind working \<noteq> RunWorker" "ca_Name (asked_for ''c1'' ''ask_user'' ''which?'') = ask_name"
    by (simp_all add: workshop_def sample_run_def asked_for_def ask_name_def)
  from answer_reaches_the_model [OF wf f a [folded q(2)] this]
  have "settle_call workshop None working (asked_for ''c1'' ''ask_user'' ''which?'') (snd ?a) =
      (Inr (answered_result workshop b, NotParked), snd ?a)" unfolding q(2) by blast
  moreover have "re_Content (answered_result workshop b) = ''They chose b: pears''" using c by (subst (asm) a) simp
  ultimately show ?thesis using a by blast
qed

end
