(* ===== verification/Plan.thy ===== *)
theory Plan
imports ToolLoop
begin

text \<open>
  The plan a session keeps (\<open>core/internal/runtime/plan.go\<close>): the operations on it, all of a request or
  none, the event that announces the result, and the text the model is shown.

  A request is atomic here as the tool loop makes it: one run of a session goes at a time. Which of
  several registered runs a range over the map \<open>active\<close> meets first is the parameter \<open>pick\<close>.
\<close>

definition max_plan_items :: nat where "max_plan_items = 20"

fun find_plan_item :: "ToolEnv \<Rightarrow> PlanItem list \<Rightarrow> string \<Rightarrow> Err + nat" where
  "find_plan_item lib [] pid = Inl (ErrText (''runtime: there is no step '' @ tv_Quote lib pid @ '' in the plan''))"
| "find_plan_item lib (item # items) pid =
     (if pi_ID item = pid then Inr 0
      else case find_plan_item lib items pid of Inl err \<Rightarrow> Inl err | Inr k \<Rightarrow> Inr (Suc k))"

fun plan_status_text :: "PlanStatus \<Rightarrow> string" where
  "plan_status_text PlanPending = ''pending''"
| "plan_status_text PlanInProgress = ''in_progress''"
| "plan_status_text PlanCompleted = ''completed''"
| "plan_status_text PlanAbandoned = ''abandoned''"
| "plan_status_text (PlanStatusOther s) = s"

definition needs_title :: Err where "needs_title = ErrText ''runtime: a step needs a title''"

definition apply_plan_op :: "LoopEnv \<Rightarrow> PlanItem list \<Rightarrow> PlanOpRequest \<Rightarrow> PlanItem list rt" where
  "apply_plan_op env items op =
     (if po_Op op = PlanOpAdd then
        let title = trim_space (po_Title op) in
        if title = '''' then fail needs_title
        else if length items \<ge> max_plan_items then
          fail (ErrText (''runtime: a plan may hold '' @ itoa (int max_plan_items) @ '' steps, and this one is full''))
        else rbind (new_id (lv_Rt env)) (\<lambda>pid.
          ok (items @ [\<lparr>pi_ID = pid, pi_Title = title, pi_Status = PlanPending, pi_Note = po_Note op\<rparr>]))
      else if po_Op op = PlanOpSetStatus then
        (case find_plan_item (lv_Lib env) items (po_ID op) of
           Inl err \<Rightarrow> fail err
         | Inr at \<Rightarrow>
             if \<not> plan_status_is_valid (po_Status op) then
               fail (ErrText (''runtime: '' @ tv_Quote (lv_Lib env) (plan_status_text (po_Status op)) @ '' is not a status a step can be in''))
             else
               let item = (items ! at)\<lparr>pi_Status := po_Status op\<rparr> in
               ok (items[at := if po_Note op \<noteq> '''' then item\<lparr>pi_Note := po_Note op\<rparr> else item]))
      else if po_Op op = PlanOpSetTitle then
        (case find_plan_item (lv_Lib env) items (po_ID op) of
           Inl err \<Rightarrow> fail err
         | Inr at \<Rightarrow>
             let title = trim_space (po_Title op) in
             if title = '''' then fail needs_title else ok (items[at := (items ! at)\<lparr>pi_Title := title\<rparr>]))
      else fail (ErrText (''runtime: '' @ tv_Quote (lv_Lib env) (po_Op op) @ '' is not something that can be done to a plan'')))"

fun apply_plan_ops :: "LoopEnv \<Rightarrow> PlanItem list \<Rightarrow> PlanOpRequest list \<Rightarrow> PlanItem list rt" where
  "apply_plan_ops env items [] = ok items"
| "apply_plan_ops env items (op # ops) = rbind (apply_plan_op env items op) (\<lambda>items. apply_plan_ops env items ops)"

definition runs_of_session :: "SessionID \<Rightarrow> Turns \<Rightarrow> RunID list" where
  "runs_of_session session tn = map fst (filter (\<lambda>(rid, k). tk_session (tracked_at tn k) = session) (tn_active tn))"

definition run_for_session :: "nat \<Rightarrow> SessionID \<Rightarrow> Turns \<Rightarrow> RunID" where
  "run_for_session pick session tn =
     (case runs_of_session session tn of [] \<Rightarrow> '''' | rids \<Rightarrow> rids ! (pick mod length rids))"

definition update_plan :: "LoopEnv \<Rightarrow> nat \<Rightarrow> Ctx \<Rightarrow> SessionID \<Rightarrow> PlanOpRequest list \<Rightarrow> PlanItem list rt" where
  "update_plan env pick ctx session ops =
     (if ops = [] then fail (ErrText ''runtime: no operations'')
      else rbind (st_read (get_plan ctx session)) (\<lambda>items.
           rbind (apply_plan_ops env items ops) (\<lambda>items.
           rbind (now (lv_Rt env)) (\<lambda>at.
           rbind (st_write (set_plan ctx session items at)) (\<lambda>_ s.
           rbind (rt_append (lv_Rt env) ctx session (run_for_session pick session (rt_Turns s)) EventPlanChanged
             (PPlanChanged \<lparr>pc_Items = items\<rparr>)) (\<lambda>_. ok items) s)))))"

definition rt_plan :: "Ctx \<Rightarrow> SessionID \<Rightarrow> PlanItem list rt" where
  "rt_plan ctx session = st_read (get_plan ctx session)"

definition newline :: string where "newline = [CHR 0x0A]"

definition plan_line :: "PlanItem \<Rightarrow> string" where
  "plan_line item =
     ''- ['' @ plan_mark (pi_Status item) @ ''] '' @ pi_Title item @ '' ('' @ pi_ID item @ '')'' @ newline
       @ (if pi_Note item \<noteq> '''' then ''      '' @ pi_Note item @ newline else '''')"

definition render_plan :: "PlanItem list \<Rightarrow> string" where
  "render_plan items =
     (if items = [] then ''''
      else ''Your plan for this session, as you last left it:'' @ newline @ concat (map plan_line items)
        @ ''Update it with todo_update as you go, rather than describing changes to it in your answer.'')"

subsection \<open>What a request can do to a plan\<close>

text \<open>A plan the runtime made: no longer than it may be, every step with a title that says something,
  in a status a step can be in.\<close>

definition sound_item :: "PlanItem \<Rightarrow> bool" where
  "sound_item item \<longleftrightarrow> pi_Title item \<noteq> '''' \<and> plan_status_is_valid (pi_Status item)"

definition sound_plan :: "PlanItem list \<Rightarrow> bool" where
  "sound_plan items \<longleftrightarrow> length items \<le> max_plan_items \<and> list_all sound_item items"

lemma find_plan_item_at: "find_plan_item lib items pid = Inr k \<Longrightarrow>
    k < length items \<and> pi_ID (items ! k) = pid \<and> (\<forall>j < k. pi_ID (items ! j) \<noteq> pid)"
proof (induction items arbitrary: k)
  case (Cons item items)
  show ?case
  proof (cases "pi_ID item = pid")
    case False
    with Cons.prems obtain j where "find_plan_item lib items pid = Inr j" "k = Suc j" by (auto split: sum.splits)
    with Cons.IH False show ?thesis by (auto simp: less_Suc_eq_0_disj nth_Cons')
  qed (use Cons.prems in simp)
qed simp

lemma sound_update: "sound_plan items \<Longrightarrow> sound_item x \<Longrightarrow> sound_plan (items[k := x])"
  by (auto simp: sound_plan_def list_all_iff dest: set_update_subset_insert [THEN subsetD])

lemma sound_nth: "sound_plan items \<Longrightarrow> k < length items \<Longrightarrow> sound_item (items ! k)"
  by (simp add: sound_plan_def list_all_length)

lemma apply_plan_op_sound:
  assumes "apply_plan_op env items op s = (Inr items', s')" "sound_plan items"
  shows "sound_plan items' \<and> length items \<le> length items' \<and> rt_Store s' = rt_Store s \<and> rt_Turns s' = rt_Turns s"
proof -
  have upd: "sound_plan (items[k := (items ! k)\<lparr>pi_Status := st\<rparr>])" "sound_plan (items[k := (items ! k)\<lparr>pi_Status := st, pi_Note := n\<rparr>])"
    if "k < length items" "plan_status_is_valid st" for k st n
    using that sound_nth [OF assms(2) that(1)] by (auto intro!: sound_update [OF assms(2)] simp: sound_item_def)
  have title: "sound_plan (items[k := (items ! k)\<lparr>pi_Title := t\<rparr>])" if "k < length items" "t \<noteq> ''''" for k t
    using that sound_nth [OF assms(2) that(1)] by (auto intro!: sound_update [OF assms(2)] simp: sound_item_def)
  show ?thesis
    using assms upd title find_plan_item_at [of "lv_Lib env" items "po_ID op"]
    by (auto simp: apply_plan_op_def Let_def fail_def ok_def rbind_def new_id_def sound_plan_def sound_item_def
        split: if_splits sum.splits)
qed


lemma apply_plan_ops_sound:
  "apply_plan_ops env items ops s = (Inr items', s') \<Longrightarrow> sound_plan items \<Longrightarrow>
    sound_plan items' \<and> length items \<le> length items' \<and> rt_Store s' = rt_Store s \<and> rt_Turns s' = rt_Turns s"
proof (induction ops arbitrary: items s)
  case (Cons op ops)
  obtain r1 s1 where 1: "apply_plan_op env items op s = (r1, s1)" by fastforce
  with Cons.prems(1) obtain mid where "r1 = Inr mid" "apply_plan_ops env mid ops s1 = (Inr items', s')"
    by (cases r1) (auto simp: rbind_def)
  with 1 apply_plan_op_sound [of env items op s mid s1] Cons.prems(2) Cons.IH [of mid s1] show ?case by auto
qed (simp add: ok_def)

lemma keeps_plan_op: "keeps rt_Store (apply_plan_op env items op)"
  unfolding apply_plan_op_def Let_def
  by (auto intro!: keeps_rbind keeps_basic tickless_parts split: sum.split)

lemma keeps_plan_ops: "keeps rt_Store (apply_plan_ops env items ops)"
  by (induction ops arbitrary: items) (auto intro!: keeps_rbind keeps_plan_op keeps_basic)

text \<open>A request to change the plan is carried out whole or not at all: either every operation took and
  the stored plan, the answer and the one event announcing it are the same list, or the store is as it
  was and nothing was announced. A stored plan is never longer than a plan may be, no step of it is
  without a title and every one is in a status a step can be in; and no request makes it shorter.\<close>

theorem plan_request_all_or_nothing:
  assumes "update_plan env pick None session ops s = (r, s')" "gm_get (st_sessions (rt_Store s)) session \<noteq> None"
    and "sound_plan (gm_list (st_plans (rt_Store s)) session)"
  shows "(case r of
      Inl _ \<Rightarrow> rt_Store s' = rt_Store s
    | Inr items \<Rightarrow> gm_list (st_plans (rt_Store s')) session = items \<and>
        length (gm_list (st_plans (rt_Store s)) session) \<le> length items \<and>
        (\<exists>e. gm_list (st_events (rt_Store s')) session = gm_list (st_events (rt_Store s)) session @ [e] \<and>
           ev_Payload e = PPlanChanged \<lparr>pc_Items = items\<rparr>)) \<and>
    sound_plan (gm_list (st_plans (rt_Store s')) session) \<and>
    (\<forall>other. other \<noteq> session \<longrightarrow> gm_list (st_plans (rt_Store s')) other = gm_list (st_plans (rt_Store s)) other)"
proof (cases "ops = []")
  case True
  with assms show ?thesis by (auto simp: update_plan_def fail_def)
next
  case False
  let ?items = "gm_list (st_plans (rt_Store s)) session"
  obtain r1 s1 where 1: "apply_plan_ops env ?items ops s = (r1, s1)" by fastforce
  have s1: "rt_Store s1 = rt_Store s" by (rule keepsD [OF keeps_plan_ops 1])
  show ?thesis
  proof (cases r1)
    case (Inl err)
    with assms(1) False 1 have "r = Inl err" "s' = s1"
      by (auto simp: update_plan_def rbind_def st_read_def get_plan_def)
    with s1 assms(3) show ?thesis by simp
  next
    case (Inr items)
    note sound = apply_plan_ops_sound [OF 1 [unfolded Inr] assms(3)]
    define s2 where "s2 = s1\<lparr>rt_Tick := Suc (rt_Tick s1), rt_Store := rt_Store s\<lparr>st_plans := gm_set (st_plans (rt_Store s)) session items\<rparr>\<rparr>"
    let ?ap = "rt_append (lv_Rt env) None session (run_for_session pick session (rt_Turns s2)) EventPlanChanged (PPlanChanged \<lparr>pc_Items = items\<rparr>)"
    have m: "rbind ?ap (\<lambda>_. ok items) s2 = (r, s')"
      using assms(1) False 1 Inr s1
      by (simp add: update_plan_def rbind_def st_read_def get_plan_def now_def st_write_def set_plan_def s2_def)
    have "gm_get (st_sessions (rt_Store s2)) session \<noteq> None" using assms(2) by (simp add: s2_def)
    from rt_append_ok [OF this] obtain s3 where 3: "?ap s2 = (Inr (), s3)"
      "appended session (run_for_session pick session (rt_Turns s2)) EventPlanChanged (PPlanChanged \<lparr>pc_Items = items\<rparr>) (rt_Store s2) (rt_Store s3)"
      by blast
    with m have "r = Inr items" "s' = s3" by (simp_all add: rbind_def ok_def)
    moreover from appended_frame(7) [OF 3(2)] obtain e where
      "gm_list (st_events (rt_Store s3)) session = gm_list (st_events (rt_Store s2)) session @ [e]" "ev_Payload e = PPlanChanged \<lparr>pc_Items = items\<rparr>"
      by blast
    moreover have "st_plans (rt_Store s3) = gm_set (st_plans (rt_Store s)) session items" "st_events (rt_Store s2) = st_events (rt_Store s)"
      using appended_frame(5) [OF 3(2)] by (simp_all add: s2_def)
    ultimately show ?thesis using sound by auto
  qed
qed

definition add_step :: "string \<Rightarrow> PlanOpRequest" where
  "add_step title = \<lparr>po_Op = ''add'', po_ID = '''', po_Title = title, po_Status = PlanStatusOther '''', po_Note = ''''\<rparr>"

definition mark_done :: "string \<Rightarrow> PlanOpRequest" where
  "mark_done pid = \<lparr>po_Op = ''set_status'', po_ID = pid, po_Title = '''', po_Status = PlanCompleted, po_Note = ''''\<rparr>"

theorem plan_request_all_or_nothing_witness:
  "\<exists>s' err. update_plan workshop 0 None ''s'' [add_step ''read'', mark_done ''nope''] at_work = (Inl err, s') \<and>
     rt_Store s' = rt_Store at_work"
proof -
  let ?m = "update_plan workshop 0 None ''s'' [add_step ''read'', mark_done ''nope''] at_work"
  have "isl (fst ?m)" by code_simp
  then obtain err where m: "?m = (Inl err, snd ?m)" by (metis isl_def of_result)
  have "gm_get (st_sessions (rt_Store at_work)) ''s'' \<noteq> None" "sound_plan (gm_list (st_plans (rt_Store at_work)) ''s'')"
    by (simp_all add: at_work_def new_rt_def new_store_def gm_get_def sound_plan_def)
  from plan_request_all_or_nothing [OF m this] m show ?thesis by auto
qed

text \<open>A plan change can be put down to the wrong run or to none: a run that waits its turn is
  registered under the same session as the one that goes, and either may be named; and a run that was
  resumed after an answer is registered under no session, so its changes carry no run at all.\<close>

theorem plan_change_misattributed:
  "let two = at_work\<lparr>rt_Turns := admit ''r2'' ''s'' (admit ''r1'' ''s'' new_turns)\<rparr>;
       resumed = at_work\<lparr>rt_Turns := resume_run ''r1'' new_turns\<rparr>;
       named = (\<lambda>s. map ev_RunID (gm_list (st_events (rt_Store (snd (update_plan workshop 1 None ''s'' [add_step ''read''] s)))) ''s''))
   in map qr_run (tn_going (rt_Turns two)) = [''r1''] \<and> named two = [''r2''] \<and>
      map qr_run (tn_going (rt_Turns resumed)) = [''r1''] \<and> named resumed = ['''']"
  by code_simp

end
