(* ===== verification/RunLoop.thy ===== *)
theory RunLoop
imports Plan Coalescer Compaction
begin

text \<open>
  A run, from its first request to the model to its end (\<open>core/internal/runtime/runtime.go\<close>: \<open>execute\<close>,
  \<open>generateTurn\<close>, \<open>abort\<close>, the prompt; \<open>recall.go\<close>; the declarations a worker and a session get of
  \<open>investigate.go\<close>).

  \<open>AgentEnv\<close> is the rest of \<open>Options\<close>. A provider answers a request with an error or with what its
  stream yields, \<open>io.EOF\<close> after the last item; the summary a compaction asks it for, and what memory
  has to say, are functions too. One turn of the loop of \<open>execute\<close> is \<open>run_step\<close>; \<open>run_loop\<close> makes as
  many as its fuel allows.
\<close>

subsection \<open>Requests\<close>

record GenerateRequest =
  gr_Model :: string
  gr_System :: "ContentBlock list"
  gr_Messages :: "Message list"
  gr_Tools :: "ToolDeclaration list"

datatype ProviderEvent =
    TextDelta string | ToolCallAsked ToolUse | ReasoningDelta string | UsageDelta Usage | Completed StopReason string

record AgentEnv =
  ag_Loop :: LoopEnv
  ag_MaxIterations :: int
  ag_Model :: string
  ag_SystemPrompt :: string
  ag_WorkerSystemPrompt :: string
  ag_SystemPromptFor :: "(Run \<Rightarrow> Rt \<Rightarrow> string) option"
  ag_Recall :: "(Run \<Rightarrow> string \<Rightarrow> Rt \<Rightarrow> string) option"
  ag_Generate :: "nat \<Rightarrow> GenerateRequest \<Rightarrow> Err + (Err + ProviderEvent) list"
  ag_Coalescing :: Coalescing
  ag_Conversation :: conv_env
  ag_Budget :: Budget
  ag_Summarise :: "nat \<Rightarrow> BoundedMessage list \<Rightarrow> string option"
  ag_KeepAfterFold :: int
  ag_LoadName :: "string \<Rightarrow> string option" \<comment> \<open>the \<open>name\<close> of the arguments of \<open>tool_load\<close>\<close>

abbreviation ag_Rt :: "AgentEnv \<Rightarrow> RtEnv" where
  "ag_Rt env \<equiv> lv_Rt (ag_Loop env)"

definition default_max_iterations :: int where "default_max_iterations = 12"
definition worker_iterations :: int where "worker_iterations = 8"

definition max_iterations_of :: "AgentEnv \<Rightarrow> Run \<Rightarrow> int" where
  "max_iterations_of env run =
     (let configured = (if ag_MaxIterations env \<le> 0 then default_max_iterations else ag_MaxIterations env)
      in if ru_Kind run = RunWorker \<and> configured > worker_iterations then worker_iterations else configured)"

definition model_for :: "AgentEnv \<Rightarrow> Ctx \<Rightarrow> SessionID \<Rightarrow> Store \<Rightarrow> string" where
  "model_for env ctx sid s =
     (case get_session ctx sid s of
        Inl _ \<Rightarrow> ag_Model env
      | Inr session \<Rightarrow> if se_Model session = '''' then ag_Model env else se_Model session)"

definition with_plan :: "Ctx \<Rightarrow> SessionID \<Rightarrow> ContentBlock list \<Rightarrow> Store \<Rightarrow> ContentBlock list" where
  "with_plan ctx sid system s =
     (case get_plan ctx sid s of
        Inl _ \<Rightarrow> system
      | Inr items \<Rightarrow> if render_plan items = '''' then system else system @ text_content (render_plan items))"

subsection \<open>The prompt\<close>

fun recorded_directions :: "RunID \<Rightarrow> Event list \<Rightarrow> string option" where
  "recorded_directions rid [] = None"
| "recorded_directions rid (e # es) =
     (if ev_RunID e \<noteq> rid then recorded_directions rid es
      else case ev_Payload e of PRunDirections p \<Rightarrow> Some (rdir_Text p) | _ \<Rightarrow> recorded_directions rid es)"

definition directions_for :: "AgentEnv \<Rightarrow> Ctx \<Rightarrow> Run \<Rightarrow> string rt" where
  "directions_for env ctx run =
     rbind (st_read (list_after ctx (ru_SessionID run) 0 0)) (\<lambda>events.
       case recorded_directions (ru_ID run) events of
         Some text \<Rightarrow> ok text
       | None \<Rightarrow>
           (case ag_SystemPromptFor env of
              None \<Rightarrow> ok ''''
            | Some f \<Rightarrow> (\<lambda>s.
                let directions = f run s in
                if directions = '''' then (Inr '''', s)
                else rbind (rt_append (ag_Rt env) ctx (ru_SessionID run) (ru_ID run) EventRunDirections
                       (PRunDirections \<lparr>rdir_Text = directions\<rparr>)) (\<lambda>_. ok directions) s)))"

text \<open>\<open>strings.TrimRight(prompt, "\n")\<close>\<close>

definition trim_newlines :: "string \<Rightarrow> string" where
  "trim_newlines s = rev (dropWhile (\<lambda>c. c = CHR 0x0A) (rev s))"

definition system_prompt :: "AgentEnv \<Rightarrow> Ctx \<Rightarrow> Run \<Rightarrow> ContentBlock list rt" where
  "system_prompt env ctx run =
     (let prompt = (if ru_Kind run = RunWorker \<and> ag_WorkerSystemPrompt env \<noteq> '''' then ag_WorkerSystemPrompt env else ag_SystemPrompt env)
      in rbind (directions_for env ctx run) (\<lambda>extra.
           let prompt = (if extra \<noteq> '''' then trim_newlines prompt @ newline @ newline @ extra else prompt)
           in ok (if prompt = '''' then [] else text_content prompt)))"

definition estimate_request_overhead :: "ContentBlock list \<Rightarrow> ToolDeclaration list \<Rightarrow> int" where
  "estimate_request_overhead system tools =
     sum_list (map (\<lambda>block. case block of TextBlock t _ \<Rightarrow> estimate_text t | _ \<Rightarrow> 0) system) +
     sum_list (map (\<lambda>t. estimate_text (td_Name t) + estimate_text (td_Description t) + estimate_text (td_InputSchema t)) tools)"

subsection \<open>Tools loaded on the way\<close>

definition tool_load_name :: string where "tool_load_name = ''tool_load''"

fun loaded_names :: "(string \<Rightarrow> string option) \<Rightarrow> Event list \<Rightarrow> (ToolCallID, string) gomap \<Rightarrow> string list \<Rightarrow> string list" where
  "loaded_names parse [] asked loaded = loaded"
| "loaded_names parse (e # es) asked loaded =
     (case ev_Payload e of
        PToolCallRequested p \<Rightarrow>
          if tq_Name p \<noteq> tool_load_name then loaded_names parse es asked loaded
          else loaded_names parse es
            (case parse (tq_Arguments p) of None \<Rightarrow> asked | Some name \<Rightarrow> gm_set asked (tq_CallID p) (trim_space name)) loaded
      | PToolCallCompleted p \<Rightarrow>
          loaded_names parse es asked
            (case gm_get asked (tc_CallID p) of
               Some name \<Rightarrow> if \<not> tc_IsError p \<and> name \<noteq> '''' then List.insert name loaded else loaded
             | None \<Rightarrow> loaded)
      | _ \<Rightarrow> loaded_names parse es asked loaded)"

definition loaded_declarations :: "AgentEnv \<Rightarrow> Ctx \<Rightarrow> Run \<Rightarrow> Store \<Rightarrow> ToolDeclaration list" where
  "loaded_declarations env ctx run s =
     (case lv_Tools (ag_Loop env) of
        None \<Rightarrow> []
      | Some r \<Rightarrow>
          (case list_after ctx (ru_SessionID run) 0 0 s of
             Inl _ \<Rightarrow> []
           | Inr events \<Rightarrow>
               let names = sort_slice (<) (loaded_names (ag_LoadName env) events [] [])
               in List.map_filter (\<lambda>name. case lookup_tool r name of
                    None \<Rightarrow> None
                  | Some t \<Rightarrow> if sp_Deferred (to_Spec t) then Some (declaration_of (to_Spec t)) else None) names))"

definition with_loaded :: "AgentEnv \<Rightarrow> Ctx \<Rightarrow> Run \<Rightarrow> ToolDeclaration list \<Rightarrow> Store \<Rightarrow> ToolDeclaration list" where
  "with_loaded env ctx run base s = (if ru_Kind run = RunWorker then base else base @ loaded_declarations env ctx run s)"

subsection \<open>What was noted before\<close>

fun is_spoken :: "ContentBlock \<Rightarrow> string" where
  "is_spoken (TextBlock t annotation) = (if annotation then '''' else t)"
| "is_spoken _ = ''''"

definition spoken_text :: "Message \<Rightarrow> string" where
  "spoken_text m = trim_space (concat (map is_spoken (ms_Content m)))"

definition is_person_turn :: "Message \<Rightarrow> bool" where
  "is_person_turn m \<longleftrightarrow> ms_Role m = RoleUser \<and> spoken_text m \<noteq> ''''"

fun last_person_turn :: "Message list \<Rightarrow> nat option" where
  "last_person_turn [] = None"
| "last_person_turn (m # ms) =
     (case last_person_turn ms of Some k \<Rightarrow> Some (Suc k) | None \<Rightarrow> if is_person_turn m then Some 0 else None)"

fun place_label :: "string \<Rightarrow> ContentBlock list \<Rightarrow> ContentBlock list" where
  "place_label label [] = [TextBlock label True]"
| "place_label label (TextBlock t True # blocks) = TextBlock t True # place_label label blocks"
| "place_label label (block # blocks) = TextBlock label True # block # blocks"

definition with_label :: "Message \<Rightarrow> string \<Rightarrow> Message" where
  "with_label m label = m\<lparr>ms_Content := place_label label (ms_Content m)\<rparr>"

text \<open>\<open>recalledFor\<close>: \<open>recall\<close> is asked once for a registered run, and the answer kept beside it.\<close>

definition recalled_for :: "(Run \<Rightarrow> string \<Rightarrow> Rt \<Rightarrow> string) \<Rightarrow> Run \<Rightarrow> string \<Rightarrow> Rt \<Rightarrow> string \<times> Rt" where
  "recalled_for recall run said s =
     (case gm_get (tn_active (rt_Turns s)) (ru_ID run) of
        None \<Rightarrow> (recall run said s, s)
      | Some k \<Rightarrow>
          (case gm_get (rt_Recalled s) k of
             Some label \<Rightarrow> (label, s)
           | None \<Rightarrow> let label = recall run said s in (label, s\<lparr>rt_Recalled := gm_set (rt_Recalled s) k label\<rparr>)))"

definition with_recalled :: "AgentEnv \<Rightarrow> Run \<Rightarrow> Message list \<Rightarrow> Rt \<Rightarrow> Message list \<times> Rt" where
  "with_recalled env run messages s =
     (case ag_Recall env of
        None \<Rightarrow> (messages, s)
      | Some recall \<Rightarrow>
          if ru_Kind run = RunWorker then (messages, s)
          else case last_person_turn messages of
            None \<Rightarrow> (messages, s)
          | Some latest \<Rightarrow>
              (case recalled_for recall run (spoken_text (messages ! latest)) s of
                 (label, s) \<Rightarrow>
                   if label = '''' then (messages, s) else (messages[latest := with_label (messages ! latest) label], s)))"


subsection \<open>One call of the model\<close>

type_synonym Heard = "ToolUse list \<times> StopReason"

text \<open>One event of the stream, with the calls and the stop reason so far.\<close>

definition hear :: "AgentEnv \<Rightarrow> RunClock \<Rightarrow> Run \<Rightarrow> ProviderEvent \<Rightarrow> Heard \<Rightarrow> Heard coalescing" where
  "hear env rc run ev heard c s =
     (case ev of
        TextDelta text \<Rightarrow>
          (case add_text (ag_Rt env) (ctx_at rc s) text c s of
             (Inl e, c, s) \<Rightarrow> (Inl e, c, s)
           | (Inr _, c, s) \<Rightarrow> (Inr heard, c, s))
      | ToolCallAsked u \<Rightarrow>
          (case flush_text (ag_Rt env) (ctx_at rc s) c s of
             (Inl e, c, s) \<Rightarrow> (Inl e, c, s)
           | (Inr _, c, s) \<Rightarrow>
               let (u, s) = (if tl_ID u = '''' then (u\<lparr>tl_ID := rv_NewID (ag_Rt env) (rt_Tick s)\<rparr>, tick s) else (u, s))
               in (case rt_append (ag_Rt env) (ctx_at rc s) (ru_SessionID run) (ru_ID run) EventToolCallRequested
                     (PToolCallRequested \<lparr>tq_CallID = tl_ID u, tq_Name = tl_Name u, tq_Arguments = tl_Args u,
                        tq_ProviderMetadata = tl_Opaque u\<rparr>) s of
                     (Inl e, s) \<Rightarrow> (Inl e, c, s)
                   | (Inr _, s) \<Rightarrow> (Inr (fst heard @ [u], snd heard), c, s)))
      | UsageDelta usage \<Rightarrow>
          (case set_usage (ag_Rt env) (ctx_at rc s) usage c s of
             (Inl e, c, s) \<Rightarrow> (Inl e, c, s)
           | (Inr _, c, s) \<Rightarrow> (Inr heard, c, s))
      | ReasoningDelta text \<Rightarrow>
          (case add_reasoning (ag_Rt env) (ctx_at rc s) text c s of
             (Inl e, c, s) \<Rightarrow> (Inl e, c, s)
           | (Inr _, c, s) \<Rightarrow> (Inr heard, c, s))
      | Completed reason raw \<Rightarrow> (Inr (fst heard, reason), c, s))"

fun listen :: "AgentEnv \<Rightarrow> RunClock \<Rightarrow> Run \<Rightarrow> (Err + ProviderEvent) list \<Rightarrow> Heard \<Rightarrow> Heard coalescing" where
  "listen env rc run [] heard c s = (Inr heard, c, s)"
| "listen env rc run (Inl err # items) heard c s = (if err_is_eof err then (Inr heard, c, s) else (Inl err, c, s))"
| "listen env rc run (Inr ev # items) heard c s =
     (case hear env rc run ev heard c s of
        (Inl err, c, s) \<Rightarrow> (Inl err, c, s)
      | (Inr heard, c, s) \<Rightarrow> listen env rc run items heard c s)"

definition abort :: "AgentEnv \<Rightarrow> RunClock \<Rightarrow> Run \<Rightarrow> Coalescer \<Rightarrow> Err \<Rightarrow> Rt \<Rightarrow> Rt" where
  "abort env rc run output cause s =
     (case flush (ag_Rt env) None output s of
        (_, _, s) \<Rightarrow> finish_from_error (ag_Rt env) (rc (rt_Tick s)) run cause s)"

text \<open>The answer once the stream has ended: what is buffered, and the end of the message.\<close>

definition close_message :: "AgentEnv \<Rightarrow> RunClock \<Rightarrow> Run \<Rightarrow> Heard \<Rightarrow> unit coalescing" where
  "close_message env rc run heard c s =
     (case flush (ag_Rt env) (ctx_at rc s) c s of
        (Inl e, c, s) \<Rightarrow> (Inl e, c, s)
      | (Inr _, c, s) \<Rightarrow>
          (case rt_append (ag_Rt env) (ctx_at rc s) (ru_SessionID run) (ru_ID run) EventAssistantMessageCompleted
             (PAssistantMessageCompleted \<lparr>mc_MessageID = co_messageID c, mc_StopReason = snd heard\<rparr>) s of
             (r, s) \<Rightarrow> (r, c, s)))"

text \<open>\<open>generateTurn\<close>: \<open>Inl\<close> once the run's end is on record.\<close>

definition generate_into :: "AgentEnv \<Rightarrow> RunClock \<Rightarrow> Run \<Rightarrow> GenerateRequest \<Rightarrow> Coalescer \<Rightarrow> ToolUse list rt" where
  "generate_into env rc run request c s =
     (case ag_Generate env (rt_Tick s) request of
        Inl err \<Rightarrow> (Inl err, finish_from_error (ag_Rt env) (rc (rt_Tick s)) run err s)
      | Inr items \<Rightarrow>
          (case listen env rc run items ([], StopEndTurn) c s of
             (Inl err, c, s) \<Rightarrow> (Inl err, abort env rc run c err s)
           | (Inr heard, c, s) \<Rightarrow>
               (case close_message env rc run heard c s of
                  (Inl err, c, s) \<Rightarrow> (Inl err, abort env rc run c err s)
                | (Inr _, c, s) \<Rightarrow> (Inr (fst heard), s))))"

definition generate_turn :: "AgentEnv \<Rightarrow> RunClock \<Rightarrow> Run \<Rightarrow> GenerateRequest \<Rightarrow> ToolUse list rt" where
  "generate_turn env rc run request =
     rbind (new_id (ag_Rt env)) (\<lambda>mid.
     rbind (new_coalescer (ag_Rt env) (ag_Coalescing env) run mid) (generate_into env rc run request))"

subsection \<open>The loop\<close>

definition rt_compact :: "AgentEnv \<Rightarrow> RunClock \<Rightarrow> Run \<Rightarrow> int \<Rightarrow> Rt \<Rightarrow> Rt" where
  "rt_compact env rc run overhead s =
     (case build_bounded_conversation (ag_Conversation env) (ctx_at rc s) run (rt_Store s) of
        Inl _ \<Rightarrow> s
      | Inr (ms, alreadyFolded) \<Rightarrow>
          (case compaction_event (ag_Budget env) (ag_Summarise env (rt_Tick s)) overhead ms alreadyFolded of
             None \<Rightarrow> s
           | Some f \<Rightarrow>
               (case rt_append (ag_Rt env) (ctx_at rc s) (ru_SessionID run) (ru_ID run) EventConversationCompacted (PConversationCompacted f) s of
                  (Inl _, s) \<Rightarrow> s
                | (Inr _, s) \<Rightarrow>
                    if ag_KeepAfterFold env \<ge> 0
                    then (case prune_session (ctx_at rc s) (ru_SessionID run) (ag_KeepAfterFold env) (rt_Store s) of
                            Inl _ \<Rightarrow> s | Inr (u, _) \<Rightarrow> s\<lparr>rt_Store := u\<rparr>)
                    else s)))"

datatype progress = Again Rt | Over Rt

definition turns_spent :: "int \<Rightarrow> string" where
  "turns_spent maxIterations = ''runtime: stopped after '' @ itoa maxIterations @ '' model turns without a final answer''"

definition request_for :: "AgentEnv \<Rightarrow> RunClock \<Rightarrow> Run \<Rightarrow> ContentBlock list \<Rightarrow> ToolDeclaration list \<Rightarrow> Message list \<Rightarrow> Rt \<Rightarrow> GenerateRequest \<times> Rt" where
  "request_for env rc run system declarations messages s =
     (let model = model_for env (ctx_at rc s) (ru_SessionID run) (rt_Store s);
          planned = with_plan (ctx_at rc s) (ru_SessionID run) system (rt_Store s)
      in case with_recalled env run messages s of
           (recalled, s) \<Rightarrow>
             (\<lparr>gr_Model = model, gr_System = planned, gr_Messages = recalled,
               gr_Tools = with_loaded env (ctx_at rc s) run declarations (rt_Store s)\<rparr>, s))"

text \<open>A turn of the model, with nothing outstanding.\<close>

definition ask_model :: "AgentEnv \<Rightarrow> RunClock \<Rightarrow> Run \<Rightarrow> ContentBlock list \<Rightarrow> ToolDeclaration list \<Rightarrow> nat \<Rightarrow> Rt \<Rightarrow> progress" where
  "ask_model env rc run system declarations turns s =
     (let s = rt_compact env rc run (estimate_request_overhead system declarations) s in
      case build_conversation (ag_Conversation env) (ctx_at rc s) run (rt_Store s) of
        Inl err \<Rightarrow> Over (finish_from_error (ag_Rt env) (rc (rt_Tick s)) run (ErrStore err) s)
      | Inr messages \<Rightarrow>
          (case (if turns = 0 then transition (ag_Rt env) (ctx_at rc s) run RunRunning '''' '''' s else (Inr (), s)) of
             (Inl err, s) \<Rightarrow> Over (finish_run (ag_Rt env) None run RunFailed (err_text (ag_Rt env) err) '''' s)
           | (Inr _, s) \<Rightarrow>
               (case request_for env rc run system declarations messages s of
                  (request, s) \<Rightarrow>
                    (case generate_turn env rc run request s of
                       (Inl _, s) \<Rightarrow> Over s
                     | (Inr calls, s) \<Rightarrow>
                         if calls = [] then Over (finish_run (ag_Rt env) (ctx_at rc s) run RunCompleted '''' '''' s) else Again s))))"

definition run_step :: "AgentEnv \<Rightarrow> RunClock \<Rightarrow> Run \<Rightarrow> ContentBlock list \<Rightarrow> ToolDeclaration list \<Rightarrow> Rt \<Rightarrow> progress" where
  "run_step env rc run system declarations s =
     (case outstanding_calls (ctx_at rc s) run (rt_Store s) of
        Inl err \<Rightarrow> Over (finish_from_error (ag_Rt env) (rc (rt_Tick s)) run (ErrStore err) s)
      | Inr outstanding \<Rightarrow>
          if outstanding \<noteq> [] then
            (case run_tools (ag_Loop env) rc run outstanding s of
               (Inl err, s) \<Rightarrow> Over (finish_from_error (ag_Rt env) (rc (rt_Tick s)) run err s)
             | (Inr suspended, s) \<Rightarrow> if suspended then Over s else Again s)
          else
            (case model_turns (ctx_at rc s) run (rt_Store s) of
               Inl err \<Rightarrow> Over (finish_from_error (ag_Rt env) (rc (rt_Tick s)) run (ErrStore err) s)
             | Inr turns \<Rightarrow>
                 if int turns \<ge> max_iterations_of env run
                 then Over (finish_run (ag_Rt env) (ctx_at rc s) run RunFailed (turns_spent (max_iterations_of env run)) '''' s)
                 else ask_model env rc run system declarations turns s))"

fun run_loop :: "nat \<Rightarrow> AgentEnv \<Rightarrow> RunClock \<Rightarrow> Run \<Rightarrow> ContentBlock list \<Rightarrow> ToolDeclaration list \<Rightarrow> Rt \<Rightarrow> Rt option" where
  "run_loop 0 env rc run system declarations s = None"
| "run_loop (Suc fuel) env rc run system declarations s =
     (case run_step env rc run system declarations s of
        Over s \<Rightarrow> Some s
      | Again s \<Rightarrow> run_loop fuel env rc run system declarations s)"

definition execute :: "nat \<Rightarrow> AgentEnv \<Rightarrow> RunClock \<Rightarrow> Run \<Rightarrow> Rt \<Rightarrow> Rt option" where
  "execute fuel env rc run s =
     (let declarations = declarations_for (ag_Loop env) run in
      case system_prompt env (ctx_at rc s) run s of
        (Inl err, s) \<Rightarrow> Some (finish_from_error (ag_Rt env) (rc (rt_Tick s)) run err s)
      | (Inr system, s) \<Rightarrow> run_loop fuel env rc run system declarations s)"


subsection \<open>A sample agent\<close>

text \<open>A provider that answers with the scripted streams in turn, by the number of messages it is shown.\<close>

definition agent_with :: "(GenerateRequest \<Rightarrow> Err + (Err + ProviderEvent) list) \<Rightarrow> AgentEnv" where
  "agent_with answer = \<lparr>ag_Loop = workshop, ag_MaxIterations = 3, ag_Model = ''m'', ag_SystemPrompt = ''be brief'', ag_WorkerSystemPrompt = '''',
     ag_SystemPromptFor = None, ag_Recall = None, ag_Generate = (\<lambda>_. answer), ag_Coalescing = default_coalescing,
     ag_Conversation = plain_env, ag_Budget = \<lparr>bg_Window = 0, bg_CompactAt = 0, bg_Keep = 0\<rparr>, ag_Summarise = (\<lambda>_ _. None),
     ag_KeepAfterFold = -1, ag_LoadName = (\<lambda>_. None)\<rparr>"

definition searcher :: AgentEnv where
  "searcher = agent_with (\<lambda>request. Inr
     (if length (gr_Messages request) \<le> 1
      then [Inr (TextDelta ''looking''), Inr (ToolCallAsked \<lparr>tl_ID = ''c1'', tl_Name = ''grep'', tl_Args = ''x'', tl_Opaque = ''''\<rparr>), Inr (Completed StopToolUse '''')]
      else [Inr (TextDelta ''found ''), Inr (TextDelta ''it''), Inr (Completed StopEndTurn '''')]))"

definition never_done :: AgentEnv where
  "never_done = agent_with (\<lambda>request. Inr [Inr (ToolCallAsked \<lparr>tl_ID = '''', tl_Name = ''grep'', tl_Args = ''x'', tl_Opaque = ''''\<rparr>)])"


text \<open>An interruption that meets a run as it ends is lost: the outcome of a finished answer is written
  with the run's own context, so when that context has just died nothing is written; the answer is
  complete in the log, and the stored run still says it is running.\<close>

theorem interrupted_end_unrecorded:
  "case execute 10 searcher (\<lambda>n. if n \<ge> 25 then Some (UserInterrupted ''stop'') else None) working at_work of
     None \<Rightarrow> False
   | Some s \<Rightarrow> map_option ru_Status (gm_get (st_runs (rt_Store s)) ''r1'') = Some RunRunning \<and>
       map ev_Kind (gm_list (st_events (rt_Store s)) ''s'') = [EventRunStateChanged, EventAssistantTextDelta, EventToolCallRequested,
         EventAssistantMessageCompleted, EventToolCallCompleted, EventAssistantTextDelta, EventAssistantMessageCompleted]"
  by code_simp

subsection \<open>What the loop goes by\<close>

lemma list_after_Inr: "list_after ctx sid 0 0 s = Inr es \<Longrightarrow> es = gm_list (st_events s) sid"
proof -
  assume a: "list_after ctx sid 0 0 s = Inr es"
  then have "ctx = None" "gm_get (st_sessions s) sid \<noteq> None" by (auto simp: list_after_def split: option.splits)
  with a show ?thesis by (simp add: list_after_all)
qed

definition turns_on :: "entry list \<Rightarrow> nat" where
  "turns_on es = length (filter (\<lambda>e. e = Turned) es)"

definition open_calls :: "entry list \<Rightarrow> ToolCallID set" where
  "open_calls es = {cid. Asked cid \<in> set es \<and> Settled cid \<notin> set es}"

lemma turns_on_simps [simp]: "turns_on [] = 0" "turns_on (x # xs) = (if x = Turned then Suc (turns_on xs) else turns_on xs)"
  "turns_on (xs @ ys) = turns_on xs + turns_on ys"
  by (simp_all add: turns_on_def)

lemma turns_on_map [simp]: "turns_on (map (Settled \<circ> f) xs) = 0" "turns_on (map (\<lambda>x. Settled (f x)) xs) = 0" "turns_on (map (\<lambda>u. Asked (g u)) ys) = 0"
  by (simp_all add: turns_on_def filter_empty_conv)

lemma entries_turned: "turns_on (entries_of kind p) = (if kind = EventAssistantMessageCompleted then 1 else 0)"
  by (cases p) simp_all

lemma turns_in_ledger: "turns_in rid es = turns_on (ledger_of rid es)"
  by (induction es) (auto simp: turns_in_def ledger_of_def entries_turned)

lemma entries_call [simp]: "Asked cid \<in> set (entries_of k p) \<longleftrightarrow> (case p of PToolCallRequested q \<Rightarrow> tq_CallID q = cid | _ \<Rightarrow> False)"
  "Settled cid \<in> set (entries_of k p) \<longleftrightarrow> (case p of PToolCallCompleted q \<Rightarrow> tc_CallID q = cid | _ \<Rightarrow> False)"
  by (cases p; auto)+

lemma calls_loop_ledger:
  "(cid \<in> pe_CallID ` set (fst (calls_loop rid es rq cm)) \<longleftrightarrow> cid \<in> pe_CallID ` set rq \<or> Asked cid \<in> set (ledger_of rid es)) \<and>
   (cid \<in> snd (calls_loop rid es rq cm) \<longleftrightarrow> cid \<in> cm \<or> Settled cid \<in> set (ledger_of rid es))"
proof (induction rid es rq cm rule: calls_loop.induct)
  case (2 run e es requested completed)
  have l: "ledger_of run (e # es) = (if ev_RunID e = run then entries_of (ev_Kind e) (ev_Payload e) else []) @ ledger_of run es"
    by (simp add: ledger_of_def)
  show ?case
  proof (cases "ev_RunID e = run")
    case True
    with 2 show ?thesis unfolding l by (cases "ev_Payload e") (auto simp: image_iff)
  next
    case False
    with 2(1) show ?thesis unfolding l by simp
  qed
qed (simp add: ledger_of_def)

lemma outstanding_ledger: "pe_CallID ` set (outstanding_in rid es) = open_calls (ledger_of rid es)"
proof -
  have o: "outstanding_in rid es = filter (\<lambda>call. pe_CallID call \<notin> snd (calls_loop rid es [] {})) (fst (calls_loop rid es [] {}))"
    by (simp add: outstanding_in_def split: prod.split)
  have "cid \<in> pe_CallID ` set (outstanding_in rid es) \<longleftrightarrow> cid \<in> pe_CallID ` set (fst (calls_loop rid es [] {})) \<and> cid \<notin> snd (calls_loop rid es [] {})" for cid
    by (auto simp: o)
  then show ?thesis
    using calls_loop_ledger [of _ rid es "[]" "{}"] by (auto simp: open_calls_def)
qed

lemma outstanding_calls_ledger:
  assumes "outstanding_calls ctx run (rt_Store s) = Inr calls"
  shows "pe_CallID ` set calls = open_calls (ledger_in (ru_ID run) (ru_SessionID run) s)"
proof -
  obtain es where "list_after ctx (ru_SessionID run) 0 0 (rt_Store s) = Inr es" "calls = outstanding_in (ru_ID run) es"
    using assms by (auto simp: outstanding_calls_def from_log_def split: sum.splits)
  with list_after_Inr [OF this(1)] show ?thesis by (simp add: outstanding_ledger ledger_in_def)
qed

lemma model_turns_ledger:
  assumes "model_turns ctx run (rt_Store s) = Inr n"
  shows "n = turns_on (ledger_in (ru_ID run) (ru_SessionID run) s)"
proof -
  obtain es where "list_after ctx (ru_SessionID run) 0 0 (rt_Store s) = Inr es" "n = turns_in (ru_ID run) es"
    using assms by (auto simp: model_turns_def from_log_def split: sum.splits)
  with list_after_Inr [OF this(1)] show ?thesis by (simp add: turns_in_ledger ledger_in_def)
qed

text \<open>A round of tools with nobody to wait for closes what was open.\<close>

lemma tools_close_calls:
  assumes "outstanding_calls ctx run (rt_Store s) = Inr calls" "run_tools (ag_Loop env) rc run calls s = (Inr False, s')"
    and "keeps_ledger (ru_ID run) (ru_SessionID run) (ag_Loop env)"
  shows "turns_on (ledger_in (ru_ID run) (ru_SessionID run) s') = turns_on (ledger_in (ru_ID run) (ru_SessionID run) s) \<and>
    open_calls (ledger_in (ru_ID run) (ru_SessionID run) s') = {}"
proof -
  have l: "ledger_in (ru_ID run) (ru_SessionID run) s' =
      ledger_in (ru_ID run) (ru_SessionID run) s @ map (Settled \<circ> pe_CallID) calls"
    using run_tools_ledger [OF assms(2,3)] by auto
  have "open_calls (ledger_in (ru_ID run) (ru_SessionID run) s') = open_calls (ledger_in (ru_ID run) (ru_SessionID run) s) - pe_CallID ` set calls"
    unfolding l by (auto simp: open_calls_def)
  then show ?thesis using outstanding_calls_ledger [OF assms(1)] by (simp add: l)
qed


subsection \<open>What writing does not change\<close>

text \<open>A reading of the state that the clock and the events outside the ledger leave alone.\<close>

definition unmoved :: "(Rt \<Rightarrow> 'x) \<Rightarrow> bool" where
  "unmoved f \<longleftrightarrow> tickless f \<and> (\<forall>s x. f (s\<lparr>rt_Told := x\<rparr>) = f s) \<and> (\<forall>s x. f (s\<lparr>rt_Recalled := x\<rparr>) = f s) \<and>
     (\<forall>env ctx sid rid kind p. entries_of kind p = [] \<longrightarrow> keeps f (rt_append env ctx sid rid kind p)) \<and>
     (\<forall>ctx run. keeps f (st_write (update_run ctx run)))"

lemma unmoved_ledger: "unmoved (ledger_in rid sid)"
  by (simp add: unmoved_def tickless_ledger keeps_ledger_append)
    (auto simp: keeps_def st_write_def update_run_def ledger_in_def split: sum.split option.splits)

lemma unmoved_housed: "unmoved (housed rid sid)"
  by (simp add: unmoved_def keeps_housed_append)
    (auto simp: tickless_def keeps_def st_write_def update_run_def housed_def split: sum.split option.splits)

lemma unmoved_append: "unmoved f \<Longrightarrow> entries_of kind p = [] \<Longrightarrow> rt_append env ctx sid rid kind p s = (r, s') \<Longrightarrow> f s' = f s"
  unfolding unmoved_def using keepsD by blast

lemma unmoved_tick: "unmoved f \<Longrightarrow> f (tick s) = f s" "unmoved f \<Longrightarrow> f (s\<lparr>rt_Tick := n\<rparr>) = f s"
  by (simp_all add: unmoved_def tickless_def tick_def)

lemma flush_unmoved:
  assumes "unmoved f"
  shows "flush_text env ctx c s = (r, c', s') \<Longrightarrow> f s' = f s \<and> co_messageID c' = co_messageID c"
    and "flush_reasoning env ctx c s = (r, c', s') \<Longrightarrow> f s' = f s \<and> co_messageID c' = co_messageID c"
    and "flush_usage env ctx c s = (r, c', s') \<Longrightarrow> f s' = f s \<and> co_messageID c' = co_messageID c"
proof -
  have a: "f s' = f s" if "rt_append env ctx sid rid kind p (tick s) = (r, s')" "entries_of kind p = []" for sid rid kind p
    using unmoved_append [OF assms that(2,1)] unmoved_tick(1) [OF assms] by simp
  show "flush_text env ctx c s = (r, c', s') \<Longrightarrow> f s' = f s \<and> co_messageID c' = co_messageID c"
    "flush_reasoning env ctx c s = (r, c', s') \<Longrightarrow> f s' = f s \<and> co_messageID c' = co_messageID c"
    "flush_usage env ctx c s = (r, c', s') \<Longrightarrow> f s' = f s \<and> co_messageID c' = co_messageID c"
    by (auto simp: flush_text_def flush_reasoning_def flush_usage_def Let_def split: if_splits prod.splits intro!: a)
qed

lemma buffer_unmoved:
  assumes "unmoved f"
  shows "add_text env ctx t c s = (r, c', s') \<Longrightarrow> f s' = f s \<and> co_messageID c' = co_messageID c"
    and "add_reasoning env ctx t c s = (r, c', s') \<Longrightarrow> f s' = f s \<and> co_messageID c' = co_messageID c"
    and "set_usage env ctx u c s = (r, c', s') \<Longrightarrow> f s' = f s \<and> co_messageID c' = co_messageID c"
    and "flush env ctx c s = (r, c', s') \<Longrightarrow> f s' = f s \<and> co_messageID c' = co_messageID c"
proof -
  note fl = flush_unmoved [OF assms]
  show "add_text env ctx t c s = (r, c', s') \<Longrightarrow> f s' = f s \<and> co_messageID c' = co_messageID c"
    by (auto simp: add_text_def Let_def unmoved_tick [OF assms] split: if_splits dest: fl(1))
  show "add_reasoning env ctx t c s = (r, c', s') \<Longrightarrow> f s' = f s \<and> co_messageID c' = co_messageID c"
    by (auto simp: add_reasoning_def Let_def unmoved_tick [OF assms] split: if_splits dest: fl(2))
  show "set_usage env ctx u c s = (r, c', s') \<Longrightarrow> f s' = f s \<and> co_messageID c' = co_messageID c"
    by (auto simp: set_usage_def Let_def unmoved_tick [OF assms] split: if_splits dest: fl(3))
  obtain r1 c1 s1 where 1: "flush_reasoning env ctx c s = (r1, c1, s1)" by (metis prod_cases3)
  obtain r2 c2 s2 where 2: "flush_text env ctx c1 s1 = (r2, c2, s2)" by (metis prod_cases3)
  obtain r3 c3 s3 where 3: "flush_usage env ctx c2 s2 = (r3, c3, s3)" by (metis prod_cases3)
  show "flush env ctx c s = (r, c', s') \<Longrightarrow> f s' = f s \<and> co_messageID c' = co_messageID c"
    using fl(2) [OF 1] fl(1) [OF 2] fl(3) [OF 3] by (auto simp: flush_def 1 2 3 split: sum.splits)
qed

lemma finish_unmoved:
  assumes "unmoved f"
  shows "transition env ctx run status reason kind s = (r, s') \<Longrightarrow> f s' = f s"
    and "f (finish_run env ctx run status reason kind s) = f s"
    and "f (finish_from_error env c run err s) = f s"
proof -
  have k: "keeps f (transition env ctx run status reason kind)" for ctx status reason kind
    using assms unfolding transition_def by (auto intro!: keeps_rbind keeps_basic simp: unmoved_def)
  then show "transition env ctx run status reason kind s = (r, s') \<Longrightarrow> f s' = f s" using keepsD by blast
  have fin: "f (finish_run env ctx run status reason kind s) = f s" for ctx status reason kind
  proof -
    obtain r s1 where t: "transition env ctx run status reason kind s = (r, s1)" by fastforce
    then show ?thesis
      using keepsD [OF k t] assms by (cases r) (auto simp: finish_run_def tell_after_run_def unmoved_def)
  qed
  then show "f (finish_run env ctx run status reason kind s) = f s" .
  show "f (finish_from_error env c run err s) = f s"
    by (simp add: finish_from_error_def fin split: option.split CancelCause.split)
qed

lemma hear_unmoved:
  assumes "hear env rc run ev heard c s = (r, c', s')"
  shows "housed rid sid s' = housed rid sid s \<and> co_messageID c' = co_messageID c \<and>
    (\<exists>asked. ledger_in rid sid s' = ledger_in rid sid s @ map Asked asked \<and>
      (\<forall>h. r = Inr h \<longrightarrow> rid = ru_ID run \<longrightarrow> sid = ru_SessionID run \<longrightarrow>
        map tl_ID (fst h) = map tl_ID (fst heard) @ asked))"
proof (cases ev)
  case (ToolCallAsked u)
  obtain r1 c1 s1 where 1: "flush_text (ag_Rt env) (ctx_at rc s) c s = (r1, c1, s1)" by (metis prod_cases3)
  note same = flush_unmoved(1) [OF unmoved_housed 1, of rid sid] flush_unmoved(1) [OF unmoved_ledger 1, of rid sid]
  show ?thesis
  proof (cases r1)
    case (Inl e)
    with assms ToolCallAsked 1 same show ?thesis by (auto simp: hear_def intro!: exI [of _ "[]"])
  next
    case (Inr x)
    obtain u' s2 where u': "(if tl_ID u = '''' then (u\<lparr>tl_ID := rv_NewID (ag_Rt env) (rt_Tick s1)\<rparr>, tick s1) else (u, s1)) = (u', s2)"
      by fastforce
    then have s2: "housed rid sid s2 = housed rid sid s1" "ledger_in rid sid s2 = ledger_in rid sid s1"
      by (auto simp: unmoved_tick(1) [OF unmoved_housed] unmoved_tick(1) [OF unmoved_ledger] split: if_splits)
    obtain r3 s3 where 3: "rt_append (ag_Rt env) (ctx_at rc s2) (ru_SessionID run) (ru_ID run) EventToolCallRequested
                     (PToolCallRequested \<lparr>tq_CallID = tl_ID u', tq_Name = tl_Name u', tq_Arguments = tl_Args u',
                        tq_ProviderMetadata = tl_Opaque u'\<rparr>) s2 = (r3, s3)" by fastforce
    have "s' = s3" "c' = c1" "\<forall>h. r = Inr h \<longrightarrow> r3 = Inr () \<and> fst h = fst heard @ [u']"
      using assms ToolCallAsked 1 Inr u' 3 by (auto simp: hear_def Let_def split: sum.splits)
    moreover have "housed rid sid s3 = housed rid sid s2" using keepsD [OF keeps_housed_append 3] .
    moreover have "\<exists>asked. ledger_in rid sid s3 = ledger_in rid sid s2 @ map Asked asked \<and>
        (r3 = Inr () \<longrightarrow> rid = ru_ID run \<longrightarrow> sid = ru_SessionID run \<longrightarrow> asked = [tl_ID u'])"
      using append_ledger [OF 3, of rid sid]
      by (cases "r3 = Inr () \<and> sid = ru_SessionID run \<and> rid = ru_ID run") (auto intro: exI [of _ "[tl_ID u']"] exI [of _ "[]"])
    ultimately show ?thesis using same s2 by (auto; metis map_append list.simps(8,9))
  qed
next
  case (TextDelta t)
  with assms buffer_unmoved(1) [OF unmoved_housed] buffer_unmoved(1) [OF unmoved_ledger] show ?thesis
    by (auto simp: hear_def intro!: exI [of _ "[]"] split: prod.splits sum.splits)
next
  case (ReasoningDelta t)
  with assms buffer_unmoved(2) [OF unmoved_housed] buffer_unmoved(2) [OF unmoved_ledger] show ?thesis
    by (auto simp: hear_def intro!: exI [of _ "[]"] split: prod.splits sum.splits)
next
  case (UsageDelta t)
  with assms buffer_unmoved(3) [OF unmoved_housed] buffer_unmoved(3) [OF unmoved_ledger] show ?thesis
    by (auto simp: hear_def intro!: exI [of _ "[]"] split: prod.splits sum.splits)
next
  case (Completed reason raw)
  with assms show ?thesis by (auto simp: hear_def intro!: exI [of _ "[]"])
qed


lemma listen_unmoved:
  "listen env rc run items heard c s = (r, c', s') \<Longrightarrow>
    housed rid sid s' = housed rid sid s \<and>
    (\<exists>asked. ledger_in rid sid s' = ledger_in rid sid s @ map Asked asked \<and>
      (\<forall>h. r = Inr h \<longrightarrow> rid = ru_ID run \<longrightarrow> sid = ru_SessionID run \<longrightarrow>
        map tl_ID (fst h) = map tl_ID (fst heard) @ asked))"
proof (induction env rc run items heard c s rule: listen.induct)
  case (3 env rc run ev items heard c s)
  obtain r1 c1 s1 where 1: "hear env rc run ev heard c s = (r1, c1, s1)" by (metis prod_cases3)
  from hear_unmoved [OF 1, of rid sid] obtain asked where a: "housed rid sid s1 = housed rid sid s"
    "ledger_in rid sid s1 = ledger_in rid sid s @ map Asked asked"
    "\<And>h. r1 = Inr h \<Longrightarrow> rid = ru_ID run \<Longrightarrow> sid = ru_SessionID run \<Longrightarrow> map tl_ID (fst h) = map tl_ID (fst heard) @ asked" by blast
  show ?case
  proof (cases r1)
    case (Inl e)
    with 3(2) 1 have "s' = s1" "r = Inl e" by auto
    with a show ?thesis by auto
  next
    case (Inr h1)
    with 3(2) 1 have l: "listen env rc run items h1 c1 s1 = (r, c', s')" by simp
    from 3(1) [OF 1 [symmetric] Inr refl l] obtain asked' where "housed rid sid s' = housed rid sid s1"
      "ledger_in rid sid s' = ledger_in rid sid s1 @ map Asked asked'"
      "\<And>h. r = Inr h \<Longrightarrow> rid = ru_ID run \<Longrightarrow> sid = ru_SessionID run \<Longrightarrow> map tl_ID (fst h) = map tl_ID (fst h1) @ asked'" by blast
    with a Inr show ?thesis by (intro conjI exI [of _ "asked @ asked'"]) auto
  qed
qed (auto intro: exI [of _ "[]"] split: if_splits)

lemma abort_unmoved: "unmoved f \<Longrightarrow> f (abort env rc run c err s) = f s"
proof -
  assume u: "unmoved f"
  obtain r1 c1 s1 where 1: "flush (ag_Rt env) None c s = (r1, c1, s1)" by (metis prod_cases3)
  with buffer_unmoved(4) [OF u 1] finish_unmoved(3) [OF u] show ?thesis by (simp add: abort_def)
qed

lemma generate_turn_ledger:
  assumes "generate_turn env rc run request s = (r, s')"
  shows "housed (ru_ID run) (ru_SessionID run) s' = housed (ru_ID run) (ru_SessionID run) s \<and>
    (\<exists>asked. ledger_in (ru_ID run) (ru_SessionID run) s' = ledger_in (ru_ID run) (ru_SessionID run) s @ map Asked asked @
        (if isl r then [] else [Turned]) \<and> (\<forall>calls. r = Inr calls \<longrightarrow> asked = map tl_ID calls))"
proof -
  let ?h = "housed (ru_ID run) (ru_SessionID run)" and ?l = "ledger_in (ru_ID run) (ru_SessionID run)"
  obtain buf s1 where m: "generate_into env rc run request buf s1 = (r, s')" and s1: "?h s1 = ?h s" "?l s1 = ?l s"
  proof -
    let ?s = "s\<lparr>rt_Tick := Suc (rt_Tick s), rt_Tick := Suc (rt_Tick (s\<lparr>rt_Tick := Suc (rt_Tick s)\<rparr>))\<rparr>"
    have "\<exists>buf. generate_into env rc run request buf ?s = (r, s')"
      using assms by (auto simp: generate_turn_def rbind_def new_id_def new_coalescer_def now_def ok_def)
    then show ?thesis using that unmoved_tick(2) [OF unmoved_housed] by auto
  qed
  note fin = finish_unmoved(3) [OF unmoved_housed] finish_unmoved(3) [OF unmoved_ledger]
  note ab = abort_unmoved [OF unmoved_housed] abort_unmoved [OF unmoved_ledger]
  show ?thesis
  proof (cases "ag_Generate env (rt_Tick s1) request")
    case (Inl err)
    with m s1 fin show ?thesis by (auto simp: generate_into_def intro: exI [of _ "[]"])
  next
    case (Inr items)
    obtain r2 c2 s2 where 2: "listen env rc run items ([], StopEndTurn) buf s1 = (r2, c2, s2)" by (metis prod_cases3)
    from listen_unmoved [OF 2, of "ru_ID run" "ru_SessionID run"] obtain asked where a: "?h s2 = ?h s1" "?l s2 = ?l s1 @ map Asked asked"
      "\<And>h. r2 = Inr h \<Longrightarrow> map tl_ID (fst h) = asked" by auto
    show ?thesis
    proof (cases r2)
      case (Inl err)
      with m Inr 2 a s1 ab show ?thesis by (auto simp: generate_into_def)
    next
      case heard: (Inr heard)
      obtain r3 c3 s3 where 3: "flush (ag_Rt env) (ctx_at rc s2) c2 s2 = (r3, c3, s3)" by (metis prod_cases3)
      note same = buffer_unmoved(4) [OF unmoved_housed 3, of "ru_ID run" "ru_SessionID run"]
        buffer_unmoved(4) [OF unmoved_ledger 3, of "ru_ID run" "ru_SessionID run"]
      show ?thesis
      proof (cases r3)
        case (Inl err)
        with m Inr 2 heard 3 a s1 same ab show ?thesis
          by (intro conjI exI [of _ asked]) (auto simp: generate_into_def close_message_def)
      next
        case flushed: (Inr x)
        obtain r4 s4 where 4: "rt_append (ag_Rt env) (ctx_at rc s3) (ru_SessionID run) (ru_ID run) EventAssistantMessageCompleted
             (PAssistantMessageCompleted \<lparr>mc_MessageID = co_messageID c3, mc_StopReason = snd heard\<rparr>) s3 = (r4, s4)" by fastforce
        note app = keepsD [OF keeps_housed_append 4, of "ru_ID run" "ru_SessionID run"] append_ledger [OF 4, of "ru_ID run" "ru_SessionID run"]
        show ?thesis
        proof (cases r4)
          case (Inl err)
          with m Inr 2 heard 3 flushed 4 a s1 same app ab show ?thesis
            by (intro conjI exI [of _ asked]) (auto simp: generate_into_def close_message_def)
        next
          case (Inr y)
          with m \<open>ag_Generate env (rt_Tick s1) request = Inr items\<close> 2 heard 3 flushed 4
          have "r = Inr (fst heard)" "s' = s4" by (auto simp: generate_into_def close_message_def)
          with a heard s1 same app Inr show ?thesis by auto
        qed
      qed
    qed
  qed
qed


subsection \<open>A run ends within its turns\<close>

lemma rt_compact_unmoved:
  assumes "unmoved f" "ag_KeepAfterFold env < 0"
  shows "f (rt_compact env rc run overhead s) = f s"
proof -
  have "f s' = f s" if "rt_append e ctx sid rid EventConversationCompacted (PConversationCompacted p) s = (r, s')" for e ctx sid rid p r s'
    by (rule unmoved_append [OF assms(1) _ that]) simp
  then show ?thesis using assms(2)
    by (auto simp: rt_compact_def split: sum.split option.split prod.split)
qed

lemma request_for_unmoved: "unmoved f \<Longrightarrow> request_for env rc run system decls messages s = (request, s') \<Longrightarrow> f s' = f s"
  by (auto simp: request_for_def with_recalled_def recalled_for_def Let_def unmoved_def split: option.splits prod.splits if_splits)

text \<open>What asking the model does to the ledger: at most one more turn, and one exactly when the loop goes on.\<close>

lemma ask_model_ledger:
  assumes "ask_model env rc run system decls turns s = p" "ag_KeepAfterFold env < 0"
  shows "case p of
      Again s' \<Rightarrow> turns_on (ledger_in (ru_ID run) (ru_SessionID run) s') = Suc (turns_on (ledger_in (ru_ID run) (ru_SessionID run) s))
    | Over s' \<Rightarrow> turns_on (ledger_in (ru_ID run) (ru_SessionID run) s') \<le> Suc (turns_on (ledger_in (ru_ID run) (ru_SessionID run) s))"
proof -
  let ?l = "ledger_in (ru_ID run) (ru_SessionID run)"
  define s1 where "s1 = rt_compact env rc run (estimate_request_overhead system decls) s"
  have s1: "?l s1 = ?l s" using rt_compact_unmoved [OF unmoved_ledger assms(2)] by (simp add: s1_def)
  note fin = finish_unmoved(2,3) [OF unmoved_ledger]
  show ?thesis
  proof (cases "build_conversation (ag_Conversation env) (ctx_at rc s1) run (rt_Store s1)")
    case (Inl err)
    with assms(1) s1 fin show ?thesis by (auto simp: ask_model_def Let_def s1_def)
  next
    case (Inr messages)
    obtain r2 s2 where 2: "(if turns = 0 then transition (ag_Rt env) (ctx_at rc s1) run RunRunning '''' '''' s1 else (Inr (), s1)) = (r2, s2)" by fastforce
    then have s2: "?l s2 = ?l s" using s1 finish_unmoved(1) [OF unmoved_ledger] by (auto split: if_splits)
    show ?thesis
    proof (cases r2)
      case (Inl err)
      with assms(1) \<open>build_conversation _ _ _ _ = _\<close> 2 s2 fin show ?thesis by (auto simp: ask_model_def Let_def s1_def)
    next
      case (Inr x)
      obtain request s3 where 3: "request_for env rc run system decls messages s2 = (request, s3)" by fastforce
      have s3: "?l s3 = ?l s" using request_for_unmoved [OF unmoved_ledger 3] s2 by simp
      obtain r4 s4 where 4: "generate_turn env rc run request s3 = (r4, s4)" by fastforce
      from generate_turn_ledger [OF 4] s3 have s4: "turns_on (?l s4) = turns_on (?l s) + (if isl r4 then 0 else 1)" by auto
      from assms(1) \<open>build_conversation _ _ _ _ = _\<close> 2 Inr 3 4
      have "p = (case r4 of Inl _ \<Rightarrow> Over s4 | Inr calls \<Rightarrow> if calls = [] then Over (finish_run (ag_Rt env) (ctx_at rc s4) run RunCompleted '''' '''' s4) else Again s4)"
        by (auto simp: ask_model_def Let_def s1_def split: sum.split)
      with s4 fin show ?thesis by (cases r4) auto
    qed
  qed
qed

definition loop_measure :: "AgentEnv \<Rightarrow> Run \<Rightarrow> Rt \<Rightarrow> nat" where
  "loop_measure env run s =
     (let ledger = ledger_in (ru_ID run) (ru_SessionID run) s
      in 2 * (nat (max_iterations_of env run) - turns_on ledger) + (if open_calls ledger = {} then 0 else 1))"

lemma run_step_ledger:
  assumes "run_step env rc run system decls s = p" "ag_KeepAfterFold env < 0" "keeps_ledger (ru_ID run) (ru_SessionID run) (ag_Loop env)"
    and "turns_on (ledger_in (ru_ID run) (ru_SessionID run) s) \<le> nat (max_iterations_of env run)"
  shows "case p of
      Again s' \<Rightarrow> loop_measure env run s' < loop_measure env run s \<and> turns_on (ledger_in (ru_ID run) (ru_SessionID run) s') \<le> nat (max_iterations_of env run)
    | Over s' \<Rightarrow> turns_on (ledger_in (ru_ID run) (ru_SessionID run) s') \<le> nat (max_iterations_of env run)"
proof -
  let ?l = "ledger_in (ru_ID run) (ru_SessionID run)" and ?max = "nat (max_iterations_of env run)"
  note fin = finish_unmoved(2,3) [OF unmoved_ledger]
  show ?thesis
  proof (cases "outstanding_calls (ctx_at rc s) run (rt_Store s)")
    case (Inl err)
    with assms(1,4) fin show ?thesis by (auto simp: run_step_def)
  next
    case (Inr calls)
    note opened = outstanding_calls_ledger [OF Inr]
    show ?thesis
    proof (cases "calls = []")
      case False
      obtain r1 s1 where 1: "run_tools (ag_Loop env) rc run calls s = (r1, s1)" by fastforce
      have t: "turns_on (?l s1) = turns_on (?l s)" using run_tools_ledger [OF 1 assms(3)] by auto
      have "p = (case r1 of Inl err \<Rightarrow> Over (finish_from_error (ag_Rt env) (rc (rt_Tick s1)) run err s1)
          | Inr suspended \<Rightarrow> if suspended then Over s1 else Again s1)"
        using assms(1) Inr False 1 by (simp add: run_step_def split: sum.split)
      moreover have "open_calls (?l s1) = {}" if "r1 = Inr False"
        using tools_close_calls [OF Inr 1 [unfolded that] assms(3)] by simp
      moreover have "open_calls (?l s) \<noteq> {}" using opened False by auto
      ultimately show ?thesis using t assms(4) fin by (auto simp: loop_measure_def Let_def split: sum.split)
    next
      case True
      with opened have none: "open_calls (?l s) = {}" by auto
      show ?thesis
      proof (cases "model_turns (ctx_at rc s) run (rt_Store s)")
        case (Inl err)
        with assms(1,4) Inr True fin show ?thesis by (auto simp: run_step_def)
      next
        case turns: (Inr turns)
        note n = model_turns_ledger [OF turns]
        show ?thesis
        proof (cases "int turns \<ge> max_iterations_of env run")
          case True
          with assms(1,4) Inr \<open>calls = []\<close> turns fin show ?thesis by (auto simp: run_step_def)
        next
          case False
          with assms(1) Inr \<open>calls = []\<close> turns have "ask_model env rc run system decls turns s = p" by (simp add: run_step_def)
          from ask_model_ledger [OF this assms(2)] False n none show ?thesis
            by (auto simp: loop_measure_def Let_def split: progress.splits)
        qed
      qed
    qed
  qed
qed

lemma run_loop_over:
  assumes "ag_KeepAfterFold env < 0" "keeps_ledger (ru_ID run) (ru_SessionID run) (ag_Loop env)"
  shows "turns_on (ledger_in (ru_ID run) (ru_SessionID run) s) \<le> nat (max_iterations_of env run) \<Longrightarrow> loop_measure env run s < fuel \<Longrightarrow>
    \<exists>s'. run_loop fuel env rc run system decls s = Some s' \<and>
      turns_on (ledger_in (ru_ID run) (ru_SessionID run) s') \<le> nat (max_iterations_of env run)"
proof (induction fuel arbitrary: s)
  case (Suc fuel)
  obtain p where p: "run_step env rc run system decls s = p" by blast
  note step = run_step_ledger [OF p assms Suc.prems(1)]
  show ?case
  proof (cases p)
    case (Over s')
    with step p show ?thesis by simp
  next
    case (Again s')
    with step Suc.prems(2) have "loop_measure env run s' < fuel" by simp
    with Suc.IH [of s'] step Again p show ?thesis by simp
  qed
qed simp


lemma system_prompt_unmoved:
  assumes "unmoved f" "system_prompt env ctx run s = (r, s')"
  shows "f s' = f s"
proof -
  have go: "f u' = f u"
    if "(let directions = g run u in
                if directions = '''' then (Inr '''', u)
                else rbind (rt_append (ag_Rt env) ctx (ru_SessionID run) (ru_ID run) EventRunDirections
                       (PRunDirections \<lparr>rdir_Text = directions\<rparr>)) (\<lambda>_. ok directions) u) = (q, u')" for g u u' q
  proof -
    have app: "f v' = f v" if "rt_append e c sid rid EventRunDirections (PRunDirections p) v = (x, v')" for e c sid rid p v x v'
      by (rule unmoved_append [OF assms(1) _ that]) simp
    show ?thesis using that by (auto simp: Let_def rbind_def ok_def split: if_splits sum.splits prod.splits dest: app)
  qed
  then have dir: "f u' = f u" if "directions_for env ctx run u = (q, u')" for u u' q
    using that by (auto simp: directions_for_def rbind_def st_read_def ok_def split: sum.splits option.splits)
  show ?thesis
    using assms(2) dir by (auto simp: system_prompt_def Let_def rbind_def ok_def split: sum.splits prod.splits)
qed

text \<open>C9. Every run comes to an end of its own accord: with nothing pruned, and tools that leave the run's
  own calls and turns alone, the loop needs no more rounds than two for each turn the run may take, and
  when it returns the run has had no more turns of the model than its limit, counting those it had
  before it was resumed; a delegated worker's limit is eight whatever is configured.\<close>

theorem run_ends_within_its_turns:
  assumes "ag_KeepAfterFold env < 0" "keeps_ledger (ru_ID run) (ru_SessionID run) (ag_Loop env)"
    and "turns_on (ledger_in (ru_ID run) (ru_SessionID run) s) \<le> nat (max_iterations_of env run)"
    and "2 * nat (max_iterations_of env run) + 2 \<le> fuel"
  shows "\<exists>s'. execute fuel env rc run s = Some s' \<and>
    turns_on (ledger_in (ru_ID run) (ru_SessionID run) s') \<le> nat (max_iterations_of env run) \<and>
    (ru_Kind run = RunWorker \<longrightarrow> max_iterations_of env run \<le> 8)"
proof -
  have worker: "ru_Kind run = RunWorker \<longrightarrow> max_iterations_of env run \<le> 8"
    by (simp add: max_iterations_of_def worker_iterations_def Let_def)
  obtain r1 s1 where 1: "system_prompt env (ctx_at rc s) run s = (r1, s1)" by fastforce
  have l: "ledger_in (ru_ID run) (ru_SessionID run) s1 = ledger_in (ru_ID run) (ru_SessionID run) s"
    by (rule system_prompt_unmoved [OF unmoved_ledger 1])
  show ?thesis
  proof (cases r1)
    case (Inl err)
    with 1 l assms(3) worker finish_unmoved(3) [OF unmoved_ledger] show ?thesis by (simp add: execute_def Let_def)
  next
    case (Inr system)
    have "loop_measure env run s1 < fuel" using assms(4) by (auto simp: loop_measure_def Let_def)
    from run_loop_over [OF assms(1,2) _ this] assms(3) l 1 Inr worker show ?thesis by (simp add: execute_def Let_def)
  qed
qed

subsection \<open>A run ends or parks, and says which\<close>

definition accounted_for :: "Run \<Rightarrow> Rt \<Rightarrow> bool" where
  "accounted_for run s \<longleftrightarrow> (\<exists>row. gm_get (st_runs (rt_Store s)) (ru_ID run) = Some row \<and>
     (is_terminal (ru_Status row) \<or> is_durably_paused (ru_Status row)) \<and> told_in_log run (ru_Status row) (rt_Store s))"

text \<open>The same for good: not parked.\<close>

definition ended_for :: "Run \<Rightarrow> Rt \<Rightarrow> bool" where
  "ended_for run s \<longleftrightarrow> (\<exists>row. gm_get (st_runs (rt_Store s)) (ru_ID run) = Some row \<and>
     is_terminal (ru_Status row) \<and> told_in_log run (ru_Status row) (rt_Store s))"

lemma ended_accounts: "ended_for run s \<Longrightarrow> accounted_for run s"
  by (auto simp: ended_for_def accounted_for_def)

abbreviation has_house :: "Run \<Rightarrow> Rt \<Rightarrow> bool" where
  "has_house run s \<equiv> housed (ru_ID run) (ru_SessionID run) s"

lemma transition_accounts:
  assumes "has_house run s" "transition env None run status reason kind s = (r, s')"
  shows "is_terminal status \<Longrightarrow> ended_for run s'" "is_durably_paused status \<Longrightarrow> accounted_for run s'" "r = Inr ()"
proof -
  obtain stored where "gm_get (st_runs (rt_Store s)) (ru_ID run) = Some stored" "gm_get (st_sessions (rt_Store s)) (ru_SessionID run) \<noteq> None"
    using assms(1) by (auto simp: housed_def)
  from transition_told [OF this assms(2)]
  show "is_terminal status \<Longrightarrow> ended_for run s'" "is_durably_paused status \<Longrightarrow> accounted_for run s'" "r = Inr ()"
    by (auto simp: accounted_for_def ended_for_def)
qed

lemma finish_accounts:
  assumes "has_house run s"
  shows "is_terminal status \<Longrightarrow> ended_for run (finish_run env None run status reason kind s)"
    and "ended_for run (finish_from_error env c run err s)"
    and "accounted_for run (suspend lenv None run why s)"
proof -
  have fin: "ended_for run (finish_run env None run status reason kind s)" if "is_terminal status" for status reason kind
  proof -
    obtain r s1 where t: "transition env None run status reason kind s = (r, s1)" by fastforce
    from transition_accounts(1,3) [OF assms t] that have "ended_for run s1" "r = Inr ()" by auto
    with t show ?thesis by (auto simp: finish_run_def tell_after_run_def ended_for_def)
  qed
  then show "is_terminal status \<Longrightarrow> ended_for run (finish_run env None run status reason kind s)" .
  show "ended_for run (finish_from_error env c run err s)"
    by (simp add: finish_from_error_def fin split: option.split CancelCause.split)
  obtain status :: RunStatus and reason where s: "(if why = ParkedForAnswer then (RunAwaitingInput, ''waiting for an answer'')
            else (RunAwaitingApproval, ''waiting for approval'')) = (status, reason)" "is_durably_paused status"
    using that by (cases "why = ParkedForAnswer") (simp_all add: is_durably_paused_def)
  obtain r s1 where t: "transition (lv_Rt lenv) None run status reason '''' s = (r, s1)" by fastforce
  from transition_accounts(2) [OF assms t s(2)] s(1) t show "accounted_for run (suspend lenv None run why s)"
    by (simp add: suspend_def)
qed

abbreviation undisturbed :: RunClock where
  "undisturbed \<equiv> (\<lambda>_. None)"

lemma ctx_undisturbed [simp]: "ctx_at undisturbed s = None"
  by (simp add: ctx_at_def ctx_of_def)

lemma abort_accounts: "has_house run s \<Longrightarrow> ended_for run (abort env rc run c err s)"
proof -
  assume h: "has_house run s"
  obtain r1 c1 s1 where 1: "flush (ag_Rt env) None c s = (r1, c1, s1)" by (metis prod_cases3)
  with buffer_unmoved(4) [OF unmoved_housed 1, of "ru_ID run" "ru_SessionID run"] h finish_accounts(2) show ?thesis by (simp add: abort_def)
qed

lemma generate_turn_accounts:
  assumes "generate_turn env rc run request s = (Inl err, s')" "has_house run s"
  shows "ended_for run s'"
proof -
  obtain buf s1 where m: "generate_into env rc run request buf s1 = (Inl err, s')" and s1: "has_house run s1"
  proof -
    let ?s = "s\<lparr>rt_Tick := Suc (rt_Tick s), rt_Tick := Suc (rt_Tick (s\<lparr>rt_Tick := Suc (rt_Tick s)\<rparr>))\<rparr>"
    have "\<exists>buf. generate_into env rc run request buf ?s = (Inl err, s')"
      using assms(1) by (auto simp: generate_turn_def rbind_def new_id_def new_coalescer_def now_def ok_def)
    then show ?thesis using that assms(2) by auto
  qed
  show ?thesis
  proof (cases "ag_Generate env (rt_Tick s1) request")
    case (Inl e)
    with m s1 finish_accounts(2) show ?thesis by (auto simp: generate_into_def)
  next
    case (Inr items)
    obtain r2 c2 s2 where 2: "listen env rc run items ([], StopEndTurn) buf s1 = (r2, c2, s2)" by (metis prod_cases3)
    have h2: "has_house run s2" using listen_unmoved [OF 2, of "ru_ID run" "ru_SessionID run"] s1 by blast
    show ?thesis
    proof (cases r2)
      case (Inl e)
      with m Inr 2 h2 abort_accounts show ?thesis by (auto simp: generate_into_def)
    next
      case heard: (Inr heard)
      obtain r3 c3 s3 where 3: "close_message env rc run heard c2 s2 = (r3, c3, s3)" by (metis prod_cases3)
      obtain r4 c4 s4 where 4: "flush (ag_Rt env) (ctx_at rc s2) c2 s2 = (r4, c4, s4)" by (metis prod_cases3)
      have h4: "has_house run s4" using buffer_unmoved(4) [OF unmoved_housed 4, of "ru_ID run" "ru_SessionID run"] h2 by simp
      have "has_house run s3"
      proof (cases r4)
        case (Inl e)
        with 3 4 h4 show ?thesis by (auto simp: close_message_def)
      next
        case (Inr x)
        with 3 4 h4 keepsD [OF keeps_housed_append, of _ _ _ _ _ _ s4 _ s3 "ru_ID run" "ru_SessionID run"]
        show ?thesis by (auto simp: close_message_def split: prod.splits)
      qed
      with m Inr 2 heard 3 abort_accounts show ?thesis by (cases r3) (auto simp: generate_into_def)
    qed
  qed
qed


lemma prune_session_rows:
  "prune_session ctx sid k t = Inr (u, n) \<Longrightarrow> st_runs u = st_runs t \<and> st_sessions u = st_sessions t"
  by (auto simp: prune_session_def prune_events_def Let_def split: sum.splits if_splits prod.splits)

lemma rt_compact_housed: "housed rid sid (rt_compact env rc run overhead s) = housed rid sid s"
proof -
  have "housed rid sid s' = housed rid sid s" if "rt_append e ctx sid' rid' k p s = (r, s')" for e ctx sid' rid' k p r s'
    using keepsD [OF keeps_housed_append that] .
  moreover have "housed rid sid (s\<lparr>rt_Store := u\<rparr>) = housed rid sid s" if "prune_session ctx sid' k (rt_Store s) = Inr (u, n)" for ctx sid' k u n s
    using prune_session_rows [OF that] by (simp add: housed_def)
  ultimately show ?thesis
    by (simp add: rt_compact_def split: sum.split option.split prod.split)
qed

lemma run_step_accounts:
  assumes "run_step env undisturbed run system decls s = p" "has_house run s" "keeps_house (ru_ID run) (ru_SessionID run) (ag_Loop env)"
  shows "case p of Again s' \<Rightarrow> has_house run s' | Over s' \<Rightarrow> ended_for run s' \<or> (accounted_for run s' \<and>
     (\<exists>calls why. outstanding_calls None run (rt_Store s) = Inr calls \<and> why \<noteq> NotParked \<and>
       fst (run_calls (ag_Loop env) undisturbed run calls s) = Inr why))"
proof -
  note fin = finish_accounts [OF assms(2)]
  show ?thesis
  proof (cases "outstanding_calls None run (rt_Store s)")
    case (Inl err)
    with assms(1) fin show ?thesis by (auto simp: run_step_def)
  next
    case (Inr calls)
    show ?thesis
    proof (cases "calls = []")
      case False
      obtain r1 s1 where 1: "run_calls (ag_Loop env) undisturbed run calls s = (r1, s1)" by fastforce
      have h1: "has_house run s1" by (rule run_calls_housed [OF 1 assms(3,2)])
      from assms(1) Inr False 1 finish_accounts(2,3) [OF h1] h1 show ?thesis
        by (auto simp: run_step_def run_tools_def rbind_def split: sum.splits if_splits)
    next
      case True
      note quiet = this
      show ?thesis
      proof (cases "model_turns None run (rt_Store s)")
        case (Inl err)
        with assms(1) Inr quiet fin show ?thesis by (auto simp: run_step_def)
      next
        case turns: (Inr turns)
        show ?thesis
        proof (cases "int turns \<ge> max_iterations_of env run")
          case True
          with assms(1) Inr quiet turns fin show ?thesis by (auto simp: run_step_def)
        next
          case False
          define s1 where "s1 = rt_compact env undisturbed run (estimate_request_overhead system decls) s"
          have h1: "has_house run s1" using assms(2) by (simp add: s1_def rt_compact_housed)
          from assms(1) Inr quiet turns False have ask: "p = ask_model env undisturbed run system decls turns s" by (simp add: run_step_def)
          show ?thesis
          proof (cases "build_conversation (ag_Conversation env) None run (rt_Store s1)")
            case (Inl err)
            with ask finish_accounts(2) [OF h1] show ?thesis by (simp add: ask_model_def Let_def s1_def)
          next
            case built: (Inr messages)
            obtain r2 s2 where 2: "(if turns = 0 then transition (ag_Rt env) None run RunRunning '''' '''' s1 else (Inr (), s1)) = (r2, s2)" by fastforce
            then have h2: "has_house run s2" using h1 finish_unmoved(1) [OF unmoved_housed] by (auto split: if_splits)
            show ?thesis
            proof (cases r2)
              case (Inl err)
              with ask built 2 finish_accounts(1) [OF h2] show ?thesis by (auto simp: ask_model_def Let_def s1_def)
            next
              case (Inr x)
              obtain request s3 where 3: "request_for env undisturbed run system decls messages s2 = (request, s3)" by fastforce
              have h3: "has_house run s3" using request_for_unmoved [OF unmoved_housed 3] h2 by simp
              obtain r4 s4 where 4: "generate_turn env undisturbed run request s3 = (r4, s4)" by fastforce
              have h4: "has_house run s4" using generate_turn_ledger [OF 4] h3 by simp
              from ask built 2 Inr 3 4
              have "p = (case r4 of Inl _ \<Rightarrow> Over s4 | Inr calls \<Rightarrow> if calls = [] then Over (finish_run (ag_Rt env) None run RunCompleted '''' '''' s4) else Again s4)"
                by (auto simp: ask_model_def Let_def s1_def split: sum.split)
              with h4 finish_accounts(1) [OF h4] generate_turn_accounts 4 h3 show ?thesis by (cases r4) auto
            qed
          qed
        qed
      qed
    qed
  qed
qed

lemma run_loop_accounts:
  "run_loop fuel env undisturbed run system decls s = Some s' \<Longrightarrow> has_house run s \<Longrightarrow>
    keeps_house (ru_ID run) (ru_SessionID run) (ag_Loop env) \<Longrightarrow> accounted_for run s'"
proof (induction fuel arbitrary: s)
  case (Suc fuel)
  obtain p where p: "run_step env undisturbed run system decls s = p" by blast
  with run_step_accounts [OF p Suc.prems(2,3)] Suc show ?case by (cases p) (auto intro: ended_accounts)
qed simp

lemma execute_accounts:
  assumes "has_house run s" "keeps_house (ru_ID run) (ru_SessionID run) (ag_Loop env)" "execute fuel env undisturbed run s = Some s'"
  shows "accounted_for run s'"
proof -
  obtain r1 s1 where 1: "system_prompt env (ctx_at undisturbed s) run s = (r1, s1)" by fastforce
  have h1: "has_house run s1" using system_prompt_unmoved [OF unmoved_housed 1] assms(1) by simp
  show ?thesis
  proof (cases r1)
    case (Inl err)
    with 1 assms(3) finish_accounts(2) [OF h1] show ?thesis by (auto simp: execute_def Let_def intro: ended_accounts)
  next
    case (Inr system)
    with 1 assms(3) have "run_loop fuel env undisturbed run system (declarations_for (ag_Loop env) run) s1 = Some s'"
      by (simp add: execute_def Let_def)
    from run_loop_accounts [OF this h1 assms(2)] show ?thesis .
  qed
qed

lemma execute_returns:
  assumes "ag_KeepAfterFold env < 0" "keeps_ledger (ru_ID run) (ru_SessionID run) (ag_Loop env)"
    and "turns_on (ledger_in (ru_ID run) (ru_SessionID run) s) \<le> nat (max_iterations_of env run)"
    and "2 * nat (max_iterations_of env run) + 2 \<le> fuel"
  shows "execute fuel env rc run s \<noteq> None"
proof -
  obtain r1 s1 where 1: "system_prompt env (ctx_at rc s) run s = (r1, s1)" by fastforce
  have l: "ledger_in (ru_ID run) (ru_SessionID run) s1 = ledger_in (ru_ID run) (ru_SessionID run) s"
    by (rule system_prompt_unmoved [OF unmoved_ledger 1])
  show ?thesis
  proof (cases r1)
    case (Inl err)
    with 1 show ?thesis by (simp add: execute_def Let_def)
  next
    case (Inr system)
    have "loop_measure env run s1 < fuel" using assms(4) by (auto simp: loop_measure_def Let_def)
    from run_loop_over [OF assms(1,2) _ this, of rc system "declarations_for (ag_Loop env) run"] assms(3) l
    have "run_loop fuel env rc run system (declarations_for (ag_Loop env) run) s1 \<noteq> None" by auto
    with 1 Inr show ?thesis by (simp add: execute_def Let_def)
  qed
qed

text \<open>C8. A run that nobody interrupts never just stops. Take a run whose row and session are stored,
  and tools that do not delete either (the one demand on them; they may fail, write to the log or take
  turns of their own). Then, pruning on or off and whatever the provider answered or failed to, when
  the loop returns the stored run has ended or waits for a person, and the log's last word on it is
  that state. That it does return is promised under narrower conditions: pruning after a
  fold is off (it is on by default, and a prune can take the counted turns out of the log), the tools
  leave the run's own calls and turns alone, and the run has turns left; two rounds for each turn it
  may take are then enough.\<close>

theorem run_ends_or_waits_on_record:
  assumes "gm_get (st_runs (rt_Store s)) (ru_ID run) \<noteq> None" "gm_get (st_sessions (rt_Store s)) (ru_SessionID run) \<noteq> None"
    and "keeps_house (ru_ID run) (ru_SessionID run) (ag_Loop env)"
  shows "(\<forall>fuel s'. execute fuel env (\<lambda>_. None) run s = Some s' \<longrightarrow>
      (\<exists>row. gm_get (st_runs (rt_Store s')) (ru_ID run) = Some row \<and>
        (is_terminal (ru_Status row) \<or> ru_Status row = RunAwaitingApproval \<or> ru_Status row = RunAwaitingInput) \<and>
        told_in_log run (ru_Status row) (rt_Store s'))) \<and>
    (ag_KeepAfterFold env < 0 \<longrightarrow> keeps_ledger (ru_ID run) (ru_SessionID run) (ag_Loop env) \<longrightarrow>
      turns_on (ledger_in (ru_ID run) (ru_SessionID run) s) \<le> nat (max_iterations_of env run) \<longrightarrow>
      (\<forall>fuel. 2 * nat (max_iterations_of env run) + 2 \<le> fuel \<longrightarrow> execute fuel env (\<lambda>_. None) run s \<noteq> None))"
proof -
  have h: "has_house run s" using assms(1,2) by (simp add: housed_def)
  show ?thesis
    using execute_accounts [OF h assms(3)] execute_returns [of env run s _ undisturbed]
    by (simp add: accounted_for_def is_durably_paused_def)
qed


lemma workshop_keeps_house: "keeps_house rid sid workshop"
  unfolding keeps_house_def
proof (intro allI impI)
  fix reg name t ctx call and w w' :: Rt and r
  assume "lv_Tools workshop = Some reg" "lookup_tool reg name = Some t" "to_Execute t ctx call w = (r, w')" "housed rid sid w"
  then show "housed rid sid w'"
    using workshop_tools [of name t] by (auto simp: sample_tool_def)
qed

lemma sample_agent [simp]:
  "ag_Loop (agent_with f) = workshop" "ag_KeepAfterFold (agent_with f) = -1" "max_iterations_of (agent_with f) working = 3"
  by (simp_all add: agent_with_def max_iterations_of_def sample_run_def)

lemma at_work_start: "ledger_in rid sid at_work = []" "housed ''r1'' ''s'' at_work"
  "gm_get (st_runs (rt_Store at_work)) (ru_ID working) \<noteq> None" "gm_get (st_sessions (rt_Store at_work)) (ru_SessionID working) \<noteq> None"
  by (simp_all add: ledger_in_def ledger_of_def at_work_def new_rt_def new_store_def housed_def gm_get_def gm_list_def sample_run_def)

theorem run_ends_within_its_turns_witness:
  "\<exists>s'. execute 8 never_done (\<lambda>_. None) working at_work = Some s' \<and> turns_on (ledger_in ''r1'' ''s'' s') \<le> 3"
proof -
  have "ru_ID working = ''r1''" "ru_SessionID working = ''s''" by (simp_all add: sample_run_def)
  with run_ends_within_its_turns [of never_done working at_work 8 "\<lambda>_. None"] at_work_start workshop_keeps_ledger
  show ?thesis by (auto simp: never_done_def)
qed

theorem run_ends_or_waits_on_record_witness:
  "\<exists>s' row. execute 8 searcher (\<lambda>_. None) working at_work = Some s' \<and> gm_get (st_runs (rt_Store s')) ''r1'' = Some row \<and>
    (is_terminal (ru_Status row) \<or> ru_Status row = RunAwaitingApproval \<or> ru_Status row = RunAwaitingInput) \<and>
    told_in_log working (ru_Status row) (rt_Store s')"
proof -
  have r: "ru_ID working = ''r1''" "ru_SessionID working = ''s''" by (simp_all add: sample_run_def)
  have env: "ag_KeepAfterFold searcher < 0" "max_iterations_of searcher working = 3" "ag_Loop searcher = workshop"
    by (simp_all add: searcher_def)
  note told = run_ends_or_waits_on_record [OF at_work_start(3,4), of searcher, unfolded r env, OF workshop_keeps_house]
  from told at_work_start(1) workshop_keeps_ledger env obtain s' where s': "execute 8 searcher (\<lambda>_. None) working at_work = Some s'" by auto
  with told show ?thesis by blast
qed

subsection \<open>What a turn of the model leaves on record\<close>

fun delta_of :: "ProviderEvent \<Rightarrow> delta list" where
  "delta_of (TextDelta t) = [DText t]"
| "delta_of (ReasoningDelta t) = [DReasoning t]"
| "delta_of (UsageDelta u) = [DUsage u]"
| "delta_of _ = []"

fun deltas_of :: "(Err + ProviderEvent) list \<Rightarrow> delta list" where
  "deltas_of [] = []"
| "deltas_of (Inl _ # items) = []"
| "deltas_of (Inr ev # items) = delta_of ev @ deltas_of items"

lemma append_conserves:
  assumes "rt_append env ctx (ru_SessionID (co_run c)) rid k p s = (Inr (), s')"
    and "case p of PToolCallRequested _ \<Rightarrow> True | PAssistantMessageCompleted _ \<Rightarrow> True | _ \<Rightarrow> False"
  shows "conserves c s c s' []"
  using rt_append_events [OF assms(1)] assms(2)
  by (auto simp: conserves_def same_message_def whole_text_def whole_reasoning_def whole_usage_def events_of_def logged_append delta_usage_def
      split: EventPayload.splits)

lemma tick_conserves: "conserves c s c (tick s) []"
  by (simp add: conserves_def same_message_def whole_text_def whole_reasoning_def whole_usage_def events_of_def tick_def delta_usage_def)

lemma hear_conserves:
  assumes "hear env rc run ev heard c s = (Inr h, c', s')" "co_run c = run"
  shows "conserves c s c' s' (delta_of ev) \<and> co_run c' = run"
proof (cases ev)
  case (ToolCallAsked u)
  obtain r1 c1 s1 where 1: "flush_text (ag_Rt env) (ctx_at rc s) c s = (r1, c1, s1)" by (metis prod_cases3)
  with assms(1) ToolCallAsked have r1: "r1 = Inr ()" by (auto simp: hear_def split: sum.splits)
  note f = flush_text_ok [OF 1 [unfolded r1]]
  then have run1: "co_run c1 = run" using assms(2) by (simp add: conserves_def same_message_def)
  obtain u' s2 where u': "(if tl_ID u = '''' then (u\<lparr>tl_ID := rv_NewID (ag_Rt env) (rt_Tick s1)\<rparr>, tick s1) else (u, s1)) = (u', s2)"
    by fastforce
  then have t: "conserves c1 s1 c1 s2 []" using tick_conserves conserves_refl by (auto split: if_splits)
  obtain r3 s3 where 3: "rt_append (ag_Rt env) (ctx_at rc s2) (ru_SessionID run) (ru_ID run) EventToolCallRequested
                     (PToolCallRequested \<lparr>tq_CallID = tl_ID u', tq_Name = tl_Name u', tq_Arguments = tl_Args u',
                        tq_ProviderMetadata = tl_Opaque u'\<rparr>) s2 = (r3, s3)" by fastforce
  have "s' = s3" "c' = c1" "r3 = Inr ()"
    using assms(1) ToolCallAsked 1 r1 u' 3 by (auto simp: hear_def Let_def split: sum.splits)
  moreover have "conserves c1 s2 c1 s3 []"
    using append_conserves [of "ag_Rt env" "ctx_at rc s2" c1 "ru_ID run" EventToolCallRequested
        "PToolCallRequested \<lparr>tq_CallID = tl_ID u', tq_Name = tl_Name u', tq_Arguments = tl_Args u',
                        tq_ProviderMetadata = tl_Opaque u'\<rparr>" s2 s3] 3 run1 \<open>r3 = _\<close> by simp
  ultimately show ?thesis
    using conserves_trans [OF conserves_trans [OF conjunct1 [OF f] t]] run1 ToolCallAsked by fastforce
next
  case (TextDelta t)
  with assms have "take_delta (ag_Rt env) (ctx_at rc s) (DText t) c s = (Inr (), c', s')"
    by (auto simp: hear_def split: sum.splits prod.splits)
  from take_delta_ok [OF this] assms(2) TextDelta show ?thesis by (simp add: conserves_def same_message_def)
next
  case (ReasoningDelta t)
  with assms have "take_delta (ag_Rt env) (ctx_at rc s) (DReasoning t) c s = (Inr (), c', s')"
    by (auto simp: hear_def split: sum.splits prod.splits)
  from take_delta_ok [OF this] assms(2) ReasoningDelta show ?thesis by (simp add: conserves_def same_message_def)
next
  case (UsageDelta t)
  with assms have "take_delta (ag_Rt env) (ctx_at rc s) (DUsage t) c s = (Inr (), c', s')"
    by (auto simp: hear_def split: sum.splits prod.splits)
  from take_delta_ok [OF this] assms(2) UsageDelta show ?thesis by (simp add: conserves_def same_message_def)
next
  case (Completed reason raw)
  with assms show ?thesis by (auto simp: hear_def)
qed

lemma listen_conserves:
  "listen env rc run items heard c s = (Inr h, c', s') \<Longrightarrow> co_run c = run \<Longrightarrow>
    conserves c s c' s' (deltas_of items) \<and> co_run c' = run"
proof (induction env rc run items heard c s rule: listen.induct)
  case (3 env rc run ev items heard c s)
  obtain r1 c1 s1 where 1: "hear env rc run ev heard c s = (r1, c1, s1)" by (metis prod_cases3)
  with 3(2) obtain h1 where r1: "r1 = Inr h1" and l: "listen env rc run items h1 c1 s1 = (Inr h, c', s')"
    by (cases r1) auto
  from hear_conserves [OF 1 [unfolded r1] 3(3)] have c1: "conserves c s c1 s1 (delta_of ev)" "co_run c1 = run" by simp_all
  from 3(1) [OF 1 [symmetric] r1 refl l c1(2)] have c': "conserves c1 s1 c' s' (deltas_of items)" "co_run c' = run" by simp_all
  from conserves_trans [OF c1(1) c'(1)] c'(2) show ?case by simp
qed (auto split: if_splits)

lemma close_message_conserves:
  assumes "close_message env rc run heard c s = (Inr (), c', s')" "co_run c = run"
  shows "conserves c s c' s' [] \<and> co_text c' = '''' \<and> co_reasoning c' = '''' \<and> \<not> co_usagePending c'"
proof -
  obtain r1 c1 s1 where 1: "flush (ag_Rt env) (ctx_at rc s) c s = (r1, c1, s1)" by (metis prod_cases3)
  with assms(1) have r1: "r1 = Inr ()" by (auto simp: close_message_def split: sum.splits)
  note f = flush_ok [OF 1 [unfolded r1]]
  then have run1: "co_run c1 = run" using assms(2) by (simp add: conserves_def same_message_def)
  obtain r2 s2 where 2: "rt_append (ag_Rt env) (ctx_at rc s1) (ru_SessionID run) (ru_ID run) EventAssistantMessageCompleted
             (PAssistantMessageCompleted \<lparr>mc_MessageID = co_messageID c1, mc_StopReason = snd heard\<rparr>) s1 = (r2, s2)" by fastforce
  with assms(1) 1 r1 have e: "c' = c1" "s' = s2" "r2 = Inr ()" by (auto simp: close_message_def)
  with 2 run1 have "conserves c1 s1 c1 s' []"
    using append_conserves [of "ag_Rt env" "ctx_at rc s1" c1 "ru_ID run" EventAssistantMessageCompleted
       "PAssistantMessageCompleted \<lparr>mc_MessageID = co_messageID c1, mc_StopReason = snd heard\<rparr>" s1 s2] by simp
  from conserves_trans [OF conjunct1 [OF f] this] e f show ?thesis by simp
qed

lemma generate_turn_heard:
  assumes "generate_turn env rc run request s = (Inr calls, s')"
  shows "\<exists>n items heard c c1 s1 c2. ag_Generate env n request = Inr items \<and> co_run c = run \<and>
    co_messageID c = rv_NewID (ag_Rt env) (rt_Tick s) \<and> co_text c = '''' \<and> co_reasoning c = '''' \<and> \<not> co_usagePending c \<and>
    listen env rc run items ([], StopEndTurn) c (s\<lparr>rt_Tick := n\<rparr>) = (Inr heard, c1, s1) \<and>
    close_message env rc run heard c1 s1 = (Inr (), c2, s')"
  using assms
  by (auto simp: generate_turn_def rbind_def new_id_def new_coalescer_def now_def ok_def generate_into_def
      split: sum.splits prod.splits) force


definition plain_question :: GenerateRequest where
  "plain_question = \<lparr>gr_Model = ''m'', gr_System = [], gr_Messages = [], gr_Tools = []\<rparr>"


subsection \<open>Notes in the log\<close>

definition skill_activated :: "AgentEnv \<Rightarrow> Ctx \<Rightarrow> SessionID \<Rightarrow> RunID \<Rightarrow> SkillActivated \<Rightarrow> unit rt" where
  "skill_activated env ctx session run activated = rt_append (ag_Rt env) ctx session run EventSkillActivated (PSkillActivated activated)"

definition memories_noted :: "AgentEnv \<Rightarrow> Ctx \<Rightarrow> Run \<Rightarrow> string list \<Rightarrow> unit rt" where
  "memories_noted env ctx run notes =
     rt_append (ag_Rt env) ctx (ru_SessionID run) (ru_ID run) EventMemoriesNoted (PMemoriesNoted \<lparr>mn_Notes = notes\<rparr>)"

end
