(* ===== verification/Utf8.thy ===== *)
theory Utf8
imports Prelude
begin

text \<open>
  Text as Go sees it: a string is bytes, and \<open>[]rune(s)\<close> and \<open>string(runes)\<close> decode and encode UTF-8. The
  code cuts titles and messages by runes so that what is left is still text; the rounds trips here are
  what that rests on. A byte that starts no well-formed sequence decodes to U+FFFD, one byte wide.
\<close>

subsection \<open>Decoding and encoding\<close>

type_synonym rune = nat

definition byte :: "char \<Rightarrow> nat" where "byte c = of_char c"
definition rune_error :: rune where "rune_error = 0xFFFD"

definition within :: "nat \<Rightarrow> nat \<Rightarrow> char \<Rightarrow> bool" where
  "within lo hi c \<longleftrightarrow> lo \<le> byte c \<and> byte c \<le> hi"

abbreviation "continues \<equiv> within 0x80 0xBF"

text \<open>The rune at the front and how many bytes it takes: \<open>utf8.DecodeRune\<close> with its table of the ranges
  a second byte may have.\<close>

fun decode_rune :: "string \<Rightarrow> rune \<times> nat" where
  "decode_rune [] = (rune_error, 0)"
| "decode_rune (c # cs) =
     (let b = byte c in
      if b < 0x80 then (b, 1)
      else if 0xC2 \<le> b \<and> b \<le> 0xDF then
        (case cs of
           c1 # _ \<Rightarrow> if continues c1 then ((b - 0xC0) * 0x40 + (byte c1 - 0x80), 2) else (rune_error, 1)
         | _ \<Rightarrow> (rune_error, 1))
      else if 0xE0 \<le> b \<and> b \<le> 0xEF then
        (case cs of
           c1 # c2 # _ \<Rightarrow>
             if within (if b = 0xE0 then 0xA0 else 0x80) (if b = 0xED then 0x9F else 0xBF) c1 \<and> continues c2
             then ((b - 0xE0) * 0x1000 + (byte c1 - 0x80) * 0x40 + (byte c2 - 0x80), 3) else (rune_error, 1)
         | _ \<Rightarrow> (rune_error, 1))
      else if 0xF0 \<le> b \<and> b \<le> 0xF4 then
        (case cs of
           c1 # c2 # c3 # _ \<Rightarrow>
             if within (if b = 0xF0 then 0x90 else 0x80) (if b = 0xF4 then 0x8F else 0xBF) c1 \<and> continues c2 \<and> continues c3
             then ((b - 0xF0) * 0x40000 + (byte c1 - 0x80) * 0x1000 + (byte c2 - 0x80) * 0x40 + (byte c3 - 0x80), 4)
             else (rune_error, 1)
         | _ \<Rightarrow> (rune_error, 1))
      else (rune_error, 1))"

definition scalar :: "rune \<Rightarrow> bool" where
  "scalar r \<longleftrightarrow> r \<le> 0x10FFFF \<and> \<not> (0xD800 \<le> r \<and> r \<le> 0xDFFF)"

definition encode_rune :: "rune \<Rightarrow> string" where
  "encode_rune r =
     (let r = (if scalar r then r else rune_error) in
      if r \<le> 0x7F then [char_of r]
      else if r \<le> 0x7FF then [char_of (0xC0 + r div 0x40), char_of (0x80 + r mod 0x40)]
      else if r \<le> 0xFFFF then [char_of (0xE0 + r div 0x1000), char_of (0x80 + r div 0x40 mod 0x40), char_of (0x80 + r mod 0x40)]
      else [char_of (0xF0 + r div 0x40000), char_of (0x80 + r div 0x1000 mod 0x40),
            char_of (0x80 + r div 0x40 mod 0x40), char_of (0x80 + r mod 0x40)])"

text \<open>\<open>[]rune(s)\<close> and \<open>string(runes)\<close>\<close>

function runes :: "string \<Rightarrow> rune list" where
  "runes [] = []"
| "runes (c # cs) = (case decode_rune (c # cs) of (r, w) \<Rightarrow> r # runes (drop (w - 1) cs))"
  by pat_completeness auto
termination by (relation "measure length") auto

definition of_runes :: "rune list \<Rightarrow> string" where
  "of_runes rs = concat (map encode_rune rs)"

definition valid_utf8 :: "string \<Rightarrow> bool" where
  "valid_utf8 s \<longleftrightarrow> of_runes (runes s) = s"

subsection \<open>Cutting a text\<close>

definition ellipsis :: string where "ellipsis = [char_of (0xE2 :: nat), char_of (0x80 :: nat), char_of (0xA6 :: nat)]"
definition em_dash :: string where "em_dash = [char_of (0xE2 :: nat), char_of (0x80 :: nat), char_of (0x94 :: nat)]"

text \<open>A text cut to so many runes, and an ellipsis where something was cut.\<close>

definition cut_runes :: "nat \<Rightarrow> string \<Rightarrow> string" where
  "cut_runes most text = (if length (runes text) > most then of_runes (take most (runes text)) @ ellipsis else text)"

subsection \<open>Round trips\<close>

lemma byte_char_of [simp]: "n < 256 \<Longrightarrow> byte (char_of n) = n"
  by (simp add: byte_def)

lemma byte_bound: "byte c < 256"
  by (simp add: byte_def)

lemma char_of_byte [simp]: "char_of (byte c) = c"
  by (simp add: byte_def)

lemma decode_one: "n < 0x80 \<Longrightarrow> decode_rune (char_of n # s) = (n, 1)"
  by simp

lemma decode_two:
  "2 \<le> a \<Longrightarrow> a < 0x20 \<Longrightarrow> b < 0x40 \<Longrightarrow>
    decode_rune (char_of (0xC0 + a) # char_of (0x80 + b) # s) = (a * 0x40 + b, 2)"
  by (simp add: within_def)

lemma decode_three:
  "a < 0x10 \<Longrightarrow> b < 0x40 \<Longrightarrow> c < 0x40 \<Longrightarrow> (a = 0 \<Longrightarrow> 0x20 \<le> b) \<Longrightarrow> (a = 13 \<Longrightarrow> b < 0x20) \<Longrightarrow>
    decode_rune (char_of (0xE0 + a) # char_of (0x80 + b) # char_of (0x80 + c) # s) = (a * 0x1000 + b * 0x40 + c, 3)"
  by (cases "a = 13") (simp_all add: within_def)

lemma decode_four:
  "a < 5 \<Longrightarrow> b < 0x40 \<Longrightarrow> c < 0x40 \<Longrightarrow> d < 0x40 \<Longrightarrow> (a = 0 \<Longrightarrow> 0x10 \<le> b) \<Longrightarrow> (a = 4 \<Longrightarrow> b < 0x10) \<Longrightarrow>
    decode_rune (char_of (0xF0 + a) # char_of (0x80 + b) # char_of (0x80 + c) # char_of (0x80 + d) # s) =
      (a * 0x40000 + b * 0x1000 + c * 0x40 + d, 4)"
  by (cases "a = 4") (simp_all add: within_def)

lemma digits_sum:
  "r div 0x1000 * 0x1000 + r div 0x40 mod 0x40 * 0x40 + r mod 0x40 = (r :: nat)"
  "r div 0x40000 * 0x40000 + r div 0x1000 mod 0x40 * 0x1000 + r div 0x40 mod 0x40 * 0x40 + r mod 0x40 = (r :: nat)"
proof -
  have d: "r div 0x1000 = r div 0x40 div 0x40" "r div 0x40000 = r div 0x1000 div 0x40"
    by (simp_all add: div_mult2_eq [symmetric])
  have "r div 0x40 * 0x40 + r mod 0x40 = r" "r div 0x40 div 0x40 * 0x40 + r div 0x40 mod 0x40 = r div 0x40"
    "r div 0x1000 div 0x40 * 0x40 + r div 0x1000 mod 0x40 = r div 0x1000" by (rule div_mult_mod_eq)+
  then show "r div 0x1000 * 0x1000 + r div 0x40 mod 0x40 * 0x40 + r mod 0x40 = r"
    "r div 0x40000 * 0x40000 + r div 0x1000 mod 0x40 * 0x1000 + r div 0x40 mod 0x40 * 0x40 + r mod 0x40 = r"
    unfolding d by linarith+
qed

lemma decode_encode:
  assumes "scalar r"
  shows "decode_rune (encode_rune r @ s) = (r, length (encode_rune r))"
proof -
  consider "r < 0x80" | "0x80 \<le> r" "r < 0x800" | "0x800 \<le> r" "r < 0x10000" | "0x10000 \<le> r" "r < 0x110000"
    using assms by (fastforce simp: scalar_def)
  then show ?thesis
  proof cases
    case 1
    with assms show ?thesis using decode_one [OF 1, of s] by (simp add: encode_rune_def del: decode_rune.simps)
  next
    case 2
    then have "2 \<le> r div 0x40" "r div 0x40 < 0x20" "r mod 0x40 < 0x40" by auto
    from decode_two [OF this, of s] 2 assms show ?thesis by (simp add: encode_rune_def del: decode_rune.simps)
  next
    case 3
    have b: "r div 0x1000 < 0x10" "r div 0x40 mod 0x40 < 0x40" "r mod 0x40 < 0x40" using 3 by auto
    note sum = digits_sum(1) [of r]
    have d: "r div 0x1000 = 0 \<Longrightarrow> 0x20 \<le> r div 0x40 mod 0x40" "r div 0x1000 = 13 \<Longrightarrow> r div 0x40 mod 0x40 < 0x20"
      using sum b(3) 3 assms unfolding scalar_def by linarith+
    from decode_three [OF b d, of s] show ?thesis unfolding sum using 3 assms by (simp add: encode_rune_def del: decode_rune.simps)
  next
    case 4
    have b: "r div 0x40000 < 5" "r div 0x1000 mod 0x40 < 0x40" "r div 0x40 mod 0x40 < 0x40" "r mod 0x40 < 0x40" using 4 by auto
    note sum = digits_sum(2) [of r]
    have d: "r div 0x40000 = 0 \<Longrightarrow> 0x10 \<le> r div 0x1000 mod 0x40" "r div 0x40000 = 4 \<Longrightarrow> r div 0x1000 mod 0x40 < 0x10"
      using sum b(3,4) 4 by linarith+
    from decode_four [OF b d, of s] show ?thesis unfolding sum using 4 assms by (simp add: encode_rune_def del: decode_rune.simps)
  qed
qed

lemma encode_nonempty: "encode_rune r \<noteq> []"
  by (simp add: encode_rune_def Let_def)

lemma runes_encode: "scalar r \<Longrightarrow> runes (encode_rune r @ s) = r # runes s"
proof -
  assume r: "scalar r"
  obtain c cs where e: "encode_rune r = c # cs" using encode_nonempty by (cases "encode_rune r") auto
  with decode_encode [OF r, of s] have "decode_rune (c # cs @ s) = (r, Suc (length cs))" by simp
  then show ?thesis by (simp add: e del: decode_rune.simps)
qed

lemma of_runes_simps [simp]: "of_runes [] = []" "of_runes (r # rs) = encode_rune r @ of_runes rs" "of_runes (xs @ ys) = of_runes xs @ of_runes ys"
  by (simp_all add: of_runes_def)

lemma runes_of_runes: "\<forall>r \<in> set rs. scalar r \<Longrightarrow> runes (of_runes rs) = rs"
  by (induction rs) (simp_all add: runes_encode)

lemma scalar_sums:
  "b \<le> 0xDF \<Longrightarrow> x \<le> 0xBF \<Longrightarrow> scalar ((b - 0xC0) * 0x40 + (x - 0x80))"
  unfolding scalar_def by linarith

lemma scalar_sums3:
  assumes "0xE0 \<le> b" "b \<le> 0xEF" "0x80 \<le> x" "x \<le> 0xBF" "y \<le> 0xBF" "b = 0xED \<Longrightarrow> x \<le> 0x9F"
  shows "scalar ((b - 0xE0) * 0x1000 + (x - 0x80) * 0x40 + (y - 0x80))"
proof -
  consider "b < 0xED" | "b = 0xED" | "0xED < b" by linarith
  then show ?thesis using assms unfolding scalar_def by cases linarith+
qed

lemma scalar_sums4:
  assumes "0xF0 \<le> b" "b \<le> 0xF4" "0x80 \<le> x" "x \<le> 0xBF" "y \<le> 0xBF" "z \<le> 0xBF" "b = 0xF4 \<Longrightarrow> x \<le> 0x8F" "b = 0xF0 \<Longrightarrow> 0x90 \<le> x"
  shows "scalar ((b - 0xF0) * 0x40000 + (x - 0x80) * 0x1000 + (y - 0x80) * 0x40 + (z - 0x80))"
proof -
  consider "b = 0xF0" | "0xF0 < b" "b < 0xF4" | "b = 0xF4" using assms by linarith
  then show ?thesis using assms unfolding scalar_def by cases linarith+
qed

lemma scalar_small: "b < 0x80 \<Longrightarrow> scalar b" "scalar rune_error"
  by (simp_all add: scalar_def rune_error_def)

lemma decode_scalar: "scalar (fst (decode_rune s))"
proof (cases s)
  case (Cons c cs)
  consider "byte c < 0x80" | "0xC2 \<le> byte c" "byte c \<le> 0xDF" | "0xE0 \<le> byte c" "byte c \<le> 0xEF"
    | "0xF0 \<le> byte c" "byte c \<le> 0xF4" | "0x80 \<le> byte c" "byte c < 0xC2" | "0xF4 < byte c" by linarith
  then have "scalar (fst (decode_rune (c # cs)))"
  proof cases
    case 2
    then have "scalar ((byte c - 0xC0) * 0x40 + (byte c1 - 0x80))" if "continues c1" for c1
      using that by (intro scalar_sums) (auto simp: within_def)
    with 2 show ?thesis by (auto simp: scalar_small Let_def split: list.split)
  next
    case 3
    have "scalar ((byte c - 0xE0) * 0x1000 + (byte c1 - 0x80) * 0x40 + (byte c2 - 0x80))"
      if "within (if byte c = 0xE0 then 0xA0 else 0x80) (if byte c = 0xED then 0x9F else 0xBF) c1" "continues c2" for c1 c2
      using that 3 by (intro scalar_sums3) (auto simp: within_def split: if_splits)
    with 3 show ?thesis by (auto simp: scalar_small Let_def split: list.split)
  next
    case 4
    have "scalar ((byte c - 0xF0) * 0x40000 + (byte c1 - 0x80) * 0x1000 + (byte c2 - 0x80) * 0x40 + (byte c3 - 0x80))"
      if "within (if byte c = 0xF0 then 0x90 else 0x80) (if byte c = 0xF4 then 0x8F else 0xBF) c1" "continues c2" "continues c3" for c1 c2 c3
      using that 4 by (intro scalar_sums4) (auto simp: within_def split: if_splits)
    with 4 show ?thesis by (auto simp: scalar_small Let_def split: list.split)
  qed (simp_all add: scalar_small Let_def)
  then show ?thesis by (simp add: Cons del: decode_rune.simps)
qed (simp add: scalar_small)

lemma runes_scalar: "\<forall>r \<in> set (runes s). scalar r"
proof (induction s rule: runes.induct)
  case (2 c cs)
  obtain r w where d: "decode_rune (c # cs) = (r, w)" by fastforce
  then have "scalar r" using decode_scalar [of "c # cs"] by simp
  moreover have "\<forall>r \<in> set (runes (drop (w - 1) cs)). scalar r" using 2 d by simp
  ultimately show ?case by (simp add: d del: decode_rune.simps)
qed simp

lemma encoded_text: "s = of_runes rs \<Longrightarrow> \<forall>r \<in> set rs. scalar r \<Longrightarrow> valid_utf8 s \<and> runes s = rs"
  by (simp add: valid_utf8_def runes_of_runes)

text \<open>Whatever was cut between two runes is text; of text, it is a prefix.\<close>

lemma cut_valid: "valid_utf8 (of_runes (take n (runes s)))"
proof -
  have "\<forall>r \<in> set (take n (runes s)). scalar r" using runes_scalar [of s] in_set_takeD by fastforce
  then show ?thesis by (simp add: valid_utf8_def runes_of_runes)
qed

lemma cut_prefix: "valid_utf8 s \<Longrightarrow> \<exists>rest. s = of_runes (take n (runes s)) @ rest"
proof -
  assume "valid_utf8 s"
  then have "s = of_runes (take n (runes s) @ drop n (runes s))" by (simp add: valid_utf8_def)
  then have "s = of_runes (take n (runes s)) @ of_runes (drop n (runes s))" by (simp only: of_runes_simps)
  then show ?thesis by (rule exI)
qed

lemma valid_append: "valid_utf8 s \<Longrightarrow> valid_utf8 t \<Longrightarrow> valid_utf8 (s @ t) \<and> runes (s @ t) = runes s @ runes t"
proof -
  assume s: "valid_utf8 s" and t: "valid_utf8 t"
  then have st: "s @ t = of_runes (runes s @ runes t)" by (simp add: valid_utf8_def)
  have "\<forall>r \<in> set (runes s @ runes t). scalar r" using runes_scalar [of s] runes_scalar [of t] by auto
  then have "runes (s @ t) = runes s @ runes t" unfolding st by (rule runes_of_runes)
  then show ?thesis using st by (simp add: valid_utf8_def)
qed

definition is_ascii :: "string \<Rightarrow> bool" where
  "is_ascii s \<longleftrightarrow> (\<forall>c \<in> set s. byte c < 0x80)"

lemma ascii_runes: "is_ascii s \<Longrightarrow> valid_utf8 s \<and> runes s = map byte s"
  by (induction s) (auto simp: is_ascii_def valid_utf8_def encode_rune_def scalar_def Let_def)

end
