(* ===== verification/GatewayStore.thy ===== *)
theory GatewayStore
imports Events Storage
begin

text \<open>
  The gateway's vocabulary and its persistence (\<open>core/internal/gateway/gateway.go\<close>, \<open>store.go\<close>,
  \<open>core/internal/storage/sqlite/gateway.go\<close> with the constraints of its migration 0003).

  A table is the list of its rows in the order of insertion. A statement runs in one step and fails
  when its context has ended; a unique constraint and a foreign key to \<open>sessions\<close> (\<open>known\<close>) fail an
  insert. The columns that hold JSON are modelled by what they encode.
\<close>

subsection \<open>People, places and permission\<close>

record Claim =
  cl_Namespace :: string
  cl_Value :: string

record Principal =
  pl_Platform :: string
  pl_AccountID :: string
  pl_TenantID :: string
  pl_ID :: string
  pl_DisplayName :: string
  pl_IsBot :: bool
  pl_Claims :: "Claim list"

definition has_claim :: "Principal \<Rightarrow> string \<Rightarrow> string \<Rightarrow> bool" where
  "has_claim p namespace claimed \<longleftrightarrow> (\<exists>claim \<in> set (pl_Claims p). cl_Namespace claim = namespace \<and> cl_Value claim = claimed)"

record ConversationRef =
  cr_Platform :: string
  cr_AccountID :: string
  cr_TenantID :: string
  cr_ChannelID :: string
  cr_ThreadID :: string
  cr_SourceMessageID :: string
  cr_RootMessageID :: string

definition thread_of :: "ConversationRef \<Rightarrow> string" where
  "thread_of c = (if cr_ThreadID c = '''' then cr_RootMessageID c else cr_ThreadID c)"

definition conversation_key :: "ConversationRef \<Rightarrow> string" where
  "conversation_key c =
     cr_Platform c @ '':'' @ cr_AccountID c @ '':'' @ cr_TenantID c @ '':'' @ cr_ChannelID c @ '':'' @ thread_of c"

record InboundAttachment =
  ia_ID :: string
  ia_Name :: string
  ia_ContentType :: string
  ia_Size :: int
  ia_Data :: string

datatype Trigger = TriggerMention | TriggerCommand | TriggerDirect | TriggerAmbient | TriggerOther string

fun is_explicit :: "Trigger \<Rightarrow> bool" where
  "is_explicit t \<longleftrightarrow> t = TriggerMention \<or> t = TriggerCommand \<or> t = TriggerDirect"

record InboundMessage =
  im_PlatformMessageID :: string
  im_IdempotencyKey :: string
  im_Principal :: Principal
  im_Conversation :: ConversationRef
  im_Text :: string
  im_Attachments :: "InboundAttachment list"
  im_Trigger :: Trigger
  im_OccurredAt :: instant

record Binding =
  bi_ID :: string
  bi_Platform :: string
  bi_AccountID :: string
  bi_TenantID :: string
  bi_ChannelID :: string
  bi_WorkspaceID :: string
  bi_PermissionProfile :: string
  bi_AllowedPrincipals :: "string list"
  bi_AllowedClaims :: "Claim list"
  bi_ApprovingPrincipals :: "string list"
  bi_ApprovingClaims :: "Claim list"
  bi_CreatedAt :: instant

definition open_to_the_room :: "Binding \<Rightarrow> bool" where
  "open_to_the_room b \<longleftrightarrow> bi_AllowedPrincipals b = [] \<and> bi_AllowedClaims b = []"

definition listed :: "string list \<Rightarrow> Claim list \<Rightarrow> Principal \<Rightarrow> bool" where
  "listed ids claims p \<longleftrightarrow> pl_ID p \<in> set ids \<or> (\<exists>claim \<in> set claims. has_claim p (cl_Namespace claim) (cl_Value claim))"

definition may_approve :: "Binding \<Rightarrow> Principal \<Rightarrow> bool" where
  "may_approve b p \<longleftrightarrow> \<not> pl_IsBot p \<and> listed (bi_ApprovingPrincipals b) (bi_ApprovingClaims b) p"

definition permits :: "Binding \<Rightarrow> Principal \<Rightarrow> bool" where
  "permits b p \<longleftrightarrow> \<not> pl_IsBot p \<and> (open_to_the_room b \<or> listed (bi_AllowedPrincipals b) (bi_AllowedClaims b) p)"

definition principal_origin :: "Principal \<Rightarrow> RunOrigin" where
  "principal_origin p =
     \<lparr>or_Kind = OriginGateway, or_ClientID = '''',
      or_Principal = Some \<lparr>pr_Platform = pl_Platform p, pr_AccountID = pl_AccountID p, pr_TenantID = pl_TenantID p,
        pr_PrincipalID = pl_ID p, pr_DisplayName = pl_DisplayName p\<rparr>\<rparr>"

subsection \<open>The outbox\<close>

type_synonym DispatchSeq = nat

datatype DispatchKind = DispatchMessage | DispatchApproval | DispatchQuestion | DispatchStatus | DispatchLog

definition all_dispatch_kinds :: "DispatchKind list" where
  "all_dispatch_kinds = [DispatchMessage, DispatchApproval, DispatchQuestion, DispatchStatus, DispatchLog]"

record Dispatch =
  di_ID :: string
  di_Seq :: DispatchSeq
  di_AccountID :: string
  di_SessionID :: SessionID
  di_RunID :: RunID
  di_Target :: ConversationRef
  di_Kind :: DispatchKind
  di_Payload :: string
  di_CreatedAt :: instant
  di_DeliveredAt :: "instant option"
  di_PlatformMessageIDs :: "string list"

definition is_delivered :: "Dispatch \<Rightarrow> bool" where
  "is_delivered d \<longleftrightarrow> di_DeliveredAt d \<noteq> None"

datatype GwError =
    ErrBindingNotFound | ErrDispatchNotFound | ErrAlreadyDelivered | ErrNotPermitted | ErrNotExplicit | ErrAlreadyProcessed
  | ErrDatabase string

record ConversationRow =
  gc_Key :: string
  gc_Session :: SessionID
  gc_Binding :: string
  gc_At :: instant

record InboundRow =
  in_Key :: string
  in_Account :: string
  in_Session :: SessionID
  in_Run :: RunID
  in_At :: instant

record Tables =
  tb_Bindings :: "Binding list"
  tb_Conversations :: "ConversationRow list"
  tb_Inbound :: "InboundRow list"
  tb_Dispatches :: "Dispatch list"

definition new_tables :: Tables where
  "new_tables = \<lparr>tb_Bindings = [], tb_Conversations = [], tb_Inbound = [], tb_Dispatches = []\<rparr>"

definition alive :: "Ctx \<Rightarrow> GwError + 'a \<Rightarrow> GwError + 'a" where
  "alive ctx r = (case ctx of Some _ \<Rightarrow> Inl (ErrDatabase ''context'') | None \<Rightarrow> r)"

subsection \<open>Bindings\<close>

definition channel_of :: "Binding \<Rightarrow> string \<times> string \<times> string \<times> string" where
  "channel_of b = (bi_Platform b, bi_AccountID b, bi_TenantID b, bi_ChannelID b)"

text \<open>\<open>ON CONFLICT ... DO UPDATE\<close>: the row that was there keeps its identifier and its moment.\<close>

definition rebound :: "Binding \<Rightarrow> Binding \<Rightarrow> Binding" where
  "rebound old new = new\<lparr>bi_ID := bi_ID old, bi_CreatedAt := bi_CreatedAt old\<rparr>"

definition upsert_binding :: "Ctx \<Rightarrow> Binding \<Rightarrow> Tables \<Rightarrow> GwError + Tables" where
  "upsert_binding ctx b t = alive ctx
     (if \<exists>old \<in> set (tb_Bindings t). channel_of old = channel_of b
      then Inr (t\<lparr>tb_Bindings := map (\<lambda>old. if channel_of old = channel_of b then rebound old b else old) (tb_Bindings t)\<rparr>)
      else if \<exists>old \<in> set (tb_Bindings t). bi_ID old = bi_ID b then Inl (ErrDatabase ''upsert binding'')
      else Inr (t\<lparr>tb_Bindings := tb_Bindings t @ [b]\<rparr>))"

definition get_binding :: "Ctx \<Rightarrow> string \<Rightarrow> string \<Rightarrow> string \<Rightarrow> string \<Rightarrow> Tables \<Rightarrow> GwError + Binding" where
  "get_binding ctx platform account tenant channel t = alive ctx
     (case find (\<lambda>b. channel_of b = (platform, account, tenant, channel)) (tb_Bindings t) of
        None \<Rightarrow> Inl ErrBindingNotFound
      | Some b \<Rightarrow> Inr b)"

definition list_bindings :: "Ctx \<Rightarrow> Tables \<Rightarrow> GwError + Binding list" where
  "list_bindings ctx t = alive ctx (Inr (sort_key (\<lambda>b. (bi_CreatedAt b, bi_ID b)) (tb_Bindings t)))"

definition delete_binding :: "Ctx \<Rightarrow> string \<Rightarrow> Tables \<Rightarrow> GwError + Tables" where
  "delete_binding ctx bid t = alive ctx (Inr (t\<lparr>tb_Bindings := filter (\<lambda>b. bi_ID b \<noteq> bid) (tb_Bindings t)\<rparr>))"

subsection \<open>Conversations and what has been taken in\<close>

definition session_for_conversation :: "Ctx \<Rightarrow> string \<Rightarrow> Tables \<Rightarrow> GwError + SessionID option" where
  "session_for_conversation ctx key t = alive ctx
     (Inr (map_option gc_Session (find (\<lambda>r. gc_Key r = key) (tb_Conversations t))))"

definition link_conversation ::
    "(SessionID \<Rightarrow> bool) \<Rightarrow> Ctx \<Rightarrow> string \<Rightarrow> SessionID \<Rightarrow> string \<Rightarrow> instant \<Rightarrow> Tables \<Rightarrow> GwError + Tables" where
  "link_conversation known ctx key session binding at t = alive ctx
     (if \<exists>r \<in> set (tb_Conversations t). gc_Key r = key then Inl ErrAlreadyProcessed
      else if \<not> known session then Inl (ErrDatabase ''link conversation'')
      else Inr (t\<lparr>tb_Conversations := tb_Conversations t @ [\<lparr>gc_Key = key, gc_Session = session, gc_Binding = binding, gc_At = at\<rparr>]\<rparr>))"

definition claim_inbound :: "Ctx \<Rightarrow> string \<Rightarrow> string \<Rightarrow> SessionID \<Rightarrow> RunID \<Rightarrow> instant \<Rightarrow> Tables \<Rightarrow> GwError + (bool \<times> Tables)" where
  "claim_inbound ctx key account session run at t = alive ctx
     (if \<exists>r \<in> set (tb_Inbound t). in_Key r = key then Inr (False, t)
      else Inr (True, t\<lparr>tb_Inbound := tb_Inbound t @
        [\<lparr>in_Key = key, in_Account = account, in_Session = session, in_Run = run, in_At = at\<rparr>]\<rparr>))"

definition inbound_session :: "Ctx \<Rightarrow> string \<Rightarrow> Tables \<Rightarrow> GwError + SessionID option" where
  "inbound_session ctx key t = alive ctx (Inr (map_option in_Session (find (\<lambda>r. in_Key r = key) (tb_Inbound t))))"

subsection \<open>Dispatches\<close>

definition rows_of :: "string \<Rightarrow> Tables \<Rightarrow> Dispatch list" where
  "rows_of account t = filter (\<lambda>d. di_AccountID d = account) (tb_Dispatches t)"

text \<open>\<open>SELECT COALESCE(MAX(seq), 0) + 1\<close>\<close>

definition next_seq :: "string \<Rightarrow> Tables \<Rightarrow> DispatchSeq" where
  "next_seq account t = foldr max (map di_Seq (rows_of account t)) 0 + 1"

definition enqueue_dispatch :: "(SessionID \<Rightarrow> bool) \<Rightarrow> Ctx \<Rightarrow> Dispatch \<Rightarrow> Tables \<Rightarrow> GwError + (DispatchSeq \<times> Tables)" where
  "enqueue_dispatch known ctx d t = alive ctx
     (if (\<exists>r \<in> set (tb_Dispatches t). di_ID r = di_ID d) \<or> \<not> known (di_SessionID d) then Inl (ErrDatabase ''enqueue dispatch'')
      else let seq = next_seq (di_AccountID d) t in
        Inr (seq, t\<lparr>tb_Dispatches := tb_Dispatches t @
          [d\<lparr>di_Seq := seq, di_DeliveredAt := None, di_PlatformMessageIDs := []\<rparr>]\<rparr>))"

text \<open>The cursor is a \<open>uint64\<close> that reaches the query as \<open>int64(after)\<close>.\<close>

definition dispatches_after :: "Ctx \<Rightarrow> string \<Rightarrow> DispatchSeq \<Rightarrow> int \<Rightarrow> Tables \<Rightarrow> GwError + Dispatch list" where
  "dispatches_after ctx account after limit t = alive ctx
     (let cursor = wrap64 (int after);
          rows = sort_key di_Seq (filter (\<lambda>d. cursor < int (di_Seq d) \<and> \<not> is_delivered d) (rows_of account t))
      in Inr (if limit > 0 then take (nat limit) rows else rows))"

definition mark_delivered :: "Ctx \<Rightarrow> string \<Rightarrow> string list \<Rightarrow> instant \<Rightarrow> Tables \<Rightarrow> GwError + Tables" where
  "mark_delivered ctx did ids at t = alive ctx
     (if \<exists>d \<in> set (tb_Dispatches t). di_ID d = did \<and> \<not> is_delivered d
      then Inr (t\<lparr>tb_Dispatches := map (\<lambda>d. if di_ID d = did \<and> \<not> is_delivered d
             then d\<lparr>di_DeliveredAt := Some at, di_PlatformMessageIDs := ids\<rparr> else d) (tb_Dispatches t)\<rparr>)
      else if \<exists>d \<in> set (tb_Dispatches t). di_ID d = did then Inl ErrAlreadyDelivered
      else Inl ErrDispatchNotFound)"

subsection \<open>The outbox is a queue per account\<close>

text \<open>What the outbox promises: every account has a queue, a dispatch is numbered by its place in it, a
  reader sees what is undelivered past its cursor, in order, and a dispatch is settled once.\<close>

type_synonym queues = "string \<Rightarrow> Dispatch list"

fun numbered :: "nat \<Rightarrow> Dispatch list \<Rightarrow> Dispatch list" where
  "numbered n [] = []"
| "numbered n (d # ds) = d\<lparr>di_Seq := Suc n\<rparr> # numbered (Suc n) ds"

definition fresh_item :: "Dispatch \<Rightarrow> Dispatch" where
  "fresh_item d = d\<lparr>di_Seq := 0, di_DeliveredAt := None, di_PlatformMessageIDs := []\<rparr>"

definition settled :: "string \<Rightarrow> string list \<Rightarrow> instant \<Rightarrow> Dispatch \<Rightarrow> Dispatch" where
  "settled did ids at d = (if di_ID d = did \<and> \<not> is_delivered d then d\<lparr>di_DeliveredAt := Some at, di_PlatformMessageIDs := ids\<rparr> else d)"

definition at_most :: "int \<Rightarrow> 'a list \<Rightarrow> 'a list" where
  "at_most limit xs = (if limit > 0 then take (nat limit) xs else xs)"

datatype outbox_op = OEnqueue Dispatch | OMark string "string list" instant | ORead string DispatchSeq int

datatype outbox_reply = Numbered DispatchSeq | Rows "Dispatch list" | Settled | Refused GwError

fun queue_step :: "(SessionID \<Rightarrow> bool) \<Rightarrow> outbox_op \<Rightarrow> queues \<Rightarrow> outbox_reply \<times> queues" where
  "queue_step known (OEnqueue d) q =
     (if (\<exists>a. \<exists>x \<in> set (q a). di_ID x = di_ID d) \<or> \<not> known (di_SessionID d) then (Refused (ErrDatabase ''enqueue dispatch''), q)
      else (Numbered (length (q (di_AccountID d)) + 1), q(di_AccountID d := q (di_AccountID d) @ [fresh_item d])))"
| "queue_step known (OMark did ids at) q =
     (if \<exists>a. \<exists>x \<in> set (q a). di_ID x = did \<and> \<not> is_delivered x then (Settled, \<lambda>a. map (settled did ids at) (q a))
      else (Refused (if \<exists>a. \<exists>x \<in> set (q a). di_ID x = did then ErrAlreadyDelivered else ErrDispatchNotFound), q))"
| "queue_step known (ORead account after limit) q =
     (Rows (at_most limit (filter (\<lambda>d. \<not> is_delivered d) (drop after (numbered 0 (q account))))), q)"

text \<open>The same calls on the tables.\<close>

fun outbox_step :: "(SessionID \<Rightarrow> bool) \<Rightarrow> outbox_op \<Rightarrow> Tables \<Rightarrow> outbox_reply \<times> Tables" where
  "outbox_step known (OEnqueue d) t =
     (case enqueue_dispatch known None d t of Inl e \<Rightarrow> (Refused e, t) | Inr (seq, t) \<Rightarrow> (Numbered seq, t))"
| "outbox_step known (OMark did ids at) t =
     (case mark_delivered None did ids at t of Inl e \<Rightarrow> (Refused e, t) | Inr t \<Rightarrow> (Settled, t))"
| "outbox_step known (ORead account after limit) t =
     (case dispatches_after None account after limit t of Inl e \<Rightarrow> (Refused e, t) | Inr rows \<Rightarrow> (Rows rows, t))"

fun replies :: "('o \<Rightarrow> 's \<Rightarrow> 'r \<times> 's) \<Rightarrow> 'o list \<Rightarrow> 's \<Rightarrow> 'r list" where
  "replies step [] s = []"
| "replies step (x # xs) s = (case step x s of (r, s) \<Rightarrow> r # replies step xs s)"

definition queues_of :: "Tables \<Rightarrow> queues" where
  "queues_of t = (\<lambda>a. map (\<lambda>d. d\<lparr>di_Seq := 0\<rparr>) (rows_of a t))"

definition outbox_wf :: "Tables \<Rightarrow> bool" where
  "outbox_wf t \<longleftrightarrow> (\<forall>a. map di_Seq (rows_of a t) = [1..<Suc (length (rows_of a t))])"

lemma foldr_max_base: "foldr max xs (a :: nat) = max a (foldr max xs 0)"
  by (induction xs) auto

lemma foldr_max_upt: "foldr max [1..<Suc n] 0 = n"
proof (induction n)
  case (Suc n)
  then show ?case using foldr_max_base [of "[1..<Suc n]" "Suc n"] by simp
qed simp

lemma next_seq_length: "outbox_wf t \<Longrightarrow> next_seq a t = length (rows_of a t) + 1"
  unfolding outbox_wf_def next_seq_def using foldr_max_upt by (metis One_nat_def)

lemma sort_key_sorted: "sorted (map f xs) \<Longrightarrow> sort_key f xs = xs"
  by (induction xs) (auto intro: insort_is_Cons)

lemma numbered_rows: "map di_Seq xs = [Suc n..<Suc (n + length xs)] \<Longrightarrow> numbered n (map (\<lambda>d. d\<lparr>di_Seq := 0\<rparr>) xs) = xs"
proof (induction xs arbitrary: n)
  case (Cons x xs)
  have "[Suc n..<Suc (n + length (x # xs))] = Suc n # [Suc (Suc n)..<Suc (Suc n + length xs)]" by (simp add: upt_rec)
  with Cons.prems have "di_Seq x = Suc n" "map di_Seq xs = [Suc (Suc n)..<Suc (Suc n + length xs)]" by simp_all
  with Cons.IH [of "Suc n"] show ?case by simp
qed simp

lemma rows_numbered: "outbox_wf t \<Longrightarrow> numbered 0 (queues_of t a) = rows_of a t"
  using numbered_rows [of "rows_of a t" 0] by (simp add: outbox_wf_def queues_of_def)

lemma seq_past: "map di_Seq xs = [Suc n..<Suc (n + length xs)] \<Longrightarrow>
    filter (\<lambda>d. n + k < di_Seq d \<and> P d) xs = filter P (drop k xs)"
proof (induction xs arbitrary: n k)
  case (Cons x xs)
  have "[Suc n..<Suc (n + length (x # xs))] = Suc n # [Suc (Suc n)..<Suc (Suc n + length xs)]" by (simp add: upt_rec)
  with Cons.prems have x: "di_Seq x = Suc n" and xs: "map di_Seq xs = [Suc (Suc n)..<Suc (Suc n + length xs)]" by simp_all
  show ?case
  proof (cases k)
    case 0
    have "\<forall>d \<in> set xs. n < di_Seq d"
    proof
      fix d assume "d \<in> set xs"
      then have "di_Seq d \<in> set (map di_Seq xs)" by simp
      then show "n < di_Seq d" unfolding xs by (simp del: upt_Suc)
    qed
    then have "filter (\<lambda>d. n < di_Seq d \<and> P d) xs = filter P xs" by (intro filter_cong) auto
    with 0 x show ?thesis by simp
  next
    case (Suc j)
    with Cons.IH [OF xs, of j] x show ?thesis by simp
  qed
qed simp

lemma read_refines:
  assumes "outbox_wf t" "after < 2 ^ 63"
  shows "dispatches_after None a after limit t = Inr (at_most limit (filter (\<lambda>d. \<not> is_delivered d) (drop after (rows_of a t))))"
proof -
  have cursor: "wrap64 (int after) = int after" using assms(2) by (intro wrap64_id) (simp_all flip: of_nat_less_numeral_power_cancel_iff)
  have seqs: "map di_Seq (rows_of a t) = [Suc 0..<Suc (0 + length (rows_of a t))]" using assms(1) by (simp add: outbox_wf_def)
  have "sorted (map di_Seq (filter P (rows_of a t)))" for P
    by (rule sorted_filter) (simp add: seqs del: upt_Suc)
  then have "sort_key di_Seq (filter (\<lambda>d. after < di_Seq d \<and> \<not> is_delivered d) (rows_of a t)) =
      filter (\<lambda>d. after < di_Seq d \<and> \<not> is_delivered d) (rows_of a t)" by (intro sort_key_sorted)
  then show ?thesis using seq_past [OF seqs, of after] by (simp add: dispatches_after_def alive_def at_most_def cursor)
qed

lemma rows_enqueued: "rows_of a (t\<lparr>tb_Dispatches := tb_Dispatches t @ [d]\<rparr>) = rows_of a t @ (if di_AccountID d = a then [d] else [])"
  by (simp add: rows_of_def)

lemma rows_mapped: "\<forall>d. di_AccountID (f d) = di_AccountID d \<Longrightarrow> rows_of a (t\<lparr>tb_Dispatches := map f (tb_Dispatches t)\<rparr>) = map f (rows_of a t)"
  by (simp add: rows_of_def filter_map comp_def)

lemma settled_fields [simp]: "di_AccountID (settled did ids at d) = di_AccountID d" "di_Seq (settled did ids at d) = di_Seq d"
  "(settled did ids at d)\<lparr>di_Seq := n\<rparr> = settled did ids at (d\<lparr>di_Seq := n\<rparr>)"
  by (simp_all add: settled_def is_delivered_def)

lemma some_row: "(\<exists>a. \<exists>x \<in> set (queues_of t a). P x) \<longleftrightarrow> (\<exists>d \<in> set (tb_Dispatches t). P (d\<lparr>di_Seq := 0\<rparr>))"
  by (auto simp: queues_of_def rows_of_def)

definition cursor_fits :: "outbox_op \<Rightarrow> bool" where
  "cursor_fits x \<longleftrightarrow> (case x of ORead _ after _ \<Rightarrow> after < 2 ^ 63 | _ \<Rightarrow> True)"

lemma outbox_simulates:
  assumes "outbox_wf t" "outbox_step known x t = (r, t')" "cursor_fits x"
  shows "outbox_wf t' \<and> queue_step known x (queues_of t) = (r, queues_of t')"
proof (cases x)
  case (OEnqueue d)
  have used: "(\<exists>a. \<exists>x \<in> set (queues_of t a). di_ID x = di_ID d) \<longleftrightarrow> (\<exists>r \<in> set (tb_Dispatches t). di_ID r = di_ID d)"
    using some_row [of t "\<lambda>x. di_ID x = di_ID d"] by simp
  show ?thesis
  proof (cases "(\<exists>r \<in> set (tb_Dispatches t). di_ID r = di_ID d) \<or> \<not> known (di_SessionID d)")
    case True
    with assms OEnqueue used show ?thesis by (auto simp: enqueue_dispatch_def alive_def)
  next
    case False
    let ?n = "next_seq (di_AccountID d) t"
    let ?row = "d\<lparr>di_Seq := ?n, di_DeliveredAt := None, di_PlatformMessageIDs := []\<rparr>"
    have t': "t' = t\<lparr>tb_Dispatches := tb_Dispatches t @ [?row]\<rparr>" "r = Numbered ?n"
      using assms(2) OEnqueue False by (auto simp: enqueue_dispatch_def alive_def Let_def)
    have "outbox_wf t'" using assms(1) next_seq_length [OF assms(1), of "di_AccountID d"] by (auto simp: outbox_wf_def t'(1) rows_enqueued)
    moreover have "queues_of t' = (queues_of t)(di_AccountID d := queues_of t (di_AccountID d) @ [fresh_item d])"
      by (auto simp: queues_of_def t'(1) rows_enqueued fresh_item_def fun_eq_iff)
    moreover have "?n = length (queues_of t (di_AccountID d)) + 1" using next_seq_length [OF assms(1)] by (simp add: queues_of_def)
    ultimately show ?thesis using OEnqueue False used t'(2) by simp
  qed
next
  case (OMark did ids at)
  have u: "(\<lambda>d. if di_ID d = did \<and> \<not> is_delivered d then d\<lparr>di_DeliveredAt := Some at, di_PlatformMessageIDs := ids\<rparr> else d) = settled did ids at"
    by (simp add: settled_def fun_eq_iff)
  have some: "(\<exists>a. \<exists>x \<in> set (queues_of t a). di_ID x = did \<and> \<not> is_delivered x) \<longleftrightarrow> (\<exists>d \<in> set (tb_Dispatches t). di_ID d = did \<and> \<not> is_delivered d)"
    "(\<exists>a. \<exists>x \<in> set (queues_of t a). di_ID x = did) \<longleftrightarrow> (\<exists>d \<in> set (tb_Dispatches t). di_ID d = did)"
    using some_row [of t "\<lambda>x. di_ID x = did \<and> \<not> is_delivered x"] some_row [of t "\<lambda>x. di_ID x = did"] by (simp_all add: is_delivered_def)
  show ?thesis
  proof (cases "\<exists>d \<in> set (tb_Dispatches t). di_ID d = did \<and> \<not> is_delivered d")
    case True
    then have t': "t' = t\<lparr>tb_Dispatches := map (settled did ids at) (tb_Dispatches t)\<rparr>" "r = Settled"
      using assms(2) OMark by (auto simp: mark_delivered_def alive_def u)
    have rows: "rows_of a t' = map (settled did ids at) (rows_of a t)" for a by (simp add: t'(1) rows_mapped)
    have "outbox_wf t'" using assms(1) by (simp add: outbox_wf_def rows comp_def)
    moreover have "queues_of t' = (\<lambda>a. map (settled did ids at) (queues_of t a))" by (simp add: queues_of_def rows comp_def)
    ultimately show ?thesis using OMark True some t'(2) by simp
  next
    case False
    then have "mark_delivered None did ids at t = Inl (if \<exists>d \<in> set (tb_Dispatches t). di_ID d = did then ErrAlreadyDelivered else ErrDispatchNotFound)"
      by (simp add: mark_delivered_def alive_def)
    then have "t' = t" "r = Refused (if \<exists>d \<in> set (tb_Dispatches t). di_ID d = did then ErrAlreadyDelivered else ErrDispatchNotFound)"
      using assms(2) OMark by auto
    then show ?thesis using assms(1) OMark False some by (simp del: not_None_eq)
  qed
next
  case (ORead a after limit)
  with assms(3) have "after < 2 ^ 63" by (simp add: cursor_fits_def)
  with ORead assms(1,2) read_refines [OF assms(1), of after a limit] rows_numbered [OF assms(1), of a] show ?thesis by auto
qed

text \<open>C12. The outbox is what it promises: whatever is enqueued, read and acknowledged in whatever order,
  the tables answer every call as one queue per account does, whose dispatches are numbered 1, 2, 3 by
  their place, that shows a reader exactly what is undelivered past its cursor and in order, and that
  settles a dispatch once and refuses a second acknowledgement. The cursors a reader names have to be below \<open>2^63\<close>,
  since the query takes them as \<open>int64\<close>.\<close>

theorem outbox_is_a_queue_per_account:
  assumes "\<forall>x \<in> set ops. cursor_fits x"
  shows "replies (outbox_step known) ops new_tables = replies (queue_step known) ops (\<lambda>_. [])"
proof -
  have "replies (outbox_step known) ops t = replies (queue_step known) ops (queues_of t)" if "outbox_wf t" for t
    using that assms
  proof (induction ops arbitrary: t)
    case (Cons x ops)
    obtain r t' where s: "outbox_step known x t = (r, t')" by fastforce
    with outbox_simulates [OF Cons.prems(1) s] Cons.IH Cons.prems(2) show ?case by simp
  qed simp
  from this [of new_tables] show ?thesis by (simp add: outbox_wf_def queues_of_def rows_of_def new_tables_def)
qed

text \<open>A reader whose cursor is past that is shown everything that is undelivered, from the beginning, as one
  with no cursor is.\<close>

theorem huge_cursor_starts_over:
  assumes "2 ^ 63 \<le> after" "after < 2 ^ 64" "\<forall>d \<in> set (tb_Dispatches t). 0 < di_Seq d"
  shows "dispatches_after ctx account after limit t = dispatches_after ctx account 0 limit t"
proof -
  have a: "2 ^ 63 \<le> int after" "int after < 2 ^ 64"
    using assms(1,2) by (simp_all flip: of_nat_less_numeral_power_cancel_iff of_nat_le_iff add: of_nat_power)
  have "(int after + 2 ^ 63) mod 2 ^ 64 = ((int after - 2 ^ 63) + 2 ^ 64) mod 2 ^ 64" by (simp add: algebra_simps)
  also have "\<dots> = int after - 2 ^ 63" using a by (subst mod_add_self2) simp
  finally have "wrap64 (int after) < 0" using a by (simp add: wrap64_def)
  then have "filter (\<lambda>d. wrap64 (int after) < int (di_Seq d) \<and> \<not> is_delivered d) (rows_of account t) =
      filter (\<lambda>d. wrap64 (int 0) < int (di_Seq d) \<and> \<not> is_delivered d) (rows_of account t)"
    using assms(3) by (intro filter_cong) (auto simp: rows_of_def wrap64_def)
  then show ?thesis by (simp add: dispatches_after_def)
qed

subsection \<open>One key, one conversation\<close>

lemma colon_free_prefix:
  "a @ '':'' @ b = c @ '':'' @ d \<Longrightarrow> CHR '':'' \<notin> set a \<Longrightarrow> CHR '':'' \<notin> set c \<Longrightarrow> a = c \<and> b = d"
proof (induction a arbitrary: c)
  case Nil
  then show ?case by (cases c) auto
next
  case (Cons x a)
  then show ?case by (cases c) auto
qed

definition plain_id :: "string \<Rightarrow> bool" where
  "plain_id s \<longleftrightarrow> CHR '':'' \<notin> set s"

definition plain_place :: "ConversationRef \<Rightarrow> bool" where
  "plain_place c \<longleftrightarrow> plain_id (cr_Platform c) \<and> plain_id (cr_AccountID c) \<and> plain_id (cr_TenantID c) \<and> plain_id (cr_ChannelID c)"

text \<open>A key names one conversation: two references with the same key agree on the platform, the
  account, the tenant, the channel and the thread, so no session is shared between channels, as long
  as no identifier before the thread contains a colon. The message that started a run is not part of it.\<close>

theorem key_names_one_conversation:
  assumes "conversation_key c = conversation_key d" "plain_place c" "plain_place d"
  shows "cr_Platform c = cr_Platform d \<and> cr_AccountID c = cr_AccountID d \<and> cr_TenantID c = cr_TenantID d \<and>
    cr_ChannelID c = cr_ChannelID d \<and> thread_of c = thread_of d"
proof -
  have free: "CHR '':'' \<notin> set (f e)" if "e \<in> {c, d}" "f \<in> {cr_Platform, cr_AccountID, cr_TenantID, cr_ChannelID}" for f e
    using that assms(2,3) by (auto simp: plain_place_def plain_id_def)
  let ?tail = "\<lambda>fs e. concat (map (\<lambda>f. f e @ '':'') fs) @ thread_of e"
  have "cr_Platform c @ '':'' @ ?tail [cr_AccountID, cr_TenantID, cr_ChannelID] c = cr_Platform d @ '':'' @ ?tail [cr_AccountID, cr_TenantID, cr_ChannelID] d"
    using assms(1) by (simp add: conversation_key_def)
  from colon_free_prefix [OF this] free have 1: "cr_Platform c = cr_Platform d"
    "cr_AccountID c @ '':'' @ ?tail [cr_TenantID, cr_ChannelID] c = cr_AccountID d @ '':'' @ ?tail [cr_TenantID, cr_ChannelID] d" by simp_all
  from colon_free_prefix [OF 1(2)] free have 2: "cr_AccountID c = cr_AccountID d"
    "cr_TenantID c @ '':'' @ ?tail [cr_ChannelID] c = cr_TenantID d @ '':'' @ ?tail [cr_ChannelID] d" by simp_all
  from colon_free_prefix [OF 2(2)] free have 3: "cr_TenantID c = cr_TenantID d"
    "cr_ChannelID c @ '':'' @ thread_of c = cr_ChannelID d @ '':'' @ thread_of d" by simp_all
  from colon_free_prefix [OF 3(2)] free have "cr_ChannelID c = cr_ChannelID d" "thread_of c = thread_of d" by simp_all
  with 1 2 3 show ?thesis by simp
qed

definition sample_place :: ConversationRef where
  "sample_place = \<lparr>cr_Platform = ''discord'', cr_AccountID = ''bot'', cr_TenantID = ''guild'', cr_ChannelID = ''general'',
     cr_ThreadID = '''', cr_SourceMessageID = ''m1'', cr_RootMessageID = ''''\<rparr>"

definition sample_answer :: Dispatch where
  "sample_answer = \<lparr>di_ID = ''d1'', di_Seq = 0, di_AccountID = ''bot'', di_SessionID = ''s'', di_RunID = ''r'', di_Target = sample_place,
     di_Kind = DispatchMessage, di_Payload = ''{}'', di_CreatedAt = 0, di_DeliveredAt = None, di_PlatformMessageIDs = []\<rparr>"

theorem outbox_is_a_queue_per_account_witness:
  "replies (outbox_step (\<lambda>_. True)) [OEnqueue sample_answer, ORead ''bot'' 0 0, OMark ''d1'' [''m9''] 5, OMark ''d1'' [] 6, ORead ''bot'' 0 0] new_tables =
     [Numbered 1, Rows [sample_answer\<lparr>di_Seq := 1\<rparr>], Settled, Refused ErrAlreadyDelivered, Rows []]"
proof -
  let ?ops = "[OEnqueue sample_answer, ORead ''bot'' 0 0, OMark ''d1'' [''m9''] 5, OMark ''d1'' [] 6, ORead ''bot'' 0 0]"
  have "\<forall>x \<in> set ?ops. cursor_fits x" by (simp add: cursor_fits_def)
  from outbox_is_a_queue_per_account [OF this, of "\<lambda>_. True"] show ?thesis
    by (simp add: sample_answer_def fresh_item_def settled_def is_delivered_def at_most_def)
qed

theorem key_names_one_conversation_witness:
  "conversation_key sample_place = ''discord:bot:guild:general:'' \<and>
   thread_of sample_place = thread_of (sample_place\<lparr>cr_SourceMessageID := ''m2''\<rparr>)"
proof -
  have k: "conversation_key sample_place = conversation_key (sample_place\<lparr>cr_SourceMessageID := ''m2''\<rparr>)"
    "plain_place sample_place" "plain_place (sample_place\<lparr>cr_SourceMessageID := ''m2''\<rparr>)"
    "conversation_key sample_place = ''discord:bot:guild:general:''"
    by (simp_all add: conversation_key_def thread_of_def sample_place_def plain_place_def plain_id_def)
  from key_names_one_conversation [OF k(1-3)] k(4) show ?thesis by blast
qed

subsection \<open>The first to claim wins\<close>

text \<open>The contract of a table that deduplicates: a claim succeeds exactly when its key was free, and takes it.\<close>

locale claims =
  fixes claim :: "'k \<Rightarrow> 's \<Rightarrow> bool \<times> 's" and taken :: "'s \<Rightarrow> 'k set"
  assumes claim_reports: "fst (claim k s) \<longleftrightarrow> k \<notin> taken s"
    and claim_takes: "taken (snd (claim k s)) = insert k (taken s)"
begin

lemma first_wins: "fst (claim k s) \<Longrightarrow> \<not> fst (claim k (snd (claim k s)))"
  by (simp add: claim_reports claim_takes)

lemma claim_kept: "k \<in> taken s \<Longrightarrow> k \<in> taken (snd (claim j s))"
  by (simp add: claim_takes)

lemma won_once: "count_list (map fst (filter snd (zip ks (replies (\<lambda>k. claim k) ks s)))) k = (if k \<in> set ks \<and> k \<notin> taken s then 1 else 0)"
proof (induction ks arbitrary: s)
  case (Cons j ks)
  obtain b t where c: "claim j s = (b, t)" by fastforce
  then have "b \<longleftrightarrow> j \<notin> taken s" "taken t = insert j (taken s)" using claim_reports [of j s] claim_takes [of j s] by simp_all
  with Cons [of t] c show ?case by auto
qed simp

end

definition inbound_keys :: "Tables \<Rightarrow> string set" where
  "inbound_keys t = in_Key ` set (tb_Inbound t)"

definition claim_of :: "string \<Rightarrow> SessionID \<Rightarrow> RunID \<Rightarrow> instant \<Rightarrow> string \<Rightarrow> Tables \<Rightarrow> bool \<times> Tables" where
  "claim_of account session run at key t =
     (case claim_inbound None key account session run at t of Inl _ \<Rightarrow> (False, t) | Inr r \<Rightarrow> r)"

interpretation inbound: claims "claim_of account session run at" inbound_keys for account session run at
  by unfold_locales (auto simp: claim_of_def claim_inbound_def alive_def inbound_keys_def)

text \<open>\<open>LinkConversation\<close> is such a claim too, of a conversation's key.\<close>

definition conversation_keys :: "Tables \<Rightarrow> string set" where
  "conversation_keys t = gc_Key ` set (tb_Conversations t)"

definition link_of :: "SessionID \<Rightarrow> string \<Rightarrow> instant \<Rightarrow> string \<Rightarrow> Tables \<Rightarrow> bool \<times> Tables" where
  "link_of session binding at key t =
     (case link_conversation (\<lambda>_. True) None key session binding at t of Inl _ \<Rightarrow> (False, t) | Inr t \<Rightarrow> (True, t))"

interpretation linked: claims "link_of session binding at" conversation_keys for session binding at
  by unfold_locales (auto simp: link_of_def link_conversation_def alive_def conversation_keys_def)

end
