(* ===== verification/Scheduled.thy ===== *)
theory Scheduled
imports ToolLoop Coalescer MemSchedules ScheduleCron Utf8
begin

text \<open>
  Standing instructions at work (\<open>core/internal/runtime/schedules.go\<close>, \<open>scheduled.go\<close>): a schedule is
  checked before it is stored, and reconciling turns what it owes into at most one run.

  \<open>SchedEnv\<close> holds the runtime's environment, the zones of the machine and the format of an instant.
  \<open>reconcileOne\<close> is split where another daemon can come between: \<open>due_now\<close> only reads, \<open>settle_due\<close>
  claims the occasion and starts the run.
\<close>

subsection \<open>Making and keeping schedules\<close>

record SchedEnv =
  sd_Rt :: RtEnv
  sd_Load :: "string \<Rightarrow> zone option"
  sd_Local :: zone
  sd_RFC3339 :: "instant \<Rightarrow> string"

datatype ScheduleFailure = Invalid ScheduleError | NotOwed ScheduleError | Unconfined string | Unsettled Err

type_synonym 'a scheduling = "Rt \<Rightarrow> (ScheduleFailure + 'a) \<times> Rt"

definition lifted :: "'a rt \<Rightarrow> 'a scheduling" where
  "lifted m s = (case m s of (Inl e, s) \<Rightarrow> (Inl (Unsettled e), s) | (Inr x, s) \<Rightarrow> (Inr x, s))"

definition sbind :: "'a scheduling \<Rightarrow> ('a \<Rightarrow> 'b scheduling) \<Rightarrow> 'b scheduling" where
  "sbind m k s = (case m s of (Inl e, s') \<Rightarrow> (Inl e, s') | (Inr x, s') \<Rightarrow> k x s')"

definition sok :: "'a \<Rightarrow> 'a scheduling" where "sok x s = (Inr x, s)"
definition sfail :: "ScheduleFailure \<Rightarrow> 'a scheduling" where "sfail e s = (Inl e, s)"

lemmas sched_ops = sok_def sfail_def sbind_def lifted_def

definition schedule_title :: "Schedule \<Rightarrow> string" where
  "schedule_title one = sc_Expression one @ '' '' @ em_dash @ '' '' @ cut_runes 40 (trim_space (sc_Prompt one))"

definition needs_prompt :: Err where "needs_prompt = ErrText ''runtime: a schedule needs something to ask''"

text \<open>The session of a schedule: its own unless one was named.\<close>

definition house_schedule :: "SchedEnv \<Rightarrow> Ctx \<Rightarrow> Schedule \<Rightarrow> Schedule scheduling" where
  "house_schedule env ctx wanted =
     (if sc_SessionID wanted = ''''
      then sbind (lifted (rt_create_session (sd_Rt env) ctx (schedule_title wanted)))
             (\<lambda>session. sok (wanted\<lparr>sc_SessionID := se_ID session\<rparr>))
      else sbind (lifted (st_read (get_session ctx (sc_SessionID wanted)))) (\<lambda>_. sok wanted))"

definition new_schedule :: "SchedEnv \<Rightarrow> Ctx \<Rightarrow> Schedule \<Rightarrow> Schedule scheduling" where
  "new_schedule env ctx wanted =
     (if trim_space (sc_Prompt wanted) = '''' then sfail (Unsettled needs_prompt)
      else sbind (lifted (new_id (sd_Rt env))) (\<lambda>sid. sbind (lifted (now (sd_Rt env))) (\<lambda>at.
        let wanted = wanted\<lparr>sc_ID := sid, sc_Revision := 1, sc_CreatedAt := at\<rparr> in
        case check_schedule (sd_Load env) (sd_Local env) at wanted of
          Inl e \<Rightarrow> sfail (Invalid e)
        | Inr _ \<Rightarrow>
            sbind (house_schedule env ctx wanted) (\<lambda>wanted.
              sbind (lifted (st_write (create_schedule ctx wanted))) (\<lambda>_. sok wanted)))))"

text \<open>\<open>Schedules\<close>: what a paused schedule and one that cannot run have for a next time is the zero time.\<close>

fun next_times :: "SchedEnv \<Rightarrow> Schedule list \<Rightarrow> instant list rt" where
  "next_times env [] = ok []"
| "next_times env (one # rest) =
     rbind (if sc_Paused one then ok zero_time
            else rbind (now (sd_Rt env)) (\<lambda>at.
              ok (case next_after (sd_Load env) (sd_Local env) one at of Some t \<Rightarrow> t | None \<Rightarrow> zero_time)))
       (\<lambda>t. rbind (next_times env rest) (\<lambda>ts. ok (t # ts)))"

definition rt_schedules :: "SchedEnv \<Rightarrow> Ctx \<Rightarrow> (Schedule list \<times> instant list) rt" where
  "rt_schedules env ctx =
     rbind (st_read (list_schedules ctx)) (\<lambda>schedules. rbind (next_times env schedules) (\<lambda>times. ok (schedules, times)))"

definition pause_schedule :: "Ctx \<Rightarrow> ScheduleID \<Rightarrow> bool \<Rightarrow> Schedule rt" where
  "pause_schedule ctx sid paused =
     rbind (st_write (set_schedule_paused ctx sid paused)) (\<lambda>_. st_read (get_schedule ctx sid))"

definition forget_schedule :: "Ctx \<Rightarrow> ScheduleID \<Rightarrow> unit rt" where
  "forget_schedule ctx sid = st_write (delete_schedule ctx sid)"

subsection \<open>Reconciling\<close>

definition unattended_name :: string where "unattended_name = ''unattended''"

definition line_break :: string where "line_break = [CHR 0x0A]"

definition prompt_for :: "SchedEnv \<Rightarrow> Schedule \<Rightarrow> Firing \<Rightarrow> string" where
  "prompt_for env one firing =
     (if fi_Missed firing = 0 then sc_Prompt one
      else sc_Prompt one @ line_break @ line_break @ ''(This was due at '' @ sd_RFC3339 env (fi_For firing) @
        '' and is running now instead. '' @ itoa (fi_Missed firing) @
        '' earlier turns of this schedule were missed while nothing was running; answer for the whole period rather than only the last interval.)'')"

definition works_for :: "Schedule \<Rightarrow> Run \<Rightarrow> bool" where
  "works_for one run \<longleftrightarrow> or_Kind (ru_Origin run) = OriginSchedule \<and> or_ClientID (ru_Origin run) = sc_ID one"

definition schedule_is_busy :: "Ctx \<Rightarrow> Schedule \<Rightarrow> Store \<Rightarrow> StoreError + bool" where
  "schedule_is_busy ctx one s =
     (case list_runs ctx (sc_SessionID one) s of
        Inl e \<Rightarrow> Inl e
      | Inr runs \<Rightarrow> Inr (\<exists>run \<in> set runs. works_for one run \<and> \<not> is_terminal (ru_Status run)))"

definition mark_resolved :: "Ctx \<Rightarrow> Firing \<Rightarrow> unit rt" where
  "mark_resolved ctx firing =
     rtry (st_write (resolve_firing ctx firing)) (\<lambda>r.
       case r of Inl err \<Rightarrow> if err = ErrStore ErrFiringAlreadyResolved then ok () else fail err | Inr _ \<Rightarrow> ok ())"

definition confine :: "SessionID \<Rightarrow> unit scheduling" where
  "confine session s =
     (case rt_Permissions s of
        None \<Rightarrow> (Inr (), s)
      | Some engine \<Rightarrow>
          (case use_profile session unattended_name engine of
             Inl (NoProfileNamed name) \<Rightarrow> (Inl (Unconfined name), s)
           | Inr engine \<Rightarrow> (Inr (), s\<lparr>rt_Permissions := Some engine\<rparr>)))"

definition scheduled_turn :: "SchedEnv \<Rightarrow> Schedule \<Rightarrow> Firing \<Rightarrow> Turn" where
  "scheduled_turn env one firing =
     \<lparr>tu_Text = prompt_for env one firing, tu_Origin = from_a_schedule (sc_ID one), tu_Targets = sc_Deliver one, tu_Attachments = []\<rparr>"

definition start_scheduled :: "SchedEnv \<Rightarrow> Ctx \<Rightarrow> Schedule \<Rightarrow> Firing \<Rightarrow> RunID scheduling" where
  "start_scheduled env ctx one firing =
     sbind (confine (sc_SessionID one)) (\<lambda>_.
     sbind (lifted (send_turn_to (sd_Rt env) ctx (sc_SessionID one) (scheduled_turn env one firing))) (\<lambda>(rid, _). sok rid))"

datatype due = NothingDue | AccountFor Firing | Claim Firing

definition due_now :: "SchedEnv \<Rightarrow> Ctx \<Rightarrow> Schedule \<Rightarrow> instant \<Rightarrow> Store \<Rightarrow> ScheduleFailure + due" where
  "due_now env ctx one at s =
     (case last_firing ctx (sc_ID one) (sc_Revision one) s of
        Inl e \<Rightarrow> Inl (Unsettled (ErrStore e))
      | Inr lastResolved \<Rightarrow>
          (case owed (sd_Load env) (sd_Local env) one lastResolved at of
             Inl e \<Rightarrow> Inl (NotOwed e)
           | Inr (firing, is_owed) \<Rightarrow>
               if is_zero (fi_For firing) then Inr NothingDue
               else if is_owed then
                 (case schedule_is_busy ctx one s of
                    Inl e \<Rightarrow> Inl (Unsettled (ErrStore e))
                  | Inr busy \<Rightarrow> Inr (if busy then NothingDue else Claim firing))
               else Inr (AccountFor firing)))"

definition settle_due :: "SchedEnv \<Rightarrow> Ctx \<Rightarrow> Schedule \<Rightarrow> due \<Rightarrow> bool scheduling" where
  "settle_due env ctx one what =
     (case what of
        NothingDue \<Rightarrow> sok False
      | AccountFor firing \<Rightarrow> sbind (lifted (mark_resolved ctx firing)) (\<lambda>_. sok False)
      | Claim firing \<Rightarrow>
          sbind (lifted (mark_resolved ctx firing)) (\<lambda>_.
          sbind (start_scheduled env ctx one firing) (\<lambda>rid.
          sbind (lifted (rtry (st_write (record_firing_run ctx (firing\<lparr>fi_RunID := rid\<rparr>))) (\<lambda>_. ok ()))) (\<lambda>_. sok True))))"

definition reconcile_one :: "SchedEnv \<Rightarrow> Ctx \<Rightarrow> Schedule \<Rightarrow> instant \<Rightarrow> bool scheduling" where
  "reconcile_one env ctx one at s =
     (case due_now env ctx one at (rt_Store s) of Inl e \<Rightarrow> (Inl e, s) | Inr what \<Rightarrow> settle_due env ctx one what s)"

fun reconcile_all :: "SchedEnv \<Rightarrow> Ctx \<Rightarrow> Schedule list \<Rightarrow> nat \<Rightarrow> Rt \<Rightarrow> nat \<times> Rt" where
  "reconcile_all env ctx [] started s = (started, s)"
| "reconcile_all env ctx (one # rest) started s =
     (case reconcile_one env ctx one (rv_Now (sd_Rt env) (rt_Tick s)) (tick s) of
        (Inr True, s) \<Rightarrow> reconcile_all env ctx rest (Suc started) s
      | (_, s) \<Rightarrow> reconcile_all env ctx rest started s)"

definition reconcile :: "SchedEnv \<Rightarrow> Ctx \<Rightarrow> nat rt" where
  "reconcile env ctx =
     rbind (st_read (list_schedules ctx)) (\<lambda>schedules s. case reconcile_all env ctx schedules 0 s of (n, s) \<Rightarrow> (Inr n, s))"

subsection \<open>What a turn leaves of the schedules\<close>

text \<open>The schedules, what they have resolved, and the engine that judges their runs.\<close>

definition standing :: "Rt \<Rightarrow> (ScheduleID, Schedule) gomap \<times> ScheduleID list \<times> (firing_key, Firing) gomap \<times> Engine option" where
  "standing s = (st_schedules (rt_Store s), st_scheduleOrder (rt_Store s), st_firings (rt_Store s), rt_Permissions s)"

lemma standing_tickless [simp]: "tickless standing"
  by (simp add: tickless_def standing_def)

lemma standing_turns [simp]: "standing (s\<lparr>rt_Turns := x\<rparr>) = standing s" "standing (tick s) = standing s"
  by (simp_all add: standing_def tick_def)

lemma keeps_standing_append: "keeps standing (rt_append env ctx sid rid kind p)"
  unfolding keeps_def
proof
  fix s :: Rt
  obtain r s' where run: "rt_append env ctx sid rid kind p s = (r, s')" by fastforce
  note f = rt_append_frame [OF run]
  show "standing (snd (rt_append env ctx sid rid kind p s)) = standing s"
  proof (cases "r = Inr ()")
    case True
    with f obtain e q where a: "append_event None e (rt_Store s) = Inr (rt_Store s', q)" by (auto simp: appended_def)
    show ?thesis using f by (simp add: run standing_def append_event_fields(3) [OF a])
  next
    case False
    with f show ?thesis by (simp add: run standing_def)
  qed
qed

lemma keeps_standing_runs: "keeps standing (st_write (create_run ctx run))" "keeps standing (st_write (update_run ctx run))"
  by (cases ctx; auto simp: keeps_def st_write_def standing_def create_run_def update_run_def split: sum.split option.splits if_splits)+

lemmas keeps_standing = keeps_rbind keeps_standing_append keeps_standing_runs keeps_basic standing_tickless

lemma keeps_standing_transition: "keeps standing (transition env ctx run status reason kind)"
proof -
  have "keeps standing (if is_terminal status then rbind (now env) (\<lambda>at. ok (Some at)) else ok (ru_FinishedAt run))"
    by (cases "is_terminal status") (auto intro!: keeps_standing)
  then show ?thesis unfolding transition_def by (intro keeps_standing)
qed

lemma keeps_standing_admit: "keeps standing (rt_admit env ctx run)"
  unfolding keeps_def
proof
  fix s :: Rt
  let ?s = "s\<lparr>rt_Turns := admit (ru_ID run) (ru_SessionID run) (rt_Turns s)\<rparr>"
  obtain r t where t: "transition env ctx run RunQueued '''' '''' ?s = (r, t)" by fastforce
  have "standing t = standing s" using keepsD [OF keeps_standing_transition t] by simp
  with t show "standing (snd (rt_admit env ctx run s)) = standing s"
    by (auto simp: rt_admit_def Let_def split: sum.split option.split prod.split)
qed

lemma keeps_standing_send: "keeps standing (send_turn_to env ctx sid turn)"
proof -
  have "standing (snd (send_turn_to env ctx sid turn s)) = standing s" for s :: Rt
  proof (cases "tn_draining (rt_Turns s)")
    case False
    let ?m = "rbind (st_read (get_session ctx sid)) (\<lambda>_.
        rbind (new_id env) (\<lambda>rid. rbind (new_id env) (\<lambda>mid. rbind (now env) (\<lambda>at.
          let run = \<lparr>ru_ID = rid, ru_SessionID = sid, ru_Status = RunQueued, ru_Origin = tu_Origin turn,
                ru_DeliveryTargets = tu_Targets turn, ru_CreatedAt = at, ru_FinishedAt = None,
                ru_Kind = RunConversation, ru_ParentRunID = ''''\<rparr>
          in rbind (st_write (create_run ctx run)) (\<lambda>_.
             rbind (rt_append env ctx sid rid EventUserMessageAdded
               (PUserMessageAdded \<lparr>um_MessageID = mid, um_Text = tu_Text turn, um_Trust = trust_for_origin (tu_Origin turn),
                  um_Origin = tu_Origin turn, um_Attachments = tu_Attachments turn\<rparr>)) (\<lambda>_.
             rbind (rt_admit env ctx run) (\<lambda>_. ok (rid, mid))))))))"
    have "keeps standing ?m" unfolding Let_def by (intro keeps_standing keeps_standing_admit)
    with False show ?thesis by (simp add: send_turn_to_def keeps_def)
  qed (simp add: send_turn_to_def)
  then show ?thesis by (simp add: keeps_def)
qed

text \<open>The run a turn becomes is a new one, and the only one the turn touches.\<close>

lemma send_turn_stored:
  assumes "send_turn_to env None sid turn s = (Inr (rid, mid), s')"
  shows "gm_get (st_runs (rt_Store s)) rid = None \<and>
    (\<exists>at. gm_get (st_runs (rt_Store s')) rid = Some (turn_run rid sid turn at)) \<and>
    (\<forall>x. x \<noteq> rid \<longrightarrow> gm_get (st_runs (rt_Store s')) x = gm_get (st_runs (rt_Store s)) x)"
proof -
  obtain at and s1 s2 :: Rt where p: "gm_get (st_sessions (rt_Store s)) sid \<noteq> None" "gm_get (st_runs (rt_Store s)) rid = None"
    "rt_Store s1 = rt_Store s\<lparr>st_runs := gm_set (st_runs (rt_Store s)) rid (turn_run rid sid turn at)\<rparr>"
    "rt_admit env None (turn_run rid sid turn at) s2 = (Inr (), s')"
    and a: "appended sid rid EventUserMessageAdded (turn_message mid turn) (rt_Store s1) (rt_Store s2)"
    using send_turn_parts [OF assms] by blast
  let ?run = "turn_run rid sid turn at"
  have run: "ru_ID ?run = rid" "ru_SessionID ?run = sid" "ru_Status ?run = RunQueued" "ru_FinishedAt ?run = None"
    by (simp_all add: turn_run_def)
  note f = appended_frame [OF a]
  have runs: "gm_get (st_runs (rt_Store s2)) x = (if x = rid then Some ?run else gm_get (st_runs (rt_Store s)) x)" for x
    using f(1) p(3) by simp
  have "\<forall>x. gm_get (st_runs (rt_Store s')) x = gm_get (st_runs (rt_Store s2)) x"
  proof (cases "sid \<in> tn_busy (rt_Turns s2)")
    case False
    with p(4) run show ?thesis by (auto simp: rt_admit_def Let_def)
  next
    case True
    let ?s = "s2\<lparr>rt_Turns := admit rid sid (rt_Turns s2)\<rparr>"
    have sess: "gm_get (st_runs (rt_Store ?s)) (ru_ID ?run) = Some ?run"
      "gm_get (st_sessions (rt_Store ?s)) (ru_SessionID ?run) \<noteq> None" using p(1,3) f(2) runs run by simp_all
    obtain r t where t: "transition env None ?run RunQueued '''' '''' ?s = (r, t)" by fastforce
    note told = transition_told [OF sess t]
    have "rt_Store s' = rt_Store t" using p(4) t told True run by (auto simp: rt_admit_def Let_def)
    moreover have "?run\<lparr>ru_Status := RunQueued, ru_FinishedAt := None\<rparr> = ?run" by (simp add: turn_run_def)
    moreover have "gm_get (st_runs (rt_Store t)) x = gm_get (st_runs (rt_Store s2)) x" for x
      using told run runs \<open>?run\<lparr>ru_Status := RunQueued, ru_FinishedAt := None\<rparr> = ?run\<close> by (cases "x = rid") auto
    ultimately show ?thesis by simp
  qed
  with p(2) runs show ?thesis by auto
qed

subsection \<open>An occasion becomes at most one run\<close>

definition resolved :: "Schedule \<Rightarrow> int \<Rightarrow> Store \<Rightarrow> bool" where
  "resolved one due_at t \<longleftrightarrow> gm_get (st_firings t) (sc_ID one, sc_Revision one, due_at) \<noteq> None"

text \<open>What the account of a schedule satisfies: everything resolved lies after its creation.\<close>

definition schedule_account :: "Schedule \<Rightarrow> Store \<Rightarrow> bool" where
  "schedule_account one t \<longleftrightarrow> schedules_wf t \<and> 0 \<le> sc_CreatedAt one \<and>
     (\<forall>due_at. resolved one due_at t \<longrightarrow> sc_CreatedAt one < time_unix due_at)"

lemma last_firing_bounds:
  assumes "schedules_wf t" "last_firing None (sc_ID one) (sc_Revision one) t = Inr r"
  shows "(r = zero_time \<and> (\<forall>due_at. \<not> resolved one due_at t)) \<or>
    (resolved one (unix_nano r) t \<and> (\<forall>due_at. resolved one due_at t \<longrightarrow> due_at \<le> unix_nano r))"
proof -
  have wf: "gm_wf (st_firings t)" using assms(1) by (simp add: schedules_wf_def)
  have mem: "gm_get (st_firings t) k = Some f \<longleftrightarrow> (k, f) \<in> set (st_firings t)" for k f
    using gm_get_mem gm_mem_get [OF wf] by metis
  have res: "resolved one due_at t \<longleftrightarrow> (\<exists>f. ((sc_ID one, sc_Revision one, due_at), f) \<in> set (st_firings t))" for due_at
    by (auto simp: resolved_def mem [symmetric])
  show ?thesis
  proof (cases "latest_due (sc_ID one) (sc_Revision one) (st_firings t) None")
    case None
    with assms(2) show ?thesis by (auto simp: last_firing_def res latest_due_None)
  next
    case (Some d)
    then have "r = time_unix d" using assms(2) by (simp add: last_firing_def)
    moreover have "unix_nano (time_unix d) = d" by (simp add: unix_nano_def time_unix_def)
    ultimately show ?thesis using latest_due_Some [OF Some] by (auto simp: res)
  qed
qed

lemma owed_parts:
  assumes "owed load local one r at = Inr (f, b)" "\<not> is_zero (fi_For f)"
  shows "fi_ScheduleID f = sc_ID one \<and> fi_Revision f = sc_Revision one \<and> fi_RunID f = '''' \<and>
    (\<exists>e z n. owed_loop e z at 0 0 (next_at e (if is_zero r then sc_CreatedAt one else r) z) = (fi_For f, n))"
proof -
  obtain e z where "\<not> sc_Paused one" "parse (sc_Expression one) = Inr e" "zone_of load local one = Inr z"
    using assms by (auto simp: owed_def zero_firing_def split: if_splits sum.splits)
  moreover obtain d n where "owed_loop e z at zero_time 0 (next_at e (if is_zero r then sc_CreatedAt one else r) z) = (d, n)" by fastforce
  ultimately show ?thesis using assms
    by (auto simp: owed_def zero_firing_def Let_def zero_time_def split: if_splits) blast+
qed

text \<open>What is due is newer than everything resolved, and nothing is claimed while a run is under way.\<close>

lemma due_is_new:
  assumes "due_now env ctx one at t = Inr what" "what = Claim f \<or> what = AccountFor f" "schedule_account one t"
  shows "ctx = None \<and> fi_ScheduleID f = sc_ID one \<and> fi_Revision f = sc_Revision one \<and> fi_RunID f = '''' \<and>
    sc_CreatedAt one < fi_For f \<and> fi_For f \<le> at \<and> (\<forall>due_at. resolved one due_at t \<longrightarrow> due_at < unix_nano (fi_For f)) \<and>
    (what = Claim f \<longrightarrow> (\<forall>run \<in> set (gm_vals (st_runs t)). ru_SessionID run = sc_SessionID one \<longrightarrow> works_for one run \<longrightarrow>
       is_terminal (ru_Status run)))"
proof -
  obtain r where r: "last_firing ctx (sc_ID one) (sc_Revision one) t = Inr r"
    using assms(1) by (auto simp: due_now_def split: sum.splits)
  then have ctx: "ctx = None" by (cases ctx) (auto simp: last_firing_def)
  obtain fo b where o: "owed (sd_Load env) (sd_Local env) one r at = Inr (fo, b)" "fo = f" "\<not> is_zero (fi_For f)"
    using assms(1,2) r by (auto simp: due_now_def split: sum.splits if_splits)
  define since where "since = (if is_zero r then sc_CreatedAt one else r)"
  have acc: "schedules_wf t" "0 \<le> sc_CreatedAt one" "\<And>d. resolved one d t \<Longrightarrow> sc_CreatedAt one < time_unix d"
    using assms(3) by (auto simp: schedule_account_def)
  have known: "(r = zero_time \<and> (\<forall>due_at. \<not> resolved one due_at t)) \<or>
      (sc_CreatedAt one < r \<and> (\<forall>due_at. resolved one due_at t \<longrightarrow> due_at \<le> unix_nano r))"
    using last_firing_bounds [OF acc(1) r [unfolded ctx]] acc(3) by force
  then have since: "0 \<le> since" "sc_CreatedAt one \<le> since" "\<And>d. resolved one d t \<Longrightarrow> d \<le> unix_nano since"
    using acc(2) by (auto simp: since_def zero_time_def)
  from owed_parts [OF o(1) [unfolded o(2)] o(3)] obtain e z n where l: "owed_loop e z at 0 0 (next_at e since z) = (fi_For f, n)"
    and f: "fi_ScheduleID f = sc_ID one" "fi_Revision f = sc_Revision one" "fi_RunID f = ''''"
    by (auto simp: since_def)
  from owed_loop_result [OF l since(1)] o(3) have "since < fi_For f" "fi_For f \<le> at" by (auto simp: zero_time_def)
  moreover have "what = Claim f \<longrightarrow> (\<forall>run \<in> set (gm_vals (st_runs t)). ru_SessionID run = sc_SessionID one \<longrightarrow> works_for one run \<longrightarrow>
       is_terminal (ru_Status run))"
    using assms(1) r o ctx by (auto simp: due_now_def schedule_is_busy_def list_runs_def filter_runs_def split: if_splits)
  ultimately show ?thesis using ctx f since by (fastforce simp: unix_nano_def)
qed

lemma mark_resolved_fresh:
  assumes "gm_get (st_firings (rt_Store s)) (key_of_firing f) = None"
  shows "mark_resolved None f s = (Inr (), s\<lparr>rt_Store := rt_Store s\<lparr>st_firings := gm_set (st_firings (rt_Store s)) (key_of_firing f) f\<rparr>\<rparr>)"
  using assms by (simp add: mark_resolved_def rtry_def st_write_def resolve_firing_def ok_def)

lemma resolved_key: "fi_ScheduleID f = sc_ID one \<Longrightarrow> fi_Revision f = sc_Revision one \<Longrightarrow>
    resolved one (unix_nano (fi_For f)) t \<longleftrightarrow> gm_get (st_firings t) (key_of_firing f) \<noteq> None"
  by (simp add: resolved_def key_of_firing_def)

lemma account_extended:
  assumes "schedule_account one t" "fi_ScheduleID f = sc_ID one" "fi_Revision f = sc_Revision one" "sc_CreatedAt one < fi_For f"
    and "st_schedules u = st_schedules t" "st_scheduleOrder u = st_scheduleOrder t"
    and "st_firings u = gm_set (st_firings t) (key_of_firing f) g"
  shows "schedule_account one u"
  using assms by (auto simp: schedule_account_def schedules_wf_def resolved_def key_of_firing_def)

lemma confine_frame:
  assumes "confine session s = (Inr (), s')"
  shows "rt_Store s' = rt_Store s \<and> (\<forall>engine. rt_Permissions s' = Some engine \<longrightarrow> gm_get (en_sessionProfile engine) session = Some unattended_name)"
  using assms by (auto simp: confine_def use_profile_def unattended_name_def split: option.splits sum.splits UseProfileError.splits if_splits)

lemma confine_used:
  assumes "confine session s = (Inr u, s')" "rt_Permissions s' = Some bound"
  shows "\<exists>engine. rt_Permissions s = Some engine \<and> use_profile session unattended_name engine = Inr bound"
  using assms by (auto simp: confine_def split: option.splits sum.splits UseProfileError.splits)

lemma gm_set_again: "gm_set (gm_set m k v) k w = gm_set m k w"
  by (induction m) (auto simp: gm_set_def)

text \<open>No run of this name is on record. Of what a turn does to the store only its one \<open>CreateRun\<close> changes
  that, and only for the identifier it drew, however far the turn then gets.\<close>

definition unstarted :: "RunID \<Rightarrow> Rt \<Rightarrow> bool" where
  "unstarted x s \<longleftrightarrow> gm_get (st_runs (rt_Store s)) x = None"

lemma unstarted_tickless: "tickless (unstarted x)"
  by (simp add: tickless_def unstarted_def)

lemma keeps_unstarted_append: "keeps (unstarted x) (rt_append env ctx sid rid kind p)"
  unfolding keeps_def
proof
  fix s :: Rt
  obtain r s' where run: "rt_append env ctx sid rid kind p s = (r, s')" by fastforce
  with rt_append_frame [OF run] show "unstarted x (snd (rt_append env ctx sid rid kind p s)) = unstarted x s"
    by (cases "r = Inr ()") (auto simp: unstarted_def dest: appended_frame(1))
qed

lemma keeps_unstarted_update: "keeps (unstarted x) (st_write (update_run ctx run))"
  by (cases ctx; auto simp: keeps_def st_write_def unstarted_def update_run_def split: sum.split option.splits if_splits)

lemma keeps_unstarted_create: "ru_ID run \<noteq> x \<Longrightarrow> keeps (unstarted x) (st_write (create_run ctx run))"
  by (cases ctx; auto simp: keeps_def st_write_def unstarted_def create_run_def split: sum.split option.splits if_splits)

lemmas keeps_unstarted = keeps_rbind keeps_unstarted_append keeps_unstarted_update keeps_basic unstarted_tickless

lemma keeps_unstarted_admit: "keeps (unstarted x) (rt_admit env ctx run)"
  unfolding keeps_def
proof
  fix s :: Rt
  have k: "keeps (unstarted x) (transition env ctx run RunQueued '''' '''')"
    unfolding transition_def by (auto intro!: keeps_unstarted)
  obtain r t where t: "transition env ctx run RunQueued '''' '''' (s\<lparr>rt_Turns := admit (ru_ID run) (ru_SessionID run) (rt_Turns s)\<rparr>) = (r, t)"
    by fastforce
  have "unstarted x t = unstarted x s" using keepsD [OF k t] by (simp add: unstarted_def)
  with t show "unstarted x (snd (rt_admit env ctx run s)) = unstarted x s"
    by (auto simp: rt_admit_def unstarted_def Let_def split: sum.split option.split prod.split)
qed

lemma send_turn_starts_one:
  assumes "send_turn_to env ctx sid turn s = (r, s')" "unstarted x s" "\<not> unstarted x s'"
  shows "x = rv_NewID env (rt_Tick s)"
proof (rule ccontr)
  assume other: "x \<noteq> rv_NewID env (rt_Tick s)"
  obtain q where q: "st_read (get_session ctx sid) s = (q, s)"
    by (cases "get_session ctx sid (rt_Store s)") (auto simp: st_read_def)
  define rid where "rid = rv_NewID env (rt_Tick s)"
  let ?rest = "\<lambda>rid. rbind (new_id env) (\<lambda>mid. rbind (now env) (\<lambda>at.
          let run = \<lparr>ru_ID = rid, ru_SessionID = sid, ru_Status = RunQueued, ru_Origin = tu_Origin turn,
                ru_DeliveryTargets = tu_Targets turn, ru_CreatedAt = at, ru_FinishedAt = None,
                ru_Kind = RunConversation, ru_ParentRunID = ''''\<rparr>
          in rbind (st_write (create_run ctx run)) (\<lambda>_.
             rbind (rt_append env ctx sid rid EventUserMessageAdded
               (PUserMessageAdded \<lparr>um_MessageID = mid, um_Text = tu_Text turn, um_Trust = trust_for_origin (tu_Origin turn),
                  um_Origin = tu_Origin turn, um_Attachments = tu_Attachments turn\<rparr>)) (\<lambda>_.
             rbind (rt_admit env ctx run) (\<lambda>_. ok (rid, mid))))))"
  have k: "keeps (unstarted x) (?rest rid)" unfolding Let_def
    by (intro keeps_unstarted keeps_unstarted_admit keeps_unstarted_create) (use other in \<open>simp add: rid_def\<close>)
  have id: "rbind (new_id env) k s = k rid (tick s)" for k :: "RunID \<Rightarrow> (RunID \<times> MessageID) rt"
    by (simp add: rbind_def new_id_def rid_def tick_def)
  have went: "rbind (st_read (get_session ctx sid)) k s = (case q of Inl e \<Rightarrow> (Inl e, s) | Inr x \<Rightarrow> k x s)" for k :: "Session \<Rightarrow> (RunID \<times> MessageID) rt"
    using q by (simp add: rbind_def split: sum.split)
  have "s' = s \<or> ?rest rid (tick s) = (r, s')"
  proof (cases "tn_draining (rt_Turns s)")
    case False
    have "send_turn_to env ctx sid turn s = (case q of Inl e \<Rightarrow> (Inl e, s) | Inr x \<Rightarrow> ?rest rid (tick s))"
      by (simp only: send_turn_to_def False if_False went id)
    with assms(1) show ?thesis by (cases q) (simp_all only: sum.case prod.inject simp_thms)
  qed (use assms(1) in \<open>simp add: send_turn_to_def\<close>)
  moreover have "unstarted x (tick s) = unstarted x s" by (simp add: unstarted_def tick_def)
  moreover note keepsD [OF k, of "tick s" r s']
  ultimately show False using assms(2,3) by auto
qed

text \<open>What claiming an occasion comes to: the claim, then the run, then the link between them.\<close>

lemma claim_settles:
  assumes "settle_due env None one (Claim f) s = (r, s')"
    and "gm_get (st_firings (rt_Store s)) (key_of_firing f) = None"
  shows "st_schedules (rt_Store s') = st_schedules (rt_Store s) \<and> st_scheduleOrder (rt_Store s') = st_scheduleOrder (rt_Store s) \<and>
    (\<exists>g. st_firings (rt_Store s') = gm_set (st_firings (rt_Store s)) (key_of_firing f) g \<and>
      (r = Inr True \<longrightarrow> (\<exists>rid at. g = f\<lparr>fi_RunID := rid\<rparr> \<and> gm_get (st_runs (rt_Store s)) rid = None \<and>
         gm_get (st_runs (rt_Store s')) rid = Some (turn_run rid (sc_SessionID one) (scheduled_turn env one f) at) \<and>
         (\<forall>engine. rt_Permissions s' = Some engine \<longrightarrow> gm_get (en_sessionProfile engine) (sc_SessionID one) = Some unattended_name)))) \<and>
    (\<forall>x. unstarted x s \<longrightarrow> \<not> unstarted x s' \<longrightarrow> x = rv_NewID (sd_Rt env) (rt_Tick s) \<and>
      (\<forall>engine. rt_Permissions s' = Some engine \<longrightarrow> gm_get (en_sessionProfile engine) (sc_SessionID one) = Some unattended_name \<and>
        (\<exists>before. rt_Permissions s = Some before \<and> use_profile (sc_SessionID one) unattended_name before = Inr engine)))"
proof -
  define s1 where "s1 = s\<lparr>rt_Store := rt_Store s\<lparr>st_firings := gm_set (st_firings (rt_Store s)) (key_of_firing f) f\<rparr>\<rparr>"
  have m: "mark_resolved None f s = (Inr (), s1)" using mark_resolved_fresh [OF assms(2)] by (simp add: s1_def)
  obtain r2 s2 where c: "confine (sc_SessionID one) s1 = (r2, s2)" by fastforce
  have store2: "rt_Store s2 = rt_Store s1"
    using c by (auto simp: confine_def split: option.splits sum.splits UseProfileError.splits)
  have tick2: "rt_Tick s2 = rt_Tick s"
    using c by (auto simp: confine_def s1_def split: option.splits sum.splits UseProfileError.splits)
  have still: "unstarted x s2 = unstarted x s" for x using store2 by (simp add: unstarted_def s1_def)
  show ?thesis
  proof (cases r2)
    case (Inl e)
    with assms(1) m c have "s' = s2" "r = Inl e" by (auto simp: settle_due_def start_scheduled_def sched_ops)
    with store2 still show ?thesis by (auto simp: s1_def)
  next
    case (Inr u)
    obtain r3 s3 where t: "send_turn_to (sd_Rt env) None (sc_SessionID one) (scheduled_turn env one f) s2 = (r3, s3)" by fastforce
    have st3: "standing s3 = standing s2" by (rule keepsD [OF keeps_standing_send t])
    have bound: "\<forall>engine. rt_Permissions s3 = Some engine \<longrightarrow> gm_get (en_sessionProfile engine) (sc_SessionID one) = Some unattended_name"
      using confine_frame [of _ s1 s2] c Inr st3 by (simp add: standing_def)
    have used: "\<forall>engine. rt_Permissions s3 = Some engine \<longrightarrow> (\<exists>before. rt_Permissions s = Some before \<and> use_profile (sc_SessionID one) unattended_name before = Inr engine)"
      using confine_used [of "sc_SessionID one" s1 u s2] c Inr st3 by (auto simp: standing_def s1_def)
    have one: "unstarted x s \<Longrightarrow> \<not> unstarted x s3 \<Longrightarrow> x = rv_NewID (sd_Rt env) (rt_Tick s)" for x
      using send_turn_starts_one [OF t, of x] still tick2 by simp
    show ?thesis
    proof (cases r3)
      case (Inl e)
      with assms(1) m c Inr t have "s' = s3" "r = Inl (Unsettled e)" by (auto simp: settle_due_def start_scheduled_def sched_ops)
      with store2 st3 bound used one show ?thesis by (auto simp: s1_def standing_def)
    next
      case sent: (Inr ids)
      obtain rid mid where ids: "ids = (rid, mid)" by fastforce
      from send_turn_stored [OF t [unfolded sent ids]] obtain at where
        run: "gm_get (st_runs (rt_Store s2)) rid = None" "gm_get (st_runs (rt_Store s3)) rid = Some (turn_run rid (sc_SessionID one) (scheduled_turn env one f) at)"
        by blast
      have fr: "gm_get (st_firings (rt_Store s3)) (key_of_firing f) = Some f" using st3 store2 by (simp add: standing_def s1_def)
      have key: "key_of_firing (f\<lparr>fi_RunID := rid\<rparr>) = key_of_firing f" by (simp add: key_of_firing_def)
      have "s' = s3\<lparr>rt_Store := rt_Store s3\<lparr>st_firings := gm_set (st_firings (rt_Store s3)) (key_of_firing f) (f\<lparr>fi_RunID := rid\<rparr>)\<rparr>\<rparr>" "r = Inr True"
        using assms(1) m c Inr t sent ids fr
        by (auto simp: settle_due_def start_scheduled_def sched_ops rtry_def st_write_def record_firing_run_def key ok_def)
      moreover note bound
      moreover have "gm_get (st_runs (rt_Store s)) rid = None" using run(1) store2 by (simp add: s1_def)
      moreover have "st_firings (rt_Store s3) = gm_set (st_firings (rt_Store s)) (key_of_firing f) f"
        "st_schedules (rt_Store s3) = st_schedules (rt_Store s)" "st_scheduleOrder (rt_Store s3) = st_scheduleOrder (rt_Store s)"
        using st3 store2 by (simp_all add: standing_def s1_def)
      moreover have "\<forall>x. unstarted x s \<longrightarrow> \<not> unstarted x s' \<longrightarrow> x = rv_NewID (sd_Rt env) (rt_Tick s) \<and>
          (\<forall>engine. rt_Permissions s' = Some engine \<longrightarrow> gm_get (en_sessionProfile engine) (sc_SessionID one) = Some unattended_name \<and>
            (\<exists>before. rt_Permissions s = Some before \<and> use_profile (sc_SessionID one) unattended_name before = Inr engine))"
      proof -
        have "unstarted x s' = unstarted x s3" for x using \<open>s' = _\<close> by (simp add: unstarted_def)
        moreover have "rt_Permissions s' = rt_Permissions s3" using \<open>s' = _\<close> by simp
        ultimately show ?thesis using one bound used by simp
      qed
      ultimately show ?thesis using run(2) by (intro conjI; (assumption | auto simp: gm_set_again intro!: exI [of _ "f\<lparr>fi_RunID := rid\<rparr>"]))
    qed
  qed
qed

text \<open>C15. An occasion becomes at most one run, under confinement. However reconciling a schedule turns
  out, its account stays sound, at most one run comes to exist, and, where a policy engine is set, none does
  unless binding the schedule's session to the unattended profile succeeded and stands: where the profile
  cannot be bound nothing is started, so the binding comes before the run. When it reports a run started, that run is new, belongs to the
  schedule and its session, and is linked to an occasion already due that is newer than every occasion
  resolved before, while no earlier run of the schedule was still going. This is for one reconciler at a
  time: two daemons that both read before either claims start two (\<open>losing_claim_starts_a_run\<close>).\<close>

theorem scheduled_run_once:
  assumes "reconcile_one env ctx one at s = (r, s')" "schedule_account one (rt_Store s)"
  shows "schedule_account one (rt_Store s') \<and>
    (\<forall>x y. gm_get (st_runs (rt_Store s)) x = None \<and> gm_get (st_runs (rt_Store s')) x \<noteq> None \<and>
       gm_get (st_runs (rt_Store s)) y = None \<and> gm_get (st_runs (rt_Store s')) y \<noteq> None \<longrightarrow> x = y) \<and>
    (\<forall>x engine. gm_get (st_runs (rt_Store s)) x = None \<and> gm_get (st_runs (rt_Store s')) x \<noteq> None \<and> rt_Permissions s' = Some engine \<longrightarrow>
       gm_get (en_sessionProfile engine) (sc_SessionID one) = Some ''unattended'' \<and>
       (\<exists>before. rt_Permissions s = Some before \<and> use_profile (sc_SessionID one) ''unattended'' before = Inr engine)) \<and>
    (r = Inr True \<longrightarrow> (\<exists>f rid run. fi_For f \<le> at \<and> fi_RunID f = rid \<and>
       (\<forall>due_at. resolved one due_at (rt_Store s) \<longrightarrow> due_at < unix_nano (fi_For f)) \<and>
       gm_get (st_firings (rt_Store s')) (sc_ID one, sc_Revision one, unix_nano (fi_For f)) = Some f \<and>
       (\<forall>earlier \<in> set (gm_vals (st_runs (rt_Store s))). ru_SessionID earlier = sc_SessionID one \<longrightarrow> works_for one earlier \<longrightarrow>
          is_terminal (ru_Status earlier)) \<and>
       gm_get (st_runs (rt_Store s)) rid = None \<and> gm_get (st_runs (rt_Store s')) rid = Some run \<and>
       ru_SessionID run = sc_SessionID one \<and> works_for one run))"
proof (cases "due_now env ctx one at (rt_Store s)")
  case (Inl e)
  with assms show ?thesis by (auto simp: reconcile_one_def)
next
  case (Inr what)
  then have run: "settle_due env ctx one what s = (r, s')" using assms(1) by (simp add: reconcile_one_def)
  show ?thesis
  proof (cases what)
    case NothingDue
    with run assms(2) show ?thesis by (auto simp: settle_due_def sok_def)
  next
    case (AccountFor f)
    note d = due_is_new [OF Inr disjI2 [OF AccountFor] assms(2)]
    then have "gm_get (st_firings (rt_Store s)) (key_of_firing f) = None"
      using resolved_key [of f one "rt_Store s"] by blast
    from mark_resolved_fresh [OF this] run AccountFor d
    have "s' = s\<lparr>rt_Store := rt_Store s\<lparr>st_firings := gm_set (st_firings (rt_Store s)) (key_of_firing f) f\<rparr>\<rparr>" "r = Inr False"
      by (auto simp: settle_due_def sched_ops)
    with account_extended [OF assms(2), of f "rt_Store s'" f] d show ?thesis by auto
  next
    case (Claim f)
    note d = due_is_new [OF Inr disjI1 [OF Claim] assms(2)]
    have fresh: "gm_get (st_firings (rt_Store s)) (key_of_firing f) = None"
      using d resolved_key [of f one "rt_Store s"] by blast
    from run Claim d have "settle_due env None one (Claim f) s = (r, s')" by simp
    from claim_settles [OF this fresh] obtain g where g: "st_schedules (rt_Store s') = st_schedules (rt_Store s)"
      "st_scheduleOrder (rt_Store s') = st_scheduleOrder (rt_Store s)"
      "st_firings (rt_Store s') = gm_set (st_firings (rt_Store s)) (key_of_firing f) g"
      and new: "\<forall>x. unstarted x s \<longrightarrow> \<not> unstarted x s' \<longrightarrow> x = rv_NewID (sd_Rt env) (rt_Tick s) \<and>
      (\<forall>engine. rt_Permissions s' = Some engine \<longrightarrow> gm_get (en_sessionProfile engine) (sc_SessionID one) = Some unattended_name \<and>
        (\<exists>before. rt_Permissions s = Some before \<and> use_profile (sc_SessionID one) unattended_name before = Inr engine))"
      and started: "r = Inr True \<Longrightarrow> \<exists>rid at. g = f\<lparr>fi_RunID := rid\<rparr> \<and> gm_get (st_runs (rt_Store s)) rid = None \<and>
         gm_get (st_runs (rt_Store s')) rid = Some (turn_run rid (sc_SessionID one) (scheduled_turn env one f) at) \<and>
         (\<forall>engine. rt_Permissions s' = Some engine \<longrightarrow> gm_get (en_sessionProfile engine) (sc_SessionID one) = Some unattended_name)"
      by blast
    have "schedule_account one (rt_Store s')" by (rule account_extended [OF assms(2) _ _ _ g]) (use d in auto)
    moreover {
      assume "r = Inr True"
      from started [OF this] obtain rid made where x: "g = f\<lparr>fi_RunID := rid\<rparr>" "gm_get (st_runs (rt_Store s)) rid = None"
        "gm_get (st_runs (rt_Store s')) rid = Some (turn_run rid (sc_SessionID one) (scheduled_turn env one f) made)"
        "\<forall>engine. rt_Permissions s' = Some engine \<longrightarrow> gm_get (en_sessionProfile engine) (sc_SessionID one) = Some unattended_name"
        by blast
      let ?run = "turn_run rid (sc_SessionID one) (scheduled_turn env one f) made"
      have "ru_SessionID ?run = sc_SessionID one" "works_for one ?run"
        by (simp_all add: turn_run_def works_for_def scheduled_turn_def from_a_schedule_def)
      moreover have "gm_get (st_firings (rt_Store s')) (sc_ID one, sc_Revision one, unix_nano (fi_For f)) = Some g"
        using g(3) d by (simp add: key_of_firing_def)
      ultimately have "\<exists>f rid run. fi_For f \<le> at \<and> fi_RunID f = rid \<and>
       (\<forall>due_at. resolved one due_at (rt_Store s) \<longrightarrow> due_at < unix_nano (fi_For f)) \<and>
       gm_get (st_firings (rt_Store s')) (sc_ID one, sc_Revision one, unix_nano (fi_For f)) = Some f \<and>
       (\<forall>earlier \<in> set (gm_vals (st_runs (rt_Store s))). ru_SessionID earlier = sc_SessionID one \<longrightarrow> works_for one earlier \<longrightarrow>
          is_terminal (ru_Status earlier)) \<and>
       gm_get (st_runs (rt_Store s)) rid = None \<and> gm_get (st_runs (rt_Store s')) rid = Some run \<and>
       ru_SessionID run = sc_SessionID one \<and> works_for one run"
        using d Claim x by (intro exI [of _ g] exI [of _ rid] exI [of _ ?run]) auto
    }
    moreover have "\<forall>x engine. gm_get (st_runs (rt_Store s)) x = None \<and> gm_get (st_runs (rt_Store s')) x \<noteq> None \<and> rt_Permissions s' = Some engine \<longrightarrow>
       gm_get (en_sessionProfile engine) (sc_SessionID one) = Some ''unattended'' \<and>
       (\<exists>before. rt_Permissions s = Some before \<and> use_profile (sc_SessionID one) ''unattended'' before = Inr engine)"
      "\<forall>x y. gm_get (st_runs (rt_Store s)) x = None \<and> gm_get (st_runs (rt_Store s')) x \<noteq> None \<and>
       gm_get (st_runs (rt_Store s)) y = None \<and> gm_get (st_runs (rt_Store s')) y \<noteq> None \<longrightarrow> x = y"
      using new unfolding unstarted_def unattended_name_def by metis+
    ultimately show ?thesis by blast
  qed
qed

subsection \<open>What is stored can run\<close>

lemma rt_create_session_Inr:
  assumes "rt_create_session env ctx title s = (Inr session, s')"
  shows "ctx = None \<and> gm_get (st_sessions (rt_Store s')) (se_ID session) = Some session \<and> se_Title session = title \<and>
    gm_get (st_sessions (rt_Store s)) (se_ID session) = None \<and> standing s' = standing s"
  using assms
  by (cases ctx) (auto simp: rt_create_session_def rt_ops create_session_def standing_def Let_def split: if_splits option.splits)

lemma house_schedule_result:
  assumes "house_schedule env ctx one s = (q, s')"
  shows "standing s' = standing s \<and> (\<forall>stored. q = Inr stored \<longrightarrow> (stored = one \<or> (\<exists>x. stored = one\<lparr>sc_SessionID := x\<rparr>)) \<and>
    gm_get (st_sessions (rt_Store s')) (sc_SessionID stored) \<noteq> None)"
proof (cases "sc_SessionID one = ''''")
  case True
  obtain r t where c: "rt_create_session (sd_Rt env) ctx (schedule_title one) s = (r, t)" by fastforce
  have "standing t = standing s"
  proof (cases r)
    case (Inl e)
    then show ?thesis using c
      by (auto simp: rt_create_session_def rbind_def now_def new_id_def st_write_def standing_def Let_def ok_def split: if_splits sum.splits)
  qed (use c rt_create_session_Inr in blast)
  with True c assms show ?thesis
    using rt_create_session_Inr [of "sd_Rt env" ctx "schedule_title one" s _ t]
    by (cases r) (auto simp: house_schedule_def sbind_def lifted_def sok_def)
next
  case False
  with assms show ?thesis
    by (cases ctx) (auto simp: house_schedule_def sbind_def lifted_def sok_def st_read_def get_session_def split: sum.splits option.splits)
qed

text \<open>A schedule that is stored could run: it has something to ask, its expression and zone were
  understood, the calendar has a moment for it after its creation, its session exists, and it is the
  first revision under an identifier not used before. A schedule that is refused changes no schedule.\<close>

theorem new_schedule_can_run:
  assumes "new_schedule env ctx wanted s = (r, s')"
  shows "case r of
      Inl _ \<Rightarrow> st_schedules (rt_Store s') = st_schedules (rt_Store s) \<and> st_scheduleOrder (rt_Store s') = st_scheduleOrder (rt_Store s)
    | Inr one \<Rightarrow>
        trim_space (sc_Prompt one) \<noteq> '''' \<and> sc_Prompt one = sc_Prompt wanted \<and> sc_Expression one = sc_Expression wanted \<and> sc_Revision one = 1 \<and>
        (\<exists>e z from_when t. parse (sc_Expression one) = Inr e \<and> zone_of (sd_Load env) (sd_Local env) one = Inr z \<and>
           sc_CreatedAt one = from_when \<and> next_at e from_when z = Some t) \<and>
        gm_get (st_sessions (rt_Store s')) (sc_SessionID one) \<noteq> None \<and>
        gm_get (st_schedules (rt_Store s)) (sc_ID one) = None \<and> gm_get (st_schedules (rt_Store s')) (sc_ID one) = Some one"
proof (cases "trim_space (sc_Prompt wanted) = ''''")
  case True
  with assms show ?thesis by (auto simp: new_schedule_def sched_ops)
next
  case prompted: False
  define sid at where "sid = rv_NewID (sd_Rt env) (rt_Tick s)" and "at = rv_Now (sd_Rt env) (Suc (rt_Tick s))"
  define one where "one = wanted\<lparr>sc_ID := sid, sc_Revision := 1, sc_CreatedAt := at\<rparr>"
  define s2 where "s2 = s\<lparr>rt_Tick := Suc (Suc (rt_Tick s))\<rparr>"
  show ?thesis
  proof (cases "check_schedule (sd_Load env) (sd_Local env) at one")
    case (Inl e)
    with assms prompted show ?thesis
      by (auto simp: new_schedule_def sched_ops rt_ops sid_def [symmetric] at_def [symmetric] one_def [symmetric] Let_def)
  next
    case (Inr u)
    have run: "sbind (house_schedule env ctx one) (\<lambda>wanted. sbind (lifted (st_write (create_schedule ctx wanted))) (\<lambda>_. sok wanted)) s2 = (r, s')"
      using assms prompted Inr
      by (simp add: new_schedule_def sbind_def lifted_def now_def new_id_def sid_def [symmetric] at_def [symmetric] one_def [symmetric] s2_def Let_def)
    have tick: "standing s2 = standing s" by (simp add: s2_def standing_def)
    obtain q s3 where h: "house_schedule env ctx one s2 = (q, s3)" by fastforce
    note housed = house_schedule_result [OF h]
    have stand: "standing s3 = standing s2" using housed by simp
    show ?thesis
    proof (cases q)
      case (Inl e)
      with run h stand tick show ?thesis by (auto simp: sbind_def standing_def)
    next
      case q: (Inr stored)
      have st: "(stored = one \<or> (\<exists>x. stored = one\<lparr>sc_SessionID := x\<rparr>)) \<and> gm_get (st_sessions (rt_Store s3)) (sc_SessionID stored) \<noteq> None"
        using housed q by simp
      obtain e z t where can: "parse (sc_Expression one) = Inr e" "zone_of (sd_Load env) (sd_Local env) one = Inr z" "next_at e at z = Some t"
        using Inr by (auto simp: check_schedule_def one_def Let_def split: sum.splits option.splits if_splits)
      have zone: "zone_of (sd_Load env) (sd_Local env) stored = zone_of (sd_Load env) (sd_Local env) one"
        using st by (auto simp: zone_of_def split: option.splits)
      have keep: "sc_Prompt stored = sc_Prompt wanted" "sc_Expression stored = sc_Expression wanted" "sc_Revision stored = 1" "sc_CreatedAt stored = at"
        using st by (auto simp: one_def)
      show ?thesis
      proof (cases "create_schedule ctx stored (rt_Store s3)")
        case (Inl err)
        with run h q stand tick show ?thesis by (auto simp: sched_ops st_write_def standing_def)
      next
        case (Inr u)
        then have u: "gm_get (st_schedules (rt_Store s3)) (sc_ID stored) = None" "gm_get (st_schedules u) (sc_ID stored) = Some stored"
          "st_sessions u = st_sessions (rt_Store s3)"
          by (cases ctx; auto simp: create_schedule_def split: option.splits)+
        have "r = Inr stored" "rt_Store s' = u" using run h q Inr by (auto simp: sched_ops st_write_def)
        with u st keep can zone prompted stand tick show ?thesis by (auto simp: standing_def one_def)
      qed
    qed
  qed
qed

text \<open>A title is text whatever was asked: cut at most after forty runes, it is well-formed when the
  expression is, and a prompt that is well-formed begins with what the title quotes.\<close>

theorem schedule_title_is_text:
  assumes "valid_utf8 (sc_Expression one)" "valid_utf8 (trim_space (sc_Prompt one))"
  shows "valid_utf8 (schedule_title one) \<and> length (runes (schedule_title one)) \<le> length (runes (sc_Expression one)) + 44 \<and>
    (\<exists>quoted more. trim_space (sc_Prompt one) = quoted @ more \<and>
       (schedule_title one = sc_Expression one @ '' '' @ em_dash @ '' '' @ quoted \<and> more = '''' \<or>
        schedule_title one = sc_Expression one @ '' '' @ em_dash @ '' '' @ quoted @ ellipsis \<and> length (runes quoted) = 40))"
proof -
  let ?said = "trim_space (sc_Prompt one)"
  have "CHR '' '' = char_of (32 :: nat)" by code_simp
  then have enc: "'' '' = of_runes [32]" "em_dash = of_runes [0x2014]" "ellipsis = of_runes [0x2026]"
    by (simp_all add: encode_rune_def scalar_def em_dash_def ellipsis_def)
  have space: "valid_utf8 '' ''" "runes '' '' = [32]" "valid_utf8 em_dash" "runes em_dash = [0x2014]" "valid_utf8 ellipsis" "runes ellipsis = [0x2026]"
    using encoded_text [OF enc(1)] encoded_text [OF enc(2)] encoded_text [OF enc(3)] by (simp_all add: scalar_def)
  define quoted where "quoted = (if length (runes ?said) > 40 then of_runes (take 40 (runes ?said)) else ?said)"
  have taken: "runes (of_runes (take 40 (runes ?said))) = take 40 (runes ?said)"
    using runes_scalar [of ?said] in_set_takeD by (intro runes_of_runes) fastforce
  have q: "valid_utf8 quoted" "length (runes quoted) \<le> 40" "\<exists>more. ?said = quoted @ more \<and> (length (runes ?said) \<le> 40 \<longrightarrow> more = '''')"
    "length (runes ?said) > 40 \<Longrightarrow> length (runes quoted) = 40"
    using assms(2) cut_valid [of 40 ?said] cut_prefix [OF assms(2), of 40] taken by (auto simp: quoted_def)
  have cut: "cut_runes 40 ?said = quoted @ (if length (runes ?said) > 40 then ellipsis else '''')"
    by (simp add: cut_runes_def quoted_def)
  have v: "valid_utf8 ('' '' @ em_dash @ '' '' @ cut_runes 40 ?said) \<and>
      runes ('' '' @ em_dash @ '' '' @ cut_runes 40 ?said) = [32, 0x2014, 32] @ runes quoted @ (if length (runes ?said) > 40 then [0x2026] else [])"
    using valid_append [OF q(1) space(5)] q(1) valid_append [OF space(1), of "cut_runes 40 ?said"]
      valid_append [OF space(3), of "'' '' @ cut_runes 40 ?said"] valid_append [OF space(1), of "em_dash @ '' '' @ cut_runes 40 ?said"] space
    unfolding cut by auto
  have t: "schedule_title one = sc_Expression one @ ('' '' @ em_dash @ '' '' @ cut_runes 40 ?said)"
    by (simp add: schedule_title_def)
  from valid_append [OF assms(1) conjunct1 [OF v]] v q(2)
  have "valid_utf8 (schedule_title one)" "length (runes (schedule_title one)) \<le> length (runes (sc_Expression one)) + 44"
    unfolding t by (auto split: if_splits)
  moreover from q(3) obtain more where "?said = quoted @ more" "length (runes ?said) \<le> 40 \<longrightarrow> more = ''''" by blast
  moreover have "schedule_title one = sc_Expression one @ '' '' @ em_dash @ '' '' @ quoted @ (if length (runes ?said) > 40 then ellipsis else '''')"
    by (simp add: t cut)
  ultimately show ?thesis using q(4) by (cases "length (runes ?said) > 40") auto
qed

subsection \<open>At concrete inputs\<close>

definition plain_sched :: SchedEnv where
  "plain_sched = \<lparr>sd_Rt = plain_rt_env, sd_Load = (\<lambda>_. None), sd_Local = utc, sd_RFC3339 = (\<lambda>_. ''then'')\<rparr>"

definition standing_by :: Rt where
  "standing_by = (new_rt (new_store\<lparr>st_sessions := [(''s'', sample_session ''s'' 1)]\<rparr>))\<lparr>rt_Permissions := Some (new_engine local_profile)\<rparr>"

definition half_past :: Firing where
  "half_past = \<lparr>fi_ScheduleID = ''q'', fi_Revision = 3, fi_For = 30 * minute, fi_Observed = 40 * minute, fi_Missed = 0, fi_RunID = ''''\<rparr>"

lemma quarter_hourly_due: "due_now plain_sched None quarter_hourly (40 * minute) (rt_Store standing_by) = Inr (Claim half_past)"
proof -
  obtain e where e: "parse ''*/15 * * * *'' = Inr e" "next_at e (20 * minute) utc = Some (30 * minute)" "next_at e (30 * minute) utc = Some (45 * minute)"
    using quarter_hours by blast
  have a: "answers_for (\<lambda>_. None) utc quarter_hourly 0 e utc (20 * minute)"
    using e(1) minute_pos by (simp add: answers_for_def quarter_hourly_def zone_of_def zero_time_def)
  have "owed_loop e utc (40 * minute) 0 0 (next_at e (20 * minute) utc) = (30 * minute, 0)"
    using e minute_pos by (simp add: zero_time_def most_counted_def)
  then have "owed (\<lambda>_. None) utc quarter_hourly 0 (40 * minute) = Inr (half_past, True)"
    using owed_unfold [OF a, of "40 * minute"] minute_pos by (auto simp: quarter_hourly_def half_past_def)
  moreover have "last_firing None ''q'' 3 (rt_Store standing_by) = Inr 0"
    by (simp add: last_firing_def standing_by_def new_rt_def new_store_def zero_time_def)
  moreover have "schedule_is_busy None quarter_hourly (rt_Store standing_by) = Inr False"
    by (simp add: schedule_is_busy_def list_runs_def filter_runs_def standing_by_def new_rt_def new_store_def gm_vals_def)
  moreover have "sc_ID quarter_hourly = ''q''" "sc_Revision quarter_hourly = 3" by (simp_all add: quarter_hourly_def)
  ultimately show ?thesis using minute_pos by (simp add: due_now_def plain_sched_def half_past_def zero_time_def)
qed

lemma standing_by_account: "schedule_account quarter_hourly (rt_Store standing_by)"
  using minute_pos
  by (simp add: schedule_account_def schedules_wf_def resolved_def standing_by_def new_rt_def new_store_def quarter_hourly_def gm_keyed_def gm_wf_def)

theorem scheduled_run_once_witness:
  "\<exists>s'. reconcile_one plain_sched None quarter_hourly (40 * minute) standing_by = (Inr True, s') \<and>
     schedule_account quarter_hourly (rt_Store s') \<and>
     (\<exists>run. run \<in> set (gm_vals (st_runs (rt_Store s'))) \<and> works_for quarter_hourly run)"
proof -
  define m where "m = settle_due plain_sched None quarter_hourly (Claim half_past) standing_by"
  have "fst m = Inr True" unfolding m_def by code_simp
  then have m: "reconcile_one plain_sched None quarter_hourly (40 * minute) standing_by = (Inr True, snd m)"
    by (simp add: reconcile_one_def quarter_hourly_due m_def prod_eq_iff)
  note r = scheduled_run_once [OF m standing_by_account]
  then obtain rid run where "gm_get (st_runs (rt_Store (snd m))) rid = Some run" "works_for quarter_hourly run" by blast
  moreover from this(1) have "run \<in> set (gm_vals (st_runs (rt_Store (snd m))))"
    using gm_get_mem [of "st_runs (rt_Store (snd m))" rid run] by (force simp: gm_vals_def)
  ultimately show ?thesis using m r by blast
qed

definition at_twenty_past :: SchedEnv where
  "at_twenty_past = plain_sched\<lparr>sd_Rt := plain_rt_env\<lparr>rv_Now := (\<lambda>_. 20 * minute)\<rparr>\<rparr>"

theorem new_schedule_can_run_witness:
  "\<exists>one s'. new_schedule at_twenty_past None quarter_hourly standing_by = (Inr one, s') \<and>
     gm_get (st_schedules (rt_Store s')) (sc_ID one) = Some one \<and> sc_Revision one = 1"
proof -
  define one where "one = quarter_hourly\<lparr>sc_ID := ''0'', sc_Revision := 1, sc_CreatedAt := 20 * minute\<rparr>"
  define m where "m = sbind (house_schedule at_twenty_past None one)
    (\<lambda>wanted. sbind (lifted (st_write (create_schedule None wanted))) (\<lambda>_. sok wanted)) (standing_by\<lparr>rt_Tick := 2\<rparr>)"
  obtain e where e: "parse ''*/15 * * * *'' = Inr e" "next_at e (20 * minute) utc = Some (30 * minute)" using quarter_hours by blast
  have c: "check_schedule (\<lambda>_. None) utc (20 * minute) one = Inr ()"
    using e minute_pos by (simp add: check_schedule_def one_def quarter_hourly_def zone_of_def zero_time_def)
  have ids: "rv_NewID plain_rt_env (rt_Tick standing_by) = ''0''" "trim_space (sc_Prompt quarter_hourly) \<noteq> ''''" "rt_Tick standing_by = 0"
    by code_simp+
  have "fst m = Inr one" unfolding m_def one_def by code_simp
  moreover have "new_schedule at_twenty_past None quarter_hourly standing_by = m"
    using ids c by (simp add: new_schedule_def sbind_def lifted_def new_id_def now_def at_twenty_past_def plain_sched_def
        one_def [symmetric] m_def Let_def numeral_2_eq_2)
  ultimately have m: "new_schedule at_twenty_past None quarter_hourly standing_by = (Inr one, snd m)"
    by (simp add: prod_eq_iff)
  from new_schedule_can_run [OF m] m show ?thesis by auto
qed

theorem schedule_title_is_text_witness:
  "valid_utf8 (schedule_title quarter_hourly) \<and> length (runes (schedule_title quarter_hourly)) \<le> 56"
proof -
  have a: "is_ascii (sc_Expression quarter_hourly)" "is_ascii (trim_space (sc_Prompt quarter_hourly))"
    "length (sc_Expression quarter_hourly) = 12" by code_simp+
  then have v: "valid_utf8 (sc_Expression quarter_hourly)" "valid_utf8 (trim_space (sc_Prompt quarter_hourly))"
    "length (runes (sc_Expression quarter_hourly)) = 12" using ascii_runes by simp_all
  from schedule_title_is_text [OF v(1,2)] v(3) show ?thesis by simp
qed

text \<open>The claim does not stop the one that loses it: \<open>markResolved\<close> takes an occasion already
  resolved for success, so of two reconcilers that both read before either claimed, the second starts
  a run for the same occasion too, where the comment has it stop.\<close>

theorem losing_claim_starts_a_run:
  "\<exists>s1 s2. due_now plain_sched None quarter_hourly (40 * minute) (rt_Store standing_by) = Inr (Claim half_past) \<and>
     settle_due plain_sched None quarter_hourly (Claim half_past) standing_by = (Inr True, s1) \<and>
     settle_due plain_sched None quarter_hourly (Claim half_past) s1 = (Inr True, s2) \<and>
     length (filter (works_for quarter_hourly) (gm_vals (st_runs (rt_Store s2)))) = 2 \<and>
     length (st_firings (rt_Store s2)) = 1"
proof -
  define a where "a = settle_due plain_sched None quarter_hourly (Claim half_past) standing_by"
  define b where "b = settle_due plain_sched None quarter_hourly (Claim half_past) (snd a)"
  have f: "fst a = Inr True" "fst b = Inr True" "length (filter (works_for quarter_hourly) (gm_vals (st_runs (rt_Store (snd b))))) = 2"
    "length (st_firings (rt_Store (snd b))) = 1"
    unfolding b_def a_def by code_simp+
  have "a = (Inr True, snd a)" "b = (Inr True, snd b)" using f by (simp_all add: prod_eq_iff)
  with f quarter_hourly_due show ?thesis unfolding a_def b_def by blast
qed

end
