(* ===== verification/Media.thy ===== *)
theory Media
imports Prelude
begin

text \<open>
  What a picture may be (\<open>core/internal/media/media.go\<close>). Lower-casing, the sniffing of \<open>net/http\<close> and
  the header parser of \<open>image\<close> are parameters: \<open>MediaLib\<close>.
\<close>

record MediaLib =
  ml_ToLower :: "string \<Rightarrow> string"
  ml_Sniff :: "string \<Rightarrow> string"
  ml_DecodeConfig :: "string \<Rightarrow> (int \<times> int \<times> string) option" \<comment> \<open>width, height and format\<close>

definition max_image_bytes :: int where "max_image_bytes = 8 * 2 ^ 20"
definition max_image_pixels :: int where "max_image_pixels = 40000000"
definition max_image_side :: int where "max_image_side = 12000"
definition max_images_per_message :: nat where "max_images_per_message = 4"

definition accepted_image_types :: "string list" where
  "accepted_image_types = [''image/png'', ''image/jpeg'', ''image/webp'']"

definition canonical_media_type :: "MediaLib \<Rightarrow> string \<Rightarrow> string" where
  "canonical_media_type lib declared =
     (let declared = ml_ToLower lib (trim_space (takeWhile (\<lambda>c. c \<noteq> CHR '';'') declared))
      in if declared = ''image/jpg'' then ''image/jpeg'' else declared)"

definition format_media_type :: "string \<Rightarrow> string" where
  "format_media_type format =
     (if format = ''jpeg'' then ''image/jpeg'' else if format = ''png'' then ''image/png''
      else if format = ''webp'' then ''image/webp'' else ''image/'' @ format)"

datatype ImageError =
    NotAccepted string | TooManyBytes int | Mislabelled string string | HeaderUnreadable
  | DecodesAs string string | SideTooLong int int | TooManyPixels int int

definition check_image :: "MediaLib \<Rightarrow> string \<Rightarrow> string \<Rightarrow> ImageError + string" where
  "check_image lib declared content =
     (let declared = canonical_media_type lib declared in
      if declared \<notin> set accepted_image_types then Inl (NotAccepted declared)
      else if int (length content) > max_image_bytes then Inl (TooManyBytes (int (length content)))
      else let sniffed = canonical_media_type lib (ml_Sniff lib content) in
        if sniffed \<noteq> declared then Inl (Mislabelled declared sniffed)
        else case ml_DecodeConfig lib content of
          None \<Rightarrow> Inl HeaderUnreadable
        | Some (width, height, format) \<Rightarrow>
            if format_media_type format \<noteq> declared then Inl (DecodesAs declared format)
            else if width > max_image_side \<or> height > max_image_side then Inl (SideTooLong width height)
            else if width * height > max_image_pixels then Inl (TooManyPixels width height)
            else Inr declared)"

lemma check_image_Inr:
  assumes "check_image lib declared content = Inr kept"
  shows "kept = canonical_media_type lib declared \<and> kept \<in> set accepted_image_types \<and>
    canonical_media_type lib (ml_Sniff lib content) = kept \<and> int (length content) \<le> max_image_bytes \<and>
    (\<exists>width height format. ml_DecodeConfig lib content = Some (width, height, format) \<and> format_media_type format = kept \<and>
       width \<le> max_image_side \<and> height \<le> max_image_side \<and> width * height \<le> max_image_pixels)"
  using assms by (auto simp: check_image_def Let_def split: if_splits option.splits)

end
