(* ===== verification/Console.thy ===== *)
theory Console
imports Plan GatewayStore Utf8
begin

text \<open>
  A console channel (\<open>core/internal/gateway/console.go\<close>): the few things a room can be told to do, and
  what this program says there on its own behalf.

  \<open>Gw\<close> is the runtime beside the gateway's tables; both live in one database, so a table's foreign key
  sees the runtime's sessions. \<open>GwEnv\<close> holds what an ingress was wired with. JSON, the artifact store
  and the reading of an uploaded picture are parameters.
\<close>

subsection \<open>The ingress's state\<close>

record MessageFile =
  mf_Name :: string
  mf_Content :: string
  mf_MediaType :: string

record MessagePayload =
  mp_Text :: string
  mp_MessageID :: string
  mp_Final :: bool
  mp_File :: "MessageFile option"

record Gw =
  gw_Rt :: Rt
  gw_Tables :: Tables

record ArtifactRef =
  rf_ID :: string
  rf_Size :: int
  rf_MediaType :: string

record GwEnv =
  gv_Loop :: LoopEnv
  gv_Binder :: bool
  gv_Decisions :: bool
  gv_Withdrawals :: bool
  gv_CanPost :: bool
  gv_Title :: "(InboundMessage \<Rightarrow> string) option"
  gv_PutBytes :: "(string \<Rightarrow> string \<Rightarrow> ArtifactRef option) option"
  gv_CanRead :: bool
  gv_Stat :: "string \<Rightarrow> ArtifactRef option"
  gv_ReadRange :: "string \<Rightarrow> int \<Rightarrow> int \<Rightarrow> string + string"
  gv_CanonicalType :: "string \<Rightarrow> string"
  gv_CheckImage :: "string \<Rightarrow> string \<Rightarrow> string option"
  gv_EncodePayload :: "MessagePayload \<Rightarrow> string"
  gv_EncodeRef :: "ConversationRef \<Rightarrow> string"
  gv_DecodeRef :: "string \<Rightarrow> ConversationRef option"

abbreviation gv_Rt :: "GwEnv \<Rightarrow> RtEnv" where
  "gv_Rt env \<equiv> lv_Rt (gv_Loop env)"

definition conversation_from_target :: "GwEnv \<Rightarrow> DeliveryTarget \<Rightarrow> ConversationRef option" where
  "conversation_from_target env target =
     (case gv_DecodeRef env (dt_Ref target) of None \<Rightarrow> None | Some c \<Rightarrow> if cr_Platform c = '''' then None else Some c)"

datatype GwFail = FStore GwError | FRun Err | FText string | FProfile string string

type_synonym 'a gw = "Gw \<Rightarrow> (GwFail + 'a) \<times> Gw"

definition gok :: "'a \<Rightarrow> 'a gw" where "gok x s = (Inr x, s)"
definition gfail :: "GwFail \<Rightarrow> 'a gw" where "gfail e s = (Inl e, s)"

definition gbind :: "'a gw \<Rightarrow> ('a \<Rightarrow> 'b gw) \<Rightarrow> 'b gw" where
  "gbind m k s = (case m s of (Inl e, s') \<Rightarrow> (Inl e, s') | (Inr x, s') \<Rightarrow> k x s')"

definition on_rt :: "'a rt \<Rightarrow> 'a gw" where
  "on_rt m s = (case m (gw_Rt s) of (Inl e, t) \<Rightarrow> (Inl (FRun e), s\<lparr>gw_Rt := t\<rparr>) | (Inr x, t) \<Rightarrow> (Inr x, s\<lparr>gw_Rt := t\<rparr>))"

definition tb_read :: "(Tables \<Rightarrow> GwError + 'a) \<Rightarrow> 'a gw" where
  "tb_read f s = (case f (gw_Tables s) of Inl e \<Rightarrow> (Inl (FStore e), s) | Inr x \<Rightarrow> (Inr x, s))"

definition known_in :: "Gw \<Rightarrow> SessionID \<Rightarrow> bool" where
  "known_in s sid \<longleftrightarrow> gm_get (st_sessions (rt_Store (gw_Rt s))) sid \<noteq> None"

definition tb_change :: "((SessionID \<Rightarrow> bool) \<Rightarrow> Tables \<Rightarrow> GwError + ('a \<times> Tables)) \<Rightarrow> 'a gw" where
  "tb_change f s = (case f (known_in s) (gw_Tables s) of Inl e \<Rightarrow> (Inl (FStore e), s) | Inr (x, t) \<Rightarrow> (Inr x, s\<lparr>gw_Tables := t\<rparr>))"

lemmas gw_ops = gok_def gfail_def gbind_def on_rt_def tb_read_def tb_change_def

subsection \<open>Speaking\<close>

definition post :: "GwEnv \<Rightarrow> Ctx \<Rightarrow> InboundMessage \<Rightarrow> SessionID \<Rightarrow> MessagePayload \<Rightarrow> unit gw" where
  "post env ctx message session payload =
     (if \<not> gv_CanPost env then gfail (FText ''gateway: this ingress cannot post on its own behalf'')
      else gbind (on_rt (new_id (gv_Rt env))) (\<lambda>did. gbind (on_rt (now (gv_Rt env))) (\<lambda>at.
        gbind (tb_change (\<lambda>known. enqueue_dispatch known ctx
          \<lparr>di_ID = did, di_Seq = 0, di_AccountID = cr_AccountID (im_Conversation message), di_SessionID = session, di_RunID = '''',
           di_Target = im_Conversation message, di_Kind = DispatchMessage, di_Payload = gv_EncodePayload env payload,
           di_CreatedAt = at, di_DeliveredAt = None, di_PlatformMessageIDs = []\<rparr>)) (\<lambda>_. gok ()))))"

definition speak :: "GwEnv \<Rightarrow> Ctx \<Rightarrow> InboundMessage \<Rightarrow> SessionID \<Rightarrow> string \<Rightarrow> unit gw" where
  "speak env ctx message session text =
     post env ctx message session \<lparr>mp_Text = text, mp_MessageID = '''', mp_Final = True, mp_File = None\<rparr>"

definition attach :: "GwEnv \<Rightarrow> Ctx \<Rightarrow> InboundMessage \<Rightarrow> SessionID \<Rightarrow> MessageFile \<Rightarrow> unit gw" where
  "attach env ctx message session file =
     post env ctx message session \<lparr>mp_Text = '''', mp_MessageID = '''', mp_Final = True, mp_File = Some file\<rparr>"

definition console_profile_name :: string where "console_profile_name = ''console''"

definition console_motd :: "Binding \<Rightarrow> string" where
  "console_motd binding =
     ''**This channel is a console.**'' @ newline @
     ''It can read and search the workspace, fetch web pages, and read what I remember.'' @ newline @
     ''Changes to files and to memory stop and ask, and you can answer here: '' @
     ''`pending` lists what is waiting, `approve <id>` and `deny <id>` decide it.'' @ newline @
     ''`questions` lists what the agent has asked, `answer <id> <your answer>` tells it.'' @ newline @
     ''`artifact <id>` hands over something a run stored.'' @ newline @ newline @
     ''**It cannot run programs.** That needs somebody at the machine.'' @ newline @
     ''Channel permissions decide who can see and type here, which is what makes the rest of '' @
     ''this safe. What they cannot decide is whether an account still belongs to its owner, '' @
     ''and a stolen one would hold both the request and the approval. '' @
     ''So running programs stays where somebody has to be present '' @ em_dash @ '' which is also the only '' @
     ''place that can tell.'' @ newline @
     (if bi_AllowedPrincipals binding \<noteq> [] \<or> bi_AllowedClaims binding \<noteq> []
      then newline @ ''Only listed accounts and roles are answered here.'' else '''')"

subsection \<open>Commands\<close>

definition who_typed :: "InboundMessage \<Rightarrow> RunOrigin" where
  "who_typed message =
     (if pl_ID (im_Principal message) \<noteq> ''''
      then from_a_platform_account (pl_Platform (im_Principal message)) (pl_ID (im_Principal message)) (pl_DisplayName (im_Principal message))
      else from_a_channel (cr_Platform (im_Conversation message)) (cr_ChannelID (im_Conversation message)))"

datatype ConsoleCommand =
    CmdAnswer string string | CmdApprove string | CmdDeny string | CmdPending | CmdQuestions | CmdArtifact string | CmdHelp

definition short_command :: "string \<Rightarrow> string \<Rightarrow> ConsoleCommand option" where
  "short_command verb arg =
     (if verb \<in> {''approve'', ''allow'', ''yes''} then (if arg \<noteq> '''' then Some (CmdApprove arg) else None)
      else if verb \<in> {''deny'', ''reject'', ''no''} then (if arg \<noteq> '''' then Some (CmdDeny arg) else None)
      else if verb \<in> {''pending'', ''approvals''} then (if arg = '''' then Some CmdPending else None)
      else if verb \<in> {''questions'', ''asked''} then (if arg = '''' then Some CmdQuestions else None)
      else if verb \<in> {''artifact'', ''file''} then (if arg \<noteq> '''' then Some (CmdArtifact arg) else None)
      else if verb \<in> {''help'', ''motd''} then (if arg = '''' then Some CmdHelp else None)
      else None)"

definition parse_console_command :: "LoopEnv \<Rightarrow> string \<Rightarrow> ConsoleCommand option" where
  "parse_console_command env text =
     (case Prelude.fields (trim_space text) of
        [] \<Rightarrow> None
      | verb # args \<Rightarrow>
          if lv_EqualFold env verb ''answer'' \<and> length args \<ge> 2 then Some (CmdAnswer (hd args) (str_join '' '' (tl args)))
          else case args of
            [] \<Rightarrow> short_command (lv_ToLower env verb) ''''
          | [arg] \<Rightarrow> short_command (lv_ToLower env verb) arg
          | _ \<Rightarrow> None)"

definition render_asked :: "Question list \<Rightarrow> string" where
  "render_asked asked =
     (if asked = [] then ''Nothing here is waiting on an answer.''
      else concat (map (\<lambda>q. qu_ID q @ '' '' @ em_dash @ '' '' @ qu_Prompt q @ newline @
             concat (map (\<lambda>o1. ''  '' @ qo_ID o1 @ '': '' @ qo_Label o1 @ newline) (qu_Options q))) asked) @
           newline @ ''Reply `answer <id> <your answer>`.'')"

definition render_pending :: "Approval list \<Rightarrow> string" where
  "render_pending waiting =
     (if waiting = [] then ''Nothing is waiting.''
      else ''Waiting:'' @ newline @
           concat (map (\<lambda>a. ''- `'' @ ap_ID a @ ''` '' @ em_dash @ '' '' @ ap_ToolName a @ newline) waiting) @
           newline @ ''Reply `approve <id>` or `deny <id>`.'')"

definition console_answer :: "GwEnv \<Rightarrow> Ctx \<Rightarrow> InboundMessage \<Rightarrow> SessionID \<Rightarrow> Question list \<Rightarrow> string \<Rightarrow> string \<Rightarrow> unit gw" where
  "console_answer env ctx message session asked arg rest =
     (case find (\<lambda>q. lv_EqualFold (gv_Loop env) (qu_ID q) arg) asked of
        None \<Rightarrow> speak env ctx message session (''Nothing here is waiting on '' @ arg @ ''. Type `questions` to see what is.'')
      | Some q \<Rightarrow> (\<lambda>s.
          case on_rt (rt_answer_question (gv_Loop env) ctx (qu_ID q) rest (who_typed message)) s of
            (Inl (FRun err), s) \<Rightarrow> speak env ctx message session (''That did not work: '' @ err_text (gv_Rt env) err) s
          | (Inl e, s) \<Rightarrow> (Inl e, s)
          | (Inr answered, s) \<Rightarrow> speak env ctx message session (''Answered '' @ qu_ID answered @ '': '' @ qu_Answer answered) s))"

definition console_decide :: "GwEnv \<Rightarrow> Ctx \<Rightarrow> InboundMessage \<Rightarrow> SessionID \<Rightarrow> Approval list \<Rightarrow> string \<Rightarrow> bool \<Rightarrow> unit gw" where
  "console_decide env ctx message session waiting arg allow =
     (case find (\<lambda>a. ap_ID a = arg) waiting of
        None \<Rightarrow> speak env ctx message session (''Nothing here is waiting on '' @ arg @ ''. Type `pending` to see what is.'')
      | Some a \<Rightarrow>
          gbind (on_rt (rt_decide_approval (gv_Loop env) ctx (ap_ID a) allow RememberOnce (who_typed message))) (\<lambda>_.
            speak env ctx message session ((if allow then ''Approved'' else ''Denied'') @ '' `'' @ ap_ToolName a @ ''`.'')))"

definition max_console_file_bytes :: int where "max_console_file_bytes = 2 * 2 ^ 20"

definition extension_for :: "string \<Rightarrow> string" where
  "extension_for mediaType =
     (if has_prefix mediaType ''image/png'' then ''.png'' else if has_prefix mediaType ''image/jpeg'' then ''.jpg''
      else if has_prefix mediaType ''image/webp'' then ''.webp'' else if has_prefix mediaType ''application/json'' then ''.json''
      else ''.txt'')"

definition artifact_filename :: "string \<Rightarrow> string \<Rightarrow> string" where
  "artifact_filename aid mediaType =
     (let name = (if has_prefix aid ''sha256-'' then drop 7 aid else aid);
          name = (if length name > 12 then take 12 name else name)
      in name @ extension_for mediaType)"

definition send_artifact :: "GwEnv \<Rightarrow> Ctx \<Rightarrow> InboundMessage \<Rightarrow> SessionID \<Rightarrow> string \<Rightarrow> unit gw" where
  "send_artifact env ctx message session aid =
     (if gv_PutBytes env = None then speak env ctx message session ''This daemon keeps no artifacts.''
      else if \<not> gv_CanRead env then speak env ctx message session ''This daemon cannot read artifacts back.''
      else case gv_Stat env aid of
        None \<Rightarrow> speak env ctx message session (''There is nothing stored as '' @ aid @ ''.'')
      | Some ref \<Rightarrow>
          if rf_Size ref > max_console_file_bytes
          then speak env ctx message session (aid @ '' is '' @ itoa (rf_Size ref) @ '' bytes, over the '' @ itoa max_console_file_bytes @
                 '' this will hand over. Read it on the machine.'')
          else case gv_ReadRange env aid 0 max_console_file_bytes of
            Inl err \<Rightarrow> speak env ctx message session (aid @ '' could not be read: '' @ err)
          | Inr content \<Rightarrow> attach env ctx message session
              \<lparr>mf_Name = artifact_filename aid (rf_MediaType ref), mf_Content = content, mf_MediaType = rf_MediaType ref\<rparr>)"

definition no_console :: string where
  "no_console = ''This daemon was not started with console commands available.''"

definition handle_console :: "GwEnv \<Rightarrow> Ctx \<Rightarrow> InboundMessage \<Rightarrow> Binding \<Rightarrow> SessionID \<Rightarrow> ConsoleCommand \<Rightarrow> unit gw" where
  "handle_console env ctx message binding session command =
     (case command of
        CmdHelp \<Rightarrow> speak env ctx message session (console_motd binding)
      | CmdArtifact aid \<Rightarrow> send_artifact env ctx message session aid
      | _ \<Rightarrow>
          if \<not> gv_Decisions env then speak env ctx message session no_console
          else case command of
            CmdQuestions \<Rightarrow> gbind (on_rt (rt_pending_questions ctx session)) (\<lambda>asked. speak env ctx message session (render_asked asked))
          | CmdAnswer arg rest \<Rightarrow> gbind (on_rt (rt_pending_questions ctx session)) (\<lambda>asked. console_answer env ctx message session asked arg rest)
          | CmdPending \<Rightarrow> gbind (on_rt (rt_pending_approvals ctx session)) (\<lambda>waiting. speak env ctx message session (render_pending waiting))
          | CmdApprove arg \<Rightarrow> gbind (on_rt (rt_pending_approvals ctx session)) (\<lambda>waiting. console_decide env ctx message session waiting arg True)
          | CmdDeny arg \<Rightarrow> gbind (on_rt (rt_pending_approvals ctx session)) (\<lambda>waiting. console_decide env ctx message session waiting arg False)
          | _ \<Rightarrow> gok ())"

subsection \<open>At concrete inputs\<close>

definition desk :: GwEnv where
  "desk = \<lparr>gv_Loop = workshop, gv_Binder = True, gv_Decisions = True, gv_Withdrawals = True, gv_CanPost = True,
     gv_Title = None, gv_PutBytes = None, gv_CanRead = False, gv_Stat = (\<lambda>_. None), gv_ReadRange = (\<lambda>_ _ _. Inl ''none''),
     gv_CanonicalType = (\<lambda>t. t), gv_CheckImage = (\<lambda>_ _. None), gv_EncodePayload = mp_Text,
     gv_EncodeRef = cr_SourceMessageID, gv_DecodeRef = (\<lambda>r. Some (sample_place\<lparr>cr_SourceMessageID := r\<rparr>))\<rparr>"

end
