(* ===== verification/Ingress.thy ===== *)
theory Ingress
imports Console Media Scheduled
begin

text \<open>
  Messages from chat platforms becoming work (\<open>core/internal/gateway/ingress.go\<close>), decisions made by
  pressing a control (\<open>decide.go\<close>), messages taken back (\<open>withdraw.go\<close>), and the runtime's
  \<open>InterruptRun\<close> that taking back rests on.
\<close>

subsection \<open>Interrupting a run\<close>


text \<open>\<open>InterruptRun\<close>: a run that waits in line ends here and now; one that goes is told to.\<close>

definition rt_interrupt :: "RtEnv \<Rightarrow> Ctx \<Rightarrow> RunID \<Rightarrow> string \<Rightarrow> RunStatus rt" where
  "rt_interrupt env ctx rid reason =
     rbind (st_read (get_run ctx rid)) (\<lambda>run.
       if is_terminal (ru_Status run) then ok (ru_Status run)
       else (\<lambda>s. case gm_get (tn_active (rt_Turns s)) rid of
           None \<Rightarrow> (Inl err_run_not_found, s)
         | Some k \<Rightarrow>
             (case dequeue (ru_SessionID run) rid (rt_Turns s) of
                Some (waiting, tn) \<Rightarrow>
                  let s = s\<lparr>rt_Turns := set_tracked (qr_tracked waiting) (cancelled_for (UserInterrupted reason)) tn\<rparr>;
                      s = finish_run env ctx run RunCancelled reason '''' s
                  in (Inr RunCancelled, s\<lparr>rt_Turns := release_run rid (qr_tracked waiting) (rt_Turns s)\<rparr>)
              | None \<Rightarrow>
                  (Inr RunCancelling,
                   s\<lparr>rt_Turns := set_tracked k (cancelled_for (UserInterrupted reason)) (rt_Turns s)\<rparr>))))"

subsection \<open>Accepting a message\<close>

record Accepted =
  ac_SessionID :: SessionID
  ac_RunID :: RunID
  ac_Duplicate :: bool

definition ingress_title :: "GwEnv \<Rightarrow> InboundMessage \<Rightarrow> string" where
  "ingress_title env message =
     (case gv_Title env of
        Some f \<Rightarrow> f message
      | None \<Rightarrow>
          let text = cut_runes 60 (im_Text message)
          in if text = '''' then cr_Platform (im_Conversation message) @ '' conversation'' else text)"

definition bind_profile :: "GwEnv \<Rightarrow> Binding \<Rightarrow> SessionID \<Rightarrow> unit gw" where
  "bind_profile env binding session s =
     (if \<not> gv_Binder env then (Inr (), s)
      else let profile = (if bi_PermissionProfile binding = '''' then ''gateway'' else bi_PermissionProfile binding) in
        case rt_Permissions (gw_Rt s) of
          None \<Rightarrow> (Inr (), s)
        | Some engine \<Rightarrow>
            (case use_profile session profile engine of
               Inl (NoProfileNamed name) \<Rightarrow> (Inl (FProfile (bi_ID binding) name), s)
             | Inr engine \<Rightarrow> (Inr (), s\<lparr>gw_Rt := (gw_Rt s)\<lparr>rt_Permissions := Some engine\<rparr>\<rparr>)))"

text \<open>The notice of a console is not worth refusing the work for.\<close>

definition post_notice :: "GwEnv \<Rightarrow> Ctx \<Rightarrow> InboundMessage \<Rightarrow> Binding \<Rightarrow> SessionID \<Rightarrow> unit gw" where
  "post_notice env ctx message binding session s =
     (if bi_PermissionProfile binding = console_profile_name
      then (Inr (), snd (speak env ctx message session (console_motd binding) s)) else (Inr (), s))"

definition link_or_follow :: "GwEnv \<Rightarrow> Ctx \<Rightarrow> string \<Rightarrow> SessionID \<Rightarrow> string \<Rightarrow> SessionID gw" where
  "link_or_follow env ctx key session binding =
     gbind (on_rt (now (gv_Rt env))) (\<lambda>at s.
       case tb_change (\<lambda>known t. case link_conversation known ctx key session binding at t of Inl e \<Rightarrow> Inl e | Inr t \<Rightarrow> Inr ((), t)) s of
         (Inr _, s) \<Rightarrow> (Inr session, s)
       | (Inl e, s) \<Rightarrow>
           if e = FStore ErrAlreadyProcessed
           then (case session_for_conversation ctx key (gw_Tables s) of Inr (Some winner) \<Rightarrow> (Inr winner, s) | _ \<Rightarrow> (Inl e, s))
           else (Inl e, s))"

definition session_for :: "GwEnv \<Rightarrow> Ctx \<Rightarrow> InboundMessage \<Rightarrow> Binding \<Rightarrow> SessionID gw" where
  "session_for env ctx message binding =
     (let key = conversation_key (im_Conversation message) in
      gbind (tb_read (session_for_conversation ctx key)) (\<lambda>existing.
        case existing of
          Some session \<Rightarrow> gok session
        | None \<Rightarrow>
            gbind (on_rt (rt_create_session (gv_Rt env) ctx (ingress_title env message))) (\<lambda>created.
            gbind (bind_profile env binding (se_ID created)) (\<lambda>_.
            gbind (post_notice env ctx message binding (se_ID created)) (\<lambda>_.
            link_or_follow env ctx key (se_ID created) (bi_ID binding))))))"

definition claim_message :: "GwEnv \<Rightarrow> Ctx \<Rightarrow> InboundMessage \<Rightarrow> SessionID \<Rightarrow> bool gw" where
  "claim_message env ctx message session =
     gbind (on_rt (now (gv_Rt env))) (\<lambda>at.
       tb_change (\<lambda>_. claim_inbound ctx (im_IdempotencyKey message) (cr_AccountID (im_Conversation message)) session '''' at))"

text \<open>\<open>storeAttachments\<close>, with how many pictures were kept so far.\<close>

definition recorded_attachment :: "GwEnv \<Rightarrow> nat \<Rightarrow> InboundAttachment \<Rightarrow> Attachment \<times> bool" where
  "recorded_attachment env kept a =
     (let recorded = \<lparr>at_ArtifactID = '''', at_Name = ia_Name a, at_MediaType = gv_CanonicalType env (ia_ContentType a), at_Size = ia_Size a\<rparr>
      in if ia_Data a = '''' then (recorded, False)
         else case gv_PutBytes env of
           None \<Rightarrow> (recorded, False)
         | Some put \<Rightarrow>
             if kept \<ge> max_images_per_message then (recorded, False)
             else case gv_CheckImage env (ia_ContentType a) (ia_Data a) of
               None \<Rightarrow> (recorded, False)
             | Some mediaType \<Rightarrow>
                 (case put (ia_Data a) mediaType of
                    None \<Rightarrow> (recorded, False)
                  | Some ref \<Rightarrow> (recorded\<lparr>at_ArtifactID := rf_ID ref, at_MediaType := mediaType, at_Size := rf_Size ref\<rparr>, True)))"

fun store_attachments :: "GwEnv \<Rightarrow> nat \<Rightarrow> InboundAttachment list \<Rightarrow> Attachment list" where
  "store_attachments env kept [] = []"
| "store_attachments env kept (a # rest) =
     (case recorded_attachment env kept a of
        (recorded, stored) \<Rightarrow> recorded # store_attachments env (if stored then Suc kept else kept) rest)"

definition inbound_target :: "GwEnv \<Rightarrow> InboundMessage \<Rightarrow> DeliveryTarget" where
  "inbound_target env message =
     (let c = (im_Conversation message)\<lparr>cr_SourceMessageID := im_PlatformMessageID message\<rparr>
      in \<lparr>dt_Kind = cr_Platform c, dt_Ref = gv_EncodeRef env c\<rparr>)"

definition inbound_turn :: "GwEnv \<Rightarrow> InboundMessage \<Rightarrow> Turn" where
  "inbound_turn env message =
     \<lparr>tu_Text = im_Text message, tu_Origin = principal_origin (im_Principal message), tu_Targets = [inbound_target env message],
      tu_Attachments = store_attachments env 0 (im_Attachments message)\<rparr>"

text \<open>What a claimed message becomes: an answered command or a run.\<close>

definition take_in :: "GwEnv \<Rightarrow> Ctx \<Rightarrow> InboundMessage \<Rightarrow> Binding \<Rightarrow> SessionID \<Rightarrow> Accepted gw" where
  "take_in env ctx message binding session =
     (let command = (if bi_PermissionProfile binding = console_profile_name then parse_console_command (gv_Loop env) (im_Text message) else None)
      in gbind (claim_message env ctx message session) (\<lambda>fresh.
        if \<not> fresh then gok \<lparr>ac_SessionID = session, ac_RunID = '''', ac_Duplicate = True\<rparr>
        else case command of
          Some c \<Rightarrow> gbind (handle_console env ctx message binding session c) (\<lambda>_.
            gok \<lparr>ac_SessionID = session, ac_RunID = '''', ac_Duplicate = False\<rparr>)
        | None \<Rightarrow> gbind (on_rt (send_turn_to (gv_Rt env) ctx session (inbound_turn env message))) (\<lambda>(rid, _).
            gok \<lparr>ac_SessionID = session, ac_RunID = rid, ac_Duplicate = False\<rparr>)))"

definition accept :: "GwEnv \<Rightarrow> Ctx \<Rightarrow> InboundMessage \<Rightarrow> Accepted gw" where
  "accept env ctx message =
     (if \<not> is_explicit (im_Trigger message) then gfail (FStore ErrNotExplicit)
      else if im_IdempotencyKey message = '''' then gfail (FText ''gateway: message has no idempotency key'')
      else let c = im_Conversation message in
        gbind (tb_read (get_binding ctx (cr_Platform c) (cr_AccountID c) (cr_TenantID c) (cr_ChannelID c))) (\<lambda>binding.
          if \<not> permits binding (im_Principal message) then gfail (FStore ErrNotPermitted)
          else gbind (session_for env ctx message binding) (\<lambda>session. take_in env ctx message binding session)))"

subsection \<open>Deciding by a press\<close>

record ApprovalDecision =
  dc_Principal :: Principal
  dc_Conversation :: ConversationRef
  dc_ApprovalID :: ApprovalID
  dc_Allow :: bool

datatype DecisionOutcome = DecisionRecorded | DecisionRefused | DecisionAlready | DecisionUnavailable

definition press_decide :: "GwEnv \<Rightarrow> Ctx \<Rightarrow> ApprovalDecision \<Rightarrow> DecisionOutcome gw" where
  "press_decide env ctx d =
     (if \<not> gv_Decisions env then gok DecisionUnavailable
      else let c = dc_Conversation d in (\<lambda>s.
        case get_binding ctx (cr_Platform c) (cr_AccountID c) (cr_TenantID c) (cr_ChannelID c) (gw_Tables s) of
          Inl e \<Rightarrow> if e = ErrBindingNotFound then (Inr DecisionRefused, s) else (Inl (FStore e), s)
        | Inr binding \<Rightarrow>
            if \<not> may_approve binding (dc_Principal d) then (Inr DecisionRefused, s)
            else case on_rt (rt_decide_approval (gv_Loop env) ctx (dc_ApprovalID d) (dc_Allow d) RememberOnce
                (from_a_platform_account (cr_Platform c) (pl_ID (dc_Principal d)) (pl_DisplayName (dc_Principal d)))) s of
              (Inr _, s) \<Rightarrow> (Inr DecisionRecorded, s)
            | (Inl e, s) \<Rightarrow> if e = FRun err_approval_not_pending then (Inr DecisionAlready, s) else (Inl e, s)))"

subsection \<open>Taking a message back\<close>

record Withdrawal =
  wd_Principal :: Principal
  wd_InboundKey :: string
  wd_MessageID :: string

definition withdrawn_reason :: string where "withdrawn_reason = ''withdrawn''"

definition started_by :: "GwEnv \<Rightarrow> Run \<Rightarrow> string \<Rightarrow> bool" where
  "started_by env run messageID \<longleftrightarrow>
     (\<exists>target \<in> set (ru_DeliveryTargets run). \<exists>c \<in> set_option (conversation_from_target env target). cr_SourceMessageID c = messageID)"

definition sent_by :: "Run \<Rightarrow> Principal \<Rightarrow> bool" where
  "sent_by run p \<longleftrightarrow>
     (case or_Principal (ru_Origin run) of
        None \<Rightarrow> False
      | Some sender \<Rightarrow> pr_Platform sender = pl_Platform p \<and> pr_AccountID sender = pl_AccountID p \<and>
          pr_TenantID sender = pl_TenantID p \<and> pr_PrincipalID sender = pl_ID p)"

definition withdraw :: "GwEnv \<Rightarrow> Ctx \<Rightarrow> Withdrawal \<Rightarrow> bool gw" where
  "withdraw env ctx w =
     (if \<not> gv_Withdrawals env then gfail (FText ''gateway: withdrawing is not available'')
      else gbind (tb_read (inbound_session ctx (wd_InboundKey w))) (\<lambda>found.
        case found of
          None \<Rightarrow> gok False
        | Some session \<Rightarrow>
            gbind (on_rt (st_read (list_runs ctx session))) (\<lambda>runs.
              case find (\<lambda>run. ru_Status run = RunQueued \<and> started_by env run (wd_MessageID w)) runs of
                None \<Rightarrow> gok False
              | Some run \<Rightarrow>
                  if \<not> sent_by run (wd_Principal w) then gok False
                  else gbind (on_rt (rt_interrupt (gv_Rt env) ctx (ru_ID run) withdrawn_reason)) (\<lambda>status. gok (status = RunCancelled)))))"

subsection \<open>What an operation leaves alone\<close>

definition gkeeps :: "(Gw \<Rightarrow> 'x) \<Rightarrow> 'a gw \<Rightarrow> bool" where
  "gkeeps f m \<longleftrightarrow> (\<forall>s. f (snd (m s)) = f s)"

lemma gkeepsD: "gkeeps f m \<Longrightarrow> m s = (r, s') \<Longrightarrow> f s' = f s"
  by (metis gkeeps_def snd_conv)

lemma gkeeps_basic: "gkeeps f (gok x)" "gkeeps f (gfail e)" "gkeeps f (tb_read g)"
  by (simp_all add: gkeeps_def gw_ops split: sum.split)

lemma gkeeps_gbind: "gkeeps f m \<Longrightarrow> (\<And>x. gkeeps f (k x)) \<Longrightarrow> gkeeps f (gbind m k)"
  by (auto simp: gkeeps_def gbind_def split: sum.split prod.split) (metis snd_conv)+

text \<open>What a message can bring about: runs, decisions and answers.\<close>

definition deeds :: "Rt \<Rightarrow> (RunID, Run) gomap \<times> (ApprovalID, Approval) gomap \<times> (QuestionID, Question) gomap" where
  "deeds s = (st_runs (rt_Store s), st_approvals (rt_Store s), st_questions (rt_Store s))"

abbreviation brought_about :: "Gw \<Rightarrow> (RunID, Run) gomap \<times> (ApprovalID, Approval) gomap \<times> (QuestionID, Question) gomap" where
  "brought_about s \<equiv> deeds (gw_Rt s)"

abbreviation taken_in :: "Gw \<Rightarrow> InboundRow list \<times> Binding list" where
  "taken_in s \<equiv> (tb_Inbound (gw_Tables s), tb_Bindings (gw_Tables s))"

abbreviation links_in :: "Gw \<Rightarrow> ConversationRow list" where
  "links_in s \<equiv> tb_Conversations (gw_Tables s)"

lemma tickless_deeds [simp]: "tickless deeds"
  by (simp add: tickless_def deeds_def)

lemma gkeeps_tables: "gkeeps (\<lambda>s. f (gw_Tables s)) (on_rt m)"
  by (simp add: gkeeps_def on_rt_def split: sum.split prod.split)

lemma gkeeps_rt: "keeps f m \<Longrightarrow> gkeeps (\<lambda>s. f (gw_Rt s)) (on_rt m)" "gkeeps (\<lambda>s. f (gw_Rt s)) (tb_change g)"
  by (auto simp: gkeeps_def keeps_def on_rt_def tb_change_def split: sum.split prod.split) (metis snd_conv)+

lemma gkeeps_enqueue: "gkeeps (\<lambda>s. (tb_Inbound (gw_Tables s), tb_Bindings (gw_Tables s), tb_Conversations (gw_Tables s)))
    (tb_change (\<lambda>known. enqueue_dispatch known ctx d))"
  by (auto simp: gkeeps_def tb_change_def enqueue_dispatch_def alive_def Let_def split: sum.splits option.splits if_splits)

text \<open>Speaking only ever adds to the outbox.\<close>

definition spoken_past :: "Gw \<Rightarrow> _" where
  "spoken_past s = (deeds (gw_Rt s), tb_Inbound (gw_Tables s), tb_Bindings (gw_Tables s), tb_Conversations (gw_Tables s))"

lemma gkeeps_spoken:
  assumes "gkeeps brought_about m"
    and "gkeeps (\<lambda>s. (tb_Inbound (gw_Tables s), tb_Bindings (gw_Tables s), tb_Conversations (gw_Tables s))) m"
  shows "gkeeps spoken_past m"
  using assms by (simp add: gkeeps_def spoken_past_def)

lemma gkeeps_post: "gkeeps spoken_past (post env ctx message session payload)"
proof -
  have rt: "gkeeps spoken_past (on_rt m)" if "keeps deeds m" for m :: "'a rt"
    by (intro gkeeps_spoken gkeeps_rt gkeeps_tables that)
  have tb: "gkeeps spoken_past (tb_change (\<lambda>known. enqueue_dispatch known ctx d))" for d
    by (intro gkeeps_spoken gkeeps_rt(2) gkeeps_enqueue)
  show ?thesis unfolding post_def
    by (auto intro!: gkeeps_gbind gkeeps_basic rt tb keeps_basic)
qed

lemma spoken_pastD: "spoken_past t = spoken_past s \<Longrightarrow> brought_about t = brought_about s \<and> taken_in t = taken_in s \<and> links_in t = links_in s"
  by (simp add: spoken_past_def)

lemma speak_keeps: "speak env ctx message session text s = (r, t) \<Longrightarrow> brought_about t = brought_about s \<and> taken_in t = taken_in s \<and> links_in t = links_in s"
  unfolding speak_def by (rule spoken_pastD [OF gkeepsD [OF gkeeps_post]])

lemma keeps_deeds_session: "keeps deeds (rt_create_session env ctx title)"
  unfolding keeps_def
  by (auto simp: rt_create_session_def rt_ops create_session_def deeds_def Let_def guard_ctx_def split: option.split)

lemma bind_profile_keeps: "bind_profile env binding session s = (r, t) \<Longrightarrow> brought_about t = brought_about s \<and> gw_Tables t = gw_Tables s"
  by (auto simp: bind_profile_def Let_def deeds_def split: if_splits option.splits sum.splits UseProfileError.splits)

lemma post_notice_keeps: "post_notice env ctx message binding session s = (r, t) \<Longrightarrow>
    r = Inr () \<and> brought_about t = brought_about s \<and> taken_in t = taken_in s \<and> links_in t = links_in s"
  using speak_keeps [OF surjective_pairing] by (auto simp: post_notice_def split: if_splits)


subsection \<open>From a message to what comes of it\<close>

lemma find_append: "find P (xs @ ys) = (case find P xs of None \<Rightarrow> find P ys | Some x \<Rightarrow> Some x)"
  by (induction xs) simp_all

lemma find_at_end: "\<forall>x \<in> set xs. \<not> P x \<Longrightarrow> find P (xs @ ys) = find P ys"
  by (induction xs) simp_all

lemma link_or_follow_parts:
  assumes "link_or_follow env ctx key session binding s = (r, t)"
  shows "brought_about t = brought_about s \<and> taken_in t = taken_in s \<and>
    (links_in t = links_in s \<or> (\<exists>row. links_in t = links_in s @ [row] \<and> gc_Key row = key \<and> (\<forall>x \<in> set (links_in s). gc_Key x \<noteq> key))) \<and>
    (\<forall>sid. r = Inr sid \<longrightarrow> session_for_conversation None key (gw_Tables t) = Inr (Some sid))"
  using assms
  by (auto simp: link_or_follow_def gbind_def on_rt_def now_def tb_change_def link_conversation_def alive_def
      session_for_conversation_def deeds_def find_at_end split: if_splits option.splits)

lemma session_for_parts:
  assumes "session_for env ctx message binding s = (r, t)"
  shows "brought_about t = brought_about s \<and> taken_in t = taken_in s \<and>
    (links_in t = links_in s \<or> (\<exists>row. links_in t = links_in s @ [row] \<and> gc_Key row = conversation_key (im_Conversation message) \<and>
       (\<forall>x \<in> set (links_in s). gc_Key x \<noteq> gc_Key row))) \<and>
    (\<forall>sid. r = Inr sid \<longrightarrow> session_for_conversation None (conversation_key (im_Conversation message)) (gw_Tables t) = Inr (Some sid))"
proof -
  let ?key = "conversation_key (im_Conversation message)"
  show ?thesis
  proof (cases "session_for_conversation ctx ?key (gw_Tables s)")
    case (Inl e)
    with assms show ?thesis by (auto simp: session_for_def Let_def gbind_def tb_read_def)
  next
    case (Inr existing)
    then have ctx: "ctx = None" by (auto simp: session_for_conversation_def alive_def split: option.splits)
    show ?thesis
    proof (cases existing)
      case (Some sid)
      with Inr ctx assms show ?thesis by (auto simp: session_for_def Let_def gbind_def tb_read_def gok_def)
    next
      case None
      obtain c u where c: "on_rt (rt_create_session (gv_Rt env) ctx (ingress_title env message)) s = (c, u)" by fastforce
      have u: "brought_about u = brought_about s" "gw_Tables u = gw_Tables s"
        using gkeepsD [OF gkeeps_rt(1) [OF keeps_deeds_session] c] gkeepsD [OF gkeeps_tables [where f = "\<lambda>t. t"] c] by simp_all
      show ?thesis
      proof (cases c)
        case (Inl e)
        with c u assms Inr None show ?thesis by (auto simp: session_for_def Let_def gbind_def tb_read_def)
      next
        case (Inr created)
        obtain b v where b: "bind_profile env binding (se_ID created) u = (b, v)" by fastforce
        obtain n w where n: "post_notice env ctx message binding (se_ID created) v = (n, w)" by fastforce
        note past = bind_profile_keeps [OF b] post_notice_keeps [OF n]
        show ?thesis
        proof (cases b)
          case (Inl e)
          with c b u past assms Inr None \<open>session_for_conversation ctx ?key (gw_Tables s) = Inr existing\<close>
          show ?thesis by (auto simp: session_for_def Let_def gbind_def tb_read_def)
        next
          case (Inr x)
          with c b n past assms \<open>c = Inr created\<close> None \<open>session_for_conversation ctx ?key (gw_Tables s) = Inr existing\<close>
          have "link_or_follow env ctx ?key (se_ID created) (bi_ID binding) w = (r, t)"
            by (auto simp: session_for_def Let_def gbind_def tb_read_def)
          from link_or_follow_parts [OF this] u past show ?thesis by auto
        qed
      qed
    qed
  qed
qed

lemma claim_message_parts:
  assumes "claim_message env ctx message session s = (r, t)"
  shows "brought_about t = brought_about s \<and> links_in t = links_in s \<and> tb_Bindings (gw_Tables t) = tb_Bindings (gw_Tables s) \<and>
    (if r = Inr True then im_IdempotencyKey message \<notin> inbound_keys (gw_Tables s) \<and>
        inbound_keys (gw_Tables t) = insert (im_IdempotencyKey message) (inbound_keys (gw_Tables s))
     else tb_Inbound (gw_Tables t) = tb_Inbound (gw_Tables s))"
  using assms
  by (auto simp: claim_message_def gbind_def on_rt_def now_def tb_change_def claim_inbound_def alive_def inbound_keys_def deeds_def
      split: if_splits option.splits)


text \<open>A console command may decide and answer, but in the tables it only adds to the outbox.\<close>

abbreviation kept_tables :: "Gw \<Rightarrow> InboundRow list \<times> Binding list \<times> ConversationRow list" where
  "kept_tables s \<equiv> (tb_Inbound (gw_Tables s), tb_Bindings (gw_Tables s), tb_Conversations (gw_Tables s))"

lemma gkeeps_speak: "gkeeps kept_tables (speak env ctx message session text)" "gkeeps kept_tables (attach env ctx message session file)"
proof -
  have "gkeeps kept_tables (post env ctx message session p)" for p
    using gkeeps_post [of env ctx message session p] by (simp add: gkeeps_def spoken_past_def)
  then show "gkeeps kept_tables (speak env ctx message session text)" "gkeeps kept_tables (attach env ctx message session file)"
    by (simp_all add: speak_def attach_def)
qed

lemma gkeeps_answer: "gkeeps kept_tables (console_answer env ctx message session asked arg rest)"
proof -
  have "kept_tables (snd (case on_rt m s of (Inl (FRun err), s) \<Rightarrow> speak env ctx message session (f err) s | (Inl e, s) \<Rightarrow> (Inl e, s)
      | (Inr q, s) \<Rightarrow> speak env ctx message session (g q) s)) = kept_tables s" for m :: "Question rt" and f g s
  proof -
    obtain r t where m: "on_rt m s = (r, t)" by fastforce
    then have "kept_tables t = kept_tables s" using gkeepsD [OF gkeeps_tables] by metis
    moreover have "kept_tables (snd (speak env ctx message session x t)) = kept_tables t" for x
      using gkeeps_speak(1) by (simp add: gkeeps_def)
    ultimately show ?thesis using m by (auto split: sum.split GwFail.split)
  qed
  note spoken = this
  show ?thesis
  proof (cases "find (\<lambda>q. lv_EqualFold (gv_Loop env) (qu_ID q) arg) asked")
    case None
    then show ?thesis by (simp only: console_answer_def option.case gkeeps_speak)
  next
    case (Some q)
    show ?thesis unfolding gkeeps_def console_answer_def Some option.case by (intro allI spoken)
  qed
qed

lemma gkeeps_console: "gkeeps kept_tables (handle_console env ctx message binding session command)"
proof -
  have rt: "gkeeps kept_tables (on_rt m)" for m :: "'a rt"
    by (rule gkeeps_tables)
  note basic = gkeeps_basic gkeeps_gbind gkeeps_speak gkeeps_answer rt
  have d: "gkeeps kept_tables (console_decide env ctx message session waiting arg allow)" for waiting arg allow
    unfolding console_decide_def by (auto intro!: basic split: option.split)
  have a: "gkeeps kept_tables (send_artifact env ctx message session aid)" for aid
    unfolding send_artifact_def by (auto intro!: basic split: option.split sum.split)
  show ?thesis unfolding handle_console_def by (auto intro!: basic d a split: ConsoleCommand.split)
qed

text \<open>A message that was claimed before does nothing; one that does something was claimed by it.\<close>

definition worked :: "InboundMessage \<Rightarrow> Gw \<Rightarrow> (GwFail + Accepted) \<Rightarrow> Gw \<Rightarrow> bool" where
  "worked message s r t \<longleftrightarrow> brought_about t \<noteq> brought_about s \<or> (\<exists>a. r = Inr a \<and> \<not> ac_Duplicate a)"

definition started_for :: "GwEnv \<Rightarrow> InboundMessage \<Rightarrow> Accepted \<Rightarrow> Gw \<Rightarrow> Gw \<Rightarrow> bool" where
  "started_for env message a s t \<longleftrightarrow> gm_get (st_runs (rt_Store (gw_Rt s))) (ac_RunID a) = None \<and>
     (\<exists>at. gm_get (st_runs (rt_Store (gw_Rt t))) (ac_RunID a) = Some (turn_run (ac_RunID a) (ac_SessionID a) (inbound_turn env message) at)) \<and>
     (\<forall>x. x \<noteq> ac_RunID a \<longrightarrow> gm_get (st_runs (rt_Store (gw_Rt t))) x = gm_get (st_runs (rt_Store (gw_Rt s))) x)"

lemma claim_alive: "claim_message env ctx message session s = (Inr b, t) \<Longrightarrow> ctx = None"
  by (cases ctx) (auto simp: claim_message_def gbind_def on_rt_def now_def tb_change_def claim_inbound_def alive_def)

lemma take_in_parts:
  assumes "take_in env ctx message binding session s = (r, t)"
  shows "links_in t = links_in s \<and> tb_Bindings (gw_Tables t) = tb_Bindings (gw_Tables s) \<and>
    inbound_keys (gw_Tables s) \<subseteq> inbound_keys (gw_Tables t) \<and>
    (worked message s r t \<longrightarrow> im_IdempotencyKey message \<notin> inbound_keys (gw_Tables s) \<and> im_IdempotencyKey message \<in> inbound_keys (gw_Tables t)) \<and>
    (\<forall>a. r = Inr a \<longrightarrow> ac_SessionID a = session \<and> (ac_RunID a \<noteq> '''' \<longrightarrow> started_for env message a s t))"
proof -
  obtain c u where c: "claim_message env ctx message session s = (c, u)" by fastforce
  note cl = claim_message_parts [OF c]
  show ?thesis
  proof (cases "c = Inr True")
    case False
    then have "brought_about t = brought_about s \<and> (\<forall>a. r = Inr a \<longrightarrow> ac_Duplicate a \<and> ac_RunID a = '''' \<and> ac_SessionID a = session) \<and> gw_Tables t = gw_Tables u"
      using assms c cl by (cases c) (auto simp: take_in_def Let_def gbind_def gok_def)
    with False cl show ?thesis by (auto simp: worked_def inbound_keys_def)
  next
    case True
    then have cl: "brought_about u = brought_about s" "links_in u = links_in s" "tb_Bindings (gw_Tables u) = tb_Bindings (gw_Tables s)"
      "im_IdempotencyKey message \<notin> inbound_keys (gw_Tables s)"
      "inbound_keys (gw_Tables u) = insert (im_IdempotencyKey message) (inbound_keys (gw_Tables s))" using cl by auto
    have runs: "st_runs (rt_Store (gw_Rt u)) = st_runs (rt_Store (gw_Rt s))" using cl(1) by (simp add: deeds_def)
    have ctx: "ctx = None" using c True claim_alive by blast
    let ?command = "if bi_PermissionProfile binding = console_profile_name then parse_console_command (gv_Loop env) (im_Text message) else None"
    have "kept_tables t = kept_tables u \<and> (\<forall>a. r = Inr a \<longrightarrow> ac_SessionID a = session \<and> (ac_RunID a \<noteq> '''' \<longrightarrow> started_for env message a s t))"
    proof (cases ?command)
      case (Some command)
      obtain h v where h: "handle_console env ctx message binding session command u = (h, v)" by fastforce
      have "take_in env ctx message binding session s =
          (case h of Inl e \<Rightarrow> (Inl e, v) | Inr _ \<Rightarrow> (Inr \<lparr>ac_SessionID = session, ac_RunID = '''', ac_Duplicate = False\<rparr>, v))"
        using c True Some h by (simp add: take_in_def Let_def gbind_def gok_def split: sum.split)
      with assms gkeepsD [OF gkeeps_console h] show ?thesis by (auto split: sum.splits)
    next
      case None
      obtain h v where h: "on_rt (send_turn_to (gv_Rt env) ctx session (inbound_turn env message)) u = (h, v)" by fastforce
      have k: "kept_tables v = kept_tables u" using gkeepsD [OF gkeeps_tables h] by metis
      have "take_in env ctx message binding session s =
          (case h of Inl e \<Rightarrow> (Inl e, v) | Inr (rid, _) \<Rightarrow> (Inr \<lparr>ac_SessionID = session, ac_RunID = rid, ac_Duplicate = False\<rparr>, v))"
        using c True None h by (simp add: take_in_def Let_def gbind_def gok_def split: sum.split prod.split)
      moreover have "started_for env message \<lparr>ac_SessionID = session, ac_RunID = rid, ac_Duplicate = False\<rparr> s v" if "h = Inr (rid, mid)" for rid mid
      proof -
        have "send_turn_to (gv_Rt env) None session (inbound_turn env message) (gw_Rt u) = (Inr (rid, mid), gw_Rt v)"
          using h that ctx by (auto simp: on_rt_def split: sum.splits prod.splits)
        from send_turn_stored [OF this] runs show ?thesis by (simp add: started_for_def)
      qed
      ultimately show ?thesis using assms k by (auto split: sum.splits)
    qed
    moreover from this have "inbound_keys (gw_Tables t) = inbound_keys (gw_Tables u)" by (simp add: inbound_keys_def)
    ultimately show ?thesis using cl by auto
  qed
qed


definition let_in :: "InboundMessage \<Rightarrow> Tables \<Rightarrow> bool" where
  "let_in message t \<longleftrightarrow> is_explicit (im_Trigger message) \<and> im_IdempotencyKey message \<noteq> '''' \<and>
     (\<exists>b \<in> set (tb_Bindings t). permits b (im_Principal message) \<and>
       channel_of b = (cr_Platform (im_Conversation message), cr_AccountID (im_Conversation message),
         cr_TenantID (im_Conversation message), cr_ChannelID (im_Conversation message)))"

definition its_session :: "InboundMessage \<Rightarrow> Gw \<Rightarrow> SessionID option" where
  "its_session message s = map_option gc_Session (find (\<lambda>r. gc_Key r = conversation_key (im_Conversation message)) (links_in s))"

lemma its_session_stays:
  assumes "links_in t = links_in s \<or> (\<exists>row. links_in t = links_in s @ [row] \<and> (\<forall>x \<in> set (links_in s). gc_Key x \<noteq> gc_Key row))"
    and "its_session message s = Some sid"
  shows "its_session message t = Some sid"
  using assms by (auto simp: its_session_def find_append)

lemma get_binding_parts:
  assumes "get_binding ctx platform account tenant channel t = Inr b"
  shows "b \<in> set (tb_Bindings t) \<and> channel_of b = (platform, account, tenant, channel)"
  using assms by (auto simp: get_binding_def alive_def find_Some_iff split: option.splits)

lemma accept_parts:
  assumes "accept env ctx message s = (r, t)"
  shows "tb_Bindings (gw_Tables t) = tb_Bindings (gw_Tables s) \<and> inbound_keys (gw_Tables s) \<subseteq> inbound_keys (gw_Tables t) \<and>
    (\<forall>m sid. its_session m s = Some sid \<longrightarrow> its_session m t = Some sid) \<and>
    (worked message s r t \<longrightarrow> let_in message (gw_Tables s) \<and>
       im_IdempotencyKey message \<notin> inbound_keys (gw_Tables s) \<and> im_IdempotencyKey message \<in> inbound_keys (gw_Tables t)) \<and>
    (\<forall>a. r = Inr a \<longrightarrow> its_session message t = Some (ac_SessionID a) \<and> (ac_RunID a \<noteq> '''' \<longrightarrow> started_for env message a s t))"
proof (cases "is_explicit (im_Trigger message) \<and> im_IdempotencyKey message \<noteq> ''''")
  case False
  with assms show ?thesis by (auto simp: accept_def gfail_def worked_def split: if_splits)
next
  case asked: True
  let ?c = "im_Conversation message"
  let ?b = "get_binding ctx (cr_Platform ?c) (cr_AccountID ?c) (cr_TenantID ?c) (cr_ChannelID ?c) (gw_Tables s)"
  show ?thesis
  proof (cases "\<exists>b. ?b = Inr b \<and> permits b (im_Principal message)")
    case False
    then have "t = s \<and> (\<exists>e. r = Inl e)" using assms asked
      by (auto simp: accept_def Let_def gbind_def tb_read_def gfail_def split: sum.splits if_splits)
    then show ?thesis by (auto simp: worked_def)
  next
    case True
    then obtain b where b: "?b = Inr b" "permits b (im_Principal message)" by blast
    have leave: "let_in message (gw_Tables s)" using asked b(2) get_binding_parts [OF b(1)] by (auto simp: let_in_def)
    obtain q u where q: "session_for env ctx message b s = (q, u)" by fastforce
    note sf = session_for_parts [OF q]
    have links: "its_session m s = Some sid \<Longrightarrow> its_session m u = Some sid" for m sid
      by (rule its_session_stays [of u s]) (use sf in auto)
    have acc: "accept env ctx message s = (case q of Inl e \<Rightarrow> (Inl e, u) | Inr session \<Rightarrow> take_in env ctx message b session u)"
      using asked b q by (simp add: accept_def Let_def gbind_def tb_read_def split: sum.split)
    show ?thesis
    proof (cases q)
      case (Inl e)
      with acc assms have "t = u" "r = Inl e" by simp_all
      with sf links show ?thesis by (auto simp: worked_def inbound_keys_def)
    next
      case (Inr session)
      with acc assms have "take_in env ctx message b session u = (r, t)" by simp
      note ti = take_in_parts [OF this]
      have same: "worked message s r t \<longleftrightarrow> worked message u r t" "started_for env message a s t \<longleftrightarrow> started_for env message a u t"
        "inbound_keys (gw_Tables u) = inbound_keys (gw_Tables s)" for a
        using sf by (auto simp: worked_def started_for_def deeds_def inbound_keys_def)
      have its: "its_session m t = its_session m u" for m using ti by (simp add: its_session_def)
      have "its_session message u = Some session" using sf Inr
        by (auto simp: its_session_def session_for_conversation_def alive_def)
      with ti sf same links leave its show ?thesis by auto
    qed
  qed
qed

text \<open>C4. A chat message brings nothing about without leave. A run that starts, a decision or an answer that is recorded
  while a message is accepted means the message spoke to the agent, had a key nothing had claimed and that is
  claimed now, and came into a bound channel from somebody its binding permits, who is no bot. A run it
  started is a new one, in the session of the conversation, with the sender as its origin and the
  conversation as its target, and no other run was touched.\<close>

theorem chat_turn_needs_leave:
  assumes "accept env ctx message s = (r, t)" and "brought_about t \<noteq> brought_about s"
  shows "let_in message (gw_Tables s) \<and> \<not> pl_IsBot (im_Principal message) \<and>
    im_IdempotencyKey message \<notin> inbound_keys (gw_Tables s) \<and> im_IdempotencyKey message \<in> inbound_keys (gw_Tables t) \<and>
    (\<forall>a. r = Inr a \<and> ac_RunID a \<noteq> '''' \<longrightarrow> its_session message t = Some (ac_SessionID a) \<and> started_for env message a s t \<and>
       tu_Origin (inbound_turn env message) = principal_origin (im_Principal message) \<and>
       map dt_Kind (tu_Targets (inbound_turn env message)) = [cr_Platform (im_Conversation message)])"
  using accept_parts [OF assms(1)] assms(2)
  by (auto simp: worked_def let_in_def permits_def inbound_turn_def inbound_target_def)

text \<open>Messages one after another, each with the ingress that took it, and the keys of those that did something.\<close>

fun accept_all :: "(GwEnv \<times> Ctx \<times> InboundMessage) list \<Rightarrow> Gw \<Rightarrow> (InboundMessage \<times> bool \<times> (GwFail + Accepted)) list \<times> Gw" where
  "accept_all [] s = ([], s)"
| "accept_all ((env, ctx, message) # rest) s =
     (case accept env ctx message s of
        (r, t) \<Rightarrow> (case accept_all rest t of (rs, u) \<Rightarrow>
          ((message, worked message s r t, r) # rs, u)))"

definition handled :: "(GwEnv \<times> Ctx \<times> InboundMessage) list \<Rightarrow> Gw \<Rightarrow> string list" where
  "handled ms s = map (im_IdempotencyKey \<circ> fst) (filter (fst \<circ> snd) (fst (accept_all ms s)))"

lemma handled_Cons:
  assumes "accept env ctx message s = (r, t)"
  shows "handled ((env, ctx, message) # ms) s = (if worked message s r t then im_IdempotencyKey message # handled ms t else handled ms t)"
  using assms by (cases r) (auto simp: handled_def worked_def split: prod.split)

text \<open>C10. However often a platform delivers its messages again, and to whichever ingress, a message does its work at most
  once: among messages accepted one after another no two that started a run, recorded a decision or an answer,
  or were reported as taken in, share a key, and none has a key that had been claimed before.\<close>

theorem message_handled_once:
  "distinct (handled ms s) \<and> set (handled ms s) \<inter> inbound_keys (gw_Tables s) = {}"
proof (induction ms arbitrary: s)
  case (Cons m ms)
  obtain env ctx message where m: "m = (env, ctx, message)" by (cases m)
  obtain r t where a: "accept env ctx message s = (r, t)" by fastforce
  show ?case using Cons [of t] accept_parts [OF a] by (auto simp: m handled_Cons [OF a])
qed (simp add: handled_def)


text \<open>C26. A conversation keeps its session. When two messages of one sequence are accepted and their conversations have the same
  key, they went to the same session, whatever was accepted between and whichever of several ingresses took them;
  a conversation that had a session before goes on with it.\<close>

theorem conversation_keeps_its_session:
  assumes "accept_all ms s = (rs, t)" and "(m, w, Inr a) \<in> set rs" "(m', w', Inr a') \<in> set rs"
    and "conversation_key (im_Conversation m) = conversation_key (im_Conversation m')"
  shows "ac_SessionID a = ac_SessionID a' \<and> its_session m t = Some (ac_SessionID a) \<and>
    (\<forall>sid. its_session m s = Some sid \<longrightarrow> ac_SessionID a = sid)"
proof -
  have step: "snd (accept_all ((env, ctx, message) # ms) s) = snd (accept_all ms u)" if "accept env ctx message s = (r, u)"
    for env ctx message ms s r u using that by (simp split: prod.split)
  have stays: "its_session m s = Some sid \<Longrightarrow> its_session m (snd (accept_all ms s)) = Some sid" for m sid s ms
  proof (induction ms arbitrary: s)
    case (Cons x ms)
    obtain env ctx message where x: "x = (env, ctx, message)" by (cases x)
    obtain r u where a: "accept env ctx message s = (r, u)" by fastforce
    from accept_parts [OF a] Cons.prems have "its_session m u = Some sid" by blast
    from Cons.IH [OF this] show ?case by (simp only: x step [OF a])
  qed simp
  have went: "(m, w, Inr a) \<in> set (fst (accept_all ms s)) \<Longrightarrow> its_session m (snd (accept_all ms s)) = Some (ac_SessionID a)" for m w a s
  proof (induction ms arbitrary: s)
    case (Cons x ms)
    obtain env ctx message where x: "x = (env, ctx, message)" by (cases x)
    obtain r u where acc: "accept env ctx message s = (r, u)" by fastforce
    show ?case
    proof (cases "(m, w, Inr a) \<in> set (fst (accept_all ms u))")
      case True
      from Cons.IH [OF this] show ?thesis by (simp only: x step [OF acc])
    next
      case False
      with Cons.prems have "m = message" "r = Inr a" by (auto simp: x acc split: prod.splits)
      with accept_parts [OF acc] have "its_session m u = Some (ac_SessionID a)" by blast
      from stays [OF this] show ?thesis by (simp only: x step [OF acc])
    qed
  qed simp
  have "its_session m t = Some (ac_SessionID a)" "its_session m' t = Some (ac_SessionID a')"
    using went [of m w a s] went [of m' w' a' s] assms(1-3) by simp_all
  moreover have "its_session m' t = its_session m t" using assms(4) by (simp add: its_session_def)
  moreover have "its_session m s = Some sid \<Longrightarrow> its_session m t = Some sid" for sid using stays [of m s sid ms] assms(1) by simp
  ultimately show ?thesis by auto
qed

subsection \<open>Who may decide, and who may take back\<close>

lemma keeps_deeds: "keeps deeds (rt_append env ctx sid rid kind p)" "keeps deeds (resume ctx rid)"
proof -
  show "keeps deeds (resume ctx rid)" using keeps_resume(1) [of ctx rid] by (simp add: keeps_def deeds_def)
  show "keeps deeds (rt_append env ctx sid rid kind p)" unfolding keeps_def
  proof
    fix s :: Rt
    obtain r s' where run: "rt_append env ctx sid rid kind p s = (r, s')" by fastforce
    note f = rt_append_frame [OF run]
    show "deeds (snd (rt_append env ctx sid rid kind p s)) = deeds s"
    proof (cases "r = Inr ()")
      case True
      with f obtain e q where a: "append_event None e (rt_Store s) = Inr (rt_Store s', q)" by (auto simp: appended_def)
      show ?thesis by (simp add: run deeds_def append_event_fields(3) [OF a])
    next
      case False
      with f show ?thesis by (simp add: run deeds_def)
    qed
  qed
qed

text \<open>A decision changes the one approval it is about, which was waiting, or nothing.\<close>

lemma decide_deeds:
  assumes "rt_decide_approval env ctx aid allow scope by s = (r, t)"
  shows "deeds t = deeds s \<and> (\<exists>e. r = Inl e) \<or>
     (\<exists>a at sc. gm_get (st_approvals (rt_Store s)) aid = Some a \<and> approval_is_pending a \<and>
        deeds t = (st_runs (rt_Store s), gm_set (st_approvals (rt_Store s)) aid
          (a\<lparr>ap_Status := (if allow then ApprovalAllowed else ApprovalDenied), ap_Scope := sc, ap_DecidedBy := by, ap_DecidedAt := Some at\<rparr>),
          st_questions (rt_Store s)))"
proof -
  define sc where "sc = (if scope = RememberOther '''' then RememberOnce else scope)"
  let ?at = "rv_Now (lv_Rt env) (rt_Tick s)"
  let ?d = "decide_approval ctx aid (if allow then ApprovalAllowed else ApprovalDenied) sc by ?at (rt_Store s)"
  show ?thesis
  proof (cases ?d)
    case (Inl e)
    with assms show ?thesis
      by (auto simp: rt_decide_approval_def Let_def rbind_def now_def rtry_def st_update_def fail_def sc_def deeds_def)
  next
    case (Inr x)
    then obtain u store where d: "?d = Inr (u, store)" by (cases x) auto
    let ?s1 = "s\<lparr>rt_Tick := Suc (rt_Tick s), rt_Store := store\<rparr>"
    let ?s2 = "if allow \<and> sc = RememberSession
                then ?s1\<lparr>rt_Permissions := map_option (grant_for_session (ap_SessionID u) (ap_ToolName u)) (rt_Permissions ?s1)\<rparr>
                else ?s1"
    let ?m = "rbind (rt_append (lv_Rt env) ctx (ap_SessionID u) (ap_RunID u) EventApprovalResolved
           (PApprovalResolved \<lparr>ar_ApprovalID = ap_ID u, ar_CallID = ap_ToolCallID u, ar_ToolName = ap_ToolName u,
              ar_Status = ap_Status u, ar_Scope = ap_Scope u, ar_DecidedBy = by\<rparr>))
         (\<lambda>_. rbind (resume ctx (ap_RunID u)) (\<lambda>_. ok u))"
    have m: "?m ?s2 = (r, t)"
      using assms d by (simp add: rt_decide_approval_def Let_def rbind_def now_def rtry_def st_update_def ok_def sc_def)
    have "keeps deeds ?m" by (intro keeps_rbind keeps_deeds keeps_basic)
    then have "deeds t = deeds ?s2" using m by (rule keepsD)
    also have "\<dots> = deeds ?s1" by (simp add: deeds_def)
    finally have t: "deeds t = (st_runs store, st_approvals store, st_questions store)" by (simp add: deeds_def)
    obtain a where a: "gm_get (st_approvals (rt_Store s)) aid = Some a" "approval_is_pending a"
      and store: "store = rt_Store s\<lparr>st_approvals := gm_set (st_approvals (rt_Store s)) aid
        (a\<lparr>ap_Status := (if allow then ApprovalAllowed else ApprovalDenied), ap_Scope := sc, ap_DecidedBy := by, ap_DecidedAt := Some ?at\<rparr>)\<rparr>"
      using d by (cases ctx) (auto simp: decide_approval_def Let_def split: option.splits if_splits)
    show ?thesis by (rule disjI2, intro exI conjI, rule a(1), rule a(2)) (simp add: t store)
  qed
qed


definition named_approver :: "ApprovalDecision \<Rightarrow> Tables \<Rightarrow> bool" where
  "named_approver d t \<longleftrightarrow> (\<exists>b \<in> set (tb_Bindings t). may_approve b (dc_Principal d) \<and>
     channel_of b = (cr_Platform (dc_Conversation d), cr_AccountID (dc_Conversation d),
       cr_TenantID (dc_Conversation d), cr_ChannelID (dc_Conversation d)))"

text \<open>One waiting approval, the one pressed, decided as pressed by the account that pressed, and nothing else.\<close>

definition decided_by_press :: "ApprovalDecision \<Rightarrow> Gw \<Rightarrow> Gw \<Rightarrow> bool" where
  "decided_by_press d s t \<longleftrightarrow> (\<exists>a at sc. gm_get (st_approvals (rt_Store (gw_Rt s))) (dc_ApprovalID d) = Some a \<and> approval_is_pending a \<and>
     brought_about t = (st_runs (rt_Store (gw_Rt s)), gm_set (st_approvals (rt_Store (gw_Rt s))) (dc_ApprovalID d)
       (a\<lparr>ap_Status := (if dc_Allow d then ApprovalAllowed else ApprovalDenied), ap_Scope := sc,
          ap_DecidedBy := from_a_platform_account (cr_Platform (dc_Conversation d)) (pl_ID (dc_Principal d)) (pl_DisplayName (dc_Principal d)),
          ap_DecidedAt := Some at\<rparr>), st_questions (rt_Store (gw_Rt s))))"

text \<open>C17. Only a named approver decides by pressing. Somebody whom no binding of the channel names as an approver, and any bot,
  changes nothing at all. A press that is recorded, or that brings anything about, came from a named approver
  and decided the one approval pressed, which was waiting, in the name of the platform account that pressed.\<close>

theorem press_needs_a_named_approver:
  assumes "press_decide env ctx d s = (r, t)"
  shows "(\<not> named_approver d (gw_Tables s) \<or> pl_IsBot (dc_Principal d) \<longrightarrow> t = s \<and> r \<noteq> Inr DecisionRecorded) \<and>
    (r = Inr DecisionRecorded \<or> brought_about t \<noteq> brought_about s \<longrightarrow> named_approver d (gw_Tables s) \<and> decided_by_press d s t)"
proof (cases "\<exists>b. gv_Decisions env \<and> get_binding ctx (cr_Platform (dc_Conversation d)) (cr_AccountID (dc_Conversation d))
    (cr_TenantID (dc_Conversation d)) (cr_ChannelID (dc_Conversation d)) (gw_Tables s) = Inr b \<and> may_approve b (dc_Principal d)")
  case False
  with assms have "t = s \<and> r \<noteq> Inr DecisionRecorded"
    by (auto simp: press_decide_def Let_def gok_def split: if_splits sum.splits)
  then show ?thesis by simp
next
  case True
  then obtain b where b: "gv_Decisions env" "get_binding ctx (cr_Platform (dc_Conversation d)) (cr_AccountID (dc_Conversation d))
    (cr_TenantID (dc_Conversation d)) (cr_ChannelID (dc_Conversation d)) (gw_Tables s) = Inr b" "may_approve b (dc_Principal d)" by blast
  have named: "named_approver d (gw_Tables s)" "\<not> pl_IsBot (dc_Principal d)"
    using get_binding_parts [OF b(2)] b(3) by (auto simp: named_approver_def may_approve_def)
  let ?m = "rt_decide_approval (gv_Loop env) ctx (dc_ApprovalID d) (dc_Allow d) RememberOnce
    (from_a_platform_account (cr_Platform (dc_Conversation d)) (pl_ID (dc_Principal d)) (pl_DisplayName (dc_Principal d)))"
  obtain q u where m: "?m (gw_Rt s) = (q, u)" by fastforce
  have t: "gw_Rt t = u" "r = Inr DecisionRecorded \<Longrightarrow> \<exists>a. q = Inr a"
    using assms b m by (auto simp: press_decide_def Let_def on_rt_def split: sum.splits if_splits)
  have "brought_about t = brought_about s \<and> (\<exists>e. q = Inl e) \<or> decided_by_press d s t"
    unfolding decided_by_press_def t(1) by (rule decide_deeds [OF m])
  with t(2) named show ?thesis by auto
qed

subsection \<open>Taking back\<close>

lemma dequeued_run_ends:
  assumes "gm_get (st_runs (rt_Store s)) (ru_ID run) = Some stored" and "gm_get (st_sessions (rt_Store s)) (ru_SessionID run) \<noteq> None"
  shows "\<exists>finished. gm_get (st_runs (rt_Store (finish_run env None run RunCancelled reason kind s))) (ru_ID run) =
        Some (stored\<lparr>ru_Status := RunCancelled, ru_FinishedAt := finished\<rparr>) \<and> finished \<noteq> None \<and>
     (\<forall>other. other \<noteq> ru_ID run \<longrightarrow> gm_get (st_runs (rt_Store (finish_run env None run RunCancelled reason kind s))) other =
        gm_get (st_runs (rt_Store s)) other)"
proof -
  obtain r t where t: "transition env None run RunCancelled reason kind s = (r, t)" by fastforce
  note told = transition_told [OF assms t]
  have "rt_Store (finish_run env None run RunCancelled reason kind s) = rt_Store t"
    using t told by (simp add: finish_run_def tell_after_run_def split: option.split)
  with told show ?thesis by auto
qed

definition ended_as_withdrawn :: "Run \<Rightarrow> Gw \<Rightarrow> Gw \<Rightarrow> bool" where
  "ended_as_withdrawn run s t \<longleftrightarrow>
     (\<exists>finished. gm_get (st_runs (rt_Store (gw_Rt t))) (ru_ID run) = Some (run\<lparr>ru_Status := RunCancelled, ru_FinishedAt := finished\<rparr>) \<and> finished \<noteq> None) \<and>
     (\<forall>other. other \<noteq> ru_ID run \<longrightarrow> gm_get (st_runs (rt_Store (gw_Rt t))) other = gm_get (st_runs (rt_Store (gw_Rt s))) other)"

lemma interrupt_queued:
  assumes "on_rt (rt_interrupt env ctx (ru_ID run) reason) s = (r, t)" and "runs_housed (rt_Store (gw_Rt s))"
    and "gm_get (st_runs (rt_Store (gw_Rt s))) (ru_ID run) = Some run" and "ru_Status run = RunQueued"
  shows "gw_Tables t = gw_Tables s \<and> (if r = Inr RunCancelled then ended_as_withdrawn run s t else brought_about t = brought_about s)"
proof (cases "ctx = None \<and> gm_get (tn_active (rt_Turns (gw_Rt s))) (ru_ID run) \<noteq> None \<and>
    dequeue (ru_SessionID run) (ru_ID run) (rt_Turns (gw_Rt s)) \<noteq> None")
  case False
  with assms(1,3,4) show ?thesis
    by (cases ctx) (auto simp: rt_interrupt_def on_rt_def rbind_def st_read_def get_run_def guard_ctx_def deeds_def split: option.splits)
next
  case True
  then obtain k waiting tn where q: "ctx = None" "gm_get (tn_active (rt_Turns (gw_Rt s))) (ru_ID run) = Some k"
    "dequeue (ru_SessionID run) (ru_ID run) (rt_Turns (gw_Rt s)) = Some (waiting, tn)" by auto
  define u where "u = (gw_Rt s)\<lparr>rt_Turns := set_tracked (qr_tracked waiting) (cancelled_for (UserInterrupted reason)) tn\<rparr>"
  have "r = Inr RunCancelled" "gw_Tables t = gw_Tables s" "rt_Store (gw_Rt t) = rt_Store (finish_run env None run RunCancelled reason '''' u)"
    using assms(1,3,4) q by (auto simp: rt_interrupt_def on_rt_def rbind_def st_read_def get_run_def guard_ctx_def Let_def u_def)
  moreover have store: "rt_Store u = rt_Store (gw_Rt s)" by (simp add: u_def)
  moreover have "gm_get (st_runs (rt_Store u)) (ru_ID run) = Some run" "gm_get (st_sessions (rt_Store u)) (ru_SessionID run) \<noteq> None"
    using assms(2,3) by (simp_all add: u_def runs_housed_def)
  ultimately show ?thesis
    using dequeued_run_ends [of u run run env reason "''''"] store by (auto simp: ended_as_withdrawn_def)
qed

text \<open>C22. Only the sender takes a message back, and only while it waits. When a withdrawal changes any run, or says it took the
  message back, then the message had been claimed, its session holds a run that was waiting in line, that the
  message started and that its sender, by platform, account, tenant and id, is the one who asks; that run is
  cancelled, with the time it ended, and no other run is touched.\<close>

theorem only_the_sender_withdraws:
  assumes "withdraw env ctx w s = (r, t)" and "runs_housed (rt_Store (gw_Rt s))"
    and "r = Inr True \<or> brought_about t \<noteq> brought_about s"
  shows "\<exists>session run. inbound_session None (wd_InboundKey w) (gw_Tables s) = Inr (Some session) \<and>
    gm_get (st_runs (rt_Store (gw_Rt s))) (ru_ID run) = Some run \<and> ru_SessionID run = session \<and> ru_Status run = RunQueued \<and>
    started_by env run (wd_MessageID w) \<and> sent_by run (wd_Principal w) \<and> r = Inr True \<and> ended_as_withdrawn run s t"
proof -
  obtain session where i: "inbound_session ctx (wd_InboundKey w) (gw_Tables s) = Inr (Some session)"
    using assms(1,3) by (auto simp: withdraw_def gbind_def tb_read_def gok_def gfail_def split: if_splits sum.splits option.splits)
  then have ctx: "ctx = None" by (auto simp: inbound_session_def alive_def split: option.splits)
  let ?runs = "sort_slice run_less (filter (\<lambda>run. ru_SessionID run = session) (gm_vals (st_runs (rt_Store (gw_Rt s)))))"
  let ?f = "find (\<lambda>run. ru_Status run = RunQueued \<and> started_by env run (wd_MessageID w)) ?runs"
  have runs: "on_rt (st_read (list_runs ctx session)) s = (Inr ?runs, s)"
    by (simp add: on_rt_def st_read_def list_runs_def filter_runs_def guard_ctx_def ctx)
  have go: "withdraw env ctx w s = (case ?f of None \<Rightarrow> (Inr False, s)
    | Some run \<Rightarrow> if \<not> sent_by run (wd_Principal w) then (Inr False, s)
        else gbind (on_rt (rt_interrupt (gv_Rt env) ctx (ru_ID run) withdrawn_reason)) (\<lambda>status. gok (status = RunCancelled)) s)"
    if "gv_Withdrawals env" using that i runs
    by (simp add: withdraw_def gbind_def tb_read_def gok_def split: option.split)
  have on: "gv_Withdrawals env" using assms(1,3) by (auto simp: withdraw_def gfail_def split: if_splits)
  obtain run where f: "?f = Some run" and sent: "sent_by run (wd_Principal w)"
    using assms(1,3) go [OF on] by (auto split: option.splits if_splits)
  have run: "ru_Status run = RunQueued" "started_by env run (wd_MessageID w)" "run \<in> set ?runs"
    using find_SomeD [OF f] by simp_all
  then have stored: "gm_get (st_runs (rt_Store (gw_Rt s))) (ru_ID run) = Some run" "ru_SessionID run = session"
    using assms(2) by (auto simp: runs_housed_def runs_wf_def gm_keyed_vals)
  obtain q u where q: "on_rt (rt_interrupt (gv_Rt env) ctx (ru_ID run) withdrawn_reason) s = (q, u)" by fastforce
  have r: "(r, t) = (case q of Inl e \<Rightarrow> (Inl e, u) | Inr status \<Rightarrow> (Inr (status = RunCancelled), u))"
    using assms(1) go [OF on] f sent q by (simp add: gbind_def gok_def split: sum.splits)
  from interrupt_queued [OF q assms(2) stored(1) run(1)] r assms(3)
  have "q = Inr RunCancelled" "t = u" "r = Inr True" by (auto split: sum.splits if_splits)
  with interrupt_queued [OF q assms(2) stored(1) run(1)] have "ended_as_withdrawn run s t" by simp
  with i ctx stored run sent \<open>r = Inr True\<close> show ?thesis by blast
qed


subsection \<open>At concrete inputs\<close>

definition alice :: Principal where
  "alice = \<lparr>pl_Platform = ''discord'', pl_AccountID = ''bot'', pl_TenantID = ''guild'', pl_ID = ''alice'',
     pl_DisplayName = ''Alice'', pl_IsBot = False, pl_Claims = []\<rparr>"

definition from_alice :: InboundMessage where
  "from_alice = \<lparr>im_PlatformMessageID = ''m1'', im_IdempotencyKey = ''k1'', im_Principal = alice, im_Conversation = sample_place,
     im_Text = ''hello'', im_Attachments = [], im_Trigger = TriggerMention, im_OccurredAt = 1\<rparr>"

definition room :: Binding where
  "room = \<lparr>bi_ID = ''b1'', bi_Platform = ''discord'', bi_AccountID = ''bot'', bi_TenantID = ''guild'', bi_ChannelID = ''general'',
     bi_WorkspaceID = ''w'', bi_PermissionProfile = '''', bi_AllowedPrincipals = [''alice''], bi_AllowedClaims = [],
     bi_ApprovingPrincipals = [''alice''], bi_ApprovingClaims = [], bi_CreatedAt = 1\<rparr>"

definition opened :: Gw where
  "opened = \<lparr>gw_Rt = (new_rt new_store)\<lparr>rt_Permissions := Some (new_engine local_profile)\<rparr>, gw_Tables = new_tables\<lparr>tb_Bindings := [room]\<rparr>\<rparr>"

definition greeted :: "(GwFail + Accepted) \<times> Gw" where
  "greeted = accept desk None from_alice opened"

definition second :: InboundMessage where
  "second = from_alice\<lparr>im_PlatformMessageID := ''m2'', im_IdempotencyKey := ''k2''\<rparr>"

definition waiting_second :: Gw where
  "waiting_second = snd (accept desk None second (snd greeted))"

lemma greeted_is: "fst greeted = Inr \<lparr>ac_SessionID = ''1'', ac_RunID = ''4'', ac_Duplicate = False\<rparr>" "im_IdempotencyKey from_alice = ''k1''"
  "pl_ID (im_Principal from_alice) = ''alice''" "length (st_runs (rt_Store (gw_Rt (snd greeted)))) = 1"
  by code_simp+

lemma opened_is: "brought_about opened = ([], [], [])" "im_Principal from_alice = alice" "runs_housed (rt_Store (gw_Rt opened))"
  by (simp_all add: opened_def deeds_def new_rt_def new_store_def from_alice_def runs_housed_def runs_wf_def gm_keyed_def gm_wf_def gm_get_def)

lemma second_is: "\<not> (\<exists>e. fst (accept desk None second (snd greeted)) = Inl e)"
proof -
  have "case fst (accept desk None second (snd greeted)) of Inl _ \<Rightarrow> False | Inr _ \<Rightarrow> True" by code_simp
  then show ?thesis by (auto split: sum.splits)
qed

theorem chat_turn_needs_leave_witness:
  "\<exists>t. accept desk None from_alice opened = (Inr \<lparr>ac_SessionID = ''1'', ac_RunID = ''4'', ac_Duplicate = False\<rparr>, t) \<and>
     ''k1'' \<in> inbound_keys (gw_Tables t) \<and> its_session from_alice t = Some ''1'' \<and>
     (\<exists>run. gm_get (st_runs (rt_Store (gw_Rt t))) ''4'' = Some run \<and> ru_Origin run = principal_origin alice)"
proof -
  have a: "accept desk None from_alice opened = (Inr \<lparr>ac_SessionID = ''1'', ac_RunID = ''4'', ac_Duplicate = False\<rparr>, snd greeted)"
    using greeted_is(1) by (simp add: greeted_def prod_eq_iff)
  have "brought_about (snd greeted) \<noteq> brought_about opened" using greeted_is(4) opened_is(1) by (auto simp: deeds_def)
  from chat_turn_needs_leave [OF a this] greeted_is opened_is show ?thesis using a
    by (auto simp: started_for_def turn_run_def)
qed

theorem conversation_keeps_its_session_witness:
  "\<exists>a. fst (accept desk None second (snd greeted)) = Inr a \<and> ac_SessionID a = ''1'' \<and> its_session from_alice waiting_second = Some ''1''"
proof -
  obtain a where a: "fst (accept desk None second (snd greeted)) = Inr a"
    using second_is by (meson sum.exhaust)
  let ?first = "Inr \<lparr>ac_SessionID = ''1'', ac_RunID = ''4'', ac_Duplicate = False\<rparr>"
  have acc: "accept desk None from_alice opened = (?first, snd greeted)" "accept desk None second (snd greeted) = (Inr a, waiting_second)"
    by (rule prod_eqI; use greeted_is(1) a in \<open>simp add: greeted_def waiting_second_def\<close>)+
  define w w' where "w = worked from_alice opened ?first (snd greeted)" and "w' = worked second (snd greeted) (Inr a) waiting_second"
  have all: "accept_all [(desk, None, from_alice), (desk, None, second)] opened = ([(from_alice, w, ?first), (second, w', Inr a)], waiting_second)"
    by (simp only: accept_all.simps acc prod.case w_def w'_def)
  have k: "conversation_key (im_Conversation from_alice) = conversation_key (im_Conversation second)" by (simp add: second_def)
  from conversation_keeps_its_session [OF all list.set_intros(1) _ k, of w' a]
  have "ac_SessionID a = ''1'' \<and> its_session from_alice waiting_second = Some ''1''" by simp
  with a show ?thesis by blast
qed

lemma housed_check:
  assumes "distinct (map fst (st_runs t)) \<and>
    list_all (\<lambda>(k, run). ru_ID run = k \<and> gm_get (st_sessions t) (ru_SessionID run) \<noteq> None) (st_runs t)"
  shows "runs_housed t"
  using assms by (auto simp: runs_housed_def runs_wf_def gm_keyed_def gm_wf_def list_all_iff dest: gm_get_mem)

theorem only_the_sender_withdraws_witness:
  "\<exists>t run. withdraw desk None \<lparr>wd_Principal = alice, wd_InboundKey = ''k2'', wd_MessageID = ''m2''\<rparr> waiting_second = (Inr True, t) \<and>
     ru_Status run = RunQueued \<and> ended_as_withdrawn run waiting_second t"
proof -
  let ?w = "withdraw desk None \<lparr>wd_Principal = alice, wd_InboundKey = ''k2'', wd_MessageID = ''m2''\<rparr> waiting_second"
  have w: "fst ?w = Inr True" by code_simp
  then have "?w = (Inr True, snd ?w)" by (simp add: prod_eq_iff)
  moreover have "runs_housed (rt_Store (gw_Rt waiting_second))" by (rule housed_check) code_simp
  ultimately show ?thesis using only_the_sender_withdraws [of desk None _ waiting_second "Inr True"] by blast
qed

definition asked :: Gw where
  "asked = (snd greeted)\<lparr>gw_Rt := (gw_Rt (snd greeted))\<lparr>rt_Store := (rt_Store (gw_Rt (snd greeted)))
     \<lparr>st_approvals := [(''a1'', sample_approval\<lparr>ap_SessionID := ''1'', ap_RunID := ''4''\<rparr>)]\<rparr>\<rparr>\<rparr>"

theorem press_needs_a_named_approver_witness:
  "\<exists>t. press_decide desk None \<lparr>dc_Principal = alice, dc_Conversation = sample_place, dc_ApprovalID = ''a1'', dc_Allow = True\<rparr> asked =
     (Inr DecisionRecorded, t) \<and>
     decided_by_press \<lparr>dc_Principal = alice, dc_Conversation = sample_place, dc_ApprovalID = ''a1'', dc_Allow = True\<rparr> asked t"
proof -
  let ?d = "press_decide desk None \<lparr>dc_Principal = alice, dc_Conversation = sample_place, dc_ApprovalID = ''a1'', dc_Allow = True\<rparr> asked"
  have "fst ?d = Inr DecisionRecorded" by code_simp
  then have d: "?d = (Inr DecisionRecorded, snd ?d)" by (simp add: prod_eq_iff)
  with press_needs_a_named_approver [OF d] show ?thesis by blast
qed

text \<open>The claim of a message is not given back when its turn could not be sent. \<open>Accept\<close> claims the key before it sends the turn
  and leaves it claimed when the sending fails, here because the daemon is shutting down; once the daemon is
  back the platform's redelivery is answered as a duplicate, whose reply, the comment on \<open>Duplicate\<close> says, is
  already on its way, and no run was ever started for it.\<close>

definition closing :: Gw where
  "closing = (snd greeted)\<lparr>gw_Rt := (gw_Rt (snd greeted))\<lparr>rt_Turns := (rt_Turns (gw_Rt (snd greeted)))\<lparr>tn_draining := True\<rparr>\<rparr>\<rparr>"

definition back_again :: "Gw \<Rightarrow> Gw" where
  "back_again s = s\<lparr>gw_Rt := (gw_Rt s)\<lparr>rt_Turns := rt_Turns (new_rt new_store), rt_Permissions := Some (new_engine local_profile)\<rparr>\<rparr>"

theorem failed_message_is_a_duplicate_later:
  "fst (accept desk None second closing) = Inl (FRun err_shutting_down) \<and>
   (let r = accept desk None second (back_again (snd (accept desk None second closing)))
    in fst r = Inr \<lparr>ac_SessionID = ''1'', ac_RunID = '''', ac_Duplicate = True\<rparr> \<and> length (st_runs (rt_Store (gw_Rt (snd r)))) = 1)"
  by code_simp

text \<open>A restart forgets what a chat may do. \<open>sessionFor\<close> binds the profile of a conversation when it makes the session and not when it
  finds one, and the engine keeps the bindings in memory: the first message is judged by \<open>gateway\<close>, and the
  next one after a restart, in the same session, by the daemon's own profile.\<close>

theorem restart_forgets_the_profile:
  "let before = snd greeted; after = snd (accept desk None second (back_again before))
   in map_option (\<lambda>engine. pf_Name (profile_for ''1'' engine)) (rt_Permissions (gw_Rt before)) = Some ''gateway'' \<and>
      map_option (\<lambda>engine. pf_Name (profile_for ''1'' engine)) (rt_Permissions (gw_Rt after)) = Some ''local'' \<and>
      length (st_runs (rt_Store (gw_Rt after))) = 2"
  by code_simp

text \<open>A press reaches approvals of other rooms. \<open>Decide\<close> asks whether the room pressed in names the person, and never whether the
  approval was raised there: an approver of this room decides an approval of a session no conversation of this
  room is linked to, which typing the same id into a console refuses.\<close>

definition asked_elsewhere :: Gw where
  "asked_elsewhere = (snd greeted)\<lparr>gw_Rt := (gw_Rt (snd greeted))\<lparr>rt_Store := (rt_Store (gw_Rt (snd greeted)))
     \<lparr>st_sessions := gm_set (st_sessions (rt_Store (gw_Rt (snd greeted)))) ''private'' (sample_session ''private'' 1),
      st_approvals := [(''a1'', sample_approval\<lparr>ap_SessionID := ''private''\<rparr>)]\<rparr>\<rparr>\<rparr>"

theorem press_decides_elsewhere:
  "''private'' \<notin> set (map gc_Session (links_in asked_elsewhere)) \<and>
   map_option ap_Status (gm_get (st_approvals (rt_Store (gw_Rt (snd (press_decide desk None
     \<lparr>dc_Principal = alice, dc_Conversation = sample_place, dc_ApprovalID = ''a1'', dc_Allow = True\<rparr> asked_elsewhere))))) ''a1'') = Some ApprovalAllowed \<and>
   map_option ap_Status (gm_get (st_approvals (rt_Store (gw_Rt (snd (handle_console desk None from_alice room ''1'' (CmdApprove ''a1'') asked_elsewhere))))) ''a1'') = Some ApprovalPending"
  by code_simp

end
