(* ===== verification/ConsoleLine.thy ===== *)
theory ConsoleLine
imports LogReadings Utf8
begin

text \<open>
  An event as a line of a console (\<open>core/internal/console/line.go\<close>): what the terminal prints and what
  console channels mirror. The width of a text on a terminal and cutting at a width are the library's
  and parameters, as is the format of a clock time.
\<close>

record Line =
  ln_At :: instant
  ln_Session :: SessionID
  ln_Kind :: string
  ln_State :: string
  ln_Meta :: string
  ln_Preview :: string

record LineEnv =
  le_Clock :: "instant \<Rightarrow> string"
  le_Width :: "string \<Rightarrow> nat"
  le_Truncate :: "string \<Rightarrow> nat \<Rightarrow> string"

definition session_digits :: nat where "session_digits = 8"
definition artifact_digits :: nat where "artifact_digits = 12"
definition field_gap :: string where "field_gap = ''  ''"
definition preview_width :: nat where "preview_width = 72"

definition arrow :: string where "arrow = [char_of (0xE2 :: nat), char_of (0x86 :: nat), char_of (0x92 :: nat)]"
definition check_mark :: string where "check_mark = [char_of (0xE2 :: nat), char_of (0x9C :: nat), char_of (0x93 :: nat)]"
definition cross_mark :: string where "cross_mark = [char_of (0xE2 :: nat), char_of (0x9C :: nat), char_of (0x97 :: nat)]"
definition middle_dot :: string where "middle_dot = [char_of (0xC2 :: nat), char_of (0xB7 :: nat)]"

subsection \<open>Fields\<close>

definition short_session :: "SessionID \<Rightarrow> string" where
  "short_session sid = ''#'' @ (if length sid > session_digits then take session_digits sid else sid)"

text \<open>\<open>strings.IndexByte(text, '-')\<close> and what follows it, when anything does.\<close>

definition short_artifact :: "string \<Rightarrow> string" where
  "short_artifact aid =
     (let text = (case cut_at (CHR ''-'') aid of Some (_, after) \<Rightarrow> if after \<noteq> '''' then after else aid | None \<Rightarrow> aid)
      in if length text > artifact_digits then take artifact_digits text else text)"

definition breaks_line :: "char \<Rightarrow> bool" where
  "breaks_line c \<longleftrightarrow> c = CHR 0x0A \<or> c = CHR 0x0D \<or> c = CHR 0x09"

fun fields_func :: "(char \<Rightarrow> bool) \<Rightarrow> string \<Rightarrow> string \<Rightarrow> string list" where
  "fields_func f acc [] = (if acc = '''' then [] else [acc])"
| "fields_func f acc (c # s) =
     (if f c then (if acc = '''' then fields_func f '''' s else acc # fields_func f '''' s) else fields_func f (acc @ [c]) s)"

definition collapse :: "string \<Rightarrow> string" where
  "collapse text = trim_space (str_join '' '' (fields_func breaks_line '''' text))"

definition clip :: "LineEnv \<Rightarrow> string \<Rightarrow> nat \<Rightarrow> string" where
  "clip env text cells =
     (let text = collapse text in if le_Width env text \<le> cells then text else le_Truncate env text cells)"

definition line_text :: "LineEnv \<Rightarrow> Line \<Rightarrow> string" where
  "line_text env l =
     le_Clock env (ln_At l) @ field_gap @ short_session (ln_Session l) @ field_gap @ ln_Kind l @
     (if ln_State l \<noteq> '''' then '' '' @ ln_State l else '''') @
     (if ln_Meta l \<noteq> '''' then field_gap @ ln_Meta l else '''') @
     (if ln_Preview l \<noteq> '''' then field_gap @ clip env (ln_Preview l) preview_width else '''')"

subsection \<open>From an event to a line\<close>

fun stop_reason_text :: "StopReason \<Rightarrow> string" where
  "stop_reason_text StopEndTurn = ''end_turn''"
| "stop_reason_text StopMaxTokens = ''max_tokens''"
| "stop_reason_text StopContentFilter = ''content_filter''"
| "stop_reason_text StopCancelled = ''cancelled''"
| "stop_reason_text StopError = ''error''"
| "stop_reason_text StopUnknown = ''unknown''"
| "stop_reason_text StopToolUse = ''tool_use''"
| "stop_reason_text (StopOther s) = s"

fun approval_status_text :: "ApprovalStatus \<Rightarrow> string" where
  "approval_status_text ApprovalPending = ''pending''"
| "approval_status_text ApprovalAllowed = ''allowed''"
| "approval_status_text ApprovalDenied = ''denied''"
| "approval_status_text (ApprovalStatusOther s) = s"

fun question_status_text :: "QuestionStatus \<Rightarrow> string" where
  "question_status_text AnswerPending = ''pending''"
| "question_status_text AnswerGiven = ''answered''"
| "question_status_text AnswerAbandoned = ''cancelled''"
| "question_status_text (QuestionStatusOther s) = s"

definition approval_meta :: "ApprovalRequested \<Rightarrow> string" where
  "approval_meta p = str_join '' '' (aq_ToolName p # (if aq_Effects p \<noteq> [] then [str_join '','' (aq_Effects p)] else []))"

definition origin_text :: "RunOrigin \<Rightarrow> string" where
  "origin_text from1 =
     (if origin_kind_text (or_Kind from1) = '''' then ''''
      else case or_Principal from1 of
        None \<Rightarrow> origin_kind_text (or_Kind from1)
      | Some p \<Rightarrow> if pr_DisplayName p = '''' then origin_kind_text (or_Kind from1)
                  else origin_kind_text (or_Kind from1) @ '':'' @ pr_DisplayName p)"

definition plan_progress :: "PlanItem list \<Rightarrow> string" where
  "plan_progress items =
     (if items = [] then ''''
      else itoa (int (length (filter (\<lambda>i. pi_Status i = PlanCompleted) items))) @ ''/'' @ itoa (int (length items)))"

definition current_step :: "PlanItem list \<Rightarrow> string" where
  "current_step items =
     (case find (\<lambda>i. pi_Status i = PlanInProgress) items of
        Some item \<Rightarrow> pi_Title item
      | None \<Rightarrow> (case find (\<lambda>i. pi_Status i \<noteq> PlanCompleted \<and> pi_Status i \<noteq> PlanAbandoned) items of
          Some item \<Rightarrow> pi_Title item
        | None \<Rightarrow> ''''))"

fun first_of :: "string list \<Rightarrow> string" where
  "first_of [] = ''''"
| "first_of (v # vs) = (if trim_space v \<noteq> '''' then v else first_of vs)"

fun described :: "EventPayload \<Rightarrow> (string \<times> string \<times> string \<times> string) option" where
  "described (PUserMessageAdded p) = Some (''MESSAGE'', '''', origin_text (um_Origin p), um_Text p)"
| "described (PRunStateChanged p) = Some (''RUN'', status_text (rs_Status p), rs_FailureKind p, rs_Reason p)"
| "described (PAssistantMessageCompleted p) = Some (''ANSWER'', stop_reason_text (mc_StopReason p), '''', '''')"
| "described (PToolCallRequested p) = Some (''TOOL'', arrow, tq_Name p, tq_Arguments p)"
| "described (PToolCallCompleted p) =
     Some (''TOOL'', if tc_IsError p then cross_mark else check_mark,
       tc_Name p @ (case tc_Artifact p of None \<Rightarrow> '''' | Some a \<Rightarrow> '' '' @ middle_dot @ '' output '' @ short_artifact (af_ID a)),
       first_of [tc_Summary p, tc_Content p])"
| "described (PApprovalRequested p) = Some (''APPROVAL'', ''pending'', approval_meta p, aq_Arguments p)"
| "described (PApprovalResolved p) = Some (''APPROVAL'', approval_status_text (ar_Status p), ar_ApprovalID p, describe_origin (ar_DecidedBy p))"
| "described (PQuestionAsked p) = Some (''QUESTION'', ''waiting'', qa_QuestionID p, qa_Prompt p)"
| "described (PQuestionAnswered p) = Some (''QUESTION'', question_status_text (qd_Status p), describe_origin (qd_AnsweredBy p), qd_Answer p)"
| "described (PPlanChanged p) = Some (''PLAN'', '''', plan_progress (pc_Items p), current_step (pc_Items p))"
| "described (PSkillActivated p) = Some (''SKILL'', '''', sk_Name p, sk_Digest p)"
| "described (PMemoriesNoted p) = Some (''NOTED'', '''', itoa (int (length (mn_Notes p))), str_join ('' '' @ middle_dot @ '' '') (mn_Notes p))"
| "described (PConversationCompacted p) = Some (''COMPACTED'', '''', '''', cc_Summary p)"
| "described _ = None"

definition describe_event :: "Event \<Rightarrow> Line option" where
  "describe_event event =
     map_option (\<lambda>(kind, state, meta, preview).
       \<lparr>ln_At = ev_OccurredAt event, ln_Session = ev_SessionID event, ln_Kind = kind, ln_State = state, ln_Meta = meta, ln_Preview = preview\<rparr>)
       (described (ev_Payload event))"

subsection \<open>A line is one line\<close>

lemma fields_func_clean:
  assumes "\<forall>c \<in> set acc. \<not> f c" "w \<in> set (fields_func f acc s)"
  shows "\<forall>c \<in> set w. \<not> f c"
  using assms
proof (induction s arbitrary: acc)
  case (Cons c s)
  show ?case
  proof (cases "f c")
    case True
    then have "w = acc \<or> w \<in> set (fields_func f '''' s)" using Cons.prems(2) by (cases "acc = ''''") simp_all
    then show ?thesis
    proof
      assume "w \<in> set (fields_func f '''' s)"
      from Cons.IH [OF _ this] show ?thesis by simp
    qed (use Cons.prems(1) in simp)
  next
    case False
    with Cons.prems have "\<forall>c \<in> set (acc @ [c]). \<not> f c" "w \<in> set (fields_func f (acc @ [c]) s)" by simp_all
    then show ?thesis by (rule Cons.IH)
  qed
qed (simp split: if_splits)

lemma set_trim_left: "set (trim_left s) \<subseteq> set s"
proof (induction s rule: trim_left.induct)
  case (1 s)
  then show ?case using set_drop_subset [of "space_len s" s] by (subst trim_left.simps) auto
qed

lemma set_trim_right_rev: "set (trim_right_rev s) \<subseteq> set s"
proof (induction s rule: trim_right_rev.induct)
  case (1 s)
  then show ?case using set_drop_subset [of "space_suffix s" s] by (subst trim_right_rev.simps) auto
qed

lemma set_trim_space: "set (trim_space s) \<subseteq> set s"
  using set_trim_left [of s] set_trim_right_rev [of "rev (trim_left s)"] by (auto simp: trim_space_def)

lemma str_join_set: "set (str_join sep ws) \<subseteq> set sep \<union> (\<Union>w \<in> set ws. set w)"
  by (induction sep ws rule: str_join.induct) auto

lemma collapse_one_line: "c \<in> set (collapse text) \<Longrightarrow> \<not> breaks_line c"
proof -
  assume mem: "c \<in> set (collapse text)"
  then have "c \<in> set '' '' \<or> (\<exists>w \<in> set (fields_func breaks_line '''' text). c \<in> set w)"
    using set_trim_space str_join_set unfolding collapse_def by blast
  moreover have "\<not> breaks_line (CHR '' '')" by (simp add: breaks_line_def)
  ultimately show ?thesis using fields_func_clean [where acc = "''''" and f = breaks_line and s = "text"] by auto
qed

end
