(* ===== verification/Projector.thy ===== *)
theory Projector
imports Console ConsoleLine
begin

text \<open>
  What a conversation is told about its run (\<open>core/internal/gateway/projector.go\<close>, \<open>summary.go\<close>): every
  event of a run is observed, and what it warrants saying is put into the outbox.

  \<open>Pj\<close> is the projector beside the gateway's tables and the runtime's store. JSON, the decoding of a
  call's arguments and the format of a duration are parameters of \<open>PjEnv\<close>; what a log line of the daemon
  itself would say is left out. Durations stay far below the range of an \<open>int64\<close> and are integers.
\<close>

subsection \<open>What is posted\<close>

record LogLine =
  ll_Session :: string
  ll_Kind :: string
  ll_State :: string
  ll_Meta :: string
  ll_Preview :: string

record LogPayload =
  lp_Line :: "LogLine option"
  lp_Tool :: string
  lp_Summary :: string
  lp_DurationMS :: int
  lp_IsError :: bool
  lp_Output :: string
  lp_OutputTruncated :: bool
  lp_Artifact :: string

datatype ApprovalRoute = ApprovalElsewhere | ApprovalByReply | ApprovalByPress

record ApprovalPayload =
  app_ApprovalID :: ApprovalID
  app_ToolName :: string
  app_Summary :: string
  app_Effects :: "string list"
  app_ReadForeign :: bool
  app_Route :: ApprovalRoute

record QuestionPayload =
  qp_QuestionID :: QuestionID
  qp_Prompt :: string
  qp_Kind :: QuestionKind
  qp_Options :: "QuestionOption list"
  qp_AnswerableHere :: bool

record ToolTally =
  tuse_Name :: string
  tuse_Calls :: int
  tuse_Failed :: int
  tuse_Milliseconds :: int
  tuse_SlowestMS :: int

record Source =
  so_Kind :: string
  so_Ref :: string
  so_Retained :: bool

record RunSummary =
  rsum_Provider :: string
  rsum_Model :: string
  rsum_Tools :: "ToolTally list"
  rsum_Sources :: "Source list"
  rsum_SourcesOmitted :: int
  rsum_InputTokens :: "64 word"
  rsum_CachedInputTokens :: "64 word"
  rsum_OutputTokens :: "64 word"
  rsum_Silent :: bool
  rsum_Partial :: bool

record StatusPayload =
  sp_State :: string
  sp_Detail :: string
  sp_DurationMS :: int
  sp_Summary :: "RunSummary option"

datatype Said =
    SaidMessage MessagePayload | SaidStatus StatusPayload | SaidApproval ApprovalPayload
  | SaidQuestion QuestionPayload | SaidLog LogPayload

subsection \<open>The account of a run\<close>

record RunRecord =
  rr_seen :: bool
  rr_waited :: bool
  rr_tools :: "(string, ToolTally) gomap"
  rr_pending :: "(ToolCallID, string \<times> string) gomap"
  rr_sources :: "(string \<times> string \<times> Seq) list"
  rr_said :: bool
  rr_compactedThrough :: Seq
  rr_usage :: Usage

definition no_usage :: Usage where
  "no_usage = \<lparr>us_InputTokens = 0, us_CachedInputTokens = 0, us_OutputTokens = 0, us_ReasoningTokens = 0\<rparr>"

definition new_run_record :: RunRecord where
  "new_run_record = \<lparr>rr_seen = False, rr_waited = False, rr_tools = [], rr_pending = [], rr_sources = [], rr_said = False,
     rr_compactedThrough = 0, rr_usage = no_usage\<rparr>"

definition source_of :: "(string \<Rightarrow> string \<Rightarrow> string option) \<Rightarrow> string \<Rightarrow> string \<Rightarrow> (string \<times> string) option" where
  "source_of argument name arguments =
     (let known = (if name = ''web_read'' then Some (''web'', ''url'') else if name = ''read_file'' then Some (''file'', ''path'') else None)
      in case known of
        None \<Rightarrow> None
      | Some (kind, field) \<Rightarrow>
          (case argument arguments field of None \<Rightarrow> None | Some v \<Rightarrow> if v = '''' then None else Some (kind, v)))"

definition requested :: "(string \<Rightarrow> string \<Rightarrow> string option) \<Rightarrow> ToolCallRequested \<Rightarrow> RunRecord \<Rightarrow> RunRecord" where
  "requested argument p r =
     (case source_of argument (tq_Name p) (tq_Arguments p) of
        None \<Rightarrow> r
      | Some src \<Rightarrow> r\<lparr>rr_pending := gm_set (rr_pending r) (tq_CallID p) src\<rparr>)"

definition used_once_more :: "ToolCallCompleted \<Rightarrow> ToolTally \<Rightarrow> ToolTally" where
  "used_once_more p use = use\<lparr>tuse_Calls := tuse_Calls use + 1,
     tuse_Failed := (if tc_IsError p then tuse_Failed use + 1 else tuse_Failed use),
     tuse_Milliseconds := tuse_Milliseconds use + tc_DurationMS p,
     tuse_SlowestMS := (if tc_DurationMS p > tuse_SlowestMS use then tc_DurationMS p else tuse_SlowestMS use)\<rparr>"

definition completed :: "ToolCallCompleted \<Rightarrow> Seq \<Rightarrow> RunRecord \<Rightarrow> RunRecord" where
  "completed p q r =
     (let use = (case gm_get (rr_tools r) (tc_Name p) of Some use \<Rightarrow> use
          | None \<Rightarrow> \<lparr>tuse_Name = tc_Name p, tuse_Calls = 0, tuse_Failed = 0, tuse_Milliseconds = 0, tuse_SlowestMS = 0\<rparr>);
          call = gm_get (rr_pending r) (tc_CallID p);
          r = r\<lparr>rr_tools := gm_set (rr_tools r) (tc_Name p) (used_once_more p use), rr_pending := gm_del (rr_pending r) (tc_CallID p)\<rparr>
      in case call of
        None \<Rightarrow> r
      | Some (kind, ref) \<Rightarrow>
          if tc_IsError p then r
          else if \<exists>(k, f, _) \<in> set (rr_sources r). k = kind \<and> f = ref then r
          else r\<lparr>rr_sources := rr_sources r @ [(kind, ref, q)]\<rparr>)"

definition tool_use_less :: "ToolTally \<Rightarrow> ToolTally \<Rightarrow> bool" where
  "tool_use_less left right =
     (if tuse_Milliseconds left \<noteq> tuse_Milliseconds right then tuse_Milliseconds left > tuse_Milliseconds right
      else if tuse_Calls left \<noteq> tuse_Calls right then tuse_Calls left > tuse_Calls right
      else tuse_Name left < tuse_Name right)"

definition max_listed_sources :: nat where "max_listed_sources = 12"

definition summarise :: "string \<Rightarrow> string \<Rightarrow> RunRecord \<Rightarrow> RunSummary" where
  "summarise provider model r =
     \<lparr>rsum_Provider = provider, rsum_Model = model,
      rsum_Tools = sort_slice tool_use_less (gm_vals (rr_tools r)),
      rsum_Sources = map (\<lambda>(kind, ref, q). \<lparr>so_Kind = kind, so_Ref = ref, so_Retained = q > rr_compactedThrough r\<rparr>)
        (take max_listed_sources (rr_sources r)),
      rsum_SourcesOmitted = int (length (rr_sources r) - max_listed_sources),
      rsum_InputTokens = us_InputTokens (rr_usage r), rsum_CachedInputTokens = us_CachedInputTokens (rr_usage r),
      rsum_OutputTokens = us_OutputTokens (rr_usage r),
      rsum_Silent = (rr_seen r \<and> \<not> rr_said r \<and> rr_tools r = []),
      rsum_Partial = (\<not> rr_seen r)\<rparr>"


subsection \<open>The projector\<close>

record PjEnv =
  pv_Gw :: GwEnv
  pv_WorkingInterval :: int
  pv_StreamInterval :: int
  pv_Provider :: string
  pv_Model :: string
  pv_Encode :: "Said \<Rightarrow> string"
  pv_Argument :: "string \<Rightarrow> string \<Rightarrow> string option"
  pv_RoundedDuration :: "int \<Rightarrow> string"

record Pj =
  pj_Gw :: Gw
  pj_pending :: "(MessageID, string) gomap"
  pj_lastWorking :: "(RunID, instant) gomap"
  pj_lastStreamed :: "(MessageID, instant) gomap"
  pj_records :: "(RunID, RunRecord) gomap"

type_synonym 'a pj = "Pj \<Rightarrow> (GwFail + 'a) \<times> Pj"

definition new_projector :: "Gw \<Rightarrow> Pj" where
  "new_projector gw = \<lparr>pj_Gw = gw, pj_pending = [], pj_lastWorking = [], pj_lastStreamed = [], pj_records = []\<rparr>"

definition pok :: "'a \<Rightarrow> 'a pj" where "pok x s = (Inr x, s)"

definition pbind :: "'a pj \<Rightarrow> ('a \<Rightarrow> 'b pj) \<Rightarrow> 'b pj" where
  "pbind m k s = (case m s of (Inl e, s') \<Rightarrow> (Inl e, s') | (Inr x, s') \<Rightarrow> k x s')"

definition on_gw :: "'a gw \<Rightarrow> 'a pj" where
  "on_gw m s = (case m (pj_Gw s) of (r, g) \<Rightarrow> (r, s\<lparr>pj_Gw := g\<rparr>))"

definition upd :: "(Pj \<Rightarrow> Pj) \<Rightarrow> unit pj" where "upd f s = (Inr (), f s)"

lemmas pj_ops = pok_def pbind_def on_gw_def upd_def

definition pj_now :: "PjEnv \<Rightarrow> instant pj" where
  "pj_now env = on_gw (on_rt (now (gv_Rt (pv_Gw env))))"

definition pj_tables :: "Pj \<Rightarrow> Tables" where "pj_tables s = gw_Tables (pj_Gw s)"

definition pj_enqueue :: "PjEnv \<Rightarrow> Ctx \<Rightarrow> Run \<Rightarrow> ConversationRef \<Rightarrow> DispatchKind \<Rightarrow> Said \<Rightarrow> unit pj" where
  "pj_enqueue env ctx run target kind payload =
     on_gw (gbind (on_rt (new_id (gv_Rt (pv_Gw env)))) (\<lambda>did. gbind (on_rt (now (gv_Rt (pv_Gw env)))) (\<lambda>at.
       gbind (tb_change (\<lambda>known. enqueue_dispatch known ctx
         \<lparr>di_ID = did, di_Seq = 0, di_AccountID = cr_AccountID target, di_SessionID = ru_SessionID run, di_RunID = ru_ID run,
          di_Target = target, di_Kind = kind, di_Payload = pv_Encode env payload, di_CreatedAt = at,
          di_DeliveredAt = None, di_PlatformMessageIDs = []\<rparr>)) (\<lambda>_. gok ()))))"

definition said_status :: "string \<Rightarrow> string \<Rightarrow> Said" where
  "said_status state detail = SaidStatus \<lparr>sp_State = state, sp_Detail = detail, sp_DurationMS = 0, sp_Summary = None\<rparr>"

subsubsection \<open>Its memory\<close>

definition record_of :: "RunID \<Rightarrow> Pj \<Rightarrow> RunRecord" where
  "record_of rid s = (case gm_get (pj_records s) rid of Some r \<Rightarrow> r | None \<Rightarrow> new_run_record)"

definition on_record :: "RunID \<Rightarrow> (RunRecord \<Rightarrow> RunRecord) \<Rightarrow> Pj \<Rightarrow> Pj" where
  "on_record rid f s = s\<lparr>pj_records := gm_set (pj_records s) rid (f (record_of rid s))\<rparr>"

definition records_for :: "Run \<Rightarrow> RunID list" where
  "records_for run = ru_ID run # (if ru_Kind run = RunWorker \<and> ru_ParentRunID run \<noteq> '''' then [ru_ParentRunID run] else [])"

definition accumulate :: "MessageID \<Rightarrow> string \<Rightarrow> Pj \<Rightarrow> Pj" where
  "accumulate mid text s = s\<lparr>pj_pending := gm_set (pj_pending s) mid
     ((case gm_get (pj_pending s) mid of Some b \<Rightarrow> b | None \<Rightarrow> '''') @ text)\<rparr>"

definition peek :: "MessageID \<Rightarrow> Pj \<Rightarrow> string" where
  "peek mid s = (case gm_get (pj_pending s) mid of Some b \<Rightarrow> b | None \<Rightarrow> '''')"

definition take_text :: "MessageID \<Rightarrow> Pj \<Rightarrow> string \<times> Pj" where
  "take_text mid s =
     (case gm_get (pj_pending s) mid of
        None \<Rightarrow> ('''', s)
      | Some b \<Rightarrow> (b, s\<lparr>pj_pending := gm_del (pj_pending s) mid, pj_lastStreamed := gm_del (pj_lastStreamed s) mid\<rparr>))"

definition default_stream_interval :: int where "default_stream_interval = 1500000000"
definition default_working_interval :: int where "default_working_interval = 2000000000"

definition should_stream :: "PjEnv \<Rightarrow> MessageID \<Rightarrow> bool pj" where
  "should_stream env mid =
     (let interval = (if pv_StreamInterval env \<le> 0 then default_stream_interval else pv_StreamInterval env)
      in pbind (pj_now env) (\<lambda>at s.
        case gm_get (pj_lastStreamed s) mid of
          None \<Rightarrow> (Inr False, s\<lparr>pj_lastStreamed := gm_set (pj_lastStreamed s) mid at\<rparr>)
        | Some before \<Rightarrow>
            if at - before < interval then (Inr False, s)
            else (Inr True, s\<lparr>pj_lastStreamed := gm_set (pj_lastStreamed s) mid at\<rparr>)))"

definition should_say_working :: "PjEnv \<Rightarrow> RunID \<Rightarrow> bool pj" where
  "should_say_working env rid =
     pbind (pj_now env) (\<lambda>at s.
       if (case gm_get (pj_lastWorking s) rid of Some before \<Rightarrow> at - before < pv_WorkingInterval env | None \<Rightarrow> False)
       then (Inr False, s)
       else (Inr True, s\<lparr>pj_lastWorking := gm_set (pj_lastWorking s) rid at\<rparr>))"

definition forget :: "RunID \<Rightarrow> Pj \<Rightarrow> Pj" where
  "forget rid s = s\<lparr>pj_lastWorking := gm_del (pj_lastWorking s) rid\<rparr>"

definition never_started :: "RunID \<Rightarrow> Pj \<Rightarrow> bool" where
  "never_started rid s = (case gm_get (pj_records s) rid of Some r \<Rightarrow> rr_waited r \<and> \<not> rr_seen r | None \<Rightarrow> False)"

definition summary_model :: "PjEnv \<Rightarrow> Ctx \<Rightarrow> SessionID \<Rightarrow> Pj \<Rightarrow> string" where
  "summary_model env ctx session s =
     (case get_session ctx session (rt_Store (gw_Rt (pj_Gw s))) of
        Inl _ \<Rightarrow> pv_Model env
      | Inr found \<Rightarrow> if se_Model found = '''' then pv_Model env else se_Model found)"

definition close_record :: "PjEnv \<Rightarrow> Ctx \<Rightarrow> Run \<Rightarrow> RunSummary option pj" where
  "close_record env ctx run s =
     (case gm_get (pj_records s) (ru_ID run) of
        None \<Rightarrow> (Inr None, s)
      | Some r \<Rightarrow> (Inr (Some (summarise (pv_Provider env) (summary_model env ctx (ru_SessionID run) s) r)),
          s\<lparr>pj_records := gm_del (pj_records s) (ru_ID run)\<rparr>))"

subsubsection \<open>What it says\<close>

definition max_logged_output :: nat where "max_logged_output = 1200"

definition trim_newlines :: "string \<Rightarrow> string" where
  "trim_newlines s = rev (dropWhile (\<lambda>c. c = CHR 0x0A) (rev s))"

definition bound_output :: "string \<Rightarrow> nat \<Rightarrow> string \<times> bool" where
  "bound_output content limit =
     (let trimmed = trim_newlines content; rs = runes trimmed
      in if trimmed = '''' then ('''', False)
         else if length rs \<le> limit then (trimmed, False)
         else (of_runes (drop (length rs - limit) rs), True))"

definition line_length :: nat where "line_length = 70"

definition bound_to_a_line :: "string \<Rightarrow> string" where
  "bound_to_a_line v =
     (let rs = runes (trim_space v)
      in if length rs \<le> line_length then of_runes rs else of_runes (take line_length rs) @ ellipsis)"

definition described_arguments :: "string list" where
  "described_arguments = [''path'', ''pattern'', ''query'', ''program'', ''file_path'', ''url'',
     ''name'', ''question'', ''text'', ''content'', ''input'']"

definition call_line :: "PjEnv \<Rightarrow> string \<Rightarrow> string \<Rightarrow> string" where
  "call_line env name arguments =
     (case find (\<lambda>v. trim_space v \<noteq> '''') (List.map_filter (pv_Argument env arguments) described_arguments) of
        None \<Rightarrow> name
      | Some v \<Rightarrow> name @ '' '' @ bound_to_a_line v)"

definition explain_failure :: "string \<Rightarrow> string" where
  "explain_failure kind =
     (if kind = ''rate_limited'' \<or> kind = ''overloaded'' then ''the model is busy right now '' @ em_dash @ '' try again shortly''
      else if kind = ''retry_budget_exhausted''
        then ''the model is rate limited for longer than this was willing to wait '' @ em_dash @ '' try again in a few minutes''
      else if kind = ''quota_exhausted'' \<or> kind = ''auth'' \<or> kind = ''not_found'' then ''the model is unavailable until the operator looks at it''
      else if kind = ''context_overflow'' then ''the conversation got too long for the model to read''
      else if kind = ''content_filtered'' then ''the model declined to answer that''
      else if kind = ''interrupted'' then ''stopped''
      else ''something went wrong at the model'')"

definition describe_plan :: "PlanItem list \<Rightarrow> string" where
  "describe_plan items =
     (let done = length (filter (\<lambda>i. plan_status_is_terminal (pi_Status i)) items);
          current = (case find (\<lambda>i. pi_Status i = PlanInProgress \<and> pi_Title i \<noteq> '''') items of Some i \<Rightarrow> pi_Title i | None \<Rightarrow> '''');
          said = ''plan: '' @ itoa (int done) @ '' of '' @ itoa (int (length items)) @ '' done''
      in if current = '''' then said else said @ '' '' @ em_dash @ '' '' @ current)"

definition external_target :: "PjEnv \<Rightarrow> Run \<Rightarrow> ConversationRef option" where
  "external_target env run =
     (case List.map_filter (\<lambda>t. if dt_Kind t = DeliveryLocalClient then None else conversation_from_target (pv_Gw env) t)
        (ru_DeliveryTargets run) of [] \<Rightarrow> None | ref # _ \<Rightarrow> Some ref)"

definition binding_of :: "Ctx \<Rightarrow> ConversationRef \<Rightarrow> Pj \<Rightarrow> GwError + Binding" where
  "binding_of ctx target s = get_binding ctx (cr_Platform target) (cr_AccountID target) (cr_TenantID target) (cr_ChannelID target) (pj_tables s)"

definition console_binding :: "Binding \<Rightarrow> bool" where
  "console_binding b \<longleftrightarrow> bi_PermissionProfile b = console_profile_name"

definition is_console :: "Ctx \<Rightarrow> ConversationRef \<Rightarrow> Pj \<Rightarrow> bool" where
  "is_console ctx target s = (case binding_of ctx target s of Inl _ \<Rightarrow> False | Inr b \<Rightarrow> console_binding b)"

definition approval_route :: "Ctx \<Rightarrow> ConversationRef \<Rightarrow> Pj \<Rightarrow> ApprovalRoute" where
  "approval_route ctx target s =
     (case binding_of ctx target s of
        Inl _ \<Rightarrow> ApprovalElsewhere
      | Inr b \<Rightarrow>
          if console_binding b then ApprovalByReply
          else if bi_ApprovingPrincipals b \<noteq> [] \<or> bi_ApprovingClaims b \<noteq> [] then ApprovalByPress
          else ApprovalElsewhere)"

definition console_targets :: "Ctx \<Rightarrow> Pj \<Rightarrow> ConversationRef list" where
  "console_targets ctx s =
     (case list_bindings ctx (pj_tables s) of
        Inl _ \<Rightarrow> []
      | Inr bs \<Rightarrow> map (\<lambda>b. \<lparr>cr_Platform = bi_Platform b, cr_AccountID = bi_AccountID b, cr_TenantID = bi_TenantID b,
          cr_ChannelID = bi_ChannelID b, cr_ThreadID = '''', cr_SourceMessageID = '''', cr_RootMessageID = ''''\<rparr>) (filter console_binding bs))"


subsection \<open>Observing\<close>

definition note_call :: "PjEnv \<Rightarrow> Run \<Rightarrow> Event \<Rightarrow> Pj \<Rightarrow> Pj" where
  "note_call env run event s =
     (case ev_Payload event of
        PToolCallRequested p \<Rightarrow> fold (\<lambda>rid. on_record rid (requested (pv_Argument env) p)) (records_for run) s
      | PToolCallCompleted p \<Rightarrow> fold (\<lambda>rid. on_record rid (completed p (ev_Seq event))) (records_for run) s
      | _ \<Rightarrow> s)"

definition mirror_payload :: "Event \<Rightarrow> Line \<Rightarrow> LogPayload" where
  "mirror_payload event line =
     (let p = \<lparr>lp_Line = Some \<lparr>ll_Session = ln_Session line, ll_Kind = ln_Kind line, ll_State = ln_State line, ll_Meta = ln_Meta line,
            ll_Preview = bound_to_a_line (ln_Preview line)\<rparr>,
          lp_Tool = '''', lp_Summary = '''', lp_DurationMS = 0, lp_IsError = False, lp_Output = '''', lp_OutputTruncated = False, lp_Artifact = ''''\<rparr>
      in case ev_Payload event of
        PToolCallCompleted c \<Rightarrow>
          (case bound_output (tc_Content c) max_logged_output of (output, short) \<Rightarrow>
            p\<lparr>lp_Tool := tc_Name c, lp_Summary := tc_Summary c, lp_Output := output, lp_OutputTruncated := short \<or> tc_Truncated c,
              lp_DurationMS := tc_DurationMS c, lp_IsError := tc_IsError c,
              lp_Artifact := (case tc_Artifact c of None \<Rightarrow> '''' | Some a \<Rightarrow> af_ID a)\<rparr>)
      | PRunStateChanged c \<Rightarrow>
          if rs_Status c = RunFailed \<and> trim_space (rs_Reason c) \<noteq> ''''
          then (case bound_output (rs_Reason c) max_logged_output of (output, short) \<Rightarrow>
            p\<lparr>lp_Output := output, lp_OutputTruncated := short, lp_IsError := True\<rparr>)
          else p
      | _ \<Rightarrow> p)"

fun enqueue_all :: "PjEnv \<Rightarrow> Ctx \<Rightarrow> Run \<Rightarrow> ConversationRef list \<Rightarrow> DispatchKind \<Rightarrow> Said \<Rightarrow> unit pj" where
  "enqueue_all env ctx run [] kind payload = pok ()"
| "enqueue_all env ctx run (target # targets) kind payload =
     pbind (pj_enqueue env ctx run target kind payload) (\<lambda>_. enqueue_all env ctx run targets kind payload)"

definition mirror_to_consoles :: "PjEnv \<Rightarrow> Ctx \<Rightarrow> Run \<Rightarrow> Event \<Rightarrow> unit pj" where
  "mirror_to_consoles env ctx run event s =
     (case describe_event event of
        None \<Rightarrow> (Inr (), s)
      | Some line \<Rightarrow> enqueue_all env ctx run (console_targets ctx s) DispatchLog (SaidLog (mirror_payload event line)) s)"

definition working_line :: "PjEnv \<Rightarrow> Ctx \<Rightarrow> Run \<Rightarrow> ConversationRef \<Rightarrow> string \<Rightarrow> unit pj" where
  "working_line env ctx run target detail =
     pbind (should_say_working env (ru_ID run)) (\<lambda>say.
       if \<not> say then pok () else pj_enqueue env ctx run target DispatchStatus (said_status ''working'' detail))"

definition observe_for_parent :: "PjEnv \<Rightarrow> Ctx \<Rightarrow> Run \<Rightarrow> ConversationRef \<Rightarrow> Event \<Rightarrow> unit pj" where
  "observe_for_parent env ctx worker target event =
     (let as = worker\<lparr>ru_ID := ru_ParentRunID worker\<rparr> in
      case ev_Payload event of
        PRunStateChanged p \<Rightarrow>
          if rs_Status p \<noteq> RunRunning then pok ()
          else pj_enqueue env ctx as target DispatchStatus (said_status ''provider_started'' ''thinking'')
      | PToolCallRequested p \<Rightarrow> working_line env ctx as target (call_line env (tq_Name p) (tq_Arguments p))
      | _ \<Rightarrow> pok ())"

definition observe_state :: "PjEnv \<Rightarrow> Ctx \<Rightarrow> Run \<Rightarrow> ConversationRef \<Rightarrow> RunStateChanged \<Rightarrow> unit pj" where
  "observe_state env ctx run target p =
     (let tell = pj_enqueue env ctx run target DispatchStatus in
      case rs_Status p of
        RunQueued \<Rightarrow>
          pbind (upd (on_record (ru_ID run) (\<lambda>r. r\<lparr>rr_waited := True\<rparr>))) (\<lambda>_. tell (said_status ''queued'' ''waiting for the message before it''))
      | RunRunning \<Rightarrow>
          pbind (upd (on_record (ru_ID run) (\<lambda>r. r\<lparr>rr_seen := True\<rparr>))) (\<lambda>_. tell (said_status ''provider_started'' ''thinking''))
      | RunCompleted \<Rightarrow>
          pbind (upd (forget (ru_ID run))) (\<lambda>_. pbind (close_record env ctx run) (\<lambda>summary. pbind (pj_now env) (\<lambda>at.
            let duration = at - ru_CreatedAt run in
            tell (SaidStatus \<lparr>sp_State = ''completed'', sp_Detail = pv_RoundedDuration env duration,
              sp_DurationMS = (if duration \<ge> 0 then duration div 1000000 else - ((- duration) div 1000000)), sp_Summary = summary\<rparr>))))
      | _ \<Rightarrow>
          if rs_Status p \<noteq> RunFailed \<and> rs_Status p \<noteq> RunCancelled then pok ()
          else (\<lambda>s.
            if rs_Status p = RunCancelled \<and> never_started (ru_ID run) s
            then pbind (close_record env ctx run) (\<lambda>_. tell (said_status ''withdrawn'' ''taken back before it was answered'')) s
            else pbind (close_record env ctx run) (\<lambda>summary s.
              tell (SaidStatus \<lparr>sp_State = status_text (rs_Status p),
                sp_Detail = (if is_console ctx target s \<and> rs_Reason p \<noteq> '''' then rs_Reason p else explain_failure (rs_FailureKind p)),
                sp_DurationMS = 0, sp_Summary = summary\<rparr>) s) s))"

definition observe_own :: "PjEnv \<Rightarrow> Ctx \<Rightarrow> Run \<Rightarrow> ConversationRef \<Rightarrow> Event \<Rightarrow> unit pj" where
  "observe_own env ctx run target event =
     (case ev_Payload event of
        PAssistantTextDelta p \<Rightarrow>
          pbind (upd (accumulate (td_MessageID p) (td_Text p))) (\<lambda>_. pbind (should_stream env (td_MessageID p)) (\<lambda>stream s.
            if \<not> stream then (Inr (), s)
            else pj_enqueue env ctx run target DispatchMessage
              (SaidMessage \<lparr>mp_Text = peek (td_MessageID p) s, mp_MessageID = td_MessageID p, mp_Final = False, mp_File = None\<rparr>) s))
      | PPlanChanged p \<Rightarrow> working_line env ctx run target (describe_plan (pc_Items p))
      | PAssistantReasoningDelta p \<Rightarrow> pok ()
      | PAssistantMessageCompleted p \<Rightarrow> (\<lambda>s.
          case take_text (mc_MessageID p) s of (text, s) \<Rightarrow>
            if trim_space text = '''' then (Inr (), s)
            else pj_enqueue env ctx run target DispatchMessage
              (SaidMessage \<lparr>mp_Text = text, mp_MessageID = mc_MessageID p, mp_Final = True, mp_File = None\<rparr>)
              (on_record (ru_ID run) (\<lambda>r. r\<lparr>rr_said := True\<rparr>) s))
      | PToolCallRequested p \<Rightarrow>
          let call = call_line env (tq_Name p) (tq_Arguments p) in
          if tq_Name p = ''web_read'' then pj_enqueue env ctx run target DispatchStatus (said_status ''network_started'' call)
          else if tq_Name p = ''recall'' then pj_enqueue env ctx run target DispatchStatus (said_status ''memory_started'' call)
          else working_line env ctx run target call
      | PToolCallCompleted p \<Rightarrow>
          if tc_Name p = ''web_read'' then pj_enqueue env ctx run target DispatchStatus (said_status ''network_finished'' '''')
          else if tc_Name p = ''recall'' then pj_enqueue env ctx run target DispatchStatus (said_status ''memory_finished'' '''')
          else pok ()
      | PUsageChanged p \<Rightarrow> upd (on_record (ru_ID run) (\<lambda>r. r\<lparr>rr_usage := uc_Usage p\<rparr>))
      | PConversationCompacted p \<Rightarrow> upd (on_record (ru_ID run) (\<lambda>r. r\<lparr>rr_compactedThrough := cc_ThroughSeq p\<rparr>))
      | PApprovalRequested p \<Rightarrow> (\<lambda>s.
          pj_enqueue env ctx run target DispatchApproval (SaidApproval \<lparr>app_ApprovalID = aq_ApprovalID p, app_ToolName = aq_ToolName p,
            app_Summary = aq_Summary p, app_Effects = aq_Effects p, app_ReadForeign = aq_ReadForeign p, app_Route = approval_route ctx target s\<rparr>) s)
      | PQuestionAsked p \<Rightarrow> (\<lambda>s.
          pj_enqueue env ctx run target DispatchQuestion (SaidQuestion \<lparr>qp_QuestionID = qa_QuestionID p, qp_Prompt = qa_Prompt p,
            qp_Kind = qa_Kind p, qp_Options = qa_Options p, qp_AnswerableHere = is_console ctx target s\<rparr>) s)
      | PRunStateChanged p \<Rightarrow> observe_state env ctx run target p
      | _ \<Rightarrow> pok ())"

definition observe :: "PjEnv \<Rightarrow> Ctx \<Rightarrow> Run \<Rightarrow> Event \<Rightarrow> unit pj" where
  "observe env ctx run event =
     pbind (upd (note_call env run event)) (\<lambda>_.
       case external_target env run of
         None \<Rightarrow> pok ()
       | Some target \<Rightarrow>
           pbind (mirror_to_consoles env ctx run event) (\<lambda>_.
             if ru_Kind run = RunWorker \<and> ru_ParentRunID run \<noteq> '''' then observe_for_parent env ctx run target event
             else observe_own env ctx run target event))"

definition noted :: "PjEnv \<Rightarrow> Ctx \<Rightarrow> Run \<Rightarrow> int \<Rightarrow> unit pj" where
  "noted env ctx run n =
     (if n \<le> 0 then pok ()
      else case external_target env run of
        None \<Rightarrow> pok ()
      | Some target \<Rightarrow> pj_enqueue env ctx run target DispatchStatus (said_status ''noted'' (itoa n)))"


subsection \<open>What rooms learn\<close>

text \<open>
  The part of an event a conversation that is no console may come to know. For a run of its own: not the
  thinking, not what tools printed, not why a run failed in the provider's words, not the arguments of an
  approval, nothing of what others wrote or answered, of memories, skills and folds; for a worker: only
  that it works and which calls it made.
\<close>

definition no_origin :: RunOrigin where
  "no_origin = \<lparr>or_Kind = OriginOther '''', or_ClientID = '''', or_Principal = None\<rparr>"

fun own_part :: "EventPayload \<Rightarrow> EventPayload" where
  "own_part (PUserMessageAdded p) = PUserMessageAdded \<lparr>um_MessageID = '''', um_Text = '''', um_Trust = TrustSystem, um_Origin = no_origin, um_Attachments = []\<rparr>"
| "own_part (PRunStateChanged p) = PRunStateChanged (p\<lparr>rs_Reason := ''''\<rparr>)"
| "own_part (PAssistantReasoningDelta p) = PAssistantReasoningDelta \<lparr>rd_MessageID = '''', rd_Text = ''''\<rparr>"
| "own_part (PAssistantMessageCompleted p) = PAssistantMessageCompleted (p\<lparr>mc_StopReason := StopUnknown\<rparr>)"
| "own_part (PToolCallCompleted p) = PToolCallCompleted (p\<lparr>tc_Summary := '''', tc_Content := '''', tc_Truncated := False, tc_Foreign := False,
     tc_From := ProvenanceExternal, tc_Artifact := None\<rparr>)"
| "own_part (PConversationCompacted p) = PConversationCompacted (p\<lparr>cc_Summary := '''', cc_FromSeq := 0, cc_MessagesFolded := 0, cc_TokensBefore := 0, cc_TokensAfter := 0\<rparr>)"
| "own_part (PRunDirections p) = PRunDirections \<lparr>rdir_Text = ''''\<rparr>"
| "own_part (PQuestionAnswered p) = PQuestionAnswered \<lparr>qd_QuestionID = '''', qd_CallID = '''', qd_Status = AnswerPending, qd_Answer = '''', qd_AnsweredBy = no_origin\<rparr>"
| "own_part (PSkillActivated p) = PSkillActivated \<lparr>sk_Name = '''', sk_Version = '''', sk_Digest = ''''\<rparr>"
| "own_part (PMemoriesNoted p) = PMemoriesNoted \<lparr>mn_Notes = []\<rparr>"
| "own_part (PApprovalRequested p) = PApprovalRequested (p\<lparr>aq_CallID := '''', aq_Arguments := '''', aq_Preview := ''''\<rparr>)"
| "own_part (PApprovalResolved p) = PApprovalResolved \<lparr>ar_ApprovalID = '''', ar_CallID = '''', ar_ToolName = '''', ar_Status = ApprovalPending,
     ar_Scope = RememberOnce, ar_DecidedBy = no_origin\<rparr>"
| "own_part p = p"

fun worker_part :: "EventPayload \<Rightarrow> EventPayload" where
  "worker_part (PRunStateChanged p) = PRunStateChanged (p\<lparr>rs_Reason := '''', rs_FailureKind := ''''\<rparr>)"
| "worker_part (PAssistantTextDelta p) = PAssistantTextDelta \<lparr>td_MessageID = '''', td_Text = ''''\<rparr>"
| "worker_part (PAssistantMessageCompleted p) = PAssistantMessageCompleted \<lparr>mc_MessageID = '''', mc_StopReason = StopUnknown\<rparr>"
| "worker_part (PUsageChanged p) = PUsageChanged \<lparr>uc_Usage = no_usage\<rparr>"
| "worker_part (PConversationCompacted p) = PConversationCompacted \<lparr>cc_Summary = '''', cc_FromSeq = 0, cc_ThroughSeq = 0, cc_MessagesFolded = 0, cc_TokensBefore = 0, cc_TokensAfter = 0\<rparr>"
| "worker_part (PPlanChanged p) = PPlanChanged \<lparr>pc_Items = []\<rparr>"
| "worker_part (PQuestionAsked p) = PQuestionAsked \<lparr>qa_QuestionID = '''', qa_CallID = '''', qa_Prompt = '''', qa_Kind = QuestionText, qa_Options = []\<rparr>"
| "worker_part (PApprovalRequested p) = PApprovalRequested \<lparr>aq_ApprovalID = '''', aq_CallID = '''', aq_ToolName = '''', aq_Arguments = '''', aq_Summary = '''',
     aq_Effects = [], aq_Preview = '''', aq_ReadForeign = False\<rparr>"
| "worker_part p = own_part p"

definition is_worker :: "Run \<Rightarrow> bool" where
  "is_worker run \<longleftrightarrow> ru_Kind run = RunWorker \<and> ru_ParentRunID run \<noteq> ''''"

definition public_part :: "Run \<Rightarrow> Event \<Rightarrow> EventPayload \<times> Seq" where
  "public_part run event = ((if is_worker run then worker_part else own_part) (ev_Payload event), ev_Seq event)"

text \<open>What rooms see of the outbox: to a console the payload is blanked.\<close>

definition console_channel :: "Tables \<Rightarrow> ConversationRef \<Rightarrow> bool" where
  "console_channel t c \<longleftrightarrow> (\<exists>b \<in> set (tb_Bindings t). console_binding b \<and>
     channel_of b = (cr_Platform c, cr_AccountID c, cr_TenantID c, cr_ChannelID c))"

definition blank :: "Tables \<Rightarrow> Dispatch \<Rightarrow> Dispatch" where
  "blank t d = (if console_channel t (di_Target d) then d\<lparr>di_Payload := ''''\<rparr> else d)"

definition hidden :: "Tables \<Rightarrow> Tables" where
  "hidden t = t\<lparr>tb_Dispatches := map (blank t) (tb_Dispatches t)\<rparr>"

definition hide :: "Pj \<Rightarrow> Pj" where
  "hide s = s\<lparr>pj_Gw := (pj_Gw s)\<lparr>gw_Tables := hidden (gw_Tables (pj_Gw s))\<rparr>\<rparr>"

lemma hide_parts: "gw_Rt (pj_Gw (hide s)) = gw_Rt (pj_Gw s)" "pj_tables (hide s) = hidden (pj_tables s)" "pj_pending (hide s) = pj_pending s"
  "pj_lastWorking (hide s) = pj_lastWorking s" "pj_lastStreamed (hide s) = pj_lastStreamed s" "pj_records (hide s) = pj_records s"
  by (simp_all add: hide_def pj_tables_def)

lemma pj_equal: "s = t" if "gw_Rt (pj_Gw s) = gw_Rt (pj_Gw t)" "pj_tables s = pj_tables t" "pj_pending s = pj_pending t"
    "pj_lastWorking s = pj_lastWorking t" "pj_lastStreamed s = pj_lastStreamed t" "pj_records s = pj_records t" for s t :: Pj
  using that by (cases s; cases t; cases "pj_Gw s"; cases "pj_Gw t") (simp add: pj_tables_def)

lemma hide_eq: "hide s = hide t \<longleftrightarrow> gw_Rt (pj_Gw s) = gw_Rt (pj_Gw t) \<and> hidden (pj_tables s) = hidden (pj_tables t) \<and> pj_pending s = pj_pending t \<and>
    pj_lastWorking s = pj_lastWorking t \<and> pj_lastStreamed s = pj_lastStreamed t \<and> pj_records s = pj_records t"
  using pj_equal [of "hide s" "hide t"] by (metis hide_parts)

lemma hidden_bindings: "hidden t = hidden u \<Longrightarrow> tb_Bindings t = tb_Bindings u"
  by (metis Tables.simps(1) Tables.select_convs(1) Tables.surjective Tables.update_convs(4) hidden_def)

text \<open>Two steps look alike to rooms: the same outcome, and states alike but for what went to consoles.\<close>

definition alike :: "Pj \<Rightarrow> Pj \<Rightarrow> 'a pj \<Rightarrow> 'a pj \<Rightarrow> bool" where
  "alike s t m m' \<longleftrightarrow> fst (m s) = fst (m' t) \<and> hide (snd (m s)) = hide (snd (m' t))"

lemma alike_pok: "hide s = hide t \<Longrightarrow> alike s t (pok x) (pok x)"
  by (simp add: alike_def pok_def)

lemma alike_pbind:
  assumes "alike s t m m'" and "\<And>x s1 t1. hide s1 = hide t1 \<Longrightarrow> alike s1 t1 (k x) (k' x)"
  shows "alike s t (pbind m k) (pbind m' k')"
proof -
  obtain r s1 r' t1 where m: "m s = (r, s1)" "m' t = (r', t1)" by fastforce
  with assms(1) have "r' = r" "hide s1 = hide t1" by (auto simp: alike_def)
  with assms(2) [of s1 t1] m show ?thesis by (cases r) (auto simp: alike_def pbind_def)
qed

lemma hidden_next: "hidden t = hidden u \<Longrightarrow> next_seq a t = next_seq a u"
proof -
  have k: "map di_Seq (rows_of a t) = map di_Seq (rows_of a (hidden t))" for t
    by (induction "tb_Dispatches t" arbitrary: t) (auto simp: rows_of_def hidden_def blank_def filter_map comp_def split: if_splits)
  assume "hidden t = hidden u"
  with k [of t] k [of u] show ?thesis by (simp add: next_seq_def)
qed


lemma blank_fields [simp]: "di_ID (blank t d) = di_ID d" "di_Seq (blank t d) = di_Seq d" "di_AccountID (blank t d) = di_AccountID d"
  by (simp_all add: blank_def)

lemma hidden_ids: "hidden t = hidden u \<Longrightarrow> (\<exists>r \<in> set (tb_Dispatches t). di_ID r = i) \<longleftrightarrow> (\<exists>r \<in> set (tb_Dispatches u). di_ID r = i)"
proof -
  have k: "map di_ID (tb_Dispatches (hidden t)) = map di_ID (tb_Dispatches t)" for t
    by (simp add: hidden_def)
  assume "hidden t = hidden u"
  with k [of t] k [of u] have "set (map di_ID (tb_Dispatches t)) = set (map di_ID (tb_Dispatches u))" by simp
  moreover have "(\<exists>r \<in> set xs. di_ID r = i) \<longleftrightarrow> i \<in> set (map di_ID xs)" for xs :: "Dispatch list" by auto
  ultimately show ?thesis by (simp only:)
qed

lemma hidden_snoc:
  "hidden (t\<lparr>tb_Dispatches := tb_Dispatches t @ [d]\<rparr>) = (hidden t)\<lparr>tb_Dispatches := tb_Dispatches (hidden t) @ [blank t d]\<rparr>"
  by (simp add: hidden_def blank_def console_channel_def cong: map_cong if_cong)

lemma blank_same: "hidden t = hidden u \<Longrightarrow> console_channel t = console_channel u"
  by (drule hidden_bindings) (simp add: console_channel_def fun_eq_iff)

lemma enqueue_alike:
  assumes "hidden t = hidden u" and "p = p' \<or> console_channel t (di_Target d)"
  shows "case enqueue_dispatch known ctx (d\<lparr>di_Payload := p\<rparr>) t of
      Inl e \<Rightarrow> enqueue_dispatch known ctx (d\<lparr>di_Payload := p'\<rparr>) u = Inl e
    | Inr (q, t') \<Rightarrow> \<exists>u'. enqueue_dispatch known ctx (d\<lparr>di_Payload := p'\<rparr>) u = Inr (q, u') \<and> hidden t' = hidden u'"
proof (cases "ctx = None \<and> \<not> (\<exists>r \<in> set (tb_Dispatches t). di_ID r = di_ID d) \<and> known (di_SessionID d)")
  case False
  then show ?thesis using hidden_ids [OF assms(1), of "di_ID d"] by (cases ctx) (auto simp: enqueue_dispatch_def alive_def)
next
  case True
  let ?d = "\<lambda>p. d\<lparr>di_Payload := p, di_Seq := next_seq (di_AccountID d) t, di_DeliveredAt := None, di_PlatformMessageIDs := []\<rparr>"
  have "enqueue_dispatch known ctx (d\<lparr>di_Payload := p\<rparr>) t = Inr (next_seq (di_AccountID d) t, t\<lparr>tb_Dispatches := tb_Dispatches t @ [?d p]\<rparr>)"
    "enqueue_dispatch known ctx (d\<lparr>di_Payload := p'\<rparr>) u = Inr (next_seq (di_AccountID d) t, u\<lparr>tb_Dispatches := tb_Dispatches u @ [?d p']\<rparr>)"
    using True hidden_ids [OF assms(1), of "di_ID d"] hidden_next [OF assms(1)] by (simp_all add: enqueue_dispatch_def alive_def Let_def)
  moreover have "blank t (?d p) = blank u (?d p')" using assms(2) blank_same [OF assms(1)] by (auto simp: blank_def)
  ultimately show ?thesis using assms(1) by (simp add: hidden_snoc)
qed

definition dispatch_of :: "PjEnv \<Rightarrow> Run \<Rightarrow> ConversationRef \<Rightarrow> DispatchKind \<Rightarrow> Pj \<Rightarrow> Dispatch" where
  "dispatch_of env run target kind s =
     \<lparr>di_ID = rv_NewID (gv_Rt (pv_Gw env)) (rt_Tick (gw_Rt (pj_Gw s))), di_Seq = 0, di_AccountID = cr_AccountID target, di_SessionID = ru_SessionID run,
      di_RunID = ru_ID run, di_Target = target, di_Kind = kind, di_Payload = '''',
      di_CreatedAt = rv_Now (gv_Rt (pv_Gw env)) (Suc (rt_Tick (gw_Rt (pj_Gw s)))), di_DeliveredAt = None, di_PlatformMessageIDs = []\<rparr>"

definition ticked :: "Pj \<Rightarrow> Pj" where
  "ticked s = s\<lparr>pj_Gw := (pj_Gw s)\<lparr>gw_Rt := (gw_Rt (pj_Gw s))\<lparr>rt_Tick := Suc (Suc (rt_Tick (gw_Rt (pj_Gw s))))\<rparr>\<rparr>\<rparr>"

lemma pj_enqueue_step:
  "pj_enqueue env ctx run target kind payload s =
     (case enqueue_dispatch (known_in (pj_Gw s)) ctx ((dispatch_of env run target kind s)\<lparr>di_Payload := pv_Encode env payload\<rparr>) (pj_tables s) of
        Inl e \<Rightarrow> (Inl (FStore e), ticked s)
      | Inr (_, t) \<Rightarrow> (Inr (), (ticked s)\<lparr>pj_Gw := (pj_Gw (ticked s))\<lparr>gw_Tables := t\<rparr>\<rparr>))"
  by (simp add: pj_enqueue_def on_gw_def gw_ops new_id_def now_def dispatch_of_def ticked_def pj_tables_def known_in_def [abs_def] split: sum.split prod.split)

lemma alike_enqueue:
  assumes "hide s = hide t" and "p = p' \<or> console_channel (pj_tables s) target"
  shows "alike s t (pj_enqueue env ctx run target kind p) (pj_enqueue env ctx run target kind p')"
proof -
  have h: "gw_Rt (pj_Gw s) = gw_Rt (pj_Gw t)" "hidden (pj_tables s) = hidden (pj_tables t)" using assms(1) by (simp_all add: hide_eq)
  then have d: "dispatch_of env run target kind t = dispatch_of env run target kind s" "known_in (pj_Gw t) = known_in (pj_Gw s)"
    by (simp_all add: dispatch_of_def known_in_def [abs_def])
  have "hide (ticked s) = hide (ticked t)" using assms(1) by (simp add: hide_eq ticked_def pj_tables_def)
  moreover have "hide (x\<lparr>pj_Gw := (pj_Gw x)\<lparr>gw_Tables := a\<rparr>\<rparr>) = hide (y\<lparr>pj_Gw := (pj_Gw y)\<lparr>gw_Tables := b\<rparr>\<rparr>)"
    if "hide x = hide y" "hidden a = hidden b" for x y :: Pj and a b using that by (simp add: hide_eq pj_tables_def)
  moreover note both = calculation
  let ?e = "\<lambda>p. enqueue_dispatch (known_in (pj_Gw s)) ctx ((dispatch_of env run target kind s)\<lparr>di_Payload := pv_Encode env p\<rparr>)"
  have "pv_Encode env p = pv_Encode env p' \<or> console_channel (pj_tables s) (di_Target (dispatch_of env run target kind s))"
    using assms(2) by (auto simp: dispatch_of_def)
  note alike = enqueue_alike [OF h(2) this, of "known_in (pj_Gw s)" ctx]
  show ?thesis
  proof (cases "?e p (pj_tables s)")
    case (Inl e)
    with alike both(1) show ?thesis by (simp add: alike_def pj_enqueue_step d)
  next
    case (Inr x)
    then obtain q t1 where e: "?e p (pj_tables s) = Inr (q, t1)" by (cases x) simp
    with alike obtain u1 where "?e p' (pj_tables t) = Inr (q, u1)" "hidden t1 = hidden u1" by auto
    with e both(2) [OF both(1)] show ?thesis by (simp add: alike_def pj_enqueue_step d)
  qed
qed

lemma alike_upd: "hide s = hide t \<Longrightarrow> (\<And>u v. hide u = hide v \<Longrightarrow> hide (f u) = hide (f' v)) \<Longrightarrow> alike s t (upd f) (upd f')"
  by (simp add: alike_def upd_def)

lemma hide_record:
  assumes "hide s = hide t"
  shows "hide (on_record rid f s) = hide (on_record rid f t)" "hide (forget rid s) = hide (forget rid t)" "hide (accumulate mid x s) = hide (accumulate mid x t)"
  using assms by (simp_all add: hide_eq on_record_def record_of_def forget_def accumulate_def pj_tables_def)

lemma alike_now: "hide s = hide t \<Longrightarrow> alike s t (pj_now env) (pj_now env)"
  by (simp add: alike_def pj_now_def on_gw_def on_rt_def now_def hide_eq pj_tables_def)

lemma alike_close: "hide s = hide t \<Longrightarrow> alike s t (close_record env ctx run) (close_record env ctx run)"
  by (simp add: alike_def close_record_def summary_model_def hide_eq pj_tables_def split: option.split)

lemma alike_working: "hide s = hide t \<Longrightarrow> alike s t (should_say_working env rid) (should_say_working env rid)"
  unfolding should_say_working_def
  by (rule alike_pbind [OF alike_now]) (auto simp: alike_def hide_eq pj_tables_def split: option.split)

lemma alike_stream: "hide s = hide t \<Longrightarrow> alike s t (should_stream env mid) (should_stream env mid)"
  unfolding should_stream_def Let_def
  by (rule alike_pbind [OF alike_now]) (auto simp: alike_def hide_eq pj_tables_def split: option.split)

lemma same_bindings: "hide s = hide t \<Longrightarrow> tb_Bindings (pj_tables s) = tb_Bindings (pj_tables t)"
  by (rule hidden_bindings) (simp add: hide_eq)

lemma same_reading:
  assumes "hide s = hide t"
  shows "binding_of ctx target s = binding_of ctx target t" "is_console ctx target s = is_console ctx target t"
    "approval_route ctx target s = approval_route ctx target t" "console_targets ctx s = console_targets ctx t"
    "never_started rid s = never_started rid t" "peek mid s = peek mid t"
proof -
  show b: "binding_of ctx target s = binding_of ctx target t" using same_bindings [OF assms] by (simp add: binding_of_def get_binding_def)
  then show "is_console ctx target s = is_console ctx target t" "approval_route ctx target s = approval_route ctx target t"
    by (simp_all add: is_console_def approval_route_def)
  show "console_targets ctx s = console_targets ctx t" using same_bindings [OF assms] by (simp add: console_targets_def list_bindings_def)
  show "never_started rid s = never_started rid t" "peek mid s = peek mid t" using assms by (simp_all add: hide_eq never_started_def peek_def)
qed

lemma console_is_channel: "is_console ctx target s \<Longrightarrow> console_channel (pj_tables s) target"
  by (auto simp: is_console_def binding_of_def console_channel_def get_binding_def alive_def find_Some_iff split: sum.splits option.splits)

lemma targets_are_channels: "c \<in> set (console_targets ctx s) \<Longrightarrow> console_channel (pj_tables s) c"
  by (auto simp: console_targets_def list_bindings_def alive_def console_channel_def channel_of_def split: sum.splits option.splits)

lemma alike_all:
  assumes "hide s = hide t" "\<forall>c \<in> set targets. console_channel (pj_tables s) c"
  shows "alike s t (enqueue_all env ctx run targets kind p) (enqueue_all env ctx run targets kind p')"
  using assms
proof (induction targets arbitrary: s t)
  case (Cons c targets)
  have kept: "tb_Bindings (pj_tables (snd (pj_enqueue env ctx run c kind p s))) = tb_Bindings (pj_tables s)"
    by (auto simp: pj_enqueue_step ticked_def pj_tables_def enqueue_dispatch_def alive_def Let_def split: sum.splits option.splits if_splits)
  have step: "alike s t (pj_enqueue env ctx run c kind p) (pj_enqueue env ctx run c kind p')"
    by (rule alike_enqueue) (use Cons.prems in simp_all)
  obtain r s1 r' t1 where m: "pj_enqueue env ctx run c kind p s = (r, s1)" "pj_enqueue env ctx run c kind p' t = (r', t1)" by fastforce
  with step have "r' = r" "hide s1 = hide t1" by (auto simp: alike_def)
  moreover have "\<forall>c \<in> set targets. console_channel (pj_tables s1) c"
    using Cons.prems(2) kept m by (simp add: console_channel_def)
  ultimately show ?case using Cons.IH [of s1 t1] m by (cases r) (auto simp: alike_def pbind_def)
qed (simp add: alike_pok)

lemma alike_sym: "alike s t m m' \<Longrightarrow> alike t s m' m"
  by (simp add: alike_def)

lemma alike_trans: "alike s t m m' \<Longrightarrow> alike t u m' m'' \<Longrightarrow> alike s u m m''"
  by (simp add: alike_def)

lemma alike_line: "hide s = hide t \<Longrightarrow> alike s t (working_line env ctx run target detail) (working_line env ctx run target detail)"
  unfolding working_line_def
  by (rule alike_pbind [OF alike_working]) (auto intro: alike_pok alike_enqueue)

lemma alike_mirror:
  assumes "hide s = hide t" "described (ev_Payload e) = None \<longleftrightarrow> described (ev_Payload e') = None"
  shows "alike s t (mirror_to_consoles env ctx run e) (mirror_to_consoles env ctx run e')"
proof (cases "described (ev_Payload e)")
  case None
  with assms show ?thesis by (simp add: alike_def mirror_to_consoles_def describe_event_def)
next
  case (Some l)
  with assms(2) obtain l' where "described (ev_Payload e') = Some l'" by auto
  with Some have "\<exists>p p'. mirror_to_consoles env ctx run e s = enqueue_all env ctx run (console_targets ctx s) DispatchLog p s \<and>
      mirror_to_consoles env ctx run e' t = enqueue_all env ctx run (console_targets ctx t) DispatchLog p' t"
    by (auto simp: mirror_to_consoles_def describe_event_def)
  moreover have "alike s t (enqueue_all env ctx run (console_targets ctx s) DispatchLog p) (enqueue_all env ctx run (console_targets ctx s) DispatchLog p')" for p p'
    using assms(1) targets_are_channels by (intro alike_all) auto
  ultimately show ?thesis using same_reading(4) [OF assms(1)] by (auto simp: alike_def)
qed

lemma described_parts: "described (own_part p) = None \<longleftrightarrow> described p = None" "described (worker_part p) = None \<longleftrightarrow> described p = None"
  by (cases p; simp)+

lemma completed_part: "completed (p\<lparr>tc_Summary := a, tc_Content := b, tc_Truncated := c, tc_Foreign := d, tc_From := f, tc_Artifact := g\<rparr>) = completed p"
  by (simp add: completed_def used_once_more_def fun_eq_iff Let_def split: option.split)

lemma note_call_parts:
  "note_call env run (e\<lparr>ev_Payload := own_part (ev_Payload e)\<rparr>) s = note_call env run e s"
  "note_call env run (e\<lparr>ev_Payload := worker_part (ev_Payload e)\<rparr>) s = note_call env run e s"
  by (cases "ev_Payload e"; simp add: note_call_def completed_part)+

lemma parent_part: "observe_for_parent env ctx run target (e\<lparr>ev_Payload := worker_part (ev_Payload e)\<rparr>) = observe_for_parent env ctx run target e"
  by (cases "ev_Payload e"; simp add: observe_for_parent_def)

lemma hide_note: "hide s = hide t \<Longrightarrow> hide (note_call env run e s) = hide (note_call env run e t)"
proof -
  have f: "hide s = hide t \<Longrightarrow> hide (fold (\<lambda>rid. on_record rid f) rids s) = hide (fold (\<lambda>rid. on_record rid f) rids t)" for rids f and s t :: Pj
  proof (induction rids arbitrary: s t)
    case (Cons rid rids)
    from Cons.IH [OF hide_record(1) [OF Cons.prems]] show ?case by simp
  qed simp
  assume "hide s = hide t"
  then show ?thesis by (cases "ev_Payload e") (auto simp: note_call_def intro: f)
qed

lemma alike_if:
  assumes "C s \<longleftrightarrow> C' t" "alike s t A A'" "alike s t B B'"
  shows "alike s t (\<lambda>s. if C s then A s else B s) (\<lambda>s. if C' s then A' s else B' s)"
  using assms by (cases "C s") (simp_all add: alike_def)

lemma alike_state:
  assumes "hide s = hide t" and "rs_Status p = rs_Status p'" "rs_FailureKind p = rs_FailureKind p'"
  shows "alike s t (observe_state env ctx run target p) (observe_state env ctx run target p')"
proof -
  have e: "alike u v (pj_enqueue env ctx run target DispatchStatus x) (pj_enqueue env ctx run target DispatchStatus x)" if "hide u = hide v" for u v x
    using that by (simp add: alike_enqueue)
  have alike_bad: "alike s t (\<lambda>s.
        if rs_Status p = RunCancelled \<and> never_started (ru_ID run) s
        then pbind (close_record env ctx run) (\<lambda>_. pj_enqueue env ctx run target DispatchStatus (said_status ''withdrawn'' ''taken back before it was answered'')) s
        else pbind (close_record env ctx run) (\<lambda>summary s.
          pj_enqueue env ctx run target DispatchStatus (SaidStatus \<lparr>sp_State = status_text (rs_Status p),
            sp_Detail = (if is_console ctx target s \<and> rs_Reason p \<noteq> '''' then rs_Reason p else explain_failure (rs_FailureKind p)),
            sp_DurationMS = 0, sp_Summary = summary\<rparr>) s) s) (\<lambda>s.
        if rs_Status p = RunCancelled \<and> never_started (ru_ID run) s
        then pbind (close_record env ctx run) (\<lambda>_. pj_enqueue env ctx run target DispatchStatus (said_status ''withdrawn'' ''taken back before it was answered'')) s
        else pbind (close_record env ctx run) (\<lambda>summary s.
          pj_enqueue env ctx run target DispatchStatus (SaidStatus \<lparr>sp_State = status_text (rs_Status p),
            sp_Detail = (if is_console ctx target s \<and> rs_Reason p' \<noteq> '''' then rs_Reason p' else explain_failure (rs_FailureKind p)),
            sp_DurationMS = 0, sp_Summary = summary\<rparr>) s) s)"
  proof (rule alike_if)
    show "(rs_Status p = RunCancelled \<and> never_started (ru_ID run) s) \<longleftrightarrow> (rs_Status p = RunCancelled \<and> never_started (ru_ID run) t)"
      using same_reading(5) [OF assms(1)] by simp
    show "alike s t (pbind (close_record env ctx run) (\<lambda>_. pj_enqueue env ctx run target DispatchStatus (said_status ''withdrawn'' ''taken back before it was answered'')))
      (pbind (close_record env ctx run) (\<lambda>_. pj_enqueue env ctx run target DispatchStatus (said_status ''withdrawn'' ''taken back before it was answered'')))"
      by (rule alike_pbind [OF alike_close [OF assms(1)]]) (rule e)
    show "alike s t (pbind (close_record env ctx run) (\<lambda>summary s. pj_enqueue env ctx run target DispatchStatus (SaidStatus \<lparr>sp_State = status_text (rs_Status p),
            sp_Detail = (if is_console ctx target s \<and> rs_Reason p \<noteq> '''' then rs_Reason p else explain_failure (rs_FailureKind p)),
            sp_DurationMS = 0, sp_Summary = summary\<rparr>) s))
      (pbind (close_record env ctx run) (\<lambda>summary s. pj_enqueue env ctx run target DispatchStatus (SaidStatus \<lparr>sp_State = status_text (rs_Status p),
            sp_Detail = (if is_console ctx target s \<and> rs_Reason p' \<noteq> '''' then rs_Reason p' else explain_failure (rs_FailureKind p)),
            sp_DurationMS = 0, sp_Summary = summary\<rparr>) s))"
    proof (rule alike_pbind [OF alike_close [OF assms(1)]])
      fix summary u v assume uv: "hide u = hide v"
      let ?x = "\<lambda>r c. SaidStatus \<lparr>sp_State = status_text (rs_Status p), sp_Detail = (if c \<and> r \<noteq> '''' then r else explain_failure (rs_FailureKind p)),
        sp_DurationMS = 0, sp_Summary = summary\<rparr>"
      have "alike u v (pj_enqueue env ctx run target DispatchStatus (?x (rs_Reason p) (is_console ctx target u)))
          (pj_enqueue env ctx run target DispatchStatus (?x (rs_Reason p') (is_console ctx target u)))"
        using uv console_is_channel [of ctx target u] by (intro alike_enqueue) auto
      then show "alike u v (\<lambda>s. pj_enqueue env ctx run target DispatchStatus (?x (rs_Reason p) (is_console ctx target s)) s)
          (\<lambda>s. pj_enqueue env ctx run target DispatchStatus (?x (rs_Reason p') (is_console ctx target s)) s)"
        using same_reading(2) [OF uv] by (simp add: alike_def)
    qed
  qed
  note st = assms(2,3) [symmetric]
  consider (bad) "rs_Status p = RunFailed \<or> rs_Status p = RunCancelled" | (queued) "rs_Status p = RunQueued" | (running) "rs_Status p = RunRunning"
    | (finished) "rs_Status p = RunCompleted" | (other) "rs_Status p \<notin> {RunFailed, RunCancelled, RunQueued, RunRunning, RunCompleted}" by blast
  then show ?thesis
  proof cases
    case bad
    then have "observe_state env ctx run target q = (\<lambda>s.
        if rs_Status p = RunCancelled \<and> never_started (ru_ID run) s
        then pbind (close_record env ctx run) (\<lambda>_. pj_enqueue env ctx run target DispatchStatus (said_status ''withdrawn'' ''taken back before it was answered'')) s
        else pbind (close_record env ctx run) (\<lambda>summary s.
          pj_enqueue env ctx run target DispatchStatus (SaidStatus \<lparr>sp_State = status_text (rs_Status p),
            sp_Detail = (if is_console ctx target s \<and> rs_Reason q \<noteq> '''' then rs_Reason q else explain_failure (rs_FailureKind p)),
            sp_DurationMS = 0, sp_Summary = summary\<rparr>) s) s)"
      if "rs_Status q = rs_Status p" "rs_FailureKind q = rs_FailureKind p" for q
      unfolding observe_state_def Let_def that using bad by (auto simp: fun_eq_iff)
    with alike_bad st show ?thesis by simp
  next
    case other
    then have "observe_state env ctx run target q = pok ()" if "rs_Status q = rs_Status p" for q
      using that by (cases "rs_Status p") (auto simp: observe_state_def Let_def)
    with st alike_pok [OF assms(1)] show ?thesis by simp
  next
    case queued
    then show ?thesis unfolding observe_state_def Let_def st queued RunStatus.case
      by (intro alike_pbind alike_upd assms(1) hide_record e)
  next
    case running
    then show ?thesis unfolding observe_state_def Let_def st running RunStatus.case
      by (intro alike_pbind alike_upd assms(1) hide_record e)
  next
    case finished
    then show ?thesis unfolding observe_state_def Let_def st finished RunStatus.case
      by (intro alike_pbind alike_upd alike_close alike_now assms(1) hide_record e)
  qed
qed

lemma hide_take: "hide s = hide t \<Longrightarrow> fst (take_text mid s) = fst (take_text mid t) \<and> hide (snd (take_text mid s)) = hide (snd (take_text mid t))"
  by (simp add: take_text_def hide_eq pj_tables_def split: option.split)

lemma alike_delta:
  assumes "hide s = hide t" and e: "ev_Payload e = PAssistantTextDelta p" "ev_Payload e' = PAssistantTextDelta p"
  shows "alike s t (observe_own env ctx run target e) (observe_own env ctx run target e')"
proof -
  have say: "alike u v (\<lambda>s. if \<not> stream then (Inr (), s)
            else pj_enqueue env ctx run target DispatchMessage (SaidMessage \<lparr>mp_Text = peek mid s, mp_MessageID = mid, mp_Final = False, mp_File = None\<rparr>) s)
          (\<lambda>s. if \<not> stream then (Inr (), s)
            else pj_enqueue env ctx run target DispatchMessage (SaidMessage \<lparr>mp_Text = peek mid s, mp_MessageID = mid, mp_Final = False, mp_File = None\<rparr>) s)"
    if "hide u = hide v" for u v stream mid
    using that same_reading(6) [OF that, of mid] alike_enqueue [OF that] by (auto simp: alike_def)
  show ?thesis unfolding observe_own_def e EventPayload.case
    by (intro alike_pbind alike_upd hide_record assms(1) alike_stream say)
qed

lemma alike_answer:
  assumes "hide s = hide t" and e: "ev_Payload e = PAssistantMessageCompleted p" "ev_Payload e' = PAssistantMessageCompleted (p\<lparr>mc_StopReason := r\<rparr>)"
  shows "alike s t (observe_own env ctx run target e) (observe_own env ctx run target e')"
proof -
  obtain b u b' v where t: "take_text (mc_MessageID p) s = (b, u)" "take_text (mc_MessageID p) t = (b', v)" by fastforce
  with hide_take [OF assms(1), of "mc_MessageID p"] have same: "b' = b" "hide u = hide v" by simp_all
  let ?say = "pj_enqueue env ctx run target DispatchMessage (SaidMessage \<lparr>mp_Text = b, mp_MessageID = mc_MessageID p, mp_Final = True, mp_File = None\<rparr>)"
  have "alike (on_record (ru_ID run) (\<lambda>r. r\<lparr>rr_said := True\<rparr>) u) (on_record (ru_ID run) (\<lambda>r. r\<lparr>rr_said := True\<rparr>) v) ?say ?say"
    by (intro alike_enqueue hide_record same) simp
  with same t e show ?thesis by (simp add: observe_own_def alike_def)
qed

lemma alike_reading:
  assumes "hide s = hide t" "g s = g t"
  shows "alike s t (\<lambda>s. pj_enqueue env ctx run target kind (f (g s)) s) (\<lambda>s. pj_enqueue env ctx run target kind (f (g s)) s)"
  using alike_enqueue [OF assms(1), of "f (g s)" "f (g s)" target env ctx run kind] assms(2) by (simp add: alike_def)

lemma alike_own: "hide s = hide t \<Longrightarrow> alike s t (observe_own env ctx run target e) (observe_own env ctx run target (e\<lparr>ev_Payload := own_part (ev_Payload e)\<rparr>))"
proof -
  assume h: "hide s = hide t"
  note rules = alike_pok alike_upd alike_enqueue alike_line hide_record h
  show ?thesis
  proof (cases "ev_Payload e")
    case (PAssistantTextDelta p)
    show ?thesis by (rule alike_delta [OF h PAssistantTextDelta]) (simp add: PAssistantTextDelta)
  next
    case (PAssistantMessageCompleted p)
    show ?thesis by (rule alike_answer [OF h PAssistantMessageCompleted, where r = StopUnknown]) (simp add: PAssistantMessageCompleted)
  next
    case (PApprovalRequested p)
    with alike_reading [where kind = DispatchApproval and s = s and t = t and env = env and run = run and ctx = ctx and target = target and g = "approval_route ctx target" and f = "\<lambda>r. SaidApproval \<lparr>app_ApprovalID = aq_ApprovalID p, app_ToolName = aq_ToolName p,
            app_Summary = aq_Summary p, app_Effects = aq_Effects p, app_ReadForeign = aq_ReadForeign p, app_Route = r\<rparr>", OF h same_reading(3) [OF h]]
    show ?thesis by (simp add: observe_own_def)
  next
    case (PQuestionAsked p)
    with alike_reading [where kind = DispatchQuestion and s = s and t = t and env = env and run = run and ctx = ctx and target = target and g = "is_console ctx target" and f = "\<lambda>here. SaidQuestion \<lparr>qp_QuestionID = qa_QuestionID p, qp_Prompt = qa_Prompt p,
              qp_Kind = qa_Kind p, qp_Options = qa_Options p, qp_AnswerableHere = here\<rparr>", OF h same_reading(2) [OF h]]
    show ?thesis by (simp add: observe_own_def)
  next
    case (PRunStateChanged p)
    have "alike s t (observe_state env ctx run target p) (observe_state env ctx run target (p\<lparr>rs_Reason := ''''\<rparr>))"
      by (rule alike_state [OF h]) simp_all
    with PRunStateChanged show ?thesis by (simp add: observe_own_def)
  qed (auto simp: observe_own_def Let_def intro!: rules)
qed

lemma alike_observe:
  assumes "hide s = hide t" and "public_part run e = public_part run e'"
  shows "alike s t (observe env ctx run e) (observe env ctx run e')"
proof -
  let ?part = "if is_worker run then worker_part else own_part"
  let ?p = "\<lambda>e. e\<lparr>ev_Payload := ?part (ev_Payload e)\<rparr>"
  have parts: "?part (ev_Payload e) = ?part (ev_Payload e')" "ev_Seq e = ev_Seq e'" using assms(2) by (simp_all add: public_part_def)
  have "note_call env run (?p e) s = note_call env run (?p e') s" for s using parts by (simp add: note_call_def cong: EventPayload.case_cong)
  then have "note_call env run e s = note_call env run e' s" for s
    using note_call_parts [of env run e s] note_call_parts [of env run e' s] by (cases "is_worker run") simp_all
  then have note_call: "hide (note_call env run e u) = hide (note_call env run e' v)" if "hide u = hide v" for u v
    using hide_note [OF that, of env run e] by simp
  have "described (?part (ev_Payload e)) = None \<longleftrightarrow> described (?part (ev_Payload e')) = None" using parts by simp
  then have mirror: "alike u v (mirror_to_consoles env ctx run e) (mirror_to_consoles env ctx run e')" if "hide u = hide v" for u v
    using alike_mirror [OF that] described_parts by (cases "is_worker run") simp_all
  have rest: "alike u v (if is_worker run then observe_for_parent env ctx run target e else observe_own env ctx run target e)
      (if is_worker run then observe_for_parent env ctx run target e' else observe_own env ctx run target e')" if h: "hide u = hide v" for u v target
  proof (cases "is_worker run")
    case True
    with parts have "observe_for_parent env ctx run target (?p e) = observe_for_parent env ctx run target (?p e')" by (simp add: observe_for_parent_def)
    with True have same: "observe_for_parent env ctx run target e = observe_for_parent env ctx run target e'"
      using parent_part [of env ctx run target] by simp
    have "alike u v (observe_for_parent env ctx run target e) (observe_for_parent env ctx run target e)"
      using h by (cases "ev_Payload e") (auto simp: observe_for_parent_def Let_def intro: alike_pok alike_enqueue alike_line)
    with True same show ?thesis by simp
  next
    case False
    with parts have eq: "observe_own env ctx run target (e\<lparr>ev_Payload := own_part (ev_Payload e)\<rparr>) =
        observe_own env ctx run target (e'\<lparr>ev_Payload := own_part (ev_Payload e')\<rparr>)" by (simp add: observe_own_def)
    note undo = alike_sym [OF alike_own [OF refl, of v env ctx run target e'], folded eq]
    show ?thesis using False alike_trans [OF alike_own [OF h] undo] by simp
  qed
  have "alike u v (case external_target env run of None \<Rightarrow> pok () | Some target \<Rightarrow> pbind (mirror_to_consoles env ctx run e) (\<lambda>_.
        if is_worker run then observe_for_parent env ctx run target e else observe_own env ctx run target e))
      (case external_target env run of None \<Rightarrow> pok () | Some target \<Rightarrow> pbind (mirror_to_consoles env ctx run e') (\<lambda>_.
        if is_worker run then observe_for_parent env ctx run target e' else observe_own env ctx run target e'))" if "hide u = hide v" for u v
    by (cases "external_target env run") (simp_all only: option.case, rule alike_pok [OF that], rule alike_pbind [OF mirror [OF that] rest])
  then show ?thesis unfolding observe_def is_worker_def [symmetric]
    by (intro alike_pbind alike_upd assms(1) note_call)
qed

fun observe_all :: "PjEnv \<Rightarrow> Ctx \<Rightarrow> (Run \<times> Event) list \<Rightarrow> Pj \<Rightarrow> (GwFail + unit) list \<times> Pj" where
  "observe_all env ctx [] s = ([], s)"
| "observe_all env ctx ((run, e) # xs) s =
     (case observe env ctx run e s of (r, t) \<Rightarrow> (case observe_all env ctx xs t of (rs, u) \<Rightarrow> (r # rs, u)))"

lemma observe_all_Cons:
  "fst (observe_all env ctx ((run, e) # xs) s) = fst (observe env ctx run e s) # fst (observe_all env ctx xs (snd (observe env ctx run e s)))"
  "snd (observe_all env ctx ((run, e) # xs) s) = snd (observe_all env ctx xs (snd (observe env ctx run e s)))"
  by (simp_all add: case_prod_beta)

definition room_rows :: "Tables \<Rightarrow> Dispatch list" where
  "room_rows t = filter (\<lambda>d. \<not> console_channel t (di_Target d)) (tb_Dispatches t)"

lemma blank_target [simp]: "di_Target (blank t d) = di_Target d"
  by (simp add: blank_def)

lemma room_rows_hidden: "hidden t = hidden u \<Longrightarrow> room_rows t = room_rows u"
proof -
  have k: "room_rows t = filter (\<lambda>d. \<not> console_channel t (di_Target d)) (tb_Dispatches (hidden t))" for t
    unfolding room_rows_def hidden_def
    by (induction "tb_Dispatches t") (auto simp: filter_map comp_def blank_def intro: map_idI [symmetric])
  assume h: "hidden t = hidden u"
  with k [of t] k [of u] blank_same [OF h] show ?thesis by simp
qed

lemma alike_all_observed:
  assumes "hide s = hide t" and "map (\<lambda>(run, e). (run, public_part run e)) xs = map (\<lambda>(run, e). (run, public_part run e)) ys"
  shows "fst (observe_all env ctx xs s) = fst (observe_all env ctx ys t) \<and> hide (snd (observe_all env ctx xs s)) = hide (snd (observe_all env ctx ys t))"
  using assms
proof (induction xs arbitrary: s t ys)
  case (Cons x xs)
  obtain run e where x: "x = (run, e)" by (cases x)
  with Cons.prems(2) obtain e' ys' where y: "ys = (run, e') # ys'" "public_part run e = public_part run e'"
    "map (\<lambda>(run, e). (run, public_part run e)) xs = map (\<lambda>(run, e). (run, public_part run e)) ys'"
    by (cases ys) auto
  note step = alike_observe [OF Cons.prems(1) y(2), of env ctx, unfolded alike_def]
  from Cons.IH [OF conjunct2 [OF step] y(3)] step show ?case unfolding x y(1) observe_all_Cons by simp
qed simp

text \<open>C2. Rooms learn only what is public of a run. When two histories of events agree, event for event, in the run, in the position and
  in the public part of what happened, then observing them puts exactly the same messages, in the same order and
  with the same content, before every channel that is no console, and fails alike. So nothing of the rest, the
  thinking, what tools printed, a provider's own words about a failure, a worker's text, other people's messages,
  memories and summaries, reaches a room, not even through the order or number of what is said there.\<close>

theorem rooms_learn_only_the_public_part:
  assumes "map (\<lambda>(run, e). (run, public_part run e)) xs = map (\<lambda>(run, e). (run, public_part run e)) ys"
  shows "fst (observe_all env ctx xs s) = fst (observe_all env ctx ys s) \<and>
    room_rows (pj_tables (snd (observe_all env ctx xs s))) = room_rows (pj_tables (snd (observe_all env ctx ys s)))"
proof -
  note a = alike_all_observed [OF refl assms, of env ctx s]
  then have "hidden (pj_tables (snd (observe_all env ctx xs s))) = hidden (pj_tables (snd (observe_all env ctx ys s)))" by (simp add: hide_eq)
  from room_rows_hidden [OF this] a show ?thesis by simp
qed

subsection \<open>What a summary accounts for\<close>

text \<open>The record of a run after calls that were made and completed, in their order.\<close>

datatype call_event = Made ToolCallRequested | Done ToolCallCompleted Seq

fun after_calls :: "(string \<Rightarrow> string \<Rightarrow> string option) \<Rightarrow> call_event list \<Rightarrow> RunRecord \<Rightarrow> RunRecord" where
  "after_calls argument [] r = r"
| "after_calls argument (Made p # es) r = after_calls argument es (requested argument p r)"
| "after_calls argument (Done p q # es) r = after_calls argument es (completed p q r)"

definition done_calls :: "call_event list \<Rightarrow> ToolCallCompleted list" where
  "done_calls es = List.map_filter (\<lambda>e. case e of Done p _ \<Rightarrow> Some p | Made _ \<Rightarrow> None) es"

text \<open>What the account of one tool says about the calls that ended.\<close>

definition accounts_for :: "ToolTally \<Rightarrow> ToolCallCompleted list \<Rightarrow> bool" where
  "accounts_for use ps \<longleftrightarrow> (let mine = filter (\<lambda>p. tc_Name p = tuse_Name use) ps in
     mine \<noteq> [] \<and> tuse_Calls use = int (length mine) \<and> tuse_Failed use = int (length (filter tc_IsError mine)) \<and>
     tuse_Milliseconds use = sum_list (map tc_DurationMS mine) \<and> tuse_SlowestMS use = foldl max 0 (map tc_DurationMS mine))"

definition tools_ok :: "(string, ToolTally) gomap \<Rightarrow> ToolCallCompleted list \<Rightarrow> bool" where
  "tools_ok m ps \<longleftrightarrow> gm_keyed tuse_Name m \<and> (\<forall>name. (gm_get m name = None \<longleftrightarrow> (\<forall>p \<in> set ps. tc_Name p \<noteq> name)) \<and>
     (\<forall>use. gm_get m name = Some use \<longrightarrow> accounts_for use ps))"

lemma completed_tools: "rr_tools (completed p q r) = gm_set (rr_tools r) (tc_Name p) (used_once_more p
    (case gm_get (rr_tools r) (tc_Name p) of Some use \<Rightarrow> use
      | None \<Rightarrow> \<lparr>tuse_Name = tc_Name p, tuse_Calls = 0, tuse_Failed = 0, tuse_Milliseconds = 0, tuse_SlowestMS = 0\<rparr>))"
  by (auto simp: completed_def Let_def split: option.split)

lemma tools_ok_completed:
  assumes "tools_ok (rr_tools r) ps"
  shows "tools_ok (rr_tools (completed p q r)) (ps @ [p])"
proof -
  let ?use = "case gm_get (rr_tools r) (tc_Name p) of Some use \<Rightarrow> use
      | None \<Rightarrow> \<lparr>tuse_Name = tc_Name p, tuse_Calls = 0, tuse_Failed = 0, tuse_Milliseconds = 0, tuse_SlowestMS = 0\<rparr>"
  have name: "tuse_Name ?use = tc_Name p" using assms by (auto simp: tools_ok_def gm_keyed_def split: option.split)
  have new: "accounts_for (used_once_more p ?use) (ps @ [p])"
  proof (cases "gm_get (rr_tools r) (tc_Name p)")
    case None
    with assms have "filter (\<lambda>x. tc_Name x = tc_Name p) ps = []" by (auto simp: tools_ok_def filter_empty_conv)
    with None show ?thesis by (simp add: accounts_for_def used_once_more_def Let_def max_def)
  next
    case (Some use)
    with assms have "accounts_for use ps" by (simp add: tools_ok_def)
    with Some name show ?thesis by (simp add: accounts_for_def used_once_more_def Let_def max_def)
  qed
  have old: "accounts_for use (ps @ [p])" if "gm_get (rr_tools r) x = Some use" "x \<noteq> tc_Name p" for x use
    using assms that by (auto simp: tools_ok_def accounts_for_def Let_def gm_keyed_def)
  have "gm_keyed tuse_Name (gm_set (rr_tools r) (tc_Name p) (used_once_more p ?use))"
    using assms name by (auto simp: tools_ok_def gm_keyed_def used_once_more_def)
  with new old assms show ?thesis by (auto simp: tools_ok_def completed_tools)
qed


lemma after_calls_snoc:
  "after_calls argument (es @ [e]) r = (case e of Made p \<Rightarrow> requested argument p (after_calls argument es r) | Done p q \<Rightarrow> completed p q (after_calls argument es r))"
  by (induction argument es r rule: after_calls.induct) (simp_all split: call_event.split)

lemma done_calls_snoc: "done_calls (es @ [e]) = done_calls es @ (case e of Made _ \<Rightarrow> [] | Done p _ \<Rightarrow> [p])"
  by (simp add: done_calls_def map_filter_def split: call_event.split)

lemma requested_parts: "rr_tools (requested argument p r) = rr_tools r" "rr_sources (requested argument p r) = rr_sources r"
  by (simp_all add: requested_def split: option.split)

lemma tools_after_calls: "tools_ok (rr_tools (after_calls argument es new_run_record)) (done_calls es)"
proof (induction es rule: rev_induct)
  case Nil
  show ?case by (simp add: tools_ok_def new_run_record_def done_calls_def map_filter_def gm_get_def)
next
  case (snoc e es)
  then show ?case by (cases e) (simp_all add: after_calls_snoc done_calls_snoc requested_parts tools_ok_completed)
qed

text \<open>Where a source came from: a call that names it, and that call ending well, later.\<close>

definition drawn_from :: "(string \<Rightarrow> string \<Rightarrow> string option) \<Rightarrow> call_event list \<Rightarrow> string \<times> string \<times> Seq \<Rightarrow> bool" where
  "drawn_from argument es src \<longleftrightarrow> (\<exists>a p b c d. es = a @ Made p # b @ Done c (snd (snd src)) # d \<and>
     source_of argument (tq_Name p) (tq_Arguments p) = Some (fst src, fst (snd src)) \<and> tc_CallID c = tq_CallID p \<and> \<not> tc_IsError c)"

definition awaited :: "(string \<Rightarrow> string \<Rightarrow> string option) \<Rightarrow> call_event list \<Rightarrow> ToolCallID \<Rightarrow> string \<times> string \<Rightarrow> bool" where
  "awaited argument es cid src \<longleftrightarrow> (\<exists>a p b. es = a @ Made p # b \<and> source_of argument (tq_Name p) (tq_Arguments p) = Some src \<and> tq_CallID p = cid)"

lemma drawn_later: "drawn_from argument es src \<Longrightarrow> drawn_from argument (es @ [e]) src"
  unfolding drawn_from_def by fastforce

lemma awaited_later: "awaited argument es cid src \<Longrightarrow> awaited argument (es @ [e]) cid src"
  unfolding awaited_def by fastforce

lemma completed_sources: "rr_pending (completed p q r) = gm_del (rr_pending r) (tc_CallID p)"
  "rr_sources (completed p q r) = rr_sources r \<or> (\<exists>kind ref. gm_get (rr_pending r) (tc_CallID p) = Some (kind, ref) \<and> \<not> tc_IsError p \<and>
     (kind, ref) \<notin> (\<lambda>(k, f, _). (k, f)) ` set (rr_sources r) \<and> rr_sources (completed p q r) = rr_sources r @ [(kind, ref, q)])"
  by (auto simp: completed_def Let_def split: option.split)

lemma sources_after_calls:
  "distinct (map (\<lambda>(k, f, _). (k, f)) (rr_sources (after_calls argument es new_run_record))) \<and>
   (\<forall>src \<in> set (rr_sources (after_calls argument es new_run_record)). drawn_from argument es src) \<and>
   (\<forall>cid src. gm_get (rr_pending (after_calls argument es new_run_record)) cid = Some src \<longrightarrow> awaited argument es cid src)"
proof (induction es rule: rev_induct)
  case Nil
  show ?case by (simp add: new_run_record_def gm_get_def)
next
  case (snoc e es)
  let ?r = "after_calls argument es new_run_record"
  have kept: "awaited argument (es @ [x]) cid src" if "gm_get (rr_pending ?r) cid = Some src" for x cid src
    using snoc that awaited_later by blast
  show ?case
  proof (cases e)
    case (Made p)
    have new: "awaited argument (es @ [Made p]) (tq_CallID p) src" if "source_of argument (tq_Name p) (tq_Arguments p) = Some src" for src
      using that unfolding awaited_def by blast
    have "gm_get (rr_pending (requested argument p ?r)) cid = Some src \<Longrightarrow> awaited argument (es @ [Made p]) cid src" for cid src
      using kept new by (cases "source_of argument (tq_Name p) (tq_Arguments p)") (simp_all add: requested_def split: if_splits)
    with snoc Made show ?thesis by (auto simp: after_calls_snoc requested_parts intro: drawn_later)
  next
    case (Done p q)
    have pending: "gm_get (rr_pending (completed p q ?r)) cid = Some src \<Longrightarrow> awaited argument (es @ [e]) cid src" for cid src
      using kept [of cid src] by (simp add: completed_sources(1) split: if_splits)
    have new: "drawn_from argument (es @ [e]) (kind, ref, q)" if "gm_get (rr_pending ?r) (tc_CallID p) = Some (kind, ref)" "\<not> tc_IsError p" for kind ref
    proof -
      from snoc that(1) have "awaited argument es (tc_CallID p) (kind, ref)" by blast
      then obtain a m b where "es = a @ Made m # b" "source_of argument (tq_Name m) (tq_Arguments m) = Some (kind, ref)" "tq_CallID m = tc_CallID p"
        by (auto simp: awaited_def)
      with that(2) Done show ?thesis unfolding drawn_from_def by fastforce
    qed
    from completed_sources(2) [of p q ?r] show ?thesis
    proof
      assume "rr_sources (completed p q ?r) = rr_sources ?r"
      with snoc Done pending show ?thesis by (auto simp: after_calls_snoc intro: drawn_later)
    next
      assume "\<exists>kind ref. gm_get (rr_pending ?r) (tc_CallID p) = Some (kind, ref) \<and> \<not> tc_IsError p \<and>
        (kind, ref) \<notin> (\<lambda>(k, f, _). (k, f)) ` set (rr_sources ?r) \<and> rr_sources (completed p q ?r) = rr_sources ?r @ [(kind, ref, q)]"
      then obtain kind ref where s: "gm_get (rr_pending ?r) (tc_CallID p) = Some (kind, ref)" "\<not> tc_IsError p"
        "(kind, ref) \<notin> (\<lambda>(k, f, _). (k, f)) ` set (rr_sources ?r)" "rr_sources (completed p q ?r) = rr_sources ?r @ [(kind, ref, q)]" by blast
      from new [OF s(1,2)] snoc s(3,4) pending Done show ?thesis by (auto simp: after_calls_snoc intro: drawn_later)
    qed
  qed
qed

interpretation tool_order: sort_less tool_use_less
  by unfold_locales (auto simp: tool_use_less_def split: if_splits)

text \<open>The part of a record its calls decide.\<close>

definition accounted :: "RunRecord \<Rightarrow> (string, ToolTally) gomap \<times> (string \<times> string \<times> Seq) list \<times> (ToolCallID, string \<times> string) gomap" where
  "accounted r = (rr_tools r, rr_sources r, rr_pending r)"

lemma accounted_calls:
  assumes "accounted r = accounted r'"
  shows "accounted (requested argument p r) = accounted (requested argument p r')" "accounted (completed c q r) = accounted (completed c q r')"
  using assms by (auto simp: accounted_def requested_def completed_def Let_def split: option.split)

text \<open>A summary is the account of these calls: each call that ended is counted under its tool, with its
  failures, its time and the slowest one; no tool is listed twice and the slowest come first; every listed source
  was named by a call that then ended well, none is listed twice, at most twelve are, and the number left out is exact.\<close>

definition reports :: "(string \<Rightarrow> string \<Rightarrow> string option) \<Rightarrow> call_event list \<Rightarrow> RunSummary \<Rightarrow> bool" where
  "reports argument es summary \<longleftrightarrow>
     distinct (map tuse_Name (rsum_Tools summary)) \<and> tuse_Name ` set (rsum_Tools summary) = tc_Name ` set (done_calls es) \<and>
     (\<forall>use \<in> set (rsum_Tools summary). accounts_for use (done_calls es)) \<and>
     sorted_wrt (\<lambda>a b. \<not> tool_use_less b a) (rsum_Tools summary) \<and>
     length (rsum_Sources summary) \<le> 12 \<and>
     int (length (rsum_Sources summary)) + rsum_SourcesOmitted summary = int (length (rr_sources (after_calls argument es new_run_record))) \<and>
     distinct (map (\<lambda>src. (so_Kind src, so_Ref src)) (rsum_Sources summary)) \<and>
     (\<forall>src \<in> set (rsum_Sources summary). \<exists>q. drawn_from argument es (so_Kind src, so_Ref src, q))"

lemma summarise_reports:
  assumes "accounted r = accounted (after_calls argument es new_run_record)"
  shows "reports argument es (summarise provider model r)"
proof -
  have parts: "rr_tools r = rr_tools (after_calls argument es new_run_record)" "rr_sources r = rr_sources (after_calls argument es new_run_record)"
    using assms by (simp_all add: accounted_def)
  have t: "tools_ok (rr_tools r) (done_calls es)" by (simp add: parts tools_after_calls)
  have keyed: "gm_keyed tuse_Name (rr_tools r)" using t by (simp add: tools_ok_def)
  have tools: "rsum_Tools (summarise provider model r) = sort_slice tool_use_less (gm_vals (rr_tools r))" by (simp add: summarise_def)
  have "distinct (map tuse_Name (gm_vals (rr_tools r)))" by (rule gm_keyed_distinct [OF keyed])
  then have 1: "distinct (map tuse_Name (rsum_Tools (summarise provider model r)))"
    unfolding tools by (metis mset_map mset_sort_slice mset_eq_imp_distinct_iff)
  have vals: "use \<in> set (gm_vals (rr_tools r)) \<longleftrightarrow> gm_get (rr_tools r) (tuse_Name use) = Some use" for use
    by (rule gm_keyed_vals [OF keyed])
  have 2: "tuse_Name ` set (rsum_Tools (summarise provider model r)) = tc_Name ` set (done_calls es)"
  proof -
    have "name \<in> tuse_Name ` set (gm_vals (rr_tools r)) \<longleftrightarrow> gm_get (rr_tools r) name \<noteq> None" for name
    proof
      assume "name \<in> tuse_Name ` set (gm_vals (rr_tools r))"
      then obtain use where "use \<in> set (gm_vals (rr_tools r))" "name = tuse_Name use" by blast
      with vals [of use] show "gm_get (rr_tools r) name \<noteq> None" by simp
    next
      assume "gm_get (rr_tools r) name \<noteq> None"
      then obtain use where u: "gm_get (rr_tools r) name = Some use" by blast
      with gm_keyed_get [OF keyed u] vals [of use] show "name \<in> tuse_Name ` set (gm_vals (rr_tools r))" by blast
    qed
    moreover have "gm_get (rr_tools r) name \<noteq> None \<longleftrightarrow> name \<in> tc_Name ` set (done_calls es)" for name
      using t by (auto simp: tools_ok_def image_iff)
    ultimately show ?thesis unfolding tools set_sort_slice by blast
  qed
  have 3: "\<forall>use \<in> set (rsum_Tools (summarise provider model r)). accounts_for use (done_calls es)"
    using t vals unfolding tools by (auto simp: tools_ok_def)
  have 4: "sorted_wrt (\<lambda>a b. \<not> tool_use_less b a) (rsum_Tools (summarise provider model r))"
    unfolding tools by (rule tool_order.sorted_sort_slice)
  have src: "rsum_Sources (summarise provider model r) = map (\<lambda>(kind, ref, q). \<lparr>so_Kind = kind, so_Ref = ref, so_Retained = q > rr_compactedThrough r\<rparr>)
        (take max_listed_sources (rr_sources r))" by (simp add: summarise_def)
  note s = sources_after_calls [of argument es, folded parts(2)]
  have "map (\<lambda>src. (so_Kind src, so_Ref src)) (rsum_Sources (summarise provider model r)) = take max_listed_sources (map (\<lambda>(k, f, _). (k, f)) (rr_sources r))"
    by (auto simp: src take_map)
  then have 5: "distinct (map (\<lambda>src. (so_Kind src, so_Ref src)) (rsum_Sources (summarise provider model r)))" using s by (simp add: distinct_take)
  have 6: "\<forall>src \<in> set (rsum_Sources (summarise provider model r)). \<exists>q. drawn_from argument es (so_Kind src, so_Ref src, q)"
    using s by (auto simp: src dest!: in_set_takeD)
  have 7: "length (rsum_Sources (summarise provider model r)) \<le> 12 \<and>
      int (length (rsum_Sources (summarise provider model r))) + rsum_SourcesOmitted (summarise provider model r) = int (length (rr_sources r))"
    by (simp add: summarise_def max_listed_sources_def)
  show ?thesis unfolding reports_def using 1 2 3 4 5 6 7 parts(2) by simp
qed

subsection \<open>An answer arrives whole\<close>

definition pkeeps :: "(Pj \<Rightarrow> 'x) \<Rightarrow> 'a pj \<Rightarrow> bool" where
  "pkeeps f m \<longleftrightarrow> (\<forall>s. f (snd (m s)) = f s)"

lemma pkeepsD: "pkeeps f m \<Longrightarrow> m s = (r, t) \<Longrightarrow> f t = f s"
  by (metis pkeeps_def snd_conv)

lemma pkeeps_pok: "pkeeps f (pok x)"
  by (simp add: pkeeps_def pok_def)

lemma pkeeps_pbind: "pkeeps f m \<Longrightarrow> (\<And>x. pkeeps f (k x)) \<Longrightarrow> pkeeps f (pbind m k)"
  by (auto simp: pkeeps_def pbind_def split: sum.split prod.split) (metis snd_conv)+

lemma pkeeps_enqueue: "pkeeps pj_pending (pj_enqueue env ctx run target kind p)"
  by (simp add: pkeeps_def pj_enqueue_def on_gw_def split: prod.split)

lemma pkeeps_saying: "pkeeps pj_pending (\<lambda>s. pj_enqueue env ctx run target kind (y s) s)"
  using pkeeps_enqueue by (simp add: pkeeps_def)

lemma pkeeps_upd: "(\<And>s. f (g s) = f s) \<Longrightarrow> pkeeps f (upd g)"
  by (simp add: pkeeps_def upd_def)

lemma pkeeps_memory: "pkeeps pj_pending (pj_now env)" "pkeeps pj_pending (should_say_working env rid)" "pkeeps pj_pending (should_stream env mid)"
  "pkeeps pj_pending (close_record env ctx run)"
proof -
  show n: "pkeeps pj_pending (pj_now env)" by (simp add: pkeeps_def pj_now_def on_gw_def split: prod.split)
  show "pkeeps pj_pending (close_record env ctx run)" by (simp add: pkeeps_def close_record_def split: option.split)
  show "pkeeps pj_pending (should_say_working env rid)" unfolding should_say_working_def
    by (rule pkeeps_pbind [OF n]) (simp add: pkeeps_def)
  show "pkeeps pj_pending (should_stream env mid)" unfolding should_stream_def Let_def
    by (rule pkeeps_pbind [OF n]) (simp add: pkeeps_def split: option.split)
qed

lemma pending_record: "pj_pending (on_record rid f s) = pj_pending s" "pj_pending (forget rid s) = pj_pending s"
  by (simp_all add: on_record_def forget_def)

lemma pkeeps_all: "pkeeps pj_pending (enqueue_all env ctx run targets kind p)"
  by (induction targets) (simp_all add: pkeeps_pok pkeeps_pbind pkeeps_enqueue)

lemma pkeeps_mirror: "pkeeps pj_pending (mirror_to_consoles env ctx run e)"
  using pkeeps_all by (auto simp: pkeeps_def mirror_to_consoles_def split: option.split)

lemma pending_note: "pj_pending (note_call env run e s) = pj_pending s"
proof -
  have "pj_pending (fold (\<lambda>rid. on_record rid f) rids s) = pj_pending s" for f rids
    by (induction rids arbitrary: s) (simp_all add: pending_record)
  then show ?thesis by (simp add: note_call_def split: EventPayload.split)
qed

lemma pkeeps_parent: "pkeeps pj_pending (observe_for_parent env ctx run target e)"
proof -
  have "pkeeps pj_pending (working_line env ctx r target detail)" for r detail unfolding working_line_def
    by (intro pkeeps_pbind) (simp_all add: pkeeps_memory pkeeps_pok pkeeps_enqueue)
  then show ?thesis unfolding observe_for_parent_def
    by (cases "ev_Payload e") (simp_all add: pkeeps_pok pkeeps_enqueue)
qed

lemma pkeeps_state: "pkeeps pj_pending (observe_state env ctx run target p)"
proof -
  have bad: "pkeeps pj_pending (\<lambda>s. if C s then pbind (close_record env ctx run) (\<lambda>_. pj_enqueue env ctx run target DispatchStatus x) s
      else pbind (close_record env ctx run) (\<lambda>summary s. pj_enqueue env ctx run target DispatchStatus (y summary s) s) s)" for C x y
  proof -
    have "pkeeps pj_pending (pbind (close_record env ctx run) (\<lambda>_. pj_enqueue env ctx run target DispatchStatus x))"
      by (intro pkeeps_pbind pkeeps_memory pkeeps_enqueue)
    moreover have "pkeeps pj_pending (pbind (close_record env ctx run) (\<lambda>summary s. pj_enqueue env ctx run target DispatchStatus (y summary s) s))"
      by (intro pkeeps_pbind pkeeps_memory pkeeps_saying)
    ultimately show ?thesis by (simp add: pkeeps_def)
  qed
  show ?thesis unfolding observe_state_def Let_def
    by (cases "rs_Status p") (auto intro!: pkeeps_pok pkeeps_pbind pkeeps_memory pkeeps_enqueue pkeeps_saying pkeeps_upd pending_record bad)
qed

definition spoken :: "MessageID \<Rightarrow> Event \<Rightarrow> string \<Rightarrow> string" where
  "spoken mid e so_far =
     (case ev_Payload e of
        PAssistantTextDelta p \<Rightarrow> if td_MessageID p = mid then so_far @ td_Text p else so_far
      | PAssistantMessageCompleted p \<Rightarrow> if mc_MessageID p = mid then '''' else so_far
      | _ \<Rightarrow> so_far)"

lemma pkeeps_own:
  assumes "\<nexists>p. ev_Payload e = PAssistantTextDelta p" "\<nexists>p. ev_Payload e = PAssistantMessageCompleted p"
  shows "pkeeps pj_pending (observe_own env ctx run target e)"
proof -
  note rules = pkeeps_pok pkeeps_pbind pkeeps_memory pkeeps_enqueue pkeeps_upd pending_record pkeeps_state
  show ?thesis
  proof (cases "ev_Payload e")
    case (PApprovalRequested p)
    then show ?thesis using pkeeps_enqueue by (simp add: observe_own_def pkeeps_def)
  next
    case (PQuestionAsked p)
    then show ?thesis using pkeeps_enqueue by (simp add: observe_own_def pkeeps_def)
  qed (use assms in \<open>auto simp: observe_own_def working_line_def Let_def intro!: rules\<close>)
qed

lemma peek_accumulate: "peek mid (accumulate m x s) = (if m = mid then peek mid s @ x else peek mid s)"
  by (simp add: peek_def accumulate_def split: option.split)

lemma take_text_parts: "fst (take_text mid s) = peek mid s" "peek m (snd (take_text mid s)) = (if m = mid then '''' else peek m s)"
  "pj_Gw (snd (take_text mid s)) = pj_Gw s"
  by (simp_all add: take_text_def peek_def split: option.split)

lemma peek_pending: "pj_pending t = pj_pending s \<Longrightarrow> peek mid t = peek mid s"
  by (simp add: peek_def)

lemma own_text:
  assumes "observe_own env ctx run target e s = (r, t)"
  shows "peek mid t = spoken mid e (peek mid s)"
proof -
  have other: "peek mid t = peek mid s" if "\<nexists>p. ev_Payload e = PAssistantTextDelta p" "\<nexists>p. ev_Payload e = PAssistantMessageCompleted p"
    by (rule peek_pending [OF pkeepsD [OF pkeeps_own [OF that] assms]])
  show ?thesis
proof (cases "ev_Payload e")
  case (PAssistantTextDelta p)
  let ?s = "accumulate (td_MessageID p) (td_Text p) s"
  define m where "m = pbind (should_stream env (td_MessageID p)) (\<lambda>stream s.
            if \<not> stream then (Inr (), s)
            else pj_enqueue env ctx run target DispatchMessage
              (SaidMessage \<lparr>mp_Text = peek (td_MessageID p) s, mp_MessageID = td_MessageID p, mp_Final = False, mp_File = None\<rparr>) s)"
  have m: "m ?s = (r, t)" using PAssistantTextDelta assms by (simp add: observe_own_def pbind_def [of "upd f" for f] upd_def m_def)
  have keeps: "pkeeps pj_pending m" unfolding m_def using pkeeps_enqueue by (intro pkeeps_pbind pkeeps_memory) (auto simp: pkeeps_def)
  have "pj_pending t = pj_pending ?s" by (rule pkeepsD [OF keeps m])
  from peek_pending [OF this] PAssistantTextDelta show ?thesis by (simp add: peek_accumulate spoken_def)
next
  case (PAssistantMessageCompleted p)
  let ?u = "snd (take_text (mc_MessageID p) s)"
  let ?m = "pj_enqueue env ctx run target DispatchMessage (SaidMessage \<lparr>mp_Text = fst (take_text (mc_MessageID p) s), mp_MessageID = mc_MessageID p,
    mp_Final = True, mp_File = None\<rparr>)"
  have "(r, t) = (if trim_space (fst (take_text (mc_MessageID p) s)) = '''' then (Inr (), ?u) else ?m (on_record (ru_ID run) (\<lambda>r. r\<lparr>rr_said := True\<rparr>) ?u))"
    using assms PAssistantMessageCompleted by (simp add: observe_own_def case_prod_beta)
  moreover have "pj_pending (snd (?m (on_record (ru_ID run) (\<lambda>r. r\<lparr>rr_said := True\<rparr>) ?u))) = pj_pending ?u"
    using pkeeps_enqueue by (simp add: pkeeps_def pending_record)
  ultimately have "pj_pending t = pj_pending ?u" by (auto split: if_splits dest: sym)
  from peek_pending [OF this] PAssistantMessageCompleted show ?thesis by (simp add: take_text_parts spoken_def)
qed (use other in \<open>simp add: spoken_def\<close>)+
qed

text \<open>A step that succeeds for a run of its own: the mirror went through, then the event itself.\<close>

lemma observe_own_step:
  assumes "\<not> is_worker run" "external_target env run = Some target" "observe env ctx run e s = (Inr (), t)"
  shows "\<exists>u. pj_pending u = pj_pending s \<and> observe_own env ctx run target e u = (Inr (), t)"
proof -
  obtain r u where m: "mirror_to_consoles env ctx run e (note_call env run e s) = (r, u)" by fastforce
  with assms have "observe_own env ctx run target e u = (Inr (), t)"
    by (auto simp: observe_def pbind_def upd_def is_worker_def split: sum.splits)
  moreover have "pj_pending u = pj_pending s" using pkeepsD [OF pkeeps_mirror m] pending_note by simp
  ultimately show ?thesis by blast
qed

text \<open>What a conversation is to hear of a message: the pieces of runs that answer to one, not those of workers
  or of runs that report nowhere.\<close>

definition told :: "PjEnv \<Rightarrow> MessageID \<Rightarrow> Run \<times> Event \<Rightarrow> string \<Rightarrow> string" where
  "told env mid step so_far =
     (if is_worker (fst step) \<or> external_target env (fst step) = None then so_far else spoken mid (snd step) so_far)"

lemma observe_text:
  assumes "observe env ctx run e s = (Inr (), t)"
  shows "peek mid t = told env mid (run, e) (peek mid s)"
proof (cases "external_target env run")
  case None
  with assms have "t = note_call env run e s" by (simp add: observe_def pbind_def upd_def pok_def)
  with None show ?thesis using peek_pending [OF pending_note] by (simp add: told_def)
next
  case (Some target)
  show ?thesis
  proof (cases "is_worker run")
    case True
    obtain r u where m: "mirror_to_consoles env ctx run e (note_call env run e s) = (r, u)" by fastforce
    with assms Some True have "observe_for_parent env ctx run target e u = (Inr (), t)"
      by (auto simp: observe_def pbind_def upd_def is_worker_def split: sum.splits)
    then have "pj_pending t = pj_pending u" by (rule pkeepsD [OF pkeeps_parent])
    also have "\<dots> = pj_pending s" using pkeepsD [OF pkeeps_mirror m] pending_note by simp
    finally show ?thesis using True peek_pending [of t s] by (simp add: told_def)
  next
    case False
    from observe_own_step [OF False Some assms] obtain u where "pj_pending u = pj_pending s" "observe_own env ctx run target e u = (Inr (), t)" by blast
    with own_text [of env ctx run target e u "Inr ()" t mid] peek_pending [of u s mid] False Some show ?thesis by (simp add: told_def)
  qed
qed

lemma observe_all_append:
  "fst (observe_all env ctx (xs @ ys) s) = fst (observe_all env ctx xs s) @ fst (observe_all env ctx ys (snd (observe_all env ctx xs s)))"
  "snd (observe_all env ctx (xs @ ys) s) = snd (observe_all env ctx ys (snd (observe_all env ctx xs s)))"
proof (induction xs arbitrary: s)
  case (Cons x xs)
  { case 1 show ?case using Cons(1) by (cases x) (simp add: observe_all_Cons del: observe_all.simps(2)) }
  { case 2 show ?case using Cons(2) by (cases x) (simp add: observe_all_Cons del: observe_all.simps(2)) }
qed simp_all

lemma observed_text:
  "\<forall>r \<in> set (fst (observe_all env ctx steps s)). r = Inr () \<Longrightarrow>
    peek mid (snd (observe_all env ctx steps s)) = fold (told env mid) steps (peek mid s)"
proof (induction steps arbitrary: s)
  case (Cons x steps)
  obtain run e where x: "x = (run, e)" by (cases x)
  let ?t = "snd (observe env ctx run e s)"
  from Cons.prems have ok: "fst (observe env ctx run e s) = Inr ()" "\<forall>r \<in> set (fst (observe_all env ctx steps ?t)). r = Inr ()"
    by (simp_all add: x observe_all_Cons del: observe_all.simps(2))
  from ok(1) have "observe env ctx run e s = (Inr (), ?t)" by (simp add: prod_eq_iff)
  from observe_text [OF this, of mid] Cons.IH [OF ok(2)] show ?case
    by (simp add: x observe_all_Cons del: observe_all.simps(2))
qed simp

text \<open>C20. An answer arrives whole. Take any history of events, of this run and of any others in any
  interleaving, in which every step succeeded and whose last event completes a message of a run that is no
  worker and answers to a place outside. If what was said of the message so far is more than blank space,
  then, however it was streamed and whatever came between its pieces, the last thing put before that place is the
  whole answer, every piece in its order and nothing else, marked as final under the message's id, and nothing of
  it is kept. (An answer of nothing but blank space is never posted, and workers answer their parents.)\<close>

theorem answer_arrives_whole:
  assumes "\<not> is_worker run" "external_target env run = Some target"
    and "observe_all env ctx (steps @ [(run, e)]) s = (rs, t)" "\<forall>r \<in> set rs. r = Inr ()"
    and "ev_Payload e = PAssistantMessageCompleted p" "answer = fold (told env (mc_MessageID p)) steps (peek (mc_MessageID p) s)"
    and "trim_space answer \<noteq> ''''"
  shows "peek (mc_MessageID p) t = '''' \<and> (\<exists>rows d. tb_Dispatches (pj_tables t) = rows @ [d] \<and> di_Target d = target \<and> di_RunID d = ru_ID run \<and>
     di_Kind d = DispatchMessage \<and> di_Payload d = pv_Encode env (SaidMessage
       \<lparr>mp_Text = answer, mp_MessageID = mc_MessageID p, mp_Final = True, mp_File = None\<rparr>))"
proof -
  define u where "u = snd (observe_all env ctx steps s)"
  have "\<forall>r \<in> set (fst (observe_all env ctx (steps @ [(run, e)]) s)). r = Inr ()" using assms(3,4) by simp
  then have ok: "\<forall>r \<in> set (fst (observe_all env ctx steps s)). r = Inr ()" "fst (observe env ctx run e u) = Inr ()"
    by (simp_all add: observe_all_append observe_all_Cons u_def del: observe_all.simps(2))
  have "t = snd (observe env ctx run e u)"
    using assms(3) observe_all_append(2) [of env ctx steps "[(run, e)]" s] by (simp add: observe_all_Cons u_def del: observe_all.simps(2))
  with ok(2) have last_step: "observe env ctx run e u = (Inr (), t)" by (simp add: prod_eq_iff)
  have u: "peek (mc_MessageID p) u = answer" using observed_text [OF ok(1)] assms(6) by (simp add: u_def)
  from observe_own_step [OF assms(1,2) last_step] obtain v where v: "pj_pending v = pj_pending u" "observe_own env ctx run target e v = (Inr (), t)" by blast
  have whole: "fst (take_text (mc_MessageID p) v) = answer" using u peek_pending [OF v(1)] by (simp add: take_text_parts)
  have "peek (mc_MessageID p) t = ''''" using own_text [OF v(2), of "mc_MessageID p"] assms(5) by (simp add: spoken_def)
  moreover have "pj_enqueue env ctx run target DispatchMessage (SaidMessage \<lparr>mp_Text = answer, mp_MessageID = mc_MessageID p, mp_Final = True, mp_File = None\<rparr>)
      (on_record (ru_ID run) (\<lambda>r. r\<lparr>rr_said := True\<rparr>) (snd (take_text (mc_MessageID p) v))) = (Inr (), t)"
    using v(2) whole assms(5,7) by (simp add: observe_own_def case_prod_beta)
  ultimately show ?thesis
    by (auto simp: pj_enqueue_step enqueue_dispatch_def alive_def Let_def pj_tables_def dispatch_of_def split: sum.splits option.splits if_splits)
qed

subsection \<open>What is reported of a run that completes\<close>

text \<open>The calls of a run in a history of events: its own, and those of the workers it sent.\<close>

definition call_in :: "RunID \<Rightarrow> Run \<times> Event \<Rightarrow> call_event list" where
  "call_in rid step =
     (if ru_ID (fst step) = rid \<or> is_worker (fst step) \<and> ru_ParentRunID (fst step) = rid then
        (case ev_Payload (snd step) of
           PToolCallRequested p \<Rightarrow> [Made p]
         | PToolCallCompleted p \<Rightarrow> [Done p (ev_Seq (snd step))]
         | _ \<Rightarrow> [])
      else [])"

definition calls_of :: "RunID \<Rightarrow> (Run \<times> Event) list \<Rightarrow> call_event list" where
  "calls_of rid steps = concat (map (call_in rid) steps)"

definition tally :: "RunID \<Rightarrow> Pj \<Rightarrow> (string, ToolTally) gomap \<times> (string \<times> string \<times> Seq) list \<times> (ToolCallID, string \<times> string) gomap" where
  "tally rid s = accounted (record_of rid s)"

text \<open>The event that ends this run.\<close>

definition ends :: "RunID \<Rightarrow> Run \<times> Event \<Rightarrow> bool" where
  "ends rid step \<longleftrightarrow> ru_ID (fst step) = rid \<and>
     (case ev_Payload (snd step) of PRunStateChanged p \<Rightarrow> is_terminal (rs_Status p) | _ \<Rightarrow> False)"

lemma records_enqueue: "pkeeps pj_records (pj_enqueue env ctx run target kind p)"
  by (simp add: pkeeps_def pj_enqueue_def on_gw_def split: prod.split)

lemma records_mirror: "pkeeps pj_records (mirror_to_consoles env ctx run e)"
proof -
  have "pkeeps pj_records (enqueue_all env ctx run targets kind p)" for targets kind p
    by (induction targets) (simp_all add: pkeeps_pok pkeeps_pbind records_enqueue)
  then show ?thesis by (auto simp: pkeeps_def mirror_to_consoles_def split: option.split)
qed

lemma records_parent: "pkeeps pj_records (observe_for_parent env ctx run target e)"
proof -
  have n: "pkeeps pj_records (pj_now env)" by (simp add: pkeeps_def pj_now_def on_gw_def split: prod.split)
  have "pkeeps pj_records (should_say_working env rid)" for rid unfolding should_say_working_def
    by (rule pkeeps_pbind [OF n]) (simp add: pkeeps_def)
  then have "pkeeps pj_records (working_line env ctx r target detail)" for r detail unfolding working_line_def
    by (intro pkeeps_pbind) (simp_all add: pkeeps_pok records_enqueue)
  then show ?thesis unfolding observe_for_parent_def
    by (cases "ev_Payload e") (simp_all add: pkeeps_pok records_enqueue)
qed

lemma pkeeps_tally: "pkeeps pj_records m \<Longrightarrow> pkeeps (tally rid) m"
  by (simp add: pkeeps_def tally_def record_of_def)

lemma record_on_record: "record_of rid (on_record x f s) = (if x = rid then f (record_of rid s) else record_of rid s)"
  by (simp add: record_of_def on_record_def)

lemma tally_upd: "(\<And>r. accounted (f r) = accounted r) \<Longrightarrow> pkeeps (tally rid) (upd (on_record x f))"
  by (simp add: pkeeps_def upd_def tally_def record_on_record)

lemma tally_now: "pkeeps (tally rid) (pj_now env)"
  by (rule pkeeps_tally) (simp add: pkeeps_def pj_now_def on_gw_def split: prod.split)

lemma tally_memory: "pkeeps (tally rid) (should_say_working env x)" "pkeeps (tally rid) (should_stream env mid)"
  "pkeeps (tally rid) (upd (accumulate mid text))" "pkeeps (tally rid) (upd (forget x))"
  "x \<noteq> rid \<Longrightarrow> ru_ID run = x \<Longrightarrow> pkeeps (tally rid) (close_record env ctx run)"
proof -
  show "pkeeps (tally rid) (should_say_working env x)" unfolding should_say_working_def
    by (rule pkeeps_pbind [OF tally_now]) (simp add: pkeeps_def tally_def record_of_def)
  show "pkeeps (tally rid) (should_stream env mid)" unfolding should_stream_def Let_def
    by (rule pkeeps_pbind [OF tally_now]) (simp add: pkeeps_def tally_def record_of_def split: option.split)
  show "x \<noteq> rid \<Longrightarrow> ru_ID run = x \<Longrightarrow> pkeeps (tally rid) (close_record env ctx run)"
    by (simp add: pkeeps_def close_record_def tally_def record_of_def split: option.split)
qed (simp_all add: pkeeps_def upd_def accumulate_def forget_def tally_def record_of_def)

lemma tally_saying: "pkeeps (tally rid) (pj_enqueue env ctx run target kind y)" "pkeeps (tally rid) (\<lambda>s. pj_enqueue env ctx run target kind (z s) s)"
  using pkeeps_tally [OF records_enqueue] by (simp_all add: pkeeps_def)

lemma tally_state:
  assumes "is_terminal (rs_Status p) \<Longrightarrow> ru_ID run \<noteq> rid"
  shows "pkeeps (tally rid) (observe_state env ctx run target p)"
proof -
  have close: "pkeeps (tally rid) (close_record env ctx run)" if "is_terminal (rs_Status p)"
    using tally_memory(5) [of "ru_ID run"] assms that by blast
  have bad: "pkeeps (tally rid) (\<lambda>s. if C s then pbind (close_record env ctx run) (\<lambda>_. pj_enqueue env ctx run target DispatchStatus x) s
      else pbind (close_record env ctx run) (\<lambda>summary s. pj_enqueue env ctx run target DispatchStatus (y summary s) s) s)"
    if "is_terminal (rs_Status p)" for C x y
  proof -
    have "pkeeps (tally rid) (pbind (close_record env ctx run) (\<lambda>_. pj_enqueue env ctx run target DispatchStatus x))"
      by (intro pkeeps_pbind close [OF that] tally_saying)
    moreover have "pkeeps (tally rid) (pbind (close_record env ctx run) (\<lambda>summary s. pj_enqueue env ctx run target DispatchStatus (y summary s) s))"
      by (intro pkeeps_pbind close [OF that] tally_saying)
    ultimately show ?thesis by (simp add: pkeeps_def)
  qed
  show ?thesis unfolding observe_state_def Let_def
    by (cases "rs_Status p") (auto simp: accounted_def intro!: pkeeps_pok pkeeps_pbind tally_memory tally_now tally_saying tally_upd close bad)
qed

lemma tally_own:
  assumes "\<not> ends rid (run, e)"
  shows "pkeeps (tally rid) (observe_own env ctx run target e)"
proof -
  have line: "pkeeps (tally rid) (working_line env ctx run target detail)" for detail
    unfolding working_line_def by (intro pkeeps_pbind tally_memory) (simp add: pkeeps_pok tally_saying)
  show ?thesis
  proof (cases "ev_Payload e")
    case (PAssistantTextDelta p)
    have "pkeeps (tally rid) (\<lambda>s. if \<not> stream then (Inr (), s) else pj_enqueue env ctx run target DispatchMessage (z s) s)" for stream z
      using tally_saying(2) by (simp add: pkeeps_def)
    then show ?thesis by (auto simp: observe_own_def PAssistantTextDelta intro!: pkeeps_pbind tally_memory)
  next
    case (PAssistantMessageCompleted p)
    have "tally rid (snd (take_text mid s)) = tally rid s" for mid s by (simp add: take_text_def tally_def record_of_def split: option.split)
    moreover have "tally rid (on_record x (\<lambda>r. r\<lparr>rr_said := True\<rparr>) s) = tally rid s" for x s
      by (simp add: tally_def record_on_record accounted_def)
    ultimately show ?thesis using tally_saying(1)
      by (simp add: observe_own_def PAssistantMessageCompleted pkeeps_def case_prod_beta)
  next
    case (PRunStateChanged p)
    with assms show ?thesis by (auto simp: observe_own_def ends_def intro!: tally_state)
  qed (auto simp: observe_own_def Let_def accounted_def intro!: pkeeps_pok tally_saying tally_upd line)
qed

lemma tally_step:
  assumes "\<not> ends rid (run, e)"
  shows "tally rid (snd (observe env ctx run e s)) = tally rid (note_call env run e s)"
proof -
  have "pkeeps (tally rid) (case external_target env run of None \<Rightarrow> pok () | Some target \<Rightarrow>
           pbind (mirror_to_consoles env ctx run e) (\<lambda>_.
             if ru_Kind run = RunWorker \<and> ru_ParentRunID run \<noteq> '''' then observe_for_parent env ctx run target e
             else observe_own env ctx run target e))"
    using pkeeps_tally [OF records_parent] tally_own [OF assms]
    by (auto simp: pkeeps_pok split: option.split intro!: pkeeps_pbind pkeeps_tally [OF records_mirror])
  then show ?thesis by (simp add: observe_def pbind_def upd_def pkeeps_def)
qed

text \<open>What a step adds to a run's record is what \<open>call_in\<close> reads off it.\<close>

lemma noted_calls:
  assumes "is_worker run \<Longrightarrow> ru_ParentRunID run \<noteq> ru_ID run" "tally rid s = accounted (after_calls (pv_Argument env) es new_run_record)"
  shows "tally rid (note_call env run e s) = accounted (after_calls (pv_Argument env) (es @ call_in rid (run, e)) new_run_record)"
proof -
  have once: "record_of rid (fold (\<lambda>x. on_record x f) (records_for run) s) =
      (if ru_ID run = rid \<or> is_worker run \<and> ru_ParentRunID run = rid then f (record_of rid s) else record_of rid s)" for f
    using assms(1) by (auto simp: records_for_def is_worker_def record_on_record)
  note a = assms(2) [unfolded tally_def]
  show ?thesis
  proof (cases "ev_Payload e")
    case (PToolCallRequested p)
    with a accounted_calls(1) [OF a] show ?thesis by (simp add: tally_def note_call_def call_in_def once after_calls_snoc)
  next
    case (PToolCallCompleted p)
    with a accounted_calls(2) [OF a] show ?thesis by (simp add: tally_def note_call_def call_in_def once after_calls_snoc)
  qed (simp_all add: tally_def note_call_def call_in_def a)
qed

lemma observed_calls:
  assumes "\<forall>step \<in> set steps. \<not> ends rid step" "\<forall>step \<in> set steps. is_worker (fst step) \<longrightarrow> ru_ParentRunID (fst step) \<noteq> ru_ID (fst step)"
    and "gm_get (pj_records s) rid = None"
  shows "tally rid (snd (observe_all env ctx steps s)) = accounted (after_calls (pv_Argument env) (calls_of rid steps) new_run_record)"
  using assms(1,2)
proof (induction steps rule: rev_induct)
  case Nil
  show ?case using assms(3) by (simp add: tally_def record_of_def calls_of_def)
next
  case (snoc x steps)
  obtain run e where x: "x = (run, e)" by (cases x)
  with snoc have "tally rid (snd (observe_all env ctx steps s)) = accounted (after_calls (pv_Argument env) (calls_of rid steps) new_run_record)"
    "\<not> ends rid (run, e)" "is_worker run \<Longrightarrow> ru_ParentRunID run \<noteq> ru_ID run" by simp_all
  with noted_calls [of run rid "snd (observe_all env ctx steps s)" env "calls_of rid steps" e] tally_step [of rid run e env ctx]
  show ?case by (simp add: x observe_all_append observe_all_Cons calls_of_def del: observe_all.simps(2))
qed

lemma completion_said:
  assumes "observe_state env ctx run target p s = (Inr (), t)" "rs_Status p = RunCompleted"
  shows "\<exists>rows d status. tb_Dispatches (pj_tables t) = rows @ [d] \<and> di_Target d = target \<and> di_RunID d = ru_ID run \<and>
     di_Kind d = DispatchStatus \<and> di_Payload d = pv_Encode env (SaidStatus status) \<and> sp_State status = ''completed'' \<and>
     sp_Summary status = map_option (summarise (pv_Provider env) (summary_model env ctx (ru_SessionID run) (forget (ru_ID run) s)))
       (gm_get (pj_records s) (ru_ID run))"
proof -
  define summary where "summary = map_option (summarise (pv_Provider env) (summary_model env ctx (ru_SessionID run) (forget (ru_ID run) s)))
    (gm_get (pj_records s) (ru_ID run))"
  have close: "\<exists>v. close_record env ctx run (forget (ru_ID run) s) = (Inr summary, v)"
    by (cases "gm_get (pj_records s) (ru_ID run)") (simp_all add: close_record_def summary_def forget_def)
  then obtain v where close: "close_record env ctx run (forget (ru_ID run) s) = (Inr summary, v)" by blast
  obtain at w where clock: "pj_now env v = (Inr at, w)" by (simp add: pj_now_def on_gw_def on_rt_def now_def)
  obtain status where "pj_enqueue env ctx run target DispatchStatus (SaidStatus status) w = (Inr (), t)" "sp_State status = ''completed''"
    "sp_Summary status = summary"
    using assms close clock by (auto simp: observe_state_def Let_def pbind_def upd_def)
  then show ?thesis unfolding summary_def
    by (auto simp: pj_enqueue_step enqueue_dispatch_def alive_def Let_def pj_tables_def dispatch_of_def split: sum.splits option.splits if_splits)
qed


subsection \<open>At concrete inputs\<close>

definition channel :: PjEnv where
  "channel = \<lparr>pv_Gw = desk, pv_WorkingInterval = 2, pv_StreamInterval = 2, pv_Provider = ''p'', pv_Model = ''m'',
     pv_Encode = (\<lambda>said. case said of SaidMessage p \<Rightarrow> mp_Text p | SaidStatus p \<Rightarrow> sp_State p @ '' '' @ sp_Detail p | _ \<Rightarrow> ''?''),
     pv_Argument = (\<lambda>arguments key. if key = ''path'' then Some arguments else None), pv_RoundedDuration = (\<lambda>_. ''0s'')\<rparr>"

definition guest :: Run where
  "guest = (sample_run ''r1'' ''s'' RunRunning)\<lparr>ru_DeliveryTargets := [\<lparr>dt_Kind = ''discord'', dt_Ref = ''m1''\<rparr>]\<rparr>"

definition listening :: Pj where
  "listening = new_projector \<lparr>gw_Rt = new_rt (new_store\<lparr>st_sessions := [(''s'', sample_session ''s'' 1)]\<rparr>), gw_Tables = new_tables\<rparr>"

definition happened :: "EventPayload \<Rightarrow> Event" where
  "happened p = sample_event ''s'' ''r1'' 5 EventRunStateChanged p"

definition thought_and_failed :: "string \<Rightarrow> (Run \<times> Event) list" where
  "thought_and_failed secret =
     [(guest, happened (PAssistantReasoningDelta \<lparr>rd_MessageID = ''a'', rd_Text = secret\<rparr>)),
      (guest, happened (PRunStateChanged \<lparr>rs_Status = RunFailed, rs_Reason = secret, rs_FailureKind = ''auth''\<rparr>))]"

theorem rooms_learn_only_the_public_part_witness:
  "fst (observe_all channel None (thought_and_failed ''key 42'') listening) = fst (observe_all channel None (thought_and_failed ''key 43'') listening) \<and>
   room_rows (pj_tables (snd (observe_all channel None (thought_and_failed ''key 42'') listening))) =
   room_rows (pj_tables (snd (observe_all channel None (thought_and_failed ''key 43'') listening)))"
proof -
  have "map (\<lambda>(run, e). (run, public_part run e)) (thought_and_failed ''key 42'') = map (\<lambda>(run, e). (run, public_part run e)) (thought_and_failed ''key 43'')"
    by (simp add: thought_and_failed_def public_part_def happened_def sample_event_def is_worker_def guest_def sample_run_def)
  from rooms_learn_only_the_public_part [OF this] show ?thesis .
qed


lemma quiet_observe:
  assumes "tb_Bindings (pj_tables s) = []" "external_target env run = Some target" "\<not> is_worker run"
  shows "observe env None run e s = observe_own env None run target e (note_call env run e s)"
proof -
  have "gw_Tables (pj_Gw (fold (\<lambda>rid. on_record rid f) rids s)) = gw_Tables (pj_Gw s)" for f rids s
    by (induction rids arbitrary: s) (simp_all add: on_record_def)
  then have "tb_Bindings (pj_tables (note_call env run e s)) = []"
    using assms(1) by (simp add: note_call_def pj_tables_def split: EventPayload.split)
  then have "console_targets None (note_call env run e s) = []" by (simp add: console_targets_def list_bindings_def alive_def)
  then have "mirror_to_consoles env None run e (note_call env run e s) = (Inr (), note_call env run e s)"
    by (simp add: mirror_to_consoles_def pok_def split: option.split)
  with assms(2,3) show ?thesis by (auto simp: observe_def pbind_def upd_def is_worker_def)
qed

lemma first_piece:
  assumes "tb_Bindings (pj_tables s) = []" "external_target env run = Some target" "\<not> is_worker run"
    and "ev_Payload e = PAssistantTextDelta p" "gm_get (pj_lastStreamed s) (td_MessageID p) = None"
  shows "fst (observe env None run e s) = Inr () \<and> pj_tables (snd (observe env None run e s)) = pj_tables s \<and>
    rt_Store (gw_Rt (pj_Gw (snd (observe env None run e s)))) = rt_Store (gw_Rt (pj_Gw s)) \<and>
    (\<forall>m. m \<noteq> td_MessageID p \<longrightarrow> gm_get (pj_lastStreamed (snd (observe env None run e s))) m = gm_get (pj_lastStreamed s) m)"
  using assms(4,5) unfolding quiet_observe [OF assms(1-3)]
  by (simp add: note_call_def observe_own_def pbind_def upd_def should_stream_def pj_now_def on_gw_def on_rt_def now_def accumulate_def pj_tables_def)

lemma last_piece:
  assumes "tb_Bindings (pj_tables s) = []" "external_target env run = Some target" "\<not> is_worker run"
    and "ev_Payload e = PAssistantMessageCompleted p" "tb_Dispatches (pj_tables s) = []"
    and "gm_get (st_sessions (rt_Store (gw_Rt (pj_Gw s)))) (ru_SessionID run) \<noteq> None"
  shows "fst (observe env None run e s) = Inr ()"
  using assms(4-6) take_text_parts(3) [of "mc_MessageID p" s] unfolding quiet_observe [OF assms(1-3)]
  by (auto simp: note_call_def observe_own_def case_prod_beta pj_enqueue_step enqueue_dispatch_def alive_def Let_def on_record_def pj_tables_def
      known_in_def dispatch_of_def)

text \<open>A worker of another run speaks in between, under the same message id even.\<close>

definition helper :: Run where
  "helper = guest\<lparr>ru_ID := ''r9'', ru_Kind := RunWorker, ru_ParentRunID := ''r1''\<rparr>"

definition said_in_pieces :: "(Run \<times> Event) list" where
  "said_in_pieces = [(guest, happened (PAssistantTextDelta \<lparr>td_MessageID = ''a'', td_Text = ''Hello''\<rparr>)),
     (helper, happened (PAssistantTextDelta \<lparr>td_MessageID = ''a'', td_Text = ''hidden''\<rparr>)),
     (guest, happened (PAssistantTextDelta \<lparr>td_MessageID = ''b'', td_Text = ''!''\<rparr>))]"

definition ended_answer :: AssistantMessageCompleted where
  "ended_answer = \<lparr>mc_MessageID = ''a'', mc_StopReason = StopEndTurn\<rparr>"

lemma guest_place: "\<not> is_worker guest" "external_target channel guest = Some (sample_place\<lparr>cr_SourceMessageID := ''m1''\<rparr>)"
  "is_worker helper" "external_target channel helper = Some (sample_place\<lparr>cr_SourceMessageID := ''m1''\<rparr>)"
  by (simp_all add: is_worker_def helper_def guest_def sample_run_def external_target_def map_filter_def conversation_from_target_def channel_def desk_def
      DeliveryLocalClient_def sample_place_def)

lemma helper_piece:
  assumes "tb_Bindings (pj_tables s) = []" "ev_Payload e = PAssistantTextDelta p"
  shows "observe channel None helper e s = (Inr (), s)"
proof -
  have "console_targets None s = []" using assms(1) by (simp add: console_targets_def list_bindings_def alive_def)
  then have "mirror_to_consoles channel None helper e s = (Inr (), s)"
    by (simp add: mirror_to_consoles_def pok_def split: option.split)
  with assms(2) guest_place show ?thesis
    by (simp add: observe_def pbind_def upd_def is_worker_def note_call_def observe_for_parent_def pok_def)
qed

theorem answer_arrives_whole_witness:
  "\<exists>rows d. tb_Dispatches (pj_tables (snd (observe_all channel None (said_in_pieces @ [(guest, happened (PAssistantMessageCompleted ended_answer))]) listening)))
     = rows @ [d] \<and> di_Payload d = ''Hello''"
proof -
  let ?e = "happened (PAssistantMessageCompleted ended_answer)"
  let ?a = "happened (PAssistantTextDelta \<lparr>td_MessageID = ''a'', td_Text = ''Hello''\<rparr>)"
  let ?h = "happened (PAssistantTextDelta \<lparr>td_MessageID = ''a'', td_Text = ''hidden''\<rparr>)"
  let ?b = "happened (PAssistantTextDelta \<lparr>td_MessageID = ''b'', td_Text = ''!''\<rparr>)"
  let ?s1 = "snd (observe channel None guest ?a listening)"
  let ?s2 = "snd (observe channel None guest ?b ?s1)"
  note own = guest_place(1,2)
  have start: "pj_tables listening = new_tables" "pj_lastStreamed listening = []" "pj_pending listening = []"
    "rt_Store (gw_Rt (pj_Gw listening)) = new_store\<lparr>st_sessions := [(''s'', sample_session ''s'' 1)]\<rparr>"
    by (simp_all add: listening_def new_projector_def pj_tables_def new_rt_def)
  have pay: "ev_Payload (happened x) = x" for x by (simp add: happened_def sample_event_def)
  have 1: "fst (observe channel None guest ?a listening) = Inr ()" "pj_tables ?s1 = new_tables"
    "rt_Store (gw_Rt (pj_Gw ?s1)) = rt_Store (gw_Rt (pj_Gw listening))" "gm_get (pj_lastStreamed ?s1) ''b'' = None"
    using first_piece [OF _ own(2,1) pay, of listening] start by (simp_all add: new_tables_def gm_get_def)
  have h: "observe channel None helper ?h ?s1 = (Inr (), ?s1)"
    by (rule helper_piece [OF _ pay]) (simp add: 1(2) new_tables_def)
  have 2: "fst (observe channel None guest ?b ?s1) = Inr ()" "pj_tables ?s2 = new_tables" "rt_Store (gw_Rt (pj_Gw ?s2)) = rt_Store (gw_Rt (pj_Gw listening))"
    using first_piece [OF _ own(2,1) pay, of ?s1] 1 by (simp_all add: new_tables_def)
  have 3: "fst (observe channel None guest ?e ?s2) = Inr ()"
    using last_piece [OF _ own(2,1) pay, of ?s2] 2 start(4) by (simp add: new_tables_def guest_def sample_run_def gm_get_def)
  let ?o = "observe_all channel None (said_in_pieces @ [(guest, ?e)]) listening"
  have ok: "fst ?o = [Inr (), Inr (), Inr (), Inr ()]"
    by (simp add: said_in_pieces_def observe_all_Cons 1(1) h 2(1) 3 del: observe_all.simps(2))
  have answer: "fold (told channel (mc_MessageID ended_answer)) said_in_pieces (peek (mc_MessageID ended_answer) listening) = ''Hello''"
    using guest_place by (simp add: told_def spoken_def said_in_pieces_def pay ended_answer_def peek_def start gm_get_def)
  have word: "trim_space ''Hello'' \<noteq> ''''" by code_simp
  have all: "\<forall>r \<in> set (fst ?o). r = Inr ()" by (simp only: ok) simp
  from answer_arrives_whole [OF own surjective_pairing all pay answer [symmetric] word] show ?thesis
    by (auto simp: channel_def)
qed

definition sample_ended :: "ToolCallID \<Rightarrow> string \<Rightarrow> bool \<Rightarrow> int \<Rightarrow> ToolCallCompleted" where
  "sample_ended cid name failed ms = \<lparr>tc_CallID = cid, tc_Name = name, tc_Summary = '''', tc_Content = '''', tc_IsError = failed,
     tc_Truncated = False, tc_Foreign = False, tc_From = ProvenanceOperator, tc_Artifact = None, tc_DurationMS = ms\<rparr>"

definition shared_work :: "(Run \<times> Event) list" where
  "shared_work = [(guest, happened (PToolCallCompleted (sample_ended ''c1'' ''read_file'' True 7))),
     (helper, happened (PToolCallCompleted (sample_ended ''c2'' ''read_file'' False 5)))]"

definition all_done :: RunStateChanged where
  "all_done = \<lparr>rs_Status = RunCompleted, rs_Reason = '''', rs_FailureKind = ''''\<rparr>"


subsection \<open>What is left of a run\<close>

lemma note_call_records:
  assumes "gm_get (pj_records s) rid \<noteq> None \<or> (\<exists>p. ev_Payload e = PToolCallRequested p) \<and> rid = ru_ID run"
  shows "gm_get (pj_records (note_call env run e s)) rid \<noteq> None"
proof -
  have grow: "gm_get (pj_records s) rid \<noteq> None \<or> rid \<in> set rids \<Longrightarrow> gm_get (pj_records (fold (\<lambda>rid. on_record rid f) rids s)) rid \<noteq> None" for f rids s
  proof (induction rids arbitrary: s)
    case (Cons x rids)
    show ?case using Cons.IH [of "on_record x f s"] Cons.prems by (auto simp: on_record_def)
  qed simp
  have own: "ru_ID run \<in> set (records_for run)" by (simp add: records_for_def)
  have "gm_get (pj_records (fold (\<lambda>rid. on_record rid f) (records_for run) s)) rid \<noteq> None"
    if "gm_get (pj_records s) rid \<noteq> None \<or> rid = ru_ID run" for f
    by (rule grow) (use that own in blast)
  with assms show ?thesis by (cases "ev_Payload e") (simp_all add: note_call_def)
qed

text \<open>The accounts of runs outlive the runs. Every run's tool calls are recorded before it is asked whether anybody is to be told, and a
  record is only given up where the end of a run is reported to its conversation: a run that reports to none,
  and every worker, that made a call leaves its record behind whatever happens to it afterwards, its end included,
  although nothing was to be kept after a run ends.\<close>

theorem records_outlive_their_runs:
  assumes "external_target env run = None \<or> is_worker run" and "ev_Payload e = PToolCallRequested p"
  shows "gm_get (pj_records (snd (observe_all env ctx (map (Pair run) (es @ e # fs)) s))) (ru_ID run) \<noteq> None"
proof -
  have step: "gm_get (pj_records (snd (observe env ctx run x s))) (ru_ID run) \<noteq> None"
    if "gm_get (pj_records s) (ru_ID run) \<noteq> None \<or> (\<exists>p. ev_Payload x = PToolCallRequested p)" for x s
  proof -
    have n: "gm_get (pj_records (note_call env run x s)) (ru_ID run) \<noteq> None" using note_call_records [of s "ru_ID run" x run env] that by blast
    have "pkeeps pj_records (case external_target env run of None \<Rightarrow> pok () | Some target \<Rightarrow>
           pbind (mirror_to_consoles env ctx run x) (\<lambda>_.
             if ru_Kind run = RunWorker \<and> ru_ParentRunID run \<noteq> '''' then observe_for_parent env ctx run target x
             else observe_own env ctx run target x))"
      using assms(1) by (auto simp: is_worker_def pkeeps_pok split: option.split intro!: pkeeps_pbind records_mirror records_parent)
    then have "pj_records (snd (observe env ctx run x s)) = pj_records (note_call env run x s)"
      by (simp add: observe_def pbind_def upd_def pkeeps_def)
    with n show ?thesis by simp
  qed
  have stays: "gm_get (pj_records s) (ru_ID run) \<noteq> None \<Longrightarrow> gm_get (pj_records (snd (observe_all env ctx (map (Pair run) es) s))) (ru_ID run) \<noteq> None" for es s
    by (induction es arbitrary: s) (use step in \<open>auto simp: observe_all_Cons simp del: observe_all.simps(2)\<close>)
  have "snd (observe_all env ctx (map (Pair run) (es @ e # fs)) s) =
      snd (observe_all env ctx (map (Pair run) fs) (snd (observe env ctx run e (snd (observe_all env ctx (map (Pair run) es) s)))))" for s
    by (induction es arbitrary: s) (simp_all add: observe_all_Cons del: observe_all.simps(2))
  with stays [OF step] assms(2) show ?thesis by simp
qed

theorem records_outlive_their_runs_witness:
  "gm_get (pj_records (snd (observe_all channel None (map (Pair (guest\<lparr>ru_DeliveryTargets := []\<rparr>))
     ([] @ happened (PToolCallRequested \<lparr>tq_CallID = ''c'', tq_Name = ''read_file'', tq_Arguments = ''a.go'', tq_ProviderMetadata = ''''\<rparr>) #
      [happened (PRunStateChanged \<lparr>rs_Status = RunCompleted, rs_Reason = '''', rs_FailureKind = ''''\<rparr>)])) listening)))
     (ru_ID (guest\<lparr>ru_DeliveryTargets := []\<rparr>)) \<noteq> None"
  by (rule records_outlive_their_runs) (simp_all add: external_target_def map_filter_def happened_def sample_event_def)

end
