(* ===== verification/MemMemories.thy ===== *)
theory MemMemories
imports MemSessions Utf8 Complex_Main
begin

text \<open>
  The memories of the in-memory store (\<open>core/internal/storage/memory/memories.go\<close>) with the words a
  search matches on (\<open>storage/searchterms.go\<close>) and what is near by meaning (\<open>storage/vector.go\<close>).

  Unicode tables and floating-point arithmetic are asked of \<open>SearchEnv\<close>: the lower case of a text, which
  characters are written without spaces, and how alike two vectors of the same length point. A similarity
  is a number, or \<open>None\<close> for a NaN, which compares with nothing.
\<close>

subsection \<open>The words a search matches on\<close>

record SearchEnv =
  sv_Lower :: "string \<Rightarrow> string"
  sv_Unspaced :: "rune \<Rightarrow> bool"
  sv_Angle :: "vector \<Rightarrow> vector \<Rightarrow> rat option"

text \<open>What \<open>flush\<close> writes for a run of unspaced characters: the overlapping pairs, or the one character.\<close>

fun rune_pairs :: "rune list \<Rightarrow> string list" where
  "rune_pairs (a # b # rs) = (encode_rune a @ encode_rune b) # rune_pairs (b # rs)"
| "rune_pairs _ = []"

definition flush_run :: "rune list \<Rightarrow> string" where
  "flush_run run =
     (if run = [] then ''''
      else '' '' @ (if length run = 1 then encode_rune (hd run) else '''') @ str_join '' '' (rune_pairs run) @ '' '')"

fun search_runes :: "(rune \<Rightarrow> bool) \<Rightarrow> rune list \<Rightarrow> rune list \<Rightarrow> string" where
  "search_runes unspaced run [] = flush_run run"
| "search_runes unspaced run (r # rs) =
     (if unspaced r then search_runes unspaced (run @ [r]) rs
      else flush_run run @ encode_rune r @ search_runes unspaced [] rs)"

definition search_text :: "SearchEnv \<Rightarrow> string \<Rightarrow> string" where
  "search_text env s = search_runes (sv_Unspaced env) [] (runes s)"

definition search_terms :: "SearchEnv \<Rightarrow> string \<Rightarrow> string list" where
  "search_terms env s = Prelude.fields (search_text env s)"

subsection \<open>Vectors\<close>

definition encode_vector :: "vector \<Rightarrow> 8 word list" where
  "encode_vector v = concat (map (\<lambda>x. [ucast x, ucast (drop_bit 8 x), ucast (drop_bit 16 x), ucast (drop_bit 24 x)]) v)"

fun read_words :: "8 word list \<Rightarrow> vector" where
  "read_words (a # b # c # d # raw) =
     or (ucast a) (or (push_bit 8 (ucast b)) (or (push_bit 16 (ucast c)) (push_bit 24 (ucast d)))) # read_words raw"
| "read_words _ = []"

definition decode_vector :: "8 word list \<Rightarrow> vector option" where
  "decode_vector raw = (if length raw mod 4 \<noteq> 0 then None else Some (read_words raw))"

definition cosine :: "SearchEnv \<Rightarrow> vector \<Rightarrow> vector \<Rightarrow> rat option" where
  "cosine env a b = (if length a \<noteq> length b \<or> a = [] then Some 0 else sv_Angle env a b)"

text \<open>\<open>Nearest\<close>; a missing vector of a Go map is empty.\<close>

definition nearest :: "SearchEnv \<Rightarrow> vector \<Rightarrow> Memory list \<Rightarrow> vector list \<Rightarrow> rat \<Rightarrow> int \<Rightarrow> Memory list" where
  "nearest env v candidates vectors least limit =
     (let kept = List.map_filter (\<lambda>(m, w). case cosine env v w of
            Some q \<Rightarrow> if q \<ge> least then Some (m, q) else None | None \<Rightarrow> None) (zip candidates vectors)
      in map fst (limit_to limit (sort_slice (\<lambda>a b. snd a > snd b) kept)))"

subsection \<open>What is asked\<close>

record MemoryScopeRef =
  ms_Scope :: MemoryScope
  ms_Ref :: string

record MemoryQuery =
  mq_Scopes :: "MemoryScopeRef list"
  mq_Activation :: MemoryActivation
  mq_IncludeInvalidated :: bool
  mq_At :: instant
  mq_Limit :: int

abbreviation "any_activation \<equiv> ActivationOther ''''"

definition in_scope :: "Memory \<Rightarrow> MemoryScopeRef list \<Rightarrow> bool" where
  "in_scope candidate scopes \<longleftrightarrow> (\<exists>scope \<in> set scopes. me_Scope candidate = ms_Scope scope \<and> me_ScopeRef candidate = ms_Ref scope)"

text \<open>The memories in the order they were written, and which of them a query selects at a moment.\<close>

definition written :: "Store \<Rightarrow> Memory list" where
  "written s = List.map_filter (gm_get (st_memories s)) (st_memoryOrder s)"

definition selects :: "MemoryQuery \<Rightarrow> instant \<Rightarrow> Memory \<Rightarrow> bool" where
  "selects query moment candidate \<longleftrightarrow>
     (mq_IncludeInvalidated query \<or> current_at candidate moment) \<and>
     (mq_Activation query = any_activation \<or> me_Activation candidate = mq_Activation query) \<and>
     (mq_Scopes query = [] \<or> in_scope candidate (mq_Scopes query))"

definition select_memories :: "instant \<Rightarrow> MemoryQuery \<Rightarrow> (Memory \<Rightarrow> bool) \<Rightarrow> Store \<Rightarrow> Memory list" where
  "select_memories now query matches s =
     (let moment = (if is_zero (mq_At query) then now else mq_At query);
          found = filter (\<lambda>m. selects query moment m \<and> matches m) (written s)
      in limit_to (mq_Limit query) (sort_slice (\<lambda>a b. me_CreatedAt a > me_CreatedAt b) found))"

subsection \<open>The operations\<close>

definition superseded :: "Memory \<Rightarrow> Memory \<Rightarrow> Memory" where
  "superseded memory existing = existing
     \<lparr>me_InvalidatedAt := Some (me_CreatedAt memory), me_SupersededBy := me_ID memory,
      me_ValidUntil := (case me_ValidUntil existing of None \<Rightarrow> Some (me_ValidFrom memory) | Some u \<Rightarrow> Some u)\<rparr>"

definition write_memory :: "Memory \<Rightarrow> Store \<Rightarrow> Store" where
  "write_memory memory s = s\<lparr>st_memories := gm_set (st_memories s) (me_ID memory) memory,
     st_memoryOrder := st_memoryOrder s @ [me_ID memory]\<rparr>"

definition remember :: "Memory \<Rightarrow> MemoryID \<Rightarrow> Store \<Rightarrow> StoreError + Store" where
  "remember memory supersedes s =
     (if supersedes \<noteq> '''' then
        (case gm_get (st_memories s) supersedes of
           None \<Rightarrow> Inl (ErrNotSupersedable supersedes)
         | Some existing \<Rightarrow>
             if me_InvalidatedAt existing \<noteq> None then Inl (ErrNotSupersedable supersedes)
             else Inr (write_memory memory (s\<lparr>st_memories := gm_set (st_memories s) supersedes (superseded memory existing)\<rparr>)))
      else Inr (write_memory memory s))"

definition memories :: "instant \<Rightarrow> MemoryQuery \<Rightarrow> Store \<Rightarrow> Memory list" where
  "memories now query s = select_memories now query (\<lambda>_. True) s"

definition search_memories :: "SearchEnv \<Rightarrow> instant \<Rightarrow> string \<Rightarrow> MemoryQuery \<Rightarrow> Store \<Rightarrow> Memory list" where
  "search_memories env now s query st =
     (let terms = search_terms env (sv_Lower env s) in
      if terms = [] then []
      else select_memories now query (\<lambda>candidate.
        let body = search_text env (sv_Lower env (me_Text candidate)) in \<exists>term \<in> set terms. str_contains body term) st)"

definition get_memory :: "MemoryID \<Rightarrow> Store \<Rightarrow> StoreError + Memory" where
  "get_memory mid s = (case gm_get (st_memories s) mid of None \<Rightarrow> Inl ErrMemoryNotFound | Some m \<Rightarrow> Inr m)"

text \<open>A memory that pointed at the one forgotten points at nothing.\<close>

definition unpointed :: "MemoryID \<Rightarrow> Memory \<Rightarrow> Memory" where
  "unpointed mid c = (if me_SupersededBy c = mid then c\<lparr>me_SupersededBy := ''''\<rparr> else c)"

definition forget_memory :: "MemoryID \<Rightarrow> Store \<Rightarrow> StoreError + Store" where
  "forget_memory mid s =
     (case gm_get (st_memories s) mid of
        None \<Rightarrow> Inl ErrMemoryNotFound
      | Some _ \<Rightarrow> Inr (s\<lparr>
          st_memories := gm_del (map (\<lambda>(k, c). (k, unpointed mid c)) (st_memories s)) mid,
          st_memoryVectors := gm_del (st_memoryVectors s) mid,
          st_memoryOrder := filter (\<lambda>candidate. candidate \<noteq> mid) (st_memoryOrder s)\<rparr>))"

definition vectors_of :: "Store \<Rightarrow> MemoryID \<Rightarrow> (string, vector) gomap" where
  "vectors_of s mid = (case gm_get (st_memoryVectors s) mid of None \<Rightarrow> [] | Some m \<Rightarrow> m)"

definition set_memory_vector :: "MemoryID \<Rightarrow> string \<Rightarrow> vector \<Rightarrow> Store \<Rightarrow> StoreError + Store" where
  "set_memory_vector mid model v s =
     (case gm_get (st_memories s) mid of
        None \<Rightarrow> Inl ErrMemoryNotFound
      | Some _ \<Rightarrow> Inr (s\<lparr>st_memoryVectors := gm_set (st_memoryVectors s) mid (gm_set (vectors_of s mid) model v)\<rparr>))"

definition unembedded_memories :: "string \<Rightarrow> int \<Rightarrow> Store \<Rightarrow> Memory list" where
  "unembedded_memories model limit s =
     limit_to limit (sort_slice (\<lambda>a b. me_CreatedAt a < me_CreatedAt b)
       (List.map_filter (\<lambda>mid. case gm_get (st_memories s) mid of
            None \<Rightarrow> None
          | Some m \<Rightarrow> if me_InvalidatedAt m \<noteq> None \<or> gm_get (vectors_of s mid) model \<noteq> None then None else Some m)
         (st_memoryOrder s)))"

definition nearest_memories :: "SearchEnv \<Rightarrow> instant \<Rightarrow> string \<Rightarrow> vector \<Rightarrow> rat \<Rightarrow> MemoryQuery \<Rightarrow> Store \<Rightarrow> Memory list" where
  "nearest_memories env now model v least query s =
     (let candidates = select_memories now (query\<lparr>mq_Limit := 0\<rparr>) (\<lambda>c. gm_get (vectors_of s (me_ID c)) model \<noteq> None) s;
          vectors = map (\<lambda>c. case gm_get (vectors_of s (me_ID c)) model of Some w \<Rightarrow> w | None \<Rightarrow> []) candidates
      in nearest env v candidates vectors least (mq_Limit query))"

subsection \<open>What a caller sees\<close>

text \<open>The order of writing lists every memory that is kept, once, and a memory is kept under its own name.\<close>

definition mem_wf :: "Store \<Rightarrow> bool" where
  "mem_wf s \<longleftrightarrow> gm_keyed me_ID (st_memories s) \<and> distinct (st_memoryOrder s) \<and>
     (\<forall>k. k \<in> set (st_memoryOrder s) \<longleftrightarrow> gm_get (st_memories s) k \<noteq> None)"

lemma mem_wf_new: "mem_wf new_store"
  by (simp add: mem_wf_def new_store_def)

definition in_view :: "MemoryScopeRef list \<Rightarrow> Store \<Rightarrow> Memory list" where
  "in_view scopes s = filter (\<lambda>m. in_scope m scopes) (written s)"

text \<open>Two stores that look the same from these scopes: the same memories in the same order, with the same vectors.\<close>

definition same_view :: "MemoryScopeRef list \<Rightarrow> Store \<Rightarrow> Store \<Rightarrow> bool" where
  "same_view scopes s t \<longleftrightarrow> in_view scopes s = in_view scopes t \<and> (\<forall>m \<in> set (in_view scopes s). vectors_of s (me_ID m) = vectors_of t (me_ID m))"

lemma same_view_refl [simp]: "same_view scopes s s"
  by (simp add: same_view_def)

lemma same_view_sym: "same_view scopes s t \<Longrightarrow> same_view scopes t s"
  by (simp add: same_view_def)

lemma same_view_trans: "same_view scopes s t \<Longrightarrow> same_view scopes t u \<Longrightarrow> same_view scopes s u"
  by (auto simp: same_view_def)

lemma map_filter_some: "(\<And>x. x \<in> set xs \<Longrightarrow> f x \<noteq> None) \<Longrightarrow> List.map_filter f xs = map (\<lambda>x. the (f x)) xs"
  by (induction xs) (auto simp: map_filter_def)

lemma listed_wf: "mem_wf s \<Longrightarrow> written s = map (\<lambda>k. the (gm_get (st_memories s) k)) (st_memoryOrder s)"
  unfolding written_def by (rule map_filter_some) (simp add: mem_wf_def)

lemma listed_ids: "mem_wf s \<Longrightarrow> map me_ID (written s) = st_memoryOrder s"
  by (auto simp: listed_wf mem_wf_def gm_keyed_def intro!: map_idI)

lemma in_listed:
  assumes "mem_wf s"
  shows "m \<in> set (written s) \<longleftrightarrow> gm_get (st_memories s) (me_ID m) = Some m"
proof
  assume "m \<in> set (written s)"
  then obtain k where k: "k \<in> set (st_memoryOrder s)" "m = the (gm_get (st_memories s) k)" by (auto simp: listed_wf [OF assms])
  with assms have g: "gm_get (st_memories s) k = Some m" by (auto simp: mem_wf_def)
  moreover have "me_ID m = k" using assms g by (auto simp: mem_wf_def gm_keyed_def)
  ultimately show "gm_get (st_memories s) (me_ID m) = Some m" by simp
next
  assume g: "gm_get (st_memories s) (me_ID m) = Some m"
  with assms have "me_ID m \<in> set (st_memoryOrder s)" by (simp add: mem_wf_def)
  then show "m \<in> set (written s)" using g by (force simp: listed_wf [OF assms])
qed

text \<open>What asking for a memory by name gives to whoever may only see these scopes.\<close>

lemma seen_by_name:
  assumes "mem_wf s" "gm_get (st_memories s) k = Some m" "in_scope m scopes"
  shows "m \<in> set (in_view scopes s) \<and> me_ID m = k"
proof -
  have "me_ID m = k" using assms by (auto simp: mem_wf_def gm_keyed_def)
  with assms show ?thesis by (simp add: in_view_def in_listed)
qed

lemma same_by_name:
  assumes "mem_wf s" "mem_wf t" "same_view scopes s t" "gm_get (st_memories s) k = Some m" "in_scope m scopes"
  shows "gm_get (st_memories t) k = Some m"
proof -
  from seen_by_name [OF assms(1,4,5)] assms(3) have "m \<in> set (in_view scopes t)" "me_ID m = k" by (simp_all add: same_view_def)
  with in_listed [OF assms(2), of m] show ?thesis by (simp add: in_view_def)
qed

lemma selects_in_scope: "selects q moment m \<Longrightarrow> mq_Scopes q \<noteq> [] \<Longrightarrow> in_scope m (mq_Scopes q)"
  by (simp add: selects_def)

lemma select_seen:
  assumes "mq_Scopes q \<noteq> []"
  shows "filter (\<lambda>m. selects q moment m \<and> f m) (written s) = filter (\<lambda>m. selects q moment m \<and> f m) (in_view (mq_Scopes q) s)"
  using assms by (auto simp: in_view_def selects_in_scope intro: filter_cong)

lemma select_same:
  assumes "same_view (mq_Scopes q) s t" "mq_Scopes q \<noteq> []" "\<And>m. m \<in> set (in_view (mq_Scopes q) s) \<Longrightarrow> f m = g m"
  shows "select_memories now q f s = select_memories now q g t"
proof -
  have "filter (\<lambda>m. selects q moment m \<and> f m) (in_view (mq_Scopes q) s) = filter (\<lambda>m. selects q moment m \<and> g m) (in_view (mq_Scopes q) t)" for moment
    using assms(1,3) by (auto simp: same_view_def intro: filter_cong)
  then show ?thesis unfolding select_memories_def Let_def select_seen [OF assms(2)] by simp
qed

lemma select_sub: "set (select_memories now q f s) \<subseteq> {m \<in> set (written s). selects q (if is_zero (mq_At q) then now else mq_At q) m \<and> f m}"
  unfolding select_memories_def Let_def using set_limit_to by fastforce

lemma memories_same: "same_view (mq_Scopes q) s t \<Longrightarrow> mq_Scopes q \<noteq> [] \<Longrightarrow> memories now q s = memories now q t"
  unfolding memories_def by (rule select_same) simp_all

lemma search_same: "same_view (mq_Scopes q) s t \<Longrightarrow> mq_Scopes q \<noteq> [] \<Longrightarrow> search_memories env now w q s = search_memories env now w q t"
  unfolding search_memories_def Let_def by (auto intro: select_same)

lemma nearest_same:
  assumes "same_view (mq_Scopes q) s t" "mq_Scopes q \<noteq> []"
  shows "nearest_memories env now model v least q s = nearest_memories env now model v least q t"
proof -
  let ?q = "q\<lparr>mq_Limit := 0\<rparr>"
  let ?has = "\<lambda>s c. gm_get (vectors_of s (me_ID c)) model \<noteq> None"
  have v: "vectors_of s (me_ID m) = vectors_of t (me_ID m)" if "m \<in> set (in_view (mq_Scopes q) s)" for m
    using assms(1) that by (simp add: same_view_def)
  have c: "select_memories now ?q (?has s) s = select_memories now ?q (?has t) t"
    by (rule select_same) (simp_all add: assms v)
  have "set (select_memories now ?q (?has s) s) \<subseteq> set (in_view (mq_Scopes q) s)"
    using select_sub [of now ?q "?has s" s] selects_in_scope [of ?q] assms(2) by (fastforce simp: in_view_def)
  then have "map (\<lambda>c. case gm_get (vectors_of s (me_ID c)) model of Some w \<Rightarrow> w | None \<Rightarrow> []) (select_memories now ?q (?has s) s) =
      map (\<lambda>c. case gm_get (vectors_of t (me_ID c)) model of Some w \<Rightarrow> w | None \<Rightarrow> []) (select_memories now ?q (?has s) s)"
    using v by (intro map_cong refl) (simp add: subset_iff)
  then show ?thesis unfolding nearest_memories_def Let_def c by (simp only:)
qed

subsection \<open>What the operations leave\<close>

lemma listed_write:
  assumes "mem_wf s" "gm_get (st_memories s) (me_ID m) = None"
  shows "mem_wf (write_memory m s) \<and> written (write_memory m s) = written s @ [m]"
proof -
  have w: "mem_wf (write_memory m s)"
    using assms by (auto simp: mem_wf_def write_memory_def)
  moreover have "written (write_memory m s) = written s @ [m]"
    unfolding listed_wf [OF w] listed_wf [OF assms(1)] using assms by (auto simp: write_memory_def mem_wf_def)
  ultimately show ?thesis ..
qed

lemma listed_replaced:
  assumes "mem_wf s" "gm_get (st_memories s) k = Some m" "me_ID m' = k"
  shows "mem_wf (s\<lparr>st_memories := gm_set (st_memories s) k m'\<rparr>) \<and>
    written (s\<lparr>st_memories := gm_set (st_memories s) k m'\<rparr>) = map (\<lambda>c. if me_ID c = k then m' else c) (written s)"
proof -
  let ?t = "s\<lparr>st_memories := gm_set (st_memories s) k m'\<rparr>"
  have w: "mem_wf ?t" using assms by (auto simp: mem_wf_def)
  moreover have "written ?t = map (\<lambda>c. if me_ID c = k then m' else c) (written s)"
    unfolding listed_wf [OF w] listed_wf [OF assms(1)] using assms(1,2) by (force simp: mem_wf_def gm_keyed_def)
  ultimately show ?thesis ..
qed

text \<open>Remembering adds one memory at the end and marks the one it corrects, which had not been corrected.\<close>

definition corrected :: "Memory \<Rightarrow> MemoryID \<Rightarrow> Memory \<Rightarrow> Memory" where
  "corrected memory supersedes c = (if supersedes \<noteq> '''' \<and> me_ID c = supersedes then superseded memory c else c)"

lemma superseded_parts [simp]: "me_ID (superseded m c) = me_ID c" "me_Scope (superseded m c) = me_Scope c" "me_ScopeRef (superseded m c) = me_ScopeRef c"
  "in_scope (superseded m c) = in_scope c"
  by (auto simp: superseded_def in_scope_def)

lemma corrected_parts [simp]: "me_ID (corrected m k c) = me_ID c" "in_scope (corrected m k c) = in_scope c"
  by (simp_all add: corrected_def)

lemma remember_parts:
  assumes "remember memory supersedes s = Inr t" "mem_wf s" "gm_get (st_memories s) (me_ID memory) = None"
  shows "mem_wf t \<and> written t = map (corrected memory supersedes) (written s) @ [memory] \<and> st_memoryVectors t = st_memoryVectors s \<and>
    (\<forall>k. gm_get (st_memories t) k = (if k = me_ID memory then Some memory else map_option (corrected memory supersedes) (gm_get (st_memories s) k)))"
proof (cases "supersedes = ''''")
  case True
  then have c: "corrected memory supersedes = (\<lambda>c. c)" by (simp add: corrected_def fun_eq_iff)
  from True assms(1) have "t = write_memory memory s" by (simp add: remember_def)
  with listed_write [OF assms(2,3)] show ?thesis unfolding c by (simp add: write_memory_def option.map_ident)
next
  case False
  with assms(1) obtain c where c: "gm_get (st_memories s) supersedes = Some c" "me_InvalidatedAt c = None"
    "t = write_memory memory (s\<lparr>st_memories := gm_set (st_memories s) supersedes (superseded memory c)\<rparr>)"
    by (auto simp: remember_def split: option.splits if_splits)
  let ?u = "s\<lparr>st_memories := gm_set (st_memories s) supersedes (superseded memory c)\<rparr>"
  have k: "me_ID c = supersedes" using assms(2) c(1) by (auto simp: mem_wf_def gm_keyed_def)
  note u = listed_replaced [OF assms(2) c(1), of "superseded memory c"]
  have fresh: "gm_get (st_memories ?u) (me_ID memory) = None" using assms(3) c(1) by auto
  have same: "(if me_ID x = supersedes then superseded memory c else x) = corrected memory supersedes x" if "x \<in> set (written s)" for x
    using that False c(1) in_listed [OF assms(2), of x] by (auto simp: corrected_def)
  have "written ?u = map (corrected memory supersedes) (written s)" using u k same by (auto intro!: map_cong)
  moreover have "gm_get (st_memories t) j = (if j = me_ID memory then Some memory else map_option (corrected memory supersedes) (gm_get (st_memories s) j))" for j
  proof -
    have "me_ID x = j" if "gm_get (st_memories s) j = Some x" for x using assms(2) that by (auto simp: mem_wf_def gm_keyed_def)
    moreover have "supersedes \<noteq> me_ID memory" using c(1) assms(3) by auto
    ultimately show ?thesis using False c(1) k unfolding c(3)
      by (cases "j = supersedes"; cases "gm_get (st_memories s) j") (simp_all add: write_memory_def corrected_def)
  qed
  ultimately show ?thesis using listed_write [OF _ fresh] u k c(3) by (simp add: write_memory_def)
qed

text \<open>What a view sees of it: the same marks and, when the new memory is in its scopes, that memory at the end.\<close>

lemma seen_remembered:
  assumes "remember memory supersedes s = Inr t" "mem_wf s" "gm_get (st_memories s) (me_ID memory) = None"
  shows "in_view scopes t = map (corrected memory supersedes) (in_view scopes s) @ (if in_scope memory scopes then [memory] else [])"
  using remember_parts [OF assms] by (simp add: in_view_def filter_map comp_def)

text \<open>Remembering refuses alike, and leaves the same view, where the memory it corrects can be in_view.\<close>

lemma remember_same:
  assumes "mem_wf s" "mem_wf t" "same_view scopes s t" "gm_get (st_memories s) (me_ID memory) = None" "gm_get (st_memories t) (me_ID memory) = None"
    and "vectors_of s (me_ID memory) = vectors_of t (me_ID memory)"
    and "supersedes \<noteq> '''' \<Longrightarrow> \<exists>c. gm_get (st_memories s) supersedes = Some c \<and> in_scope c scopes"
  shows "(\<exists>e. remember memory supersedes s = Inl e \<and> remember memory supersedes t = Inl e) \<or>
    (\<exists>u v. remember memory supersedes s = Inr u \<and> remember memory supersedes t = Inr v \<and> mem_wf u \<and> mem_wf v \<and> same_view scopes u v)"
proof -
  have alike: "gm_get (st_memories t) supersedes = gm_get (st_memories s) supersedes" if "supersedes \<noteq> ''''"
    using assms(7) [OF that] same_by_name [OF assms(1,2,3)] by auto
  show ?thesis
  proof (cases "remember memory supersedes s")
    case (Inl e)
    with alike show ?thesis by (auto simp: remember_def split: if_splits option.splits)
  next
    case (Inr u)
    with alike obtain v where v: "remember memory supersedes t = Inr v" by (auto simp: remember_def split: if_splits option.splits)
    note u = remember_parts [OF Inr assms(1,4)] and v' = remember_parts [OF v assms(2,5)]
    have vec: "vectors_of u = vectors_of s" "vectors_of v = vectors_of t" using u v' by (simp_all add: vectors_of_def fun_eq_iff)
    have "same_view scopes u v"
      using assms(3,6) unfolding same_view_def seen_remembered [OF Inr assms(1,4)] seen_remembered [OF v assms(2,5)] vec by auto
    with Inr v u v' show ?thesis by blast
  qed
qed

text \<open>A memory that no scope of a view holds, old or new, leaves the view as it is.\<close>

lemma remember_out_of_view:
  assumes "remember memory supersedes s = Inr t" "mem_wf s" "gm_get (st_memories s) (me_ID memory) = None"
    and "\<not> in_scope memory scopes" "\<And>c. gm_get (st_memories s) supersedes = Some c \<Longrightarrow> supersedes \<noteq> '''' \<Longrightarrow> \<not> in_scope c scopes"
  shows "same_view scopes s t"
proof -
  have "corrected memory supersedes c = c" if "c \<in> set (in_view scopes s)" for c
    using that assms(5) in_listed [OF assms(2)] by (auto simp: corrected_def in_view_def)
  then have "in_view scopes t = in_view scopes s"
    unfolding seen_remembered [OF assms(1,2,3)] using assms(4) by (simp add: map_idI)
  then show ?thesis using remember_parts [OF assms(1,2,3)] by (simp add: same_view_def vectors_of_def)
qed

lemma set_vector_parts:
  assumes "set_memory_vector mid model v s = Inr t"
  shows "st_memories t = st_memories s \<and> st_memoryOrder t = st_memoryOrder s \<and> written t = written s \<and>
    (\<forall>k. vectors_of t k = (if k = mid then gm_set (vectors_of s mid) model v else vectors_of s k))"
  using assms by (auto simp: set_memory_vector_def written_def vectors_of_def split: option.splits)

lemma set_vector_wf: "set_memory_vector mid model v s = Inr t \<Longrightarrow> mem_wf s \<Longrightarrow> mem_wf t"
  using set_vector_parts [of mid model v s t] by (simp add: mem_wf_def)

text \<open>Forgetting leaves nothing that names what was forgotten.\<close>

lemma unpointed_ID [simp]: "me_ID (unpointed mid c) = me_ID c"
  by (simp add: unpointed_def)

lemma forget_parts:
  assumes "forget_memory mid s = Inr t" "mem_wf s"
  shows "mem_wf t \<and> (\<forall>k. gm_get (st_memories t) k = (if k = mid then None else map_option (unpointed mid) (gm_get (st_memories s) k)) \<and>
    vectors_of t k = (if k = mid then [] else vectors_of s k))"
proof -
  let ?m = "map (\<lambda>(k, c). (k, unpointed mid c)) (st_memories s)"
  have g: "gm_get ?m k = map_option (unpointed mid) (gm_get (st_memories s) k)" for k
    by (simp add: gm_get_def map_of_map comp_def)
  have t: "t = s\<lparr>st_memories := gm_del ?m mid, st_memoryVectors := gm_del (st_memoryVectors s) mid,
      st_memoryOrder := filter (\<lambda>candidate. candidate \<noteq> mid) (st_memoryOrder s)\<rparr>"
    using assms(1) by (auto simp: forget_memory_def split: option.splits)
  have s: "gm_keyed me_ID (st_memories s)" "distinct (st_memoryOrder s)" "\<And>k. k \<in> set (st_memoryOrder s) \<longleftrightarrow> gm_get (st_memories s) k \<noteq> None"
    using assms(2) by (simp_all add: mem_wf_def)
  have "gm_wf ?m" using gm_keyed_wf [OF s(1)] by (simp add: gm_wf_def comp_def case_prod_beta)
  then have "gm_keyed me_ID (gm_del ?m mid)"
    using gm_keyed_get [OF s(1)] by (auto simp: gm_keyed_def g split: if_splits)
  then show ?thesis using s(2,3) by (simp add: t mem_wf_def g vectors_of_def)
qed

subsection \<open>What is believed, and since when\<close>

lemma sort_insert_map: "(\<And>a b. lt' (f a) (f b) = lt a b) \<Longrightarrow> sort_insert lt' (f x) (map f xs) = map f (sort_insert lt x xs)"
  by (induction xs) auto

lemma sort_slice_map: "(\<And>a b. lt' (f a) (f b) = lt a b) \<Longrightarrow> sort_slice lt' (map f xs) = map f (sort_slice lt xs)"
  by (induction xs) (simp_all add: sort_insert_map)

lemma limit_to_map: "limit_to n (map f xs) = map f (limit_to n xs)"
  by (simp add: limit_to_def take_map)

text \<open>A memory without the marks a correction leaves on it.\<close>

definition unmarked :: "Memory \<Rightarrow> Memory" where
  "unmarked m = m\<lparr>me_InvalidatedAt := None, me_SupersededBy := '''', me_ValidUntil := None\<rparr>"

lemma unmarked_corrected: "unmarked (corrected m k c) = unmarked c" "me_CreatedAt (unmarked c) = me_CreatedAt c"
  by (simp_all add: unmarked_def corrected_def superseded_def)

text \<open>Remembering marks only what had not been corrected.\<close>

lemma marks_the_believed:
  assumes "remember memory supersedes s = Inr t" "mem_wf s" "c \<in> set (written s)" "supersedes \<noteq> ''''" "me_ID c = supersedes"
  shows "me_InvalidatedAt c = None"
  using assms in_listed [OF assms(2), of c] by (auto simp: remember_def split: option.splits if_splits)

text \<open>C25. A correction keeps two timelines apart: when the agent stopped believing the old memory, which is when the new one was
  made, and when the old one stopped being true, which is from when the new one holds, unless the old one stated its own end. Asking
  what was believed at a moment before both gives, in order, what it gave before the correction, save for its marks. Asking for any moment gives the
  same memories as before, with the new one where the question selects it, and without the corrected one from the moment the correction
  was made, and, where it had stated no end, from the moment the new one holds, even if the correction came later.\<close>

theorem correction_takes_effect_from_its_moment:
  assumes "remember memory supersedes s = Inr t" "mem_wf s" "gm_get (st_memories s) (me_ID memory) = None" "supersedes \<noteq> ''''"
    and "\<not> mq_IncludeInvalidated q" "\<not> is_zero (mq_At q)"
  shows "(\<not> is_zero (me_ValidFrom memory) \<and> mq_At q < me_CreatedAt memory \<and> mq_At q < me_ValidFrom memory \<longrightarrow>
      map unmarked (memories now q t) = map unmarked (memories now q s)) \<and>
    set (memories now (q\<lparr>mq_Limit := 0\<rparr>) t) =
      (\<lambda>m. if me_ID m = supersedes then superseded memory m else m) `
        {m \<in> set (memories now (q\<lparr>mq_Limit := 0\<rparr>) s). me_ID m = supersedes \<longrightarrow>
           mq_At q < me_CreatedAt memory \<and> (me_ValidUntil m \<noteq> None \<or> mq_At q < me_ValidFrom memory)} \<union>
      {m. m = memory \<and> selects q (mq_At q) memory}"
proof (intro conjI impI)
  let ?c = "corrected memory supersedes"
  let ?at = "mq_At q"
  note l = conjunct1 [OF conjunct2 [OF remember_parts [OF assms(1-3)]]]
  have old: "selects q ?at (?c m) \<longleftrightarrow> selects q ?at m \<and> ?at < me_CreatedAt memory \<and> (me_ValidUntil m \<noteq> None \<or> ?at < me_ValidFrom memory)"
    if "m \<in> set (written s)" "me_ID m = supersedes" for m
    using marks_the_believed [OF assms(1,2) that(1) assms(4) that(2)] that(2) assms(4,5)
    by (auto simp: selects_def corrected_def current_at_def superseded_def in_scope_def split: option.splits)
  have other: "?c m = m" if "me_ID m \<noteq> supersedes" for m using that by (simp add: corrected_def)
  {
    assume past: "\<not> is_zero (me_ValidFrom memory) \<and> ?at < me_CreatedAt memory \<and> ?at < me_ValidFrom memory"
    then have "\<not> selects q ?at memory" using assms(5) by (simp add: selects_def current_at_def)
    moreover have "selects q ?at (?c m) = selects q ?at m" if "m \<in> set (written s)" for m
      using old [OF that] other [of m] past by (cases "me_ID m = supersedes") auto
    ultimately have "filter (selects q ?at) (written t) = map ?c (filter (selects q ?at) (written s))"
      unfolding l by (simp add: filter_map comp_def cong: filter_cong)
    then have "map unmarked (filter (selects q ?at) (written t)) = map unmarked (filter (selects q ?at) (written s))"
      by (simp add: unmarked_corrected comp_def)
    then have "sort_slice (\<lambda>a b. me_CreatedAt a > me_CreatedAt b) (map unmarked (filter (selects q ?at) (written t))) =
        sort_slice (\<lambda>a b. me_CreatedAt a > me_CreatedAt b) (map unmarked (filter (selects q ?at) (written s)))" by simp
    then show "map unmarked (memories now q t) = map unmarked (memories now q s)"
      using assms(6) unfolding memories_def select_memories_def Let_def
      by (simp add: limit_to_map [symmetric] sort_slice_map [where f = unmarked and lt = "\<lambda>a b. me_CreatedAt a > me_CreatedAt b"] unmarked_corrected)
  }
  have s: "set (memories now (q\<lparr>mq_Limit := 0\<rparr>) u) = {m \<in> set (written u). selects q ?at m}" for u
    using assms(6) by (auto simp: memories_def select_memories_def selects_def)
  let ?kept = "{m \<in> set (written s). selects q ?at m \<and> (me_ID m = supersedes \<longrightarrow> ?at < me_CreatedAt memory \<and> (me_ValidUntil m \<noteq> None \<or> ?at < me_ValidFrom memory))}"
  have c: "(\<lambda>m. if me_ID m = supersedes then superseded memory m else m) = ?c" using assms(4) by (simp add: corrected_def fun_eq_iff)
  have "selects q ?at (?c m) \<longleftrightarrow> selects q ?at m \<and> (me_ID m = supersedes \<longrightarrow> ?at < me_CreatedAt memory \<and> (me_ValidUntil m \<noteq> None \<or> ?at < me_ValidFrom memory))"
    if "m \<in> set (written s)" for m
    using old [OF that] other [of m] by (cases "me_ID m = supersedes") simp_all
  then have "{m \<in> ?c ` set (written s). selects q ?at m} = ?c ` ?kept" by (auto simp: image_iff)
  moreover have "{m \<in> set (written t). selects q ?at m} = {m \<in> ?c ` set (written s). selects q ?at m} \<union> {m. m = memory \<and> selects q ?at memory}"
    by (auto simp: l)
  ultimately have "{m \<in> set (written t). selects q ?at m} = ?c ` ?kept \<union> {m. m = memory \<and> selects q ?at memory}" by simp
  moreover have "?kept = {m \<in> {m \<in> set (written s). selects q ?at m}. me_ID m = supersedes \<longrightarrow> ?at < me_CreatedAt memory \<and> (me_ValidUntil m \<noteq> None \<or> ?at < me_ValidFrom memory)}"
    by blast
  ultimately show "    set (memories now (q\<lparr>mq_Limit := 0\<rparr>) t) =
      (\<lambda>m. if me_ID m = supersedes then superseded memory m else m) `
        {m \<in> set (memories now (q\<lparr>mq_Limit := 0\<rparr>) s). me_ID m = supersedes \<longrightarrow>
           mq_At q < me_CreatedAt memory \<and> (me_ValidUntil m \<noteq> None \<or> mq_At q < me_ValidFrom memory)} \<union>
      {m. m = memory \<and> selects q (mq_At q) memory}"
    unfolding s c by simp
qed

subsection \<open>Vectors survive being stored\<close>

lemma word_of_bytes:
  fixes x :: "32 word"
  shows "or (ucast (ucast x :: 8 word)) (or (push_bit 8 (ucast (ucast (drop_bit 8 x) :: 8 word)))
    (or (push_bit 16 (ucast (ucast (drop_bit 16 x) :: 8 word))) (push_bit 24 (ucast (ucast (drop_bit 24 x) :: 8 word))))) = x"
proof (rule bit_word_eqI)
  fix n
  assume "n < LENGTH(32)"
  then show "bit (or (ucast (ucast x :: 8 word)) (or (push_bit 8 (ucast (ucast (drop_bit 8 x) :: 8 word)))
    (or (push_bit 16 (ucast (ucast (drop_bit 16 x) :: 8 word))) (push_bit 24 (ucast (ucast (drop_bit 24 x) :: 8 word))))) :: 32 word) n \<longleftrightarrow> bit x n"
    by (cases "n < 16"; cases "n < 24") (auto simp: bit_simps)
qed

lemma vector_round_trip: "length (encode_vector v) = 4 * length v \<and> decode_vector (encode_vector v) = Some v"
proof -
  have "length (encode_vector v) = 4 * length v" by (induction v) (simp_all add: encode_vector_def)
  moreover have "read_words (encode_vector v) = v" by (induction v) (simp_all add: encode_vector_def word_of_bytes)
  ultimately show ?thesis by (simp add: decode_vector_def)
qed

subsection \<open>An example\<close>

definition sample_memory :: "MemoryID \<Rightarrow> MemoryScope \<Rightarrow> string \<Rightarrow> string \<Rightarrow> instant \<Rightarrow> Memory" where
  "sample_memory mid scope ref told moment =
     \<lparr>me_ID = mid, me_Scope = scope, me_ScopeRef = ref, me_Activation = MemoryRetrieval, me_Text = told, me_Trust = TrustUser,
      me_From = ProvenanceOperator, me_Origin = from_the_machine ''tui'', me_SourceSession = ''s'', me_SourceSeq = 1,
      me_ApprovedBy = ''operator'', me_CreatedAt = moment, me_InvalidatedAt = None, me_SupersededBy = '''',
      me_ValidFrom = moment, me_ValidUntil = None\<rparr>"

definition sample_query :: "MemoryScopeRef list \<Rightarrow> instant \<Rightarrow> MemoryQuery" where
  "sample_query scopes moment = \<lparr>mq_Scopes = scopes, mq_Activation = any_activation, mq_IncludeInvalidated = False, mq_At = moment, mq_Limit = 0\<rparr>"

text \<open>Learned at 30, about what changed at 20.\<close>

theorem correction_takes_effect_from_its_moment_witness:
  "let old = sample_memory ''m1'' ScopeWorkspace ''w'' ''tabs'' 10; new = sample_memory ''m2'' ScopeWorkspace ''w'' ''spaces'' 30\<lparr>me_ValidFrom := 20\<rparr>;
       s = write_memory old new_store
   in \<exists>t. remember new ''m1'' s = Inr t \<and> map me_Text (map unmarked (memories 0 (sample_query [] 15) t)) = [''tabs''] \<and>
        set (memories 0 (sample_query [] 25) t) = {new}"
proof -
  define old where "old = sample_memory ''m1'' ScopeWorkspace ''w'' ''tabs'' 10"
  define new where "new = sample_memory ''m2'' ScopeWorkspace ''w'' ''spaces'' 30\<lparr>me_ValidFrom := 20\<rparr>"
  define s where "s = write_memory old new_store"
  have f: "me_ID old = ''m1''" "me_ID new = ''m2''" "me_Text old = ''tabs''" "me_CreatedAt new = 30" "me_ValidFrom new = 20"
    "me_InvalidatedAt old = None" "me_ValidUntil old = None"
    by (simp_all add: old_def new_def sample_memory_def)
  have q: "\<not> mq_IncludeInvalidated (sample_query [] n)" "mq_At (sample_query [] n) = n" "sample_query [] n\<lparr>mq_Limit := 0\<rparr> = sample_query [] n" for n
    by (simp_all add: sample_query_def)
  have z: "\<not> is_zero (20 :: instant)" "\<not> is_zero (15 :: instant)" "\<not> is_zero (25 :: instant)" by (simp_all add: zero_time_def)
  have sel: "10 \<le> n \<Longrightarrow> selects (sample_query [] n) n old" "selects (sample_query [] 25) 25 new" for n
    by (simp_all add: selects_def current_at_def sample_query_def old_def new_def sample_memory_def)
  have w: "mem_wf s" "written s = [old]" using listed_write [OF mem_wf_new, of old] by (simp_all add: s_def new_store_def written_def map_filter_def)
  have k: "gm_get (st_memories s) ''m1'' = Some old" "gm_get (st_memories s) (me_ID new) = None" by (simp_all add: s_def write_memory_def new_store_def f)
  with f(6) obtain t where t: "remember new ''m1'' s = Inr t" by (auto simp: remember_def)
  have s: "memories 0 (sample_query [] n) s = [old]" if "10 \<le> n" "\<not> is_zero n" for n
    using that sel(1) [OF that(1)] unfolding memories_def select_memories_def Let_def w(2) q(2) by (simp add: sample_query_def)
  note c = correction_takes_effect_from_its_moment [OF t w(1) k(2), of _ 0]
  from c [of "sample_query [] 15"] z q s [of 15] f have "map unmarked (memories 0 (sample_query [] 15) t) = map unmarked [old]" by simp
  then have "map me_Text (map unmarked (memories 0 (sample_query [] 15) t)) = [''tabs'']" by (simp add: unmarked_def f)
  moreover from c [of "sample_query [] 25"] z q s [of 25] f sel(2) have "set (memories 0 (sample_query [] 25) t) = {new}" by auto
  ultimately show ?thesis unfolding Let_def old_def [symmetric] new_def [symmetric] s_def [symmetric] using t by (intro exI [of _ t]) simp
qed

end
