(* ===== verification/MemDocuments.thy ===== *)
theory MemDocuments
imports MemSessions
begin

text \<open>
  The settings kept as documents (\<open>core/internal/storage/memory/documents.go\<close>, with the types and the name
  check of \<open>storage/document.go\<close>): three named texts, each with the newest versions of its history. The hash
  of a text is a parameter: the code needs of SHA-256 that two different texts do not share one.

  What the store promises is an abstract history for each name, to which a save adds exactly when it
  started from the newest text. The store keeps the end of it; \<open>documents_simulate\<close> is the simulation.
\<close>

subsection \<open>Operations\<close>

definition document_versions_kept :: nat where "document_versions_kept = 20"

definition is_document_name :: "string \<Rightarrow> bool" where
  "is_document_name name \<longleftrightarrow> name \<in> {''config'', ''agents'', ''persona''}"

definition check_document_name :: "string \<Rightarrow> StoreError + 'a \<Rightarrow> StoreError + 'a" where
  "check_document_name name r = (if is_document_name name then r else Inl (ErrNotADocument name))"

definition document_hash :: "(string \<Rightarrow> string) \<Rightarrow> string \<Rightarrow> string" where
  "document_hash sum_hex told = (if told = '''' then '''' else sum_hex told)"

definition never_written :: "string \<Rightarrow> Document" where
  "never_written name = \<lparr>do_Name = name, do_Text = '''', do_Hash = '''', do_Source = '''', do_Version = 0, do_UpdatedAt = zero_time\<rparr>"

definition current_document :: "string \<Rightarrow> Store \<Rightarrow> Document" where
  "current_document name s = (case gm_get (st_documents s) name of Some d \<Rightarrow> d | None \<Rightarrow> never_written name)"

definition keep_document :: "Document \<Rightarrow> Store \<Rightarrow> Store" where
  "keep_document d s =
     (let history = gm_list (st_documentVersions s) (do_Name d) @ [d];
          extra = length history - document_versions_kept
      in s\<lparr>st_documents := gm_set (st_documents s) (do_Name d) d,
           st_documentVersions := gm_set (st_documentVersions s) (do_Name d) (if extra > 0 then drop extra history else history)\<rparr>)"

definition get_document :: "Ctx \<Rightarrow> string \<Rightarrow> Store \<Rightarrow> StoreError + Document" where
  "get_document ctx name s = guard_ctx ctx (check_document_name name (Inr (current_document name s)))"

definition put_document :: "(string \<Rightarrow> string) \<Rightarrow> Ctx \<Rightarrow> string \<Rightarrow> string \<Rightarrow> string \<Rightarrow> string \<Rightarrow> instant \<Rightarrow> Store \<Rightarrow> StoreError + (Document \<times> Store)" where
  "put_document sum_hex ctx name told source expect moment s = guard_ctx ctx (check_document_name name
     (let current = current_document name s in
      if do_Hash current \<noteq> expect then Inl ErrDocumentChanged
      else let d = \<lparr>do_Name = name, do_Text = told, do_Hash = document_hash sum_hex told, do_Source = source,
                    do_Version = do_Version current + 1, do_UpdatedAt = moment\<rparr>
           in Inr (d, keep_document d s)))"

definition document_versions :: "Ctx \<Rightarrow> string \<Rightarrow> Store \<Rightarrow> StoreError + Document list" where
  "document_versions ctx name s = guard_ctx ctx (check_document_name name (Inr (rev (gm_list (st_documentVersions s) name))))"

definition document_version :: "Ctx \<Rightarrow> string \<Rightarrow> int \<Rightarrow> Store \<Rightarrow> StoreError + Document" where
  "document_version ctx name version s = guard_ctx ctx (check_document_name name
     (case find (\<lambda>d. do_Version d = version) (gm_list (st_documentVersions s) name) of
        None \<Rightarrow> Inl ErrDocumentVersionNotFound | Some d \<Rightarrow> Inr d))"

fun check_seeds :: "DocumentSeed list \<Rightarrow> StoreError + unit" where
  "check_seeds [] = Inr ()"
| "check_seeds (seed # seeds) = check_document_name (ds_Name seed) (check_seeds seeds)"

fun write_seeds :: "(string \<Rightarrow> string) \<Rightarrow> instant \<Rightarrow> DocumentSeed list \<Rightarrow> string list \<Rightarrow> Store \<Rightarrow> string list \<times> Store" where
  "write_seeds sum_hex moment [] written s = (written, s)"
| "write_seeds sum_hex moment (seed # seeds) written s =
     (if gm_get (st_documents s) (ds_Name seed) \<noteq> None then write_seeds sum_hex moment seeds written s
      else write_seeds sum_hex moment seeds (written @ [ds_Name seed])
             (keep_document \<lparr>do_Name = ds_Name seed, do_Text = ds_Text seed, do_Hash = document_hash sum_hex (ds_Text seed),
                do_Source = ds_Source seed, do_Version = 1, do_UpdatedAt = moment\<rparr> s))"

definition seed_documents :: "(string \<Rightarrow> string) \<Rightarrow> Ctx \<Rightarrow> DocumentSeed list \<Rightarrow> instant \<Rightarrow> Store \<Rightarrow> StoreError + (string list \<times> Store)" where
  "seed_documents sum_hex ctx seeds moment s = guard_ctx ctx
     (case check_seeds seeds of Inl e \<Rightarrow> Inl e | Inr _ \<Rightarrow> Inr (write_seeds sum_hex moment seeds [] s))"

subsection \<open>A history for each document\<close>

text \<open>
  The abstract store: everything ever saved under a name, oldest first. A save names the hash of the text
  it started from; it is added, with the next number, when that is the newest text, and refused otherwise.
\<close>

type_synonym histories = "string \<Rightarrow> Document list"

definition newest :: "string \<Rightarrow> Document list \<Rightarrow> Document" where
  "newest name h = (if h = [] then never_written name else last h)"

definition saved :: "(string \<Rightarrow> string) \<Rightarrow> string \<Rightarrow> string \<Rightarrow> string \<Rightarrow> instant \<Rightarrow> Document list \<Rightarrow> Document" where
  "saved sum_hex name told source moment h = \<lparr>do_Name = name, do_Text = told, do_Hash = document_hash sum_hex told, do_Source = source,
     do_Version = int (length h) + 1, do_UpdatedAt = moment\<rparr>"

datatype saving = Save string string string string instant | Seed "DocumentSeed list" instant

fun seeded :: "(string \<Rightarrow> string) \<Rightarrow> instant \<Rightarrow> DocumentSeed list \<Rightarrow> histories \<Rightarrow> histories" where
  "seeded sum_hex moment [] H = H"
| "seeded sum_hex moment (seed # seeds) H =
     seeded sum_hex moment seeds (if H (ds_Name seed) \<noteq> [] then H
       else H(ds_Name seed := [saved sum_hex (ds_Name seed) (ds_Text seed) (ds_Source seed) moment []]))"

fun history_step :: "(string \<Rightarrow> string) \<Rightarrow> saving \<Rightarrow> histories \<Rightarrow> bool \<times> histories" where
  "history_step sum_hex (Save name told source expect moment) H =
     (if is_document_name name \<and> do_Hash (newest name (H name)) = expect
      then (True, H(name := H name @ [saved sum_hex name told source moment (H name)])) else (False, H))"
| "history_step sum_hex (Seed seeds moment) H =
     (if \<forall>seed \<in> set seeds. is_document_name (ds_Name seed) then (True, seeded sum_hex moment seeds H) else (False, H))"

fun store_step :: "(string \<Rightarrow> string) \<Rightarrow> saving \<Rightarrow> Store \<Rightarrow> bool \<times> Store" where
  "store_step sum_hex (Save name told source expect moment) s =
     (case put_document sum_hex None name told source expect moment s of Inl _ \<Rightarrow> (False, s) | Inr (_, t) \<Rightarrow> (True, t))"
| "store_step sum_hex (Seed seeds moment) s =
     (case seed_documents sum_hex None seeds moment s of Inl _ \<Rightarrow> (False, s) | Inr (_, t) \<Rightarrow> (True, t))"

text \<open>The store keeps the end of every history.\<close>

definition keeps_end :: "histories \<Rightarrow> Store \<Rightarrow> bool" where
  "keeps_end H s \<longleftrightarrow> (\<forall>name. gm_get (st_documents s) name = (if H name = [] then None else Some (last (H name))) \<and>
     gm_list (st_documentVersions s) name = drop (length (H name) - document_versions_kept) (H name) \<and>
     (\<forall>i < length (H name). do_Version (H name ! i) = int i + 1 \<and> do_Name (H name ! i) = name))"

lemma keeps_end_new: "keeps_end (\<lambda>_. []) new_store"
  by (simp add: keeps_end_def new_store_def)

lemma current_is_newest: "keeps_end H s \<Longrightarrow> current_document name s = newest name (H name)"
  by (simp add: keeps_end_def current_document_def newest_def)

lemma newest_version:
  assumes "keeps_end H s"
  shows "do_Version (newest name (H name)) = int (length (H name))"
proof (cases "H name" rule: rev_cases)
  case Nil
  then show ?thesis by (simp add: newest_def never_written_def)
next
  case (snoc h d)
  have "\<forall>i < length (H name). do_Version (H name ! i) = int i + 1" using assms unfolding keeps_end_def by blast
  from this [rule_format, of "length h"] snoc show ?thesis by (simp add: newest_def)
qed

lemma end_of_longer:
  assumes "0 < k"
  shows "(let history = drop (length h - k) h @ [d]; extra = length history - k in if extra > 0 then drop extra history else history) =
    drop (length (h @ [d]) - k) (h @ [d])"
  using assms by (cases "k \<le> length h") (auto simp: Let_def Suc_diff_le drop_Suc drop_tl tl_append split: list.split)

lemma keep_extends:
  assumes "keeps_end H s" "do_Name d = name" "do_Version d = int (length (H name)) + 1"
  shows "keeps_end (H(name := H name @ [d])) (keep_document d s)"
proof -
  have v: "gm_list (st_documentVersions s) name = drop (length (H name) - document_versions_kept) (H name)"
    using assms(1) by (simp add: keeps_end_def)
  have "gm_list (st_documentVersions (keep_document d s)) name = drop (length (H name @ [d]) - document_versions_kept) (H name @ [d])"
    using end_of_longer [of document_versions_kept "H name" d] assms(2)
    by (simp add: keep_document_def v Let_def document_versions_kept_def del: drop_append)
  moreover have "gm_list (st_documentVersions (keep_document d s)) k = gm_list (st_documentVersions s) k" if "k \<noteq> name" for k
    using that assms(2) by (simp add: keep_document_def Let_def)
  moreover have "gm_get (st_documents (keep_document d s)) k = (if k = name then Some d else gm_get (st_documents s) k)" for k
    using assms(2) by (simp add: keep_document_def Let_def)
  ultimately show ?thesis using assms by (simp add: keeps_end_def nth_append less_Suc_eq)
qed

lemma check_seeds_all: "(case check_seeds seeds of Inl _ \<Rightarrow> False | Inr _ \<Rightarrow> True) \<longleftrightarrow> (\<forall>seed \<in> set seeds. is_document_name (ds_Name seed))"
  by (induction seeds) (auto simp: check_document_name_def split: sum.split)

lemma write_seeds_simulates:
  "keeps_end H s \<Longrightarrow> keeps_end (seeded sum_hex moment seeds H) (snd (write_seeds sum_hex moment seeds written s))"
proof (induction seeds arbitrary: H s written)
  case (Cons seed seeds)
  show ?case
  proof (cases "H (ds_Name seed) = []")
    case True
    let ?d = "saved sum_hex (ds_Name seed) (ds_Text seed) (ds_Source seed) moment []"
    have "keeps_end (H(ds_Name seed := [?d])) (keep_document ?d s)"
      using keep_extends [OF Cons.prems, of ?d "ds_Name seed"] True by (simp add: saved_def)
    moreover have "gm_get (st_documents s) (ds_Name seed) = None" using Cons.prems True by (simp add: keeps_end_def)
    ultimately show ?thesis using Cons.IH [of "H(ds_Name seed := [?d])" "keep_document ?d s" "written @ [ds_Name seed]"] True by (simp add: saved_def fun_upd_def)
  next
    case False
    then have "gm_get (st_documents s) (ds_Name seed) \<noteq> None" using Cons.prems by (simp add: keeps_end_def)
    with False Cons show ?thesis by simp
  qed
qed simp

lemma documents_simulate:
  assumes "keeps_end H s"
  shows "fst (store_step sum_hex op s) = fst (history_step sum_hex op H) \<and> keeps_end (snd (history_step sum_hex op H)) (snd (store_step sum_hex op s))"
proof (cases op)
  case (Save name told source expect moment)
  let ?d = "saved sum_hex name told source moment (H name)"
  have "keeps_end (H(name := H name @ [?d])) (keep_document ?d s)"
    using keep_extends [OF assms, of ?d name] by (simp add: saved_def)
  with Save assms current_is_newest [OF assms, of name] newest_version [OF assms, of name] show ?thesis
    by (auto simp: put_document_def check_document_name_def Let_def saved_def)
next
  case (Seed seeds moment)
  with assms write_seeds_simulates [OF assms, of sum_hex moment seeds "[]"] check_seeds_all [of seeds] show ?thesis
    by (auto simp: seed_documents_def split: sum.splits prod.splits)
qed


lemma find_version:
  assumes "\<forall>i < length h. do_Version (h ! i) = int i + 1"
  shows "find (\<lambda>d. do_Version d = v) (drop k h) = (if int k < v \<and> v \<le> int (length h) then Some (h ! nat (v - 1)) else None)"
proof (cases "int k < v \<and> v \<le> int (length h)")
  case True
  then have "nat (v - 1) - k < length (drop k h)" "k + (nat (v - 1) - k) = nat (v - 1)" "nat (v - 1) < length h" by auto
  with assms True show ?thesis
    by (auto simp: find_Some_iff intro!: exI [of _ "nat (v - 1) - k"])
next
  case False
  have "do_Version d \<noteq> v" if d: "d \<in> set (drop k h)" for d
  proof -
    from d obtain i where "i < length h - k" "d = h ! (k + i)" by (auto simp: in_set_conv_nth)
    with assms have "do_Version d = int (k + i) + 1" "k + i < length h" by auto
    with False show ?thesis by linarith
  qed
  with False show ?thesis by (auto simp: find_None_iff)
qed

fun store_saves :: "(string \<Rightarrow> string) \<Rightarrow> saving list \<Rightarrow> Store \<Rightarrow> bool list \<times> Store" where
  "store_saves sum_hex [] s = ([], s)"
| "store_saves sum_hex (op # ops) s =
     (case store_step sum_hex op s of (ok, t) \<Rightarrow> (case store_saves sum_hex ops t of (oks, u) \<Rightarrow> (ok # oks, u)))"

fun history_saves :: "(string \<Rightarrow> string) \<Rightarrow> saving list \<Rightarrow> histories \<Rightarrow> bool list \<times> histories" where
  "history_saves sum_hex [] H = ([], H)"
| "history_saves sum_hex (op # ops) H =
     (case history_step sum_hex op H of (ok, J) \<Rightarrow> (case history_saves sum_hex ops J of (oks, K) \<Rightarrow> (ok # oks, K)))"

lemma saves_simulate:
  "keeps_end H s \<Longrightarrow> fst (store_saves sum_hex ops s) = fst (history_saves sum_hex ops H) \<and>
    keeps_end (snd (history_saves sum_hex ops H)) (snd (store_saves sum_hex ops s))"
proof (induction ops arbitrary: H s)
  case (Cons op ops)
  from documents_simulate [OF Cons.prems, of sum_hex op] Cons.IH show ?case by (fastforce split: prod.splits)
qed simp

text \<open>C13. No save of a document is lost to another. Whatever saves and first writings are asked for, and in whatever order, the
  store accepts exactly those that a complete history would, a save being accepted when it started from the newest text.
  Reading gives the newest save, the versions are the last twenty of the history, newest first and numbered
  without gaps, and a version is found by its number exactly while it is one of these.\<close>

theorem documents_refine_their_histories:
  assumes "history_saves sum_hex ops (\<lambda>_. []) = (oks, H)" "store_saves sum_hex ops new_store = (oks', s)" "is_document_name name"
  shows "oks' = oks \<and> get_document None name s = Inr (newest name (H name)) \<and>
    document_versions None name s = Inr (rev (drop (length (H name) - 20) (H name))) \<and>
    document_version None name v s = (if int (length (H name)) - 20 < v \<and> 0 < v \<and> v \<le> int (length (H name))
      then Inr (H name ! nat (v - 1)) else Inl ErrDocumentVersionNotFound)"
proof -
  note sim = saves_simulate [OF keeps_end_new, of sum_hex ops, unfolded assms(1,2)]
  then have k: "keeps_end H s" by simp
  then have v: "gm_list (st_documentVersions s) name = drop (length (H name) - 20) (H name)" "\<forall>i < length (H name). do_Version (H name ! i) = int i + 1"
    unfolding keeps_end_def document_versions_kept_def by blast+
  have "int (length (H name) - 20) < v \<longleftrightarrow> int (length (H name)) - 20 < v \<and> 0 < v" by linarith
  then show ?thesis using sim assms(3) current_is_newest [OF k, of name] find_version [OF v(2), of v "length (H name) - 20"]
    by (simp add: get_document_def document_versions_def document_version_def check_document_name_def v(1))
qed

text \<open>Two people edit one document from the same text: the first save is kept, the second is refused.\<close>

definition two_edits :: "saving list" where
  "two_edits = [Seed [\<lparr>ds_Name = ''persona'', ds_Text = ''a'', ds_Source = ''file''\<rparr>] 1,
     Save ''persona'' ''b'' ''web'' ''#a'' 2, Save ''persona'' ''c'' ''web'' ''#a'' 3]"

theorem documents_refine_their_histories_witness:
  "\<exists>s d. store_saves (\<lambda>s. CHR 0x23 # s) two_edits new_store = ([True, True, False], s) \<and>
     get_document None ''persona'' s = Inr d \<and> do_Text d = ''b'' \<and> do_Version d = 2"
proof -
  obtain H where H: "history_saves (\<lambda>s. CHR 0x23 # s) two_edits (\<lambda>_. []) = ([True, True, False], H)"
    "newest ''persona'' (H ''persona'') = \<lparr>do_Name = ''persona'', do_Text = ''b'', do_Hash = ''#b'', do_Source = ''web'', do_Version = 2, do_UpdatedAt = 2\<rparr>"
    by (simp add: two_edits_def is_document_name_def saved_def newest_def document_hash_def)
  obtain oks s where s: "store_saves (\<lambda>s. CHR 0x23 # s) two_edits new_store = (oks, s)" by fastforce
  from documents_refine_their_histories [OF H(1) s, of "''persona''"] H(2) s show ?thesis by (simp add: is_document_name_def)
qed

end
