(* ===== verification/Curator.thy ===== *)
theory Curator
imports MemoryTool MemEvents
begin

text \<open>
  Noticing what a person said that is worth keeping (\<open>core/internal/tool/memory/curate.go\<close>), after the run that
  answered them. A model proposes; what it proposes is written only when the quote it cites stands in
  the cited message, and everything about where a note came from is read off the log.

  The model, its instruction and the JSON of its answer are parameters. A time-out of the model is an
  answer that fails. The in-memory store fails none of the calls made here but the reading of the log.
\<close>

subsection \<open>Who said what\<close>

record Spoken =
  sk_Number :: nat
  sk_Seq :: Seq
  sk_Message :: UserMessageAdded

record Proposal =
  pp_Claim :: string
  pp_Quote :: string
  pp_Message :: int
  pp_About :: string

record NoteClaim =
  cm_Text :: string
  cm_About :: string
  cm_Source :: Spoken

record CurEnv = MemEnv +
  cu_Instruction :: string
  cu_Complete :: "string \<Rightarrow> string \<Rightarrow> int \<Rightarrow> string + string"
  cu_Unmarshal :: "string \<Rightarrow> Proposal list option"
  cu_MaxClaims :: int

definition max_claim_bytes :: nat where "max_claim_bytes = 300"
definition known_limit :: int where "known_limit = 10"
definition curate_max_output_tokens :: int where "curate_max_output_tokens = 600"

definition person_said :: "Event \<Rightarrow> UserMessageAdded option" where
  "person_said e =
     (case ev_Payload e of
        PUserMessageAdded p \<Rightarrow> if \<not> a_person_sent (um_Origin p) \<or> trim_space (um_Text p) = '''' then None else Some p
      | _ \<Rightarrow> None)"

text \<open>How each run ended, as far as the log says: the last state of it.\<close>

definition ended_runs :: "Event list \<Rightarrow> (RunID, RunStatus) gomap" where
  "ended_runs es = foldl (\<lambda>m e. case ev_Payload e of PRunStateChanged p \<Rightarrow> gm_set m (ev_RunID e) (rs_Status p) | _ \<Rightarrow> m) [] es"

fun gather :: "RunID \<Rightarrow> (RunID, RunStatus) gomap \<Rightarrow> Event list \<Rightarrow> Spoken list \<Rightarrow> Spoken list \<Rightarrow> Spoken list \<times> Spoken list" where
  "gather rid ended [] said carried = (said, carried)"
| "gather rid ended (e # es) said carried =
     (case person_said e of
        None \<Rightarrow> gather rid ended es said carried
      | Some p \<Rightarrow>
          (let item = \<lparr>sk_Number = 0, sk_Seq = ev_Seq e, sk_Message = p\<rparr> in
           if ev_RunID e = rid then gather rid ended es (said @ [item]) carried
           else if said \<noteq> [] then gather rid ended es said carried
           else (case gm_get ended (ev_RunID e) of
               Some RunFailed \<Rightarrow> gather rid ended es said (carried @ [item])
             | Some RunCompleted \<Rightarrow> gather rid ended es said []
             | _ \<Rightarrow> gather rid ended es said carried)))"

definition numbered_from_one :: "Spoken list \<Rightarrow> Spoken list" where
  "numbered_from_one xs = map (\<lambda>(i, x). x\<lparr>sk_Number := i + 1\<rparr>) (enumerate 0 xs)"

definition spoken_in :: "RunID \<Rightarrow> Event list \<Rightarrow> Spoken list" where
  "spoken_in rid es =
     (case gather rid (ended_runs es) es [] [] of (said, carried) \<Rightarrow>
        if said = [] then [] else numbered_from_one (carried @ said))"

subsection \<open>What is asked of the model\<close>

definition render_spoken :: "Spoken list \<Rightarrow> string" where
  "render_spoken said = trim_right_newlines (concat (map (\<lambda>x. CHR 0x23 # itoa (int (sk_Number x)) @ newline @ um_Text (sk_Message x) @ newline @ newline) said))"

definition render_known :: "Memory list \<Rightarrow> string" where
  "render_known known =
     (if known = [] then ''''
      else trim_right_newlines (newline @ newline @ ''Already noted:'' @ newline @ concat (map (\<lambda>m. ''- '' @ trim_space (me_Text m) @ newline) known)))"

definition known_for :: "CurEnv \<Rightarrow> Run \<Rightarrow> Spoken list \<Rightarrow> MemSt \<Rightarrow> Memory list \<times> MemSt" where
  "known_for env run said s =
     (case mem_now (MemEnv.truncate env) s of (now, s) \<Rightarrow>
        (search_asked (MemEnv.truncate env) (concat (map (\<lambda>x. um_Text (sk_Message x) @ newline) said))
           \<lparr>mq_Scopes = scopes_for (MemEnv.truncate env) (context_for_run run), mq_Activation = MemoryRetrieval, mq_IncludeInvalidated = False,
            mq_At = now, mq_Limit = known_limit\<rparr> (mt_Store s), s))"

text \<open>\<open>strings.Index(answer, "[")\<close> and \<open>strings.LastIndex(answer, "]")\<close>: the text between, brackets included.\<close>

definition bracketed :: "string \<Rightarrow> string option" where
  "bracketed answer =
     (let front = takeWhile (\<lambda>c. c \<noteq> CHR ''['') answer; upto = rev (dropWhile (\<lambda>c. c \<noteq> CHR '']'') (rev answer))
      in if length front = length answer \<or> upto = [] \<or> length upto - 1 \<le> length front then None
         else Some (drop (length front) upto))"

definition parse_proposals :: "CurEnv \<Rightarrow> string \<Rightarrow> Proposal list" where
  "parse_proposals env answer =
     (case bracketed answer of None \<Rightarrow> []
      | Some s \<Rightarrow> (case cu_Unmarshal env s of None \<Rightarrow> [] | Some ps \<Rightarrow> ps))"

definition check_proposal :: "Spoken list \<Rightarrow> Proposal \<Rightarrow> NoteClaim option" where
  "check_proposal said p =
     (let told = trim_space (pp_Claim p); quote = trim_space (pp_Quote p) in
      if told = '''' \<or> quote = '''' \<or> length told > max_claim_bytes then None
      else if pp_About p \<noteq> ''person'' \<and> pp_About p \<noteq> ''project'' then None
      else if pp_Message p < 1 \<or> pp_Message p > int (length said) then None
      else let source = said ! nat (pp_Message p - 1) in
        if \<not> str_contains (um_Text (sk_Message source)) quote then None
        else Some \<lparr>cm_Text = told, cm_About = pp_About p, cm_Source = source\<rparr>)"

fun check_proposals :: "Proposal list \<Rightarrow> Spoken list \<Rightarrow> int \<Rightarrow> NoteClaim list \<Rightarrow> NoteClaim list" where
  "check_proposals [] said limit kept = kept"
| "check_proposals (p # ps) said limit kept =
     (if int (length kept) \<ge> limit then kept
      else (case check_proposal said p of None \<Rightarrow> check_proposals ps said limit kept
        | Some claim \<Rightarrow> check_proposals ps said limit (kept @ [claim])))"

definition max_claims :: "CurEnv \<Rightarrow> int" where
  "max_claims env = (if cu_MaxClaims env > 0 then cu_MaxClaims env else 3)"

subsection \<open>Writing a note\<close>

definition provenance_of_turn :: "RunOrigin \<Rightarrow> Provenance" where
  "provenance_of_turn origin = (if or_Kind origin = OriginGateway then ProvenanceExternal else ProvenanceOperator)"

definition turn_of :: "UserMessageAdded \<Rightarrow> CallContext" where
  "turn_of p = \<lparr>cx_SessionID = '''', cx_RunID = '''', cx_Trust = um_Trust p, cx_From = ProvenanceOther '''', cx_Origin = um_Origin p, cx_Seq = 0\<rparr>"

definition noted_by :: "CallContext \<Rightarrow> string" where
  "noted_by turn = ''nobody (noted from '' @ principal_key turn @ '')''"

definition memory_for :: "CurEnv \<Rightarrow> Run \<Rightarrow> NoteClaim \<Rightarrow> MemSt \<Rightarrow> Memory \<times> MemSt" where
  "memory_for env run claim s =
     (let message = sk_Message (cm_Source claim); origin = um_Origin message; turn = turn_of message;
          (scope, ref) = (if cm_About claim = ''project'' \<and> or_Kind origin = OriginLocalClient then (ScopeWorkspace, mv_WorkspaceRef env)
                          else (ScopePrincipal, principal_key turn));
          (now, s) = mem_now (MemEnv.truncate env) s;
          (mid, s) = mem_id (MemEnv.truncate env) s
      in (\<lparr>me_ID = mid, me_Scope = scope, me_ScopeRef = ref, me_Activation = MemoryRetrieval, me_Text = cm_Text claim,
           me_Trust = trust_or_untrusted turn, me_From = provenance_of_turn origin, me_Origin = origin,
           me_SourceSession = ru_SessionID run, me_SourceSeq = sk_Seq (cm_Source claim), me_ApprovedBy = noted_by turn, me_CreatedAt = now,
           me_InvalidatedAt = None, me_SupersededBy = '''', me_ValidFrom = now, me_ValidUntil = None\<rparr>, s))"

definition same_words :: "CurEnv \<Rightarrow> string \<Rightarrow> string" where
  "same_words env s = sv_Lower env (str_join '' '' (Prelude.fields s))"

definition already_known :: "CurEnv \<Rightarrow> Memory \<Rightarrow> Store \<Rightarrow> bool" where
  "already_known env memory s =
     (let found = search_memories (SearchEnv.truncate env) (mv_Wall env) (me_Text memory)
            \<lparr>mq_Scopes = [\<lparr>ms_Scope = me_Scope memory, ms_Ref = me_ScopeRef memory\<rparr>], mq_Activation = MemoryRetrieval,
             mq_IncludeInvalidated = False, mq_At = me_CreatedAt memory, mq_Limit = 50\<rparr> s
      in \<exists>existing \<in> set found. same_words env (me_Text existing) = same_words env (me_Text memory))"

text \<open>\<open>write\<close>: without a memory to correct, \<open>Remember\<close> does not fail.\<close>

fun write_notes :: "CurEnv \<Rightarrow> Run \<Rightarrow> NoteClaim list \<Rightarrow> MemSt \<Rightarrow> Memory list \<times> MemSt" where
  "write_notes env run [] s = ([], s)"
| "write_notes env run (claim # claims) s =
     (case memory_for env run claim s of (memory, s) \<Rightarrow>
        if already_known env memory (mt_Store s) then write_notes env run claims s
        else (case write_notes env run claims (s\<lparr>mt_Store := write_memory memory (mt_Store s)\<rparr>) of (ms, s) \<Rightarrow> (memory # ms, s)))"

datatype CurateFailure = ReadTheRun StoreError | AskTheModel string

definition curate :: "CurEnv \<Rightarrow> Ctx \<Rightarrow> Run \<Rightarrow> MemSt \<Rightarrow> (CurateFailure + Memory list) \<times> MemSt" where
  "curate env ctx run s =
     (case list_after ctx (ru_SessionID run) 0 0 (mt_Store s) of
        Inl e \<Rightarrow> (Inl (ReadTheRun e), s)
      | Inr events \<Rightarrow>
          (let said = spoken_in (ru_ID run) events in
           if said = [] then (Inr [], s)
           else (case known_for env run said s of (known, s) \<Rightarrow>
             (case cu_Complete env (cu_Instruction env) (render_spoken said @ render_known known) curate_max_output_tokens of
                Inl e \<Rightarrow> (Inl (AskTheModel e), s)
              | Inr answer \<Rightarrow>
                  (case write_notes env run (check_proposals (parse_proposals env answer) said (max_claims env) []) s of
                     (made, s) \<Rightarrow> (Inr made, s\<lparr>mt_Store := remembered (MemEnv.truncate env) made (mt_Store s)\<rparr>))))))"

lemma write_is_remember: "remember memory '''' s = Inr (write_memory memory s)"
  by (simp add: remember_def)


subsection \<open>What a note rests on\<close>

text \<open>Something said is on record: an event of the run, or of a run that failed, in which a person's message stands.\<close>

definition said_on_record :: "RunID \<Rightarrow> Event list \<Rightarrow> Spoken \<Rightarrow> bool" where
  "said_on_record rid es x \<longleftrightarrow> (\<exists>e \<in> set es. ev_Seq e = sk_Seq x \<and> person_said e = Some (sk_Message x) \<and>
     (ev_RunID e = rid \<or> gm_get (ended_runs es) (ev_RunID e) = Some RunFailed))"

lemma gather_on_record:
  assumes "gather rid (ended_runs all) es said carried = (said', carried')" "set es \<subseteq> set all" "\<forall>x \<in> set said \<union> set carried. said_on_record rid all x"
  shows "\<forall>x \<in> set said' \<union> set carried'. said_on_record rid all x"
  using assms
proof (induction es arbitrary: said carried)
  case (Cons e es)
  show ?case
  proof (cases "person_said e")
    case None
    with Cons show ?thesis by simp
  next
    case (Some p)
    let ?x = "\<lparr>sk_Number = 0, sk_Seq = ev_Seq e, sk_Message = p\<rparr>"
    have new: "said_on_record rid all ?x" if "ev_RunID e = rid \<or> gm_get (ended_runs all) (ev_RunID e) = Some RunFailed"
      using that Some Cons.prems(2) by (auto simp: said_on_record_def)
    consider (own) "ev_RunID e = rid" | (later) "ev_RunID e \<noteq> rid" "said \<noteq> []"
      | (failed) "ev_RunID e \<noteq> rid" "said = []" "gm_get (ended_runs all) (ev_RunID e) = Some RunFailed"
      | (answered) "ev_RunID e \<noteq> rid" "said = []" "gm_get (ended_runs all) (ev_RunID e) = Some RunCompleted"
      | (other) "ev_RunID e \<noteq> rid" "said = []" "gm_get (ended_runs all) (ev_RunID e) \<noteq> Some RunFailed" "gm_get (ended_runs all) (ev_RunID e) \<noteq> Some RunCompleted"
      by blast
    then show ?thesis
    proof cases
      case own
      then show ?thesis using Cons.IH [of "said @ [?x]" carried] Cons.prems Some new by simp
    next
      case later
      then show ?thesis using Cons.IH [of said carried] Cons.prems Some by simp
    next
      case failed
      then show ?thesis using Cons.IH [of said "carried @ [?x]"] Cons.prems Some new by simp
    next
      case answered
      then show ?thesis using Cons.IH [of said "[]"] Cons.prems Some by simp
    next
      case other
      then show ?thesis using Cons.IH [of said carried] Cons.prems Some by (simp split: option.splits RunStatus.splits)
    qed
  qed
qed simp

lemma spoken_on_record: "x \<in> set (spoken_in rid es) \<Longrightarrow> said_on_record rid es x"
proof -
  assume x: "x \<in> set (spoken_in rid es)"
  obtain said carried where g: "gather rid (ended_runs es) es [] [] = (said, carried)" by fastforce
  with x have "x \<in> (\<lambda>(i, x). x\<lparr>sk_Number := i + 1\<rparr>) ` set (enumerate 0 (carried @ said))"
    by (auto simp: spoken_in_def numbered_from_one_def split: if_splits)
  then obtain i y where y: "(i, y) \<in> set (enumerate 0 (carried @ said))" "x = y\<lparr>sk_Number := i + 1\<rparr>" by auto
  then have "y = (carried @ said) ! i \<and> i < length (carried @ said)" by (simp add: in_set_enumerate_eq)
  then have "y \<in> set (carried @ said)" by (metis nth_mem)
  with gather_on_record [OF g] have "said_on_record rid es y" by auto
  with y(2) show ?thesis by (simp add: said_on_record_def)
qed

lemma spoken_numbered:
  assumes "i < length (spoken_in rid es)"
  shows "sk_Number (spoken_in rid es ! i) = Suc i"
proof -
  obtain said carried where g: "gather rid (ended_runs es) es [] [] = (said, carried)" by fastforce
  with assms show ?thesis by (auto simp: spoken_in_def numbered_from_one_def nth_enumerate_eq split: if_splits)
qed

text \<open>A claim rests on a proposal: it is its words, its source is the message it cites, by the number the
  model was shown, and the quote it gives stands in that message.\<close>

definition rests_on :: "Spoken list \<Rightarrow> Proposal \<Rightarrow> NoteClaim \<Rightarrow> bool" where
  "rests_on said p claim \<longleftrightarrow>
     1 \<le> pp_Message p \<and> pp_Message p \<le> int (length said) \<and> cm_Source claim = said ! nat (pp_Message p - 1) \<and>
     cm_Text claim = trim_space (pp_Claim p) \<and> cm_Text claim \<noteq> '''' \<and> length (cm_Text claim) \<le> max_claim_bytes \<and>
     trim_space (pp_Quote p) \<noteq> '''' \<and> str_contains (um_Text (sk_Message (cm_Source claim))) (trim_space (pp_Quote p))"

lemma check_proposal_rests: "check_proposal said p = Some claim \<Longrightarrow> rests_on said p claim"
  by (auto simp: check_proposal_def Let_def rests_on_def split: if_splits)

lemma check_proposals_rest:
  assumes "\<forall>c \<in> set kept. \<exists>p \<in> P. rests_on said p c" "int (length kept) \<le> limit" "set ps \<subseteq> P"
  shows "(\<forall>c \<in> set (check_proposals ps said limit kept). \<exists>p \<in> P. rests_on said p c) \<and>
    int (length (check_proposals ps said limit kept)) \<le> limit"
  using assms
proof (induction ps arbitrary: kept)
  case (Cons p ps)
  show ?case
  proof (cases "check_proposal said p")
    case None
    with Cons show ?thesis by simp
  next
    case (Some claim)
    then have "\<exists>p \<in> P. rests_on said p claim" using check_proposal_rests Cons.prems(3) by auto
    with Cons.IH [of "kept @ [claim]"] Cons.prems Some show ?thesis by simp
  qed
qed simp

text \<open>What a note takes over from the message its claim rests on.\<close>

definition note_of :: "CurEnv \<Rightarrow> Run \<Rightarrow> NoteClaim \<Rightarrow> Memory \<Rightarrow> bool" where
  "note_of env run claim m \<longleftrightarrow> (let p = sk_Message (cm_Source claim) in
     me_Activation m = MemoryRetrieval \<and> me_Text m = cm_Text claim \<and> me_SourceSession m = ru_SessionID run \<and> me_SourceSeq m = sk_Seq (cm_Source claim) \<and>
     me_Origin m = um_Origin p \<and> me_From m = provenance_of_turn (um_Origin p) \<and> me_Trust m = trust_or_untrusted (turn_of p) \<and>
     (or_Kind (um_Origin p) \<noteq> OriginLocalClient \<longrightarrow> me_Scope m = ScopePrincipal \<and> me_ScopeRef m = principal_key (turn_of p)))"

lemma memory_for_note: "memory_for env run claim s = (m, t) \<Longrightarrow> note_of env run claim m \<and> mt_Store t = mt_Store s"
  by (auto simp: memory_for_def note_of_def mem_now_def mem_id_def Let_def split: if_splits)

lemma write_notes_made:
  "write_notes env run claims s = (ms, t) \<Longrightarrow> length ms \<le> length claims \<and> (\<forall>m \<in> set ms. \<exists>claim \<in> set claims. note_of env run claim m) \<and>
     mt_Store t = foldl (\<lambda>st m. write_memory m st) (mt_Store s) ms"
proof (induction claims arbitrary: s ms)
  case (Cons claim claims)
  obtain m u where m: "memory_for env run claim s = (m, u)" by fastforce
  note n = memory_for_note [OF m]
  show ?case
  proof (cases "already_known env m (mt_Store u)")
    case True
    with Cons.prems m have "write_notes env run claims u = (ms, t)" by simp
    from Cons.IH [OF this] n show ?thesis by auto
  next
    case False
    with Cons.prems m obtain ms' where ms: "write_notes env run claims (u\<lparr>mt_Store := write_memory m (mt_Store u)\<rparr>) = (ms', t)" "ms = m # ms'"
      by (auto split: prod.splits)
    from Cons.IH [OF ms(1)] n ms(2) show ?thesis by auto
  qed
qed simp

text \<open>C6. Every note rests on what somebody said. What the curator writes is at most as many short memories as it is
  allowed, only to be looked up, and each of them comes from a proposal in the model's answer: its text is the claim of the proposal,
  and the quote the proposal gives for it, which is not blank, stands in the very message the proposal cites by the number
  the model was shown. That message is in the log of the session, a person's turn brought it in, in this run or in one that failed.
  Who the note is from, how far it is trusted and where it was said are those of that message, and a message from
  outside this machine makes a note about its sender and nothing else.\<close>

theorem notes_rest_on_what_was_said:
  assumes "list_after ctx (ru_SessionID run) 0 0 (mt_Store s) = Inr events" "curate env ctx run s = (Inr notes, t)"
    and "said = spoken_in (ru_ID run) events"
  shows "mt_Store t = remembered (MemEnv.truncate env) notes (foldl (\<lambda>st m. write_memory m st) (mt_Store s) notes) \<and>
    int (length notes) \<le> max_claims env \<and>
    (\<forall>m \<in> set notes. me_Activation m = MemoryRetrieval \<and> me_Text m \<noteq> '''' \<and> length (me_Text m) \<le> 300 \<and> me_SourceSession m = ru_SessionID run \<and>
      (\<exists>known answer. cu_Complete env (cu_Instruction env) (render_spoken said @ render_known known) curate_max_output_tokens = Inr answer \<and>
      (\<exists>p \<in> set (parse_proposals env answer). me_Text m = trim_space (pp_Claim p) \<and> 1 \<le> pp_Message p \<and> pp_Message p \<le> int (length said) \<and>
      (\<exists>x message. x = said ! nat (pp_Message p - 1) \<and> int (sk_Number x) = pp_Message p \<and> message = sk_Message x \<and>
        trim_space (pp_Quote p) \<noteq> '''' \<and> str_contains (um_Text message) (trim_space (pp_Quote p)) \<and>
      (\<exists>e \<in> set events. ev_Payload e = PUserMessageAdded message \<and> a_person_sent (um_Origin message) \<and> sk_Seq x = ev_Seq e \<and>
        (ev_RunID e = ru_ID run \<or> gm_get (ended_runs events) (ev_RunID e) = Some RunFailed) \<and>
        me_SourceSeq m = ev_Seq e \<and> me_Origin m = um_Origin message \<and>
        me_Trust m = trust_or_untrusted (turn_of message) \<and> me_From m = provenance_of_turn (um_Origin message) \<and>
        (or_Kind (um_Origin message) = OriginGateway \<longrightarrow> me_Scope m = ScopePrincipal \<and> me_ScopeRef m = principal_key (turn_of message)))))))"
proof (cases "said = []")
  case True
  with assms have "notes = []" "t = s" by (auto simp: curate_def)
  then show ?thesis by (simp add: remembered_def max_claims_def split: option.split)
next
  case False
  obtain known u where k: "known_for env run said s = (known, u)" by fastforce
  then have store: "mt_Store u = mt_Store s" by (auto simp: known_for_def mem_now_def)
  from assms False k obtain answer v where w: "write_notes env run (check_proposals (parse_proposals env answer) said (max_claims env) []) u = (notes, v)"
    and t: "mt_Store t = remembered (MemEnv.truncate env) notes (mt_Store v)"
    and asked: "cu_Complete env (cu_Instruction env) (render_spoken said @ render_known known) curate_max_output_tokens = Inr answer"
    by (auto simp: curate_def Let_def split: sum.splits prod.splits)
  let ?ps = "set (parse_proposals env answer)"
  let ?claims = "check_proposals (parse_proposals env answer) said (max_claims env) []"
  have c: "(\<forall>c \<in> set ?claims. \<exists>p \<in> ?ps. rests_on said p c) \<and> int (length ?claims) \<le> max_claims env"
    by (rule check_proposals_rest) (simp_all add: max_claims_def)
  note n = write_notes_made [OF w]
  have "\<exists>p \<in> ?ps. \<exists>claim. rests_on said p claim \<and> note_of env run claim m" if "m \<in> set notes" for m using n c that by blast
  moreover have "\<exists>e \<in> set events. ev_Payload e = PUserMessageAdded (sk_Message x) \<and> a_person_sent (um_Origin (sk_Message x)) \<and> sk_Seq x = ev_Seq e \<and>
      (ev_RunID e = ru_ID run \<or> gm_get (ended_runs events) (ev_RunID e) = Some RunFailed)" if "x \<in> set said" for x
  proof -
    have "said_on_record (ru_ID run) events x" using that assms(3) spoken_on_record by simp
    then obtain e where e: "e \<in> set events" "ev_Seq e = sk_Seq x" "person_said e = Some (sk_Message x)"
      "ev_RunID e = ru_ID run \<or> gm_get (ended_runs events) (ev_RunID e) = Some RunFailed" by (auto simp: said_on_record_def)
    from e(3) have "ev_Payload e = PUserMessageAdded (sk_Message x)" "a_person_sent (um_Origin (sk_Message x))"
      by (auto simp: person_said_def split: EventPayload.splits if_splits)
    with e show ?thesis by auto
  qed
  moreover have "said ! nat (pp_Message p - 1) \<in> set said \<and> int (sk_Number (said ! nat (pp_Message p - 1))) = pp_Message p"
    if "rests_on said p claim" for p claim
    using that spoken_numbered [of "nat (pp_Message p - 1)" "ru_ID run" events] assms(3) by (auto simp: rests_on_def)
  ultimately have each: "\<forall>m \<in> set notes. \<exists>p \<in> ?ps. \<exists>claim e. rests_on said p claim \<and> note_of env run claim m \<and>
      int (sk_Number (cm_Source claim)) = pp_Message p \<and>
      e \<in> set events \<and> ev_Payload e = PUserMessageAdded (sk_Message (cm_Source claim)) \<and> a_person_sent (um_Origin (sk_Message (cm_Source claim))) \<and>
      sk_Seq (cm_Source claim) = ev_Seq e \<and> (ev_RunID e = ru_ID run \<or> gm_get (ended_runs events) (ev_RunID e) = Some RunFailed)"
    unfolding rests_on_def by metis
  show ?thesis
  proof (intro conjI ballI)
    show "mt_Store t = remembered (MemEnv.truncate env) notes (foldl (\<lambda>st m. write_memory m st) (mt_Store s) notes)" using n t store by simp
    show "int (length notes) \<le> max_claims env" using n c by linarith
    fix m assume "m \<in> set notes"
    with each obtain p claim e where r: "p \<in> ?ps" "rests_on said p claim" "note_of env run claim m" "int (sk_Number (cm_Source claim)) = pp_Message p"
      "e \<in> set events" "ev_Payload e = PUserMessageAdded (sk_Message (cm_Source claim))" "a_person_sent (um_Origin (sk_Message (cm_Source claim)))"
      "sk_Seq (cm_Source claim) = ev_Seq e" "ev_RunID e = ru_ID run \<or> gm_get (ended_runs events) (ev_RunID e) = Some RunFailed" by blast
    then show "me_Activation m = MemoryRetrieval" "me_Text m \<noteq> ''''" "length (me_Text m) \<le> 300" "me_SourceSession m = ru_SessionID run"
      by (auto simp: note_of_def rests_on_def Let_def max_claim_bytes_def)
    show "\<exists>known answer. cu_Complete env (cu_Instruction env) (render_spoken said @ render_known known) curate_max_output_tokens = Inr answer \<and>
      (\<exists>p \<in> set (parse_proposals env answer). me_Text m = trim_space (pp_Claim p) \<and> 1 \<le> pp_Message p \<and> pp_Message p \<le> int (length said) \<and>
      (\<exists>x message. x = said ! nat (pp_Message p - 1) \<and> int (sk_Number x) = pp_Message p \<and> message = sk_Message x \<and>
        trim_space (pp_Quote p) \<noteq> '''' \<and> str_contains (um_Text message) (trim_space (pp_Quote p)) \<and>
      (\<exists>e \<in> set events. ev_Payload e = PUserMessageAdded message \<and> a_person_sent (um_Origin message) \<and> sk_Seq x = ev_Seq e \<and>
        (ev_RunID e = ru_ID run \<or> gm_get (ended_runs events) (ev_RunID e) = Some RunFailed) \<and>
        me_SourceSeq m = ev_Seq e \<and> me_Origin m = um_Origin message \<and>
        me_Trust m = trust_or_untrusted (turn_of message) \<and> me_From m = provenance_of_turn (um_Origin message) \<and>
        (or_Kind (um_Origin message) = OriginGateway \<longrightarrow> me_Scope m = ScopePrincipal \<and> me_ScopeRef m = principal_key (turn_of message)))))"
      by (intro exI [of _ known] exI [of _ answer] conjI asked bexI [OF _ r(1)] exI [of _ "cm_Source claim"] exI [of _ "sk_Message (cm_Source claim)"] bexI [OF _ r(5)])
        (use r(2-4,6-9) in \<open>auto simp: rests_on_def note_of_def Let_def\<close>)
  qed
qed

subsection \<open>Examples\<close>

text \<open>A curator whose model copies a part of the first message it is shown.\<close>

definition noting :: CurEnv where
  "noting = MemEnv.extend notebook
     \<lparr>cu_Instruction = '''', cu_Complete = (\<lambda>_ _ _. Inr ''[]''),
      cu_Unmarshal = (\<lambda>_. Some [\<lparr>pp_Claim = ''Keys live in vault X'', pp_Quote = ''vault X'', pp_Message = 1, pp_About = ''project''\<rparr>]), cu_MaxClaims = 0\<rparr>"

definition said_at :: "RunID \<Rightarrow> Seq \<Rightarrow> string \<Rightarrow> Event" where
  "said_at rid q told = sample_event ''s'' rid q EventUserMessageAdded
     (PUserMessageAdded \<lparr>um_MessageID = ''m'', um_Text = told, um_Trust = TrustUser, um_Origin = sample_origin, um_Attachments = []\<rparr>)"

definition turned :: "RunID \<Rightarrow> Seq \<Rightarrow> RunStatus \<Rightarrow> Event" where
  "turned rid q status = sample_event ''s'' rid q EventRunStateChanged (PRunStateChanged \<lparr>rs_Status = status, rs_Reason = '''', rs_FailureKind = ''''\<rparr>)"

definition holding :: "Event list \<Rightarrow> MemSt" where
  "holding es = \<lparr>mt_Store = new_store\<lparr>st_sessions := [(''s'', sample_session ''s'' 1)], st_events := [(''s'', es)]\<rparr>, mt_Clock = 0, mt_Ids = 0\<rparr>"

lemma nothing_found_in_an_empty_store: "written s = [] \<Longrightarrow> search_memories env now w q s = []"
  by (simp add: search_memories_def select_memories_def Let_def limit_to_def)

text \<open>A first note, into an empty store, without an embedding model.\<close>

lemma first_note:
  assumes "list_after ctx (ru_SessionID run) 0 0 (mt_Store s) = Inr events" "spoken_in (ru_ID run) events = said" "said \<noteq> []"
    and "cu_Complete env = (\<lambda>_ _ _. Inr answer)" "check_proposals (parse_proposals env answer) said (max_claims env) [] = [claim]"
    and "written (mt_Store s) = []" "mv_Embedder env = None"
  shows "\<exists>m t u. curate env ctx run s = (Inr [m], t) \<and> memory_for env run claim u = (m, t\<lparr>mt_Store := mt_Store s\<rparr>)"
proof -
  let ?u = "s\<lparr>mt_Clock := mt_Clock s + 1\<rparr>"
  have e: "mv_Embedder (MemEnv.truncate env) = None" using assms(7) by (simp add: MemEnv.truncate_def)
  have k: "known_for env run said s = ([], ?u)"
    by (simp add: known_for_def mem_now_def search_asked_def search_both_def Let_def e nothing_found_in_an_empty_store [OF assms(6)])
  obtain m v where m: "memory_for env run claim ?u = (m, v)" by fastforce
  then have v: "mt_Store v = mt_Store s" using memory_for_note by fastforce
  have "\<not> already_known env m (mt_Store v)" by (simp add: already_known_def Let_def v nothing_found_in_an_empty_store [OF assms(6)])
  with m v have "write_notes env run [claim] ?u = ([m], v\<lparr>mt_Store := write_memory m (mt_Store v)\<rparr>)" by simp
  with assms(1-5) k e have "curate env ctx run s = (Inr [m], v\<lparr>mt_Store := write_memory m (mt_Store v)\<rparr>)"
    by (simp add: curate_def Let_def remembered_def)
  with m v show ?thesis by (intro exI [of _ m] exI [of _ "v\<lparr>mt_Store := write_memory m (mt_Store v)\<rparr>"] exI [of _ ?u]) simp
qed

theorem notes_rest_on_what_was_said_witness:
  "\<exists>notes t. curate noting None (sample_run ''r1'' ''s'' RunCompleted) (holding [said_at ''r1'' 1 ''our vault X'', turned ''r1'' 2 RunCompleted]) = (Inr notes, t) \<and>
     length notes \<le> 3 \<and> (\<forall>m \<in> set notes. me_Activation m = MemoryRetrieval \<and> me_Text m = ''Keys live in vault X'' \<and> me_SourceSeq m = 1)"
proof -
  let ?es = "[said_at ''r1'' 1 ''our vault X'', turned ''r1'' 2 RunCompleted]" and ?run = "sample_run ''r1'' ''s'' RunCompleted"
  have l: "list_after None (ru_SessionID ?run) 0 0 (mt_Store (holding ?es)) = Inr ?es" by code_simp
  have s: "spoken_in (ru_ID ?run) ?es \<noteq> []" by code_simp
  obtain claim where p: "check_proposals (parse_proposals noting ''[]'') (spoken_in (ru_ID ?run) ?es) (max_claims noting) [] = [claim]"
  proof -
    have "length (check_proposals (parse_proposals noting ''[]'') (spoken_in (ru_ID ?run) ?es) (max_claims noting) []) = 1" by code_simp
    then show ?thesis using that by (auto simp: length_Suc_conv)
  qed
  have "written (mt_Store (holding ?es)) = []" by (simp add: holding_def written_def new_store_def map_filter_def)
  from first_note [OF l refl s _ p this] obtain made t where c: "curate noting None ?run (holding ?es) = (Inr made, t)"
    by (auto simp: noting_def notebook_def MemEnv.extend_def)
  have "max_claims noting = 3" by code_simp
  have seq: "sk_Seq (spoken_in (ru_ID ?run) ?es ! 0) = 1" by code_simp
  have ps: "\<exists>q. parse_proposals noting answer = [] \<or> parse_proposals noting answer = [q] \<and>
    q = \<lparr>pp_Claim = ''Keys live in vault X'', pp_Quote = ''vault X'', pp_Message = 1, pp_About = ''project''\<rparr>" for answer
    by (simp add: parse_proposals_def noting_def MemEnv.extend_def split: option.split)
  have trim: "trim_space ''Keys live in vault X'' = ''Keys live in vault X''" by code_simp
  have "me_Activation m = MemoryRetrieval \<and> me_Text m = ''Keys live in vault X'' \<and> me_SourceSeq m = 1" if made: "m \<in> set made" for m
  proof -
    show ?thesis using bspec [OF conjunct2 [OF conjunct2 [OF notes_rest_on_what_was_said [OF l c refl]]] made]
    proof (elim conjE exE bexE)
      fix known answer p x message e
      assume m: "me_Activation m = MemoryRetrieval" "p \<in> set (parse_proposals noting answer)" "me_Text m = trim_space (pp_Claim p)"
        "x = spoken_in (ru_ID ?run) ?es ! nat (pp_Message p - 1)" "sk_Seq x = ev_Seq e" "me_SourceSeq m = ev_Seq e"
      from m(2) ps [of answer] have "pp_Claim p = ''Keys live in vault X''" "pp_Message p = 1" by auto
      with m seq trim show "me_Activation m = MemoryRetrieval \<and> me_Text m = ''Keys live in vault X'' \<and> me_SourceSeq m = 1" by simp
    qed
  qed
  moreover have "length made \<le> 3" using notes_rest_on_what_was_said [OF l c refl] \<open>max_claims noting = 3\<close> by auto
  ultimately show ?thesis using c by blast
qed

text \<open>
  A delegated search is a run of its own, whose question stands in the log as a message with the origin of the
  turn that asked (\<open>runtime/investigate.go\<close>). The curator does not tell it from a person's message: when the
  search fails, its question is carried into the next run that is answered, and a note with a quote out of it is written
  as the operator's own words, though the model wrote it, perhaps out of a page it had read.
\<close>

definition search_failed :: "Event list" where
  "search_failed = [said_at ''r1'' 1 ''hello'', said_at ''w1'' 2 ''does the page put keys in vault X?'', turned ''w1'' 3 RunFailed,
     turned ''r1'' 4 RunCompleted, said_at ''r2'' 5 ''thanks'']"

theorem worker_question_noted_as_said:
  "case fst (curate noting None (sample_run ''r2'' ''s'' RunCompleted) (holding search_failed)) of
     Inl _ \<Rightarrow> False
   | Inr notes \<Rightarrow> map me_Text notes = [''Keys live in vault X''] \<and> map me_From notes = [ProvenanceOperator] \<and> map me_SourceSeq notes = [2] \<and>
       map me_Scope notes = [ScopeWorkspace]"
proof -
  let ?run = "sample_run ''r2'' ''s'' RunCompleted"
  let ?claim = "\<lparr>cm_Text = ''Keys live in vault X'', cm_About = ''project'', cm_Source = \<lparr>sk_Number = 1, sk_Seq = 2, sk_Message =
    \<lparr>um_MessageID = ''m'', um_Text = ''does the page put keys in vault X?'', um_Trust = TrustUser, um_Origin = sample_origin, um_Attachments = []\<rparr>\<rparr>\<rparr>"
  have l: "list_after None (ru_SessionID ?run) 0 0 (mt_Store (holding search_failed)) = Inr search_failed" by code_simp
  have s: "spoken_in (ru_ID ?run) search_failed \<noteq> []" by code_simp
  have p: "check_proposals (parse_proposals noting ''[]'') (spoken_in (ru_ID ?run) search_failed) (max_claims noting) [] = [?claim]" by code_simp
  have "written (mt_Store (holding search_failed)) = []" by (simp add: holding_def written_def new_store_def map_filter_def)
  from first_note [OF l refl s _ p this] obtain m t u where c: "curate noting None ?run (holding search_failed) = (Inr [m], t)"
    and m: "memory_for noting ?run ?claim u = (m, t\<lparr>mt_Store := mt_Store (holding search_failed)\<rparr>)"
    by (auto simp: noting_def notebook_def MemEnv.extend_def)
  from memory_for_note [OF m] have "me_Text m = ''Keys live in vault X''" "me_From m = ProvenanceOperator" "me_SourceSeq m = 2"
    by (simp_all add: note_of_def provenance_of_turn_def sample_origin_def)
  moreover have "me_Scope m = ScopeWorkspace" using m by (auto simp: memory_for_def mem_now_def mem_id_def sample_origin_def Let_def)
  ultimately show ?thesis by (simp add: c)
qed

end
