(* ===== verification/Delegation.thy ===== *)
theory Delegation
imports RunLoop
begin

text \<open>
  A search a run hands to a worker (\<open>core/internal/runtime/investigate.go\<close>: \<open>Investigate\<close>,
  \<open>executeWorker\<close>; what the worker is told of tools and what it concluded are in \<open>ToolLoop\<close> and
  \<open>LogReadings\<close>) and the tool that asks for one (\<open>core/internal/tool/builtin/investigate.go\<close>).

  The worker is a run of its own in the parent's session: it goes through the same loop, in the
  parent's goroutine, and what comes back is read from the log. \<open>pc\<close> is the parent's context and \<open>rc\<close>
  the worker's. \<open>None\<close> is the loop's fuel used up.
\<close>

subsection \<open>Asking\<close>

definition err_no_question :: Err where "err_no_question = ErrText ''runtime: a delegated search needs a question''"
definition err_not_delegatable :: Err where "err_not_delegatable = ErrText ''runtime: a delegated search may not delegate again''"

definition worker_of :: "Run \<Rightarrow> RunID \<Rightarrow> RunID \<Rightarrow> instant \<Rightarrow> Run" where
  "worker_of asker parent rid at =
     \<lparr>ru_ID = rid, ru_SessionID = ru_SessionID asker, ru_Status = RunQueued, ru_Origin = ru_Origin asker,
      ru_DeliveryTargets = ru_DeliveryTargets asker, ru_CreatedAt = at, ru_FinishedAt = None,
      ru_Kind = RunWorker, ru_ParentRunID = parent\<rparr>"

text \<open>\<open>Investigate\<close> up to the worker's start: the worker on record, the question as its whole
  conversation, and where its own events begin.\<close>

definition open_worker :: "RtEnv \<Rightarrow> RunClock \<Rightarrow> RunID \<Rightarrow> string \<Rightarrow> (Run \<times> Seq) rt" where
  "open_worker env pc parent question =
     (if trim_space question = '''' then fail err_no_question
      else rbind (in_ctx pc (\<lambda>ctx. st_read (get_run ctx parent))) (\<lambda>asking.
        if ru_Kind asking = RunWorker then fail err_not_delegatable
        else rbind (new_id env) (\<lambda>rid. rbind (now env) (\<lambda>at.
          let child = worker_of asking parent rid at
          in rbind (in_ctx pc (\<lambda>ctx. st_write (create_run ctx child))) (\<lambda>_.
             rbind (new_id env) (\<lambda>mid.
             rbind (in_ctx pc (\<lambda>ctx. rt_append env ctx (ru_SessionID child) (ru_ID child) EventUserMessageAdded
               (PUserMessageAdded \<lparr>um_MessageID = mid, um_Text = question, um_Trust = trust_for_origin (ru_Origin asking),
                  um_Origin = ru_Origin asking, um_Attachments = []\<rparr>))) (\<lambda>_.
             rbind (in_ctx pc (\<lambda>ctx. st_read (head_seq_of ctx (ru_SessionID child)))) (\<lambda>before.
             ok (child, before)))))))))"

text \<open>\<open>executeWorker\<close>: registered while it goes, so that an interrupt finds it.\<close>

definition execute_worker :: "nat \<Rightarrow> AgentEnv \<Rightarrow> RunClock \<Rightarrow> Run \<Rightarrow> Rt \<Rightarrow> Rt option" where
  "execute_worker fuel env rc child s =
     (let w = \<lparr>qr_run = ru_ID child, qr_tracked = tn_fresh (rt_Turns s), qr_admitted = True\<rparr>;
          s = s\<lparr>rt_Turns := start_worker (ru_ID child) (ru_SessionID child) (rt_Turns s)\<rparr>
      in case execute fuel env rc child s of
           None \<Rightarrow> None
         | Some s \<Rightarrow> Some (s\<lparr>rt_Turns := returns w (goes_no_more w (rt_Turns s))\<rparr>))"

fun worker_error :: "StoreError + WorkerError \<Rightarrow> Err" where
  "worker_error (Inl e) = ErrStore e"
| "worker_error (Inr (NoAnswer reason)) = ErrText reason"

definition investigate :: "nat \<Rightarrow> AgentEnv \<Rightarrow> RunClock \<Rightarrow> RunClock \<Rightarrow> RunID \<Rightarrow> string \<Rightarrow> Rt \<Rightarrow> ((Err + string) \<times> Rt) option" where
  "investigate fuel env pc rc parent question s =
     (case open_worker (ag_Rt env) pc parent question s of
        (Inl err, s) \<Rightarrow> Some (Inl err, s)
      | (Inr (child, before), s) \<Rightarrow>
          (case execute_worker fuel env rc child s of
             None \<Rightarrow> None
           | Some s \<Rightarrow>
               (case worker_answer (ctx_at pc s) child before (rt_Store s) of
                  Inl err \<Rightarrow> Some (Inl (worker_error err), s)
                | Inr answer \<Rightarrow> Some (Inr answer, s))))"

subsection \<open>The tool\<close>

definition refusal :: "string \<Rightarrow> Result" where
  "refusal said = no_result\<lparr>re_Summary := said, re_Content := said, re_IsError := True\<rparr>"

definition summarise_question :: "string \<Rightarrow> string" where
  "summarise_question question =
     (if length question \<le> 60 then ''investigate '' @ question else ''investigate '' @ take 60 question @ ellipsis)"

text \<open>\<open>wire\<close> is \<open>json.Unmarshal\<close> into the tool's arguments: its error, or the member \<open>question\<close>.\<close>

definition investigate_execute ::
    "nat \<Rightarrow> AgentEnv \<Rightarrow> (string \<Rightarrow> string + string) \<Rightarrow> RunClock \<Rightarrow> RunClock \<Rightarrow> ToolCall \<Rightarrow> Rt \<Rightarrow> ((ToolFailure + Result) \<times> Rt) option" where
  "investigate_execute fuel env wire pc rc call s =
     (case wire (ca_Arguments call) of
        Inl err \<Rightarrow> Some (Inl (ToolFault (tool_errorf CodeInvalidArguments '''' err)), s)
      | Inr asked \<Rightarrow>
          (let question = trim_space asked in
           if question = '''' then Some (Inr (refusal ''investigate needs a question.''), s)
           else if cx_RunID (ca_Context call) = '''' then
             Some (Inl (ToolFault (tool_errorf CodeInternal '''' ''investigate was called outside a run'')), s)
           else case investigate fuel env pc rc (cx_RunID (ca_Context call)) question s of
             None \<Rightarrow> None
           | Some (Inl err, s) \<Rightarrow> Some (Inr (refusal (''the search did not answer: '' @ err_text (ag_Rt env) err)), s)
           | Some (Inr answer, s) \<Rightarrow>
               Some (Inr (no_result\<lparr>re_Summary := summarise_question question,
                 re_Content := ''Answer from a delegated search, which read the workspace and reported back. ''
                   @ ''It is a second-hand account, not something you have seen: check anything ''
                   @ ''you are about to act on. It was asked, exactly:'' @ newline @ newline @ question @ newline @ newline
                   @ ''It answered:'' @ newline @ newline @ answer\<rparr>), s)))"

subsection \<open>A worker has nobody to wait for\<close>

text \<open>No prompt stands for the run, and the policy of its session asks about nothing that only reads.\<close>

definition unasked :: "RunID \<Rightarrow> SessionID \<Rightarrow> Rt \<Rightarrow> bool" where
  "unasked rid sid s \<longleftrightarrow> (\<forall>a \<in> set (gm_vals (st_approvals (rt_Store s))). ap_RunID a \<noteq> rid) \<and>
     (\<forall>engine. rt_Permissions s = Some engine \<longrightarrow>
        (\<forall>level \<in> {LevelInternal, LevelWorkspaceRead}. gm_get (pf_Defaults (profile_for sid engine)) level \<noteq> Some Ask))"

text \<open>What the daemon registers under the names a worker may use: tools that only read, at a fixed level.\<close>

definition workers_only_read :: "LoopEnv \<Rightarrow> bool" where
  "workers_only_read env \<longleftrightarrow> (\<forall>reg name t. lv_Tools env = Some reg \<longrightarrow> name \<in> set read_only_for_workers \<longrightarrow> lookup_tool reg name = Some t \<longrightarrow>
     sp_Level (to_Spec t) \<in> {LevelInternal, LevelWorkspaceRead} \<and> to_LevelFor t = None)"

text \<open>A tool raises no prompt in the name of the run that called it, and tightens no policy.\<close>

definition keeps_unasked :: "RunID \<Rightarrow> SessionID \<Rightarrow> LoopEnv \<Rightarrow> bool" where
  "keeps_unasked rid sid env \<longleftrightarrow> (\<forall>reg name t ctx call w r w'. lv_Tools env = Some reg \<longrightarrow> lookup_tool reg name = Some t \<longrightarrow>
     to_Execute t ctx call w = (r, w') \<longrightarrow> unasked rid sid w \<longrightarrow> unasked rid sid w')"

lemma unasked_simps [simp]:
  "unasked rid sid (s\<lparr>rt_Tick := n\<rparr>) = unasked rid sid s" "unasked rid sid (s\<lparr>rt_Executed := x\<rparr>) = unasked rid sid s"
  "unasked rid sid (s\<lparr>rt_Turns := tn\<rparr>) = unasked rid sid s" "unasked rid sid (s\<lparr>rt_Told := y\<rparr>) = unasked rid sid s"
  "unasked rid sid (s\<lparr>rt_Recalled := z\<rparr>) = unasked rid sid s"
  by (simp_all add: unasked_def)

lemma unasked_cong: "st_approvals (rt_Store s') = st_approvals (rt_Store s) \<Longrightarrow> rt_Permissions s' = rt_Permissions s \<Longrightarrow>
    unasked rid sid s' = unasked rid sid s"
  by (simp add: unasked_def)

lemma keeps_unasked_append: "keeps (unasked rid sid) (rt_append env ctx sid' rid' kind p)"
  unfolding keeps_def
proof
  fix s
  let ?m = "rt_append env ctx sid' rid' kind p s"
  have "?m = (fst ?m, snd ?m)" by simp
  from rt_append_frame [OF this] have "st_approvals (rt_Store (snd ?m)) = st_approvals (rt_Store s)" "rt_Permissions (snd ?m) = rt_Permissions s"
    by (cases "fst ?m = Inr ()"; auto dest: appended_frame(3))+
  then show "unasked rid sid (snd ?m) = unasked rid sid s" by (rule unasked_cong)
qed

lemma unasked_write: "keeps (unasked rid sid) (st_write (update_run ctx run))"
  by (auto simp: keeps_def st_write_def update_run_def unasked_def split: sum.split option.splits)

lemma unmoved_unasked: "unmoved (unasked rid sid)"
  by (simp add: unmoved_def keeps_unasked_append unasked_write tickless_def)

lemma execute_call_unasked:
  assumes "execute_call env reg ctx call s = (r, s')" "lv_Tools env = Some reg" "keeps_unasked rid sid env" "unasked rid sid s"
  shows "unasked rid sid s' \<and> (\<exists>result. r = Inr (result, NotParked))"
proof -
  have "unasked rid sid w'" if "lookup_tool reg name = Some t" "to_Execute t ctx call w = (q, w')" "unasked rid sid w" for name t w q w'
    using assms(2,3) that unfolding keeps_unasked_def by blast
  with assms(1,4) show ?thesis
    by (auto simp: execute_call_def registry_execute_def split: option.splits sum.splits ToolFailure.splits prod.splits)
qed

lemma worker_gate:
  assumes "gated env run call reg t" "ru_Kind run = RunWorker" "workers_only_read env" "unasked (ru_ID run) (ru_SessionID run) s"
  shows "oc_Decision (gate_evaluate env run (to_Spec t) call s) \<noteq> Ask"
proof (cases "rt_Permissions s")
  case None
  then show ?thesis by (simp add: gate_evaluate_def no_outcome_def)
next
  case (Some engine)
  from assms(1,2) have t: "lv_Tools env = Some reg" "lookup_tool reg (ca_Name call) = Some t" "ca_Name call \<in> set read_only_for_workers"
    by (simp_all add: gated_def)
  with assms(3) have reads: "sp_Level (to_Spec t) \<in> {LevelInternal, LevelWorkspaceRead}" "to_LevelFor t = None"
    unfolding workers_only_read_def by blast+
  with assms(4) Some have "gm_get (pf_Defaults (profile_for (ru_SessionID run) engine)) (sp_Level (to_Spec t)) \<noteq> Some Ask"
    unfolding unasked_def by blast
  with Some t reads show ?thesis
    by (auto simp: gate_evaluate_def evaluate_decision effective_level_def Let_def split: option.split)
qed

text \<open>Nothing a worker asks for is put before a person, and nothing it does changes that.\<close>

lemma worker_settles:
  assumes "settle_call env ctx run call s = (r, s')" "ru_Kind run = RunWorker" "workers_only_read env"
    and "keeps_unasked (ru_ID run) (ru_SessionID run) env" "unasked (ru_ID run) (ru_SessionID run) s"
  shows "unasked (ru_ID run) (ru_SessionID run) s' \<and> (\<forall>result park. r = Inr (result, park) \<longrightarrow> park = NotParked)"
proof -
  have quiet: "\<exists>result. q = Inr (result, NotParked)" "unasked (ru_ID run) (ru_SessionID run) u"
    if "execute_call env reg ctx call s = (q, u)" "lv_Tools env = Some reg" for q u reg
    using execute_call_unasked [OF that assms(4,5)] by auto
  consider (gated) reg t where "gated env run call reg t" | (other) "\<nexists>reg t. gated env run call reg t" by blast
  then show ?thesis
  proof cases
    case gated
    have none: "approval_for_call ctx (ru_ID run) (ca_ID call) (rt_Store s) \<noteq> Inr a" for a
      using assms(5) approval_for_call_Inr unfolding unasked_def by blast
    then obtain err where err: "approval_for_call ctx (ru_ID run) (ca_ID call) (rt_Store s) = Inl err" by (metis sum.exhaust)
    from gated have reg: "lv_Tools env = Some reg" by (simp add: gated_def)
    note gate = worker_gate [OF gated assms(2,3,5)]
    have "judge_call env reg ctx run t call s = (r, s') \<or> (s' = s \<and> r = Inl (ErrStore err))"
      using assms(1) err by (auto simp: settle_gated [OF gated] split: if_splits)
    with gate quiet [OF _ reg] assms(5) show ?thesis
      by (cases "oc_Decision (gate_evaluate env run (to_Spec t) call s)") (auto simp: judge_call_def)
  next
    case other
    have "ask_name \<notin> set read_only_for_workers" by (simp add: ask_name_def read_only_for_workers_def)
    with assms(1,2,5) other quiet show ?thesis
      by (auto simp: settle_call_def gated_def split: option.splits if_splits)
  qed
qed

lemma worker_run_tool:
  assumes "run_tool env rc run pending s = (r, s')" "ru_Kind run = RunWorker" "workers_only_read env"
    and "keeps_unasked (ru_ID run) (ru_SessionID run) env" "unasked (ru_ID run) (ru_SessionID run) s"
  shows "unasked (ru_ID run) (ru_SessionID run) s' \<and> (\<forall>park. r = Inr park \<longrightarrow> park = NotParked)"
proof (cases "ctx_at rc s")
  case None
  let ?f = "unasked (ru_ID run) (ru_SessionID run)"
  note run = assms(1) [unfolded run_tool_def None option.case]
  obtain r1 s1 where 1: "in_ctx rc (\<lambda>ctx. st_read (conversation_trust ctx run (pe_Seq pending))) s = (r1, s1)" by fastforce
  obtain r2 s2 where 2: "in_ctx rc (\<lambda>ctx. st_read (provenance_so_far ctx run (pe_Seq pending))) s = (r2, s2)" by fastforce
  have same: "s1 = s" "s2 = s" using 1 2 by (auto dest: st_read_frame)
  have rec: "?f s4 = ?f s3 \<and> (\<forall>park. r4 = Inr park \<longrightarrow> park = NotParked)"
    if nr: "note_and_record env rc run call result s3 = (r4, s4)" for call result s3 r4 s4
  proof -
    have rec: "keeps ?f (record_tool_result env ctx run call res started)" for ctx res started
      unfolding record_tool_result_def by (intro keeps_rbind keeps_basic keeps_unasked_append) (simp add: tickless_def)
    have k: "keeps ?f (rbind (now (lv_Rt env)) (\<lambda>started.
         rbind (in_ctx rc (\<lambda>ctx. record_tool_result env ctx run call res started)) (\<lambda>_. ok NotParked)))" for res
      using rec by (intro keeps_rbind keeps_basic) (simp_all add: keeps_def in_ctx_def tickless_def)
    obtain res where m: "rbind (now (lv_Rt env)) (\<lambda>started.
         rbind (in_ctx rc (\<lambda>ctx. record_tool_result env ctx run call res started)) (\<lambda>_. ok NotParked)) s3 = (r4, s4)"
      using nr by (auto simp: note_and_record_def Let_def)
    with keepsD [OF k m] show ?thesis by (auto simp: rbind_def ok_def now_def split: sum.splits prod.splits)
  qed
  show ?thesis
  proof (cases "isl r1 \<or> isl r2")
    case True
    with run 1 2 same assms(5) show ?thesis by (cases r1; cases r2) (auto simp: rbind_def)
  next
    case False
    then obtain trust prov where ok: "r1 = Inr trust" "r2 = Inr prov" by (metis isl_def sum.exhaust)
    obtain r3 s3 where 3: "settle_call env (ctx_at rc s) run (call_of_pending run pending trust prov) s = (r3, s3)" by fastforce
    from worker_settles [OF 3 assms(2-5)] run 1 2 same ok 3 rec show ?thesis
      by (auto simp: rbind_def in_ctx_def Let_def ok_def split: sum.splits if_splits)
  qed
qed (use assms in \<open>auto simp: run_tool_def\<close>)

lemma worker_run_calls:
  "run_calls env rc run calls s = (r, s') \<Longrightarrow> ru_Kind run = RunWorker \<Longrightarrow> workers_only_read env \<Longrightarrow>
    keeps_unasked (ru_ID run) (ru_SessionID run) env \<Longrightarrow> unasked (ru_ID run) (ru_SessionID run) s \<Longrightarrow>
    unasked (ru_ID run) (ru_SessionID run) s' \<and> (\<forall>park. r = Inr park \<longrightarrow> park = NotParked)"
proof (induction calls arbitrary: s)
  case (Cons c calls)
  obtain r1 s1 where 1: "run_tool env rc run c s = (r1, s1)" by fastforce
  with Cons.prems worker_run_tool [OF 1] have u: "unasked (ru_ID run) (ru_SessionID run) s1" "\<And>park. r1 = Inr park \<Longrightarrow> park = NotParked" by blast+
  show ?case
  proof (cases r1)
    case (Inl e)
    with Cons.prems(1) 1 u show ?thesis by (auto simp: rbind_def)
  next
    case (Inr park)
    with u(2) Cons.prems(1) 1 have "run_calls env rc run calls s1 = (r, s')" by (simp add: rbind_def)
    from Cons.IH [OF this Cons.prems(2-4) u(1)] show ?thesis .
  qed
qed (auto simp: ok_def)


subsection \<open>The worker's loop\<close>

lemma hear_unasked: "hear env rc run ev heard c s = (r, c', s') \<Longrightarrow> unasked rid sid s' = unasked rid sid s"
proof (cases ev)
  case (ToolCallAsked u)
  assume h: "hear env rc run ev heard c s = (r, c', s')"
  obtain r1 c1 s1 where 1: "flush_text (ag_Rt env) (ctx_at rc s) c s = (r1, c1, s1)" by (metis prod_cases3)
  have one: "unasked rid sid s1 = unasked rid sid s" using flush_unmoved(1) [OF unmoved_unasked 1] by blast
  show ?thesis
  proof (cases r1)
    case (Inl e)
    with h ToolCallAsked 1 one show ?thesis by (auto simp: hear_def)
  next
    case (Inr x)
    obtain u' s2 where u': "(if tl_ID u = '''' then (u\<lparr>tl_ID := rv_NewID (ag_Rt env) (rt_Tick s1)\<rparr>, tick s1) else (u, s1)) = (u', s2)"
      by fastforce
    then have two: "unasked rid sid s2 = unasked rid sid s1"
      by (auto simp: unmoved_tick(1) [OF unmoved_unasked] split: if_splits)
    obtain r3 s3 where 3: "rt_append (ag_Rt env) (ctx_at rc s2) (ru_SessionID run) (ru_ID run) EventToolCallRequested
                     (PToolCallRequested \<lparr>tq_CallID = tl_ID u', tq_Name = tl_Name u', tq_Arguments = tl_Args u',
                        tq_ProviderMetadata = tl_Opaque u'\<rparr>) s2 = (r3, s3)" by fastforce
    have "s' = s3" using h ToolCallAsked 1 Inr u' 3 by (auto simp: hear_def Let_def split: sum.splits)
    with keepsD [OF keeps_unasked_append 3] one two show ?thesis by simp
  qed
qed (auto simp: hear_def split: prod.splits sum.splits
      dest: buffer_unmoved(1) [OF unmoved_unasked] buffer_unmoved(2) [OF unmoved_unasked] buffer_unmoved(3) [OF unmoved_unasked])

lemma listen_unasked: "listen env rc run items heard c s = (r, c', s') \<Longrightarrow> unasked rid sid s' = unasked rid sid s"
proof (induction env rc run items heard c s rule: listen.induct)
  case (3 env rc run ev items heard c s)
  obtain r1 c1 s1 where 1: "hear env rc run ev heard c s = (r1, c1, s1)" by (metis prod_cases3)
  from hear_unasked [OF 1, of rid sid] have one: "unasked rid sid s1 = unasked rid sid s" .
  show ?case
  proof (cases r1)
    case (Inl e)
    with 3(2) 1 one show ?thesis by auto
  next
    case (Inr h1)
    with 3(2) 1 have l: "listen env rc run items h1 c1 s1 = (r, c', s')" by simp
    from 3(1) [OF 1 [symmetric] Inr refl l] one show ?thesis by simp
  qed
qed (auto split: if_splits)

lemma generate_turn_unasked:
  assumes "generate_turn env rc run request s = (Inr calls, s')"
  shows "unasked rid sid s' = unasked rid sid s"
proof -
  from generate_turn_heard [OF assms] obtain n items heard c c1 s1 c2 where
    l: "listen env rc run items ([], StopEndTurn) c (s\<lparr>rt_Tick := n\<rparr>) = (Inr heard, c1, s1)" and
    m: "close_message env rc run heard c1 s1 = (Inr (), c2, s')" by blast
  obtain r3 c3 s3 where 3: "flush (ag_Rt env) (ctx_at rc s1) c1 s1 = (r3, c3, s3)" by (metis prod_cases3)
  with m have "unasked rid sid s' = unasked rid sid s3"
    using keepsD [OF keeps_unasked_append] by (auto simp: close_message_def split: sum.splits prod.splits)
  with buffer_unmoved(4) [OF unmoved_unasked 3] listen_unasked [OF l, of rid sid] show ?thesis by simp
qed

text \<open>A fold may prune, and pruning takes nothing but events.\<close>

lemma prune_session_approvals: "prune_session ctx sid k t = Inr (u, n) \<Longrightarrow> st_approvals u = st_approvals t"
  by (auto simp: prune_session_def prune_events_def Let_def split: sum.splits if_splits prod.splits)

lemma rt_compact_unasked: "unasked rid sid (rt_compact env rc run overhead s) = unasked rid sid s"
proof -
  have "unasked rid sid s' = unasked rid sid s" if "rt_append e ctx sid' rid' k p s = (r, s')" for e ctx sid' rid' k p r s'
    using keepsD [OF keeps_unasked_append that] .
  moreover have "unasked rid sid (s\<lparr>rt_Store := u\<rparr>) = unasked rid sid s" if "prune_session ctx sid' k (rt_Store s) = Inr (u, n)" for ctx sid' k u n s
    using prune_session_approvals [OF that] by (simp add: unasked_def)
  ultimately show ?thesis
    by (simp add: rt_compact_def split: sum.split option.split prod.split)
qed

lemma ask_model_unasked:
  assumes "ask_model env rc run system decls turns s = Again s'"
  shows "unasked rid sid s' = unasked rid sid s"
proof -
  define s1 where "s1 = rt_compact env rc run (estimate_request_overhead system decls) s"
  have one: "unasked rid sid s1 = unasked rid sid s" unfolding s1_def by (rule rt_compact_unasked)
  from assms(1) obtain messages where built: "build_conversation (ag_Conversation env) (ctx_at rc s1) run (rt_Store s1) = Inr messages"
    by (auto simp: ask_model_def Let_def s1_def split: sum.splits)
  obtain r2 s2 where 2: "(if turns = 0 then transition (ag_Rt env) (ctx_at rc s1) run RunRunning '''' '''' s1 else (Inr (), s1)) = (r2, s2)" by fastforce
  then have two: "unasked rid sid s2 = unasked rid sid s1"
    using finish_unmoved(1) [OF unmoved_unasked] by (auto split: if_splits)
  from assms(1) built 2 have r2: "r2 = Inr ()" by (cases r2) (auto simp: ask_model_def Let_def s1_def [symmetric])
  obtain request s3 where 3: "request_for env rc run system decls messages s2 = (request, s3)" by fastforce
  obtain r4 s4 where 4: "generate_turn env rc run request s3 = (r4, s4)" by fastforce
  from assms(1) built 2 r2 3 4 obtain calls where "r4 = Inr calls" "s4 = s'"
    by (cases r4) (auto simp: ask_model_def Let_def s1_def [symmetric] split: if_splits)
  with generate_turn_unasked [of env rc run request s3 calls s' rid sid] 4 request_for_unmoved [OF unmoved_unasked 3, of rid sid] one two
  show ?thesis by simp
qed

lemma worker_run_step:
  assumes "run_step env undisturbed run system decls s = p" "has_house run s" "keeps_house (ru_ID run) (ru_SessionID run) (ag_Loop env)"
    and "ru_Kind run = RunWorker" "workers_only_read (ag_Loop env)" "keeps_unasked (ru_ID run) (ru_SessionID run) (ag_Loop env)"
    and "unasked (ru_ID run) (ru_SessionID run) s"
  shows "case p of Again s' \<Rightarrow> has_house run s' \<and> unasked (ru_ID run) (ru_SessionID run) s' | Over s' \<Rightarrow> ended_for run s'"
proof (cases p)
  case (Over s')
  have "why = NotParked" if "fst (run_calls (ag_Loop env) undisturbed run calls s) = Inr why" for calls why
    using worker_run_calls [OF surjective_pairing assms(4-7), of undisturbed calls] that by blast
  with run_step_accounts [OF assms(1-3)] Over show ?thesis by auto
next
  case (Again s')
  have h: "has_house run s'" using run_step_accounts [OF assms(1-3)] Again by simp
  obtain calls where calls: "outstanding_calls None run (rt_Store s) = Inr calls"
    using assms(1) Again by (auto simp: run_step_def split: sum.splits)
  show ?thesis
  proof (cases "calls = []")
    case False
    obtain r1 s1 where 1: "run_calls (ag_Loop env) undisturbed run calls s = (r1, s1)" by fastforce
    from assms(1) Again calls False 1 have "s1 = s'"
      by (auto simp: run_step_def run_tools_def rbind_def split: sum.splits if_splits)
    with worker_run_calls [OF 1 assms(4-7)] h Again show ?thesis by simp
  next
    case True
    from assms(1) Again calls True obtain turns where "ask_model env undisturbed run system decls turns s = Again s'"
      by (auto simp: run_step_def split: sum.splits if_splits)
    from ask_model_unasked [OF this] assms(7) h Again show ?thesis by simp
  qed
qed

lemma worker_run_loop:
  assumes "keeps_house (ru_ID run) (ru_SessionID run) (ag_Loop env)"
    and "ru_Kind run = RunWorker" "workers_only_read (ag_Loop env)" "keeps_unasked (ru_ID run) (ru_SessionID run) (ag_Loop env)"
  shows "run_loop fuel env undisturbed run system decls s = Some s' \<Longrightarrow> has_house run s \<Longrightarrow>
    unasked (ru_ID run) (ru_SessionID run) s \<Longrightarrow> ended_for run s'"
proof (induction fuel arbitrary: s)
  case (Suc fuel)
  obtain p where p: "run_step env undisturbed run system decls s = p" by blast
  with worker_run_step [OF p Suc.prems(2) assms(1-4) Suc.prems(3)] Suc show ?case by (cases p) auto
qed simp



lemma worker_executes:
  assumes "has_house child s" "unasked (ru_ID child) (ru_SessionID child) s" "ru_Kind child = RunWorker"
    and "keeps_house (ru_ID child) (ru_SessionID child) (ag_Loop env)"
    and "keeps_unasked (ru_ID child) (ru_SessionID child) (ag_Loop env)" "workers_only_read (ag_Loop env)"
    and "execute fuel env undisturbed child s = Some s'"
  shows "ended_for child s'"
proof -
  obtain r1 s1 where 1: "system_prompt env None child s = (r1, s1)" by fastforce
  have h1: "has_house child s1" using system_prompt_unmoved [OF unmoved_housed 1] assms(1) by simp
  have u1: "unasked (ru_ID child) (ru_SessionID child) s1" using system_prompt_unmoved [OF unmoved_unasked 1] assms(2) by simp
  show ?thesis
  proof (cases r1)
    case (Inl err)
    with 1 assms(7) finish_accounts(2) [OF h1] show ?thesis by (auto simp: execute_def Let_def)
  next
    case (Inr system)
    with 1 assms(7) have "run_loop fuel env undisturbed child system (declarations_for (ag_Loop env) child) s1 = Some s'"
      by (simp add: execute_def Let_def)
    from worker_run_loop [OF assms(4,3,6,5) this h1 u1] show ?thesis .
  qed
qed

lemma worker_returns:
  assumes "ru_Kind child = RunWorker" "ledger_in (ru_ID child) (ru_SessionID child) s = []" "ag_KeepAfterFold env < 0" "18 \<le> fuel"
    and "keeps_ledger (ru_ID child) (ru_SessionID child) (ag_Loop env)"
  shows "execute fuel env rc child s \<noteq> None"
proof -
  have "max_iterations_of env child \<le> 8" using assms(1) by (simp add: max_iterations_of_def worker_iterations_def Let_def)
  then have "2 * nat (max_iterations_of env child) + 2 \<le> fuel" using assms(4) by simp
  moreover have "turns_on (ledger_in (ru_ID child) (ru_SessionID child) s) \<le> nat (max_iterations_of env child)" using assms(2) by simp
  ultimately show ?thesis by (intro execute_returns [OF assms(3,5)])
qed

subsection \<open>What is asked, and on whose authority\<close>

text \<open>The worker on record and its question, before it starts.\<close>

definition worker_opened :: "RtEnv \<Rightarrow> RunID \<Rightarrow> string \<Rightarrow> Run \<Rightarrow> Run \<Rightarrow> Rt \<Rightarrow> Rt \<Rightarrow> bool" where
  "worker_opened env parent question asker child s t \<longleftrightarrow>
     (\<exists>cid at mid u. child = worker_of asker parent cid at \<and> cid = rv_NewID env (rt_Tick s) \<and> gm_get (st_runs (rt_Store s)) cid = None \<and>
        u = (rt_Store s)\<lparr>st_runs := gm_set (st_runs (rt_Store s)) cid child\<rparr> \<and>
        appended (ru_SessionID asker) cid EventUserMessageAdded
          (PUserMessageAdded \<lparr>um_MessageID = mid, um_Text = question, um_Trust = trust_for_origin (ru_Origin asker),
             um_Origin = ru_Origin asker, um_Attachments = []\<rparr>) u (rt_Store t) \<and>
        rt_Permissions t = rt_Permissions s \<and> rt_Turns t = rt_Turns s \<and> rt_Executed t = rt_Executed s)"

lemma in_ctx_read: "in_ctx rc (\<lambda>ctx. st_read (g ctx)) s = (case g (ctx_at rc s) (rt_Store s) of Inl e \<Rightarrow> (Inl (ErrStore e), s) | Inr x \<Rightarrow> (Inr x, s))"
  by (simp add: in_ctx_def st_read_def)

lemma open_worker_result:
  assumes "open_worker env pc parent question s = (Inr (child, before), t)"
  shows "trim_space question \<noteq> '''' \<and> (\<exists>asker. get_run (ctx_at pc s) parent (rt_Store s) = Inr asker \<and> ru_Kind asker \<noteq> RunWorker \<and>
    worker_opened env parent question asker child s t)"
proof -
  obtain asker where asker: "get_run (ctx_at pc s) parent (rt_Store s) = Inr asker" "ru_Kind asker \<noteq> RunWorker" and q: "trim_space question \<noteq> ''''"
    using assms by (auto simp: open_worker_def fail_def rbind_def in_ctx_read split: if_splits sum.splits)
  define cid where "cid = rv_NewID env (rt_Tick s)"
  define w where "w = worker_of asker parent cid (rv_Now env (Suc (rt_Tick s)))"
  define s2 where "s2 = s\<lparr>rt_Tick := Suc (Suc (rt_Tick s))\<rparr>"
  obtain u where u: "create_run (ctx_at pc s2) w (rt_Store s) = Inr u"
    using assms asker q by (auto simp: open_worker_def rbind_def in_ctx_read new_id_def now_def cid_def w_def s2_def in_ctx_def st_write_def Let_def
        split: sum.splits prod.splits)
  define s3 where "s3 = s2\<lparr>rt_Store := u\<rparr>"
  define s4 where "s4 = s3\<lparr>rt_Tick := Suc (rt_Tick s3)\<rparr>"
  define p where "p = PUserMessageAdded \<lparr>um_MessageID = rv_NewID env (rt_Tick s3), um_Text = question, um_Trust = trust_for_origin (ru_Origin asker),
                  um_Origin = ru_Origin asker, um_Attachments = []\<rparr>"
  obtain r5 s5 where 5: "rt_append env (ctx_at pc s4) (ru_SessionID w) (ru_ID w) EventUserMessageAdded p s4 = (r5, s5)" by fastforce
  have rest: "rbind (\<lambda>s. (r5, s5)) (\<lambda>_. rbind (in_ctx pc (\<lambda>ctx. st_read (head_seq_of ctx (ru_SessionID w)))) (\<lambda>before. ok (w, before))) s4 = (Inr (child, before), t)"
    using assms asker q u 5 by (simp add: open_worker_def rbind_def in_ctx_read new_id_def now_def cid_def w_def s2_def in_ctx_def st_write_def Let_def
        s3_def s4_def p_def)
  then have done_: "r5 = Inr ()" "child = w" "t = s5"
    by (auto simp: rbind_def in_ctx_read ok_def split: sum.splits)
  note f = rt_append_frame [OF 5]
  have "appended (ru_SessionID asker) cid EventUserMessageAdded p u (rt_Store t)"
    using f done_ by (simp add: s4_def s3_def w_def worker_of_def)
  moreover have "u = (rt_Store s)\<lparr>st_runs := gm_set (st_runs (rt_Store s)) cid child\<rparr>" "gm_get (st_runs (rt_Store s)) cid = None"
    using u done_ by (auto simp: create_run_def w_def worker_of_def split: option.splits if_splits)
  ultimately have "worker_opened env parent question asker child s t"
    unfolding worker_opened_def using f done_ by (intro exI [of _ cid]) (auto simp: w_def cid_def p_def s4_def s3_def s2_def)
  with asker q show ?thesis by blast
qed

text \<open>The worker on record is never more than the run that asked: it acts for the same origin in the same
  session, what it is asked is trusted no more than that origin is, it is told of none but the tools
  that only read, and a worker that asks gets none and changes nothing.\<close>

theorem delegation_lends_no_authority:
  "case open_worker env pc parent question s of
     (Inl err, t) \<Rightarrow> True
   | (Inr (child, before), t) \<Rightarrow>
       \<exists>asker. gm_get (st_runs (rt_Store s)) parent = Some asker \<and> ru_Kind asker \<noteq> RunWorker \<and>
         gm_get (st_runs (rt_Store t)) (ru_ID child) = Some child \<and> ru_Kind child = RunWorker \<and> ru_ParentRunID child = parent \<and>
         ru_Origin child = ru_Origin asker \<and> ru_SessionID child = ru_SessionID asker \<and>
         set (tools_for lenv child) \<subseteq> set read_only_for_workers \<and> ''investigate'' \<notin> set (tools_for lenv child) \<and>
         (\<exists>log e mid. gm_list (st_events (rt_Store t)) (ru_SessionID asker) = log @ [e] \<and> ev_RunID e = ru_ID child \<and>
            ev_Payload e = PUserMessageAdded \<lparr>um_MessageID = mid, um_Text = question, um_Trust = trust_for_origin (ru_Origin asker),
             um_Origin = ru_Origin asker, um_Attachments = []\<rparr>)"
proof -
  have tools: "set (tools_for lenv child) \<subseteq> set read_only_for_workers \<and> ''investigate'' \<notin> set (tools_for lenv child)"
    if "ru_Kind child = RunWorker" for child
  proof -
    have "set (tools_for lenv child) \<subseteq> set read_only_for_workers" using that by (auto simp: tools_for_def declarations_for_def Let_def)
    moreover have "''investigate'' \<notin> set read_only_for_workers" by (simp add: read_only_for_workers_def)
    ultimately show ?thesis by blast
  qed
  show ?thesis
  proof (cases "open_worker env pc parent question s")
    case (Pair r t)
    show ?thesis
    proof (cases r)
      case (Inr x)
      obtain child before where x: "x = (child, before)" by fastforce
      from open_worker_result [of env pc parent question s child before t] Pair Inr x obtain asker where
        a: "get_run (ctx_at pc s) parent (rt_Store s) = Inr asker" "ru_Kind asker \<noteq> RunWorker" and o: "worker_opened env parent question asker child s t" by blast
      from o obtain cid at mid u where child: "child = worker_of asker parent cid at" and
        u: "u = (rt_Store s)\<lparr>st_runs := gm_set (st_runs (rt_Store s)) cid child\<rparr>" and
        app: "appended (ru_SessionID asker) cid EventUserMessageAdded
          (PUserMessageAdded \<lparr>um_MessageID = mid, um_Text = question, um_Trust = trust_for_origin (ru_Origin asker),
             um_Origin = ru_Origin asker, um_Attachments = []\<rparr>) u (rt_Store t)"
        unfolding worker_opened_def by blast
      from a(1) have p: "gm_get (st_runs (rt_Store s)) parent = Some asker" by (auto simp: get_run_def split: option.splits if_splits)
      have w: "ru_ID child = cid" "ru_Kind child = RunWorker" "ru_ParentRunID child = parent" "ru_Origin child = ru_Origin asker"
        "ru_SessionID child = ru_SessionID asker" by (simp_all add: child worker_of_def)
      have row: "gm_get (st_runs (rt_Store t)) cid = Some child" using appended_frame(1) [OF app] u by simp
      from appended_frame(7) [OF app] obtain e where e: "gm_list (st_events (rt_Store t)) (ru_SessionID asker) =
          gm_list (st_events u) (ru_SessionID asker) @ [e]" "ev_RunID e = cid"
        "ev_Payload e = PUserMessageAdded \<lparr>um_MessageID = mid, um_Text = question, um_Trust = trust_for_origin (ru_Origin asker),
             um_Origin = ru_Origin asker, um_Attachments = []\<rparr>" by blast
      have "\<exists>log e mid. gm_list (st_events (rt_Store t)) (ru_SessionID asker) = log @ [e] \<and> ev_RunID e = ru_ID child \<and>
            ev_Payload e = PUserMessageAdded \<lparr>um_MessageID = mid, um_Text = question, um_Trust = trust_for_origin (ru_Origin asker),
             um_Origin = ru_Origin asker, um_Attachments = []\<rparr>"
        using e unfolding w(1) by blast
      with p a(2) row w tools [OF w(2)] show ?thesis by (simp add: Pair Inr x)
    qed (simp add: Pair)
  qed
qed

subsection \<open>What comes back\<close>

text \<open>The worker concluded with this: it ended its turn on a message that says it.\<close>

definition concluded_with :: "RunID \<Rightarrow> Event list \<Rightarrow> string \<Rightarrow> bool" where
  "concluded_with child es answer \<longleftrightarrow> (\<exists>earlier e later p. es = earlier @ e # later \<and> ev_RunID e = child \<and>
     ev_Payload e = PAssistantMessageCompleted p \<and> mc_StopReason p = StopEndTurn \<and>
     answer = trim_space (said_in (mc_MessageID p) (filter (\<lambda>e. ev_RunID e = child) earlier)))"

definition completed_in :: "RunID \<Rightarrow> Event list \<Rightarrow> bool" where
  "completed_in child es \<longleftrightarrow> (\<exists>e \<in> set es. ev_RunID e = child \<and>
     (case ev_Payload e of PRunStateChanged p \<Rightarrow> rs_Status p = RunCompleted | _ \<Rightarrow> False))"

lemma said_in_Cons: "said_in mid (e # es) =
    (case ev_Payload e of PAssistantTextDelta p \<Rightarrow> if td_MessageID p = mid then td_Text p else '''' | _ \<Rightarrow> '''') @ said_in mid es"
  by (simp add: said_in_def)

lemma worker_loop_concluded:
  "worker_loop child es said answer ended = (answer', ended') \<Longrightarrow> (\<forall>m. gm_list said m = said_in m (filter (\<lambda>e. ev_RunID e = child) earlier)) \<Longrightarrow>
    (answer' = answer \<or> concluded_with child (earlier @ es) answer') \<and>
    (rs_Status ended' = RunCompleted \<longrightarrow> rs_Status ended = RunCompleted \<or> completed_in child es)"
proof (induction es arbitrary: said answer ended earlier)
  case (Cons e es)
  let ?mine = "\<lambda>e. ev_RunID e = child"
  have step: "(answer' = answer1 \<or> concluded_with child (earlier @ e # es) answer') \<and>
      (rs_Status ended' = RunCompleted \<longrightarrow> rs_Status ended1 = RunCompleted \<or> completed_in child (e # es))"
    if "worker_loop child es said1 answer1 ended1 = (answer', ended')"
      "\<forall>m. gm_list said1 m = said_in m (filter ?mine (earlier @ [e]))" for said1 answer1 ended1
    using Cons.IH [OF that] by (auto simp: completed_in_def)
  show ?case
  proof (cases "ev_RunID e = child")
    case False
    with Cons.prems step [of said answer ended] show ?thesis by simp
  next
    case mine: True
    note ls = said_in_append
    show ?thesis
    proof (cases "ev_Payload e")
      case (PAssistantTextDelta p)
      let ?said = "gm_set said (td_MessageID p) (gm_list said (td_MessageID p) @ td_Text p)"
      have "gm_list ?said m = said_in m (filter ?mine (earlier @ [e]))" for m
        using Cons.prems(2) mine PAssistantTextDelta by (auto simp: gm_list_def ls)
      with Cons.prems(1) mine PAssistantTextDelta step [of ?said answer ended] show ?thesis by simp
    next
      case (PAssistantMessageCompleted p)
      have same: "\<forall>m. gm_list said m = said_in m (filter ?mine (earlier @ [e]))"
        using Cons.prems(2) mine PAssistantMessageCompleted by (simp add: ls)
      show ?thesis
      proof (cases "mc_StopReason p = StopEndTurn \<and> gm_get said (mc_MessageID p) \<noteq> None")
        case False
        then have "worker_loop child es said answer ended = (answer', ended')"
          using Cons.prems(1) mine PAssistantMessageCompleted by (auto split: if_splits)
        from step [OF this same] show ?thesis .
      next
        case True
        then obtain spoken where spoken: "gm_get said (mc_MessageID p) = Some spoken" by blast
        then have "spoken = said_in (mc_MessageID p) (filter ?mine earlier)" using Cons.prems(2) by (metis gm_list_def option.simps(5))
        then have "concluded_with child (earlier @ e # es) (trim_space spoken)"
          using mine PAssistantMessageCompleted True unfolding concluded_with_def by blast
        moreover have "worker_loop child es said (trim_space spoken) ended = (answer', ended')"
          using Cons.prems(1) mine PAssistantMessageCompleted True spoken by simp
        ultimately show ?thesis using step [OF _ same] by blast
      qed
    next
      case (PRunStateChanged p)
      have same: "\<forall>m. gm_list said m = said_in m (filter ?mine (earlier @ [e]))"
        using Cons.prems(2) mine PRunStateChanged by (simp add: ls)
      have "completed_in child (e # es)" if "rs_Status p = RunCompleted"
        using that mine PRunStateChanged by (simp add: completed_in_def)
      moreover have "worker_loop child es said answer (if is_terminal (rs_Status p) then p else ended) = (answer', ended')"
        using Cons.prems(1) mine PRunStateChanged by simp
      ultimately show ?thesis using step [OF _ same] by (auto split: if_splits)
    qed (use Cons.prems mine step [of said answer ended] in \<open>simp_all add: ls\<close>)
  qed
qed (simp add: completed_in_def)

lemma worker_answer_concluded:
  assumes "worker_answer ctx child after t = Inr answer"
  shows "\<exists>es. list_after ctx (ru_SessionID child) after 0 t = Inr es \<and> answer \<noteq> '''' \<and>
    concluded_with (ru_ID child) es answer \<and> completed_in (ru_ID child) es"
proof -
  obtain es where es: "list_after ctx (ru_SessionID child) after 0 t = Inr es"
    using assms by (auto simp: worker_answer_def split: sum.splits)
  obtain a e where l: "worker_loop (ru_ID child) es [] '''' no_ending = (a, e)" by fastforce
  have a: "a = answer" "answer \<noteq> ''''" "rs_Status e = RunCompleted"
    using assms es l by (auto simp: worker_answer_def split: if_splits)
  have "\<forall>m. gm_list ([] :: (MessageID, string) gomap) m = said_in m (filter (\<lambda>e. ev_RunID e = ru_ID child) [])"
    by (simp add: said_in_def gm_list_def)
  from worker_loop_concluded [OF l this] a es show ?thesis by (auto simp: no_ending_def)
qed

lemma start_worker_house [simp]:
  "has_house run (s\<lparr>rt_Turns := tn\<rparr>) = has_house run s" "ended_for run (s\<lparr>rt_Turns := tn\<rparr>) = ended_for run s"
  by (simp_all add: ended_for_def)

lemma open_worker_goes:
  assumes "get_run None parent (rt_Store s) = Inr asker" "ru_Kind asker \<noteq> RunWorker" "trim_space question \<noteq> ''''"
    and "gm_get (st_sessions (rt_Store s)) (ru_SessionID asker) \<noteq> None" "gm_get (st_runs (rt_Store s)) (rv_NewID env (rt_Tick s)) = None"
  shows "\<exists>child before t. open_worker env undisturbed parent question s = (Inr (child, before), t)"
proof -
  define w where "w = worker_of asker parent (rv_NewID env (rt_Tick s)) (rv_Now env (Suc (rt_Tick s)))"
  define s2 where "s2 = s\<lparr>rt_Tick := Suc (Suc (rt_Tick s)), rt_Store := (rt_Store s)\<lparr>st_runs := gm_set (st_runs (rt_Store s)) (ru_ID w) w\<rparr>,
      rt_Tick := Suc (Suc (Suc (rt_Tick s)))\<rparr>"
  have sid: "ru_SessionID w = ru_SessionID asker" by (simp add: w_def worker_of_def)
  have "gm_get (st_sessions (rt_Store s2)) (ru_SessionID w) \<noteq> None" using assms(4) sid by (simp add: s2_def)
  from rt_append_ok [OF this, of env "ru_ID w" EventUserMessageAdded "PUserMessageAdded \<lparr>um_MessageID = rv_NewID env (Suc (Suc (rt_Tick s))),
       um_Text = question, um_Trust = trust_for_origin (ru_Origin asker), um_Origin = ru_Origin asker, um_Attachments = []\<rparr>"]
  obtain s3 where 3: "rt_append env None (ru_SessionID w) (ru_ID w) EventUserMessageAdded (PUserMessageAdded \<lparr>um_MessageID = rv_NewID env (Suc (Suc (rt_Tick s))),
       um_Text = question, um_Trust = trust_for_origin (ru_Origin asker), um_Origin = ru_Origin asker, um_Attachments = []\<rparr>) s2 = (Inr (), s3)"
    "gm_get (st_sessions (rt_Store s3)) (ru_SessionID w) \<noteq> None"
    using appended_frame(2) \<open>gm_get (st_sessions (rt_Store s2)) (ru_SessionID w) \<noteq> None\<close> by metis
  then obtain before where "head_seq_of None (ru_SessionID w) (rt_Store s3) = Inr before"
    by (auto simp: head_seq_of_def)
  moreover have "create_run None w (rt_Store s) = Inr ((rt_Store s)\<lparr>st_runs := gm_set (st_runs (rt_Store s)) (ru_ID w) w\<rparr>)"
    using assms(5) by (simp add: create_run_def w_def worker_of_def)
  ultimately have "open_worker env undisturbed parent question s = (Inr (w, before), s3)"
    using assms(1-3) 3(1) by (simp add: open_worker_def rbind_def in_ctx_read new_id_def now_def in_ctx_def st_write_def Let_def
        w_def [symmetric] s2_def ok_def)
  then show ?thesis by blast
qed

text \<open>Where the worker starts: on record with its session, unasked, and with nothing of its own in the log.\<close>

lemma worker_opened_house:
  assumes "worker_opened env parent question asker child s t" "cid = rv_NewID env (rt_Tick s)" "gm_get (st_runs (rt_Store s)) cid = None"
    and "\<forall>e \<in> set (gm_list (st_events (rt_Store s)) (ru_SessionID asker)). ev_RunID e \<noteq> cid"
    and "unasked cid (ru_SessionID asker) s" "gm_get (st_sessions (rt_Store s)) (ru_SessionID asker) \<noteq> None"
  shows "ru_ID child = cid \<and> ru_SessionID child = ru_SessionID asker \<and> ru_Kind child = RunWorker \<and> has_house child t \<and>
    unasked cid (ru_SessionID asker) t \<and> ledger_in cid (ru_SessionID asker) t = []"
proof -
  from assms(1) obtain at mid u where child: "child = worker_of asker parent cid at"
    and u: "u = (rt_Store s)\<lparr>st_runs := gm_set (st_runs (rt_Store s)) cid child\<rparr>"
    and app: "appended (ru_SessionID asker) cid EventUserMessageAdded
          (PUserMessageAdded \<lparr>um_MessageID = mid, um_Text = question, um_Trust = trust_for_origin (ru_Origin asker),
             um_Origin = ru_Origin asker, um_Attachments = []\<rparr>) u (rt_Store t)" and same: "rt_Permissions t = rt_Permissions s"
    unfolding worker_opened_def assms(2) [symmetric] by blast
  have w: "ru_ID child = cid" "ru_SessionID child = ru_SessionID asker" "ru_Kind child = RunWorker"
    by (simp_all add: child worker_of_def)
  note fr = appended_frame [OF app]
  have h: "has_house child t" using fr(1,2) u assms(6) w by (simp add: housed_def)
  have q: "unasked cid (ru_SessionID asker) t" using fr(3) u same assms(5) unasked_cong [of t s] by simp
  from fr(7) obtain e where e: "gm_list (st_events (rt_Store t)) (ru_SessionID asker) = gm_list (st_events u) (ru_SessionID asker) @ [e]"
    "ev_Payload e = PUserMessageAdded \<lparr>um_MessageID = mid, um_Text = question, um_Trust = trust_for_origin (ru_Origin asker),
             um_Origin = ru_Origin asker, um_Attachments = []\<rparr>" "ev_Kind e = EventUserMessageAdded" by blast
  have "ledger_of cid (gm_list (st_events (rt_Store s)) (ru_SessionID asker)) = []"
    using assms(4) by (auto simp: ledger_of_def)
  then have l: "ledger_in cid (ru_SessionID asker) t = []" using e u by (simp add: ledger_in_def ledger_of_def)
  from w h q l show ?thesis by simp
qed

lemma worker_answer_listed:
  assumes "worker_answer ctx child before t = Inr answer"
  shows "answer \<noteq> '''' \<and> concluded_with (ru_ID child) (drop before (gm_list (st_events t) (ru_SessionID child))) answer \<and>
    completed_in (ru_ID child) (gm_list (st_events t) (ru_SessionID child))"
proof -
  from worker_answer_concluded [OF assms] obtain es where es: "list_after ctx (ru_SessionID child) before 0 t = Inr es"
    "answer \<noteq> ''''" "concluded_with (ru_ID child) es answer" "completed_in (ru_ID child) es" by auto
  have "es \<noteq> []" using es(4) by (auto simp: completed_in_def)
  then have "es = drop before (gm_list (st_events t) (ru_SessionID child))"
    using es(1) by (auto simp: list_after_def limit_to_def Let_def split: option.splits if_splits)
  moreover from this have "completed_in (ru_ID child) (gm_list (st_events t) (ru_SessionID child))"
    using es(4) by (auto simp: completed_in_def dest: in_set_dropD)
  ultimately show ?thesis using es by simp
qed

text \<open>Under none of the policies the daemon ships is a call that only reads put before a person, so the
  policy half of \<open>unasked\<close> holds in every session bound to one of them.\<close>

lemma shipped_policies_let_reads_be:
  "pf \<in> {local_profile, gateway_profile, console_profile, unattended_profile} \<Longrightarrow> level \<in> {LevelInternal, LevelWorkspaceRead} \<Longrightarrow>
    gm_get (pf_Defaults pf) level = Some Allow"
  by (auto simp: profile_defs gm_get_def)

text \<open>C31. A delegated search settles. Take one that is properly asked for by a run that is not a
  worker, with a fresh id for the worker; nobody interrupts it; the session's policy never says ask for
  calls that only read (true of every shipped policy); the tools a worker may use are registered as
  reading ones; and no tool deletes the worker or its session, raises a prompt in its name or tightens
  the policy. Then, pruning on or off and whatever the provider answers, when asking returns the worker
  has ended, not waiting for a person, and the log says so; and what comes back as its answer is not
  blank and is what the worker itself said, in a message it ended its turn on, in a run that completed.
  That asking returns, within eighteen rounds, is promised only with pruning after a fold off (it is
  on by default) and tools that leave the worker's own calls and turns alone.\<close>

theorem delegated_search_settles:
  assumes "get_run None parent (rt_Store s) = Inr asker" "ru_Kind asker \<noteq> RunWorker" "trim_space question \<noteq> ''''"
    and "gm_get (st_sessions (rt_Store s)) (ru_SessionID asker) \<noteq> None"
    and "cid = rv_NewID (ag_Rt env) (rt_Tick s)" "gm_get (st_runs (rt_Store s)) cid = None"
    and "\<forall>e \<in> set (gm_list (st_events (rt_Store s)) (ru_SessionID asker)). ev_RunID e \<noteq> cid"
    and "unasked cid (ru_SessionID asker) s" "workers_only_read (ag_Loop env)"
    and "keeps_house cid (ru_SessionID asker) (ag_Loop env)" "keeps_unasked cid (ru_SessionID asker) (ag_Loop env)"
  shows "(\<forall>fuel r s'. investigate fuel env (\<lambda>_. None) (\<lambda>_. None) parent question s = Some (r, s') \<longrightarrow>
      (\<exists>row before. gm_get (st_runs (rt_Store s')) cid = Some row \<and> is_terminal (ru_Status row) \<and>
        last_state cid (gm_list (st_events (rt_Store s')) (ru_SessionID asker)) = Some (ru_Status row) \<and>
        (\<forall>answer. r = Inr answer \<longrightarrow> answer \<noteq> '''' \<and>
           concluded_with cid (drop before (gm_list (st_events (rt_Store s')) (ru_SessionID asker))) answer \<and>
           completed_in cid (gm_list (st_events (rt_Store s')) (ru_SessionID asker))))) \<and>
    (ag_KeepAfterFold env < 0 \<longrightarrow> keeps_ledger cid (ru_SessionID asker) (ag_Loop env) \<longrightarrow>
      (\<forall>fuel \<ge> 18. investigate fuel env (\<lambda>_. None) (\<lambda>_. None) parent question s \<noteq> None))"
proof -
  obtain child before t where o: "open_worker (ag_Rt env) undisturbed parent question s = (Inr (child, before), t)"
    using open_worker_goes [OF assms(1-4)] assms(5,6) by metis
  from open_worker_result [OF o] assms(1) have "worker_opened (ag_Rt env) parent question asker child s t" by auto
  note house = worker_opened_house [OF this assms(5-8,4)]
  then have w [simp]: "ru_ID child = cid" "ru_SessionID child = ru_SessionID asker" "ru_Kind child = RunWorker" by blast+
  from house have h: "has_house child t" and q: "unasked cid (ru_SessionID asker) t" and l: "ledger_in cid (ru_SessionID asker) t = []" by blast+
  define t1 where "t1 = t\<lparr>rt_Turns := start_worker cid (ru_SessionID asker) (rt_Turns t)\<rparr>"
  define w where "w = \<lparr>qr_run = cid, qr_tracked = tn_fresh (rt_Turns t), qr_admitted = True\<rparr>"
  have go: "execute_worker fuel env undisturbed child t =
      (case execute fuel env undisturbed child t1 of None \<Rightarrow> None | Some s1 \<Rightarrow> Some (s1\<lparr>rt_Turns := returns w (goes_no_more w (rt_Turns s1))\<rparr>))" for fuel
    by (simp add: execute_worker_def t1_def w_def Let_def split: option.split)
  have ended: "ended_for child s2" if "execute_worker fuel env undisturbed child t = Some s2" for fuel s2
  proof -
    from that go obtain s1 where s1: "execute fuel env undisturbed child t1 = Some s1"
      "s2 = s1\<lparr>rt_Turns := returns w (goes_no_more w (rt_Turns s1))\<rparr>" by (auto split: option.splits)
    have "ended_for child s1" by (rule worker_executes [OF _ _ _ _ _ _ s1(1)]) (use h q assms(9-11) in \<open>simp_all add: t1_def\<close>)
    then show ?thesis by (simp add: s1(2))
  qed
  have settled: "\<exists>row before. gm_get (st_runs (rt_Store s2)) cid = Some row \<and> is_terminal (ru_Status row) \<and>
        last_state cid (gm_list (st_events (rt_Store s2)) (ru_SessionID asker)) = Some (ru_Status row) \<and>
        (\<forall>answer. r = Inr answer \<longrightarrow> answer \<noteq> '''' \<and>
           concluded_with cid (drop before (gm_list (st_events (rt_Store s2)) (ru_SessionID asker))) answer \<and>
           completed_in cid (gm_list (st_events (rt_Store s2)) (ru_SessionID asker)))"
    if i: "investigate fuel env undisturbed undisturbed parent question s = Some (r, s2)" for fuel r s2
  proof -
    from i o have 1: "execute_worker fuel env undisturbed child t = Some s2" "\<forall>answer. r = Inr answer \<longrightarrow> worker_answer None child before (rt_Store s2) = Inr answer"
      by (auto simp: investigate_def split: option.splits sum.splits)
    from ended [OF 1(1)] obtain row where "gm_get (st_runs (rt_Store s2)) cid = Some row" "is_terminal (ru_Status row)"
      "last_state cid (gm_list (st_events (rt_Store s2)) (ru_SessionID asker)) = Some (ru_Status row)"
      by (auto simp: ended_for_def told_in_log_def)
    with 1(2) worker_answer_listed [of None child before "rt_Store s2"] show ?thesis by auto
  qed
  have "investigate fuel env undisturbed undisturbed parent question s \<noteq> None"
    if "ag_KeepAfterFold env < 0" "keeps_ledger cid (ru_SessionID asker) (ag_Loop env)" "18 \<le> fuel" for fuel
  proof -
    have "execute fuel env undisturbed child t1 \<noteq> None"
      by (rule worker_returns) (use that l in \<open>simp_all add: t1_def\<close>)
    then show ?thesis using o by (auto simp: investigate_def go split: sum.splits)
  qed
  with settled show ?thesis by blast
qed

lemma workshop_workers: "workers_only_read workshop" "keeps_unasked rid sid workshop" "unasked ''0'' ''s'' at_work"
proof -
  show "workers_only_read workshop" unfolding workers_only_read_def
  proof (intro allI impI)
    fix reg name t
    assume "lv_Tools workshop = Some reg" "name \<in> set read_only_for_workers" "lookup_tool reg name = Some t"
    then show "sp_Level (to_Spec t) \<in> {LevelInternal, LevelWorkspaceRead} \<and> to_LevelFor t = None"
      by (auto simp: workshop_def lookup_tool_def gm_get_def read_only_for_workers_def sample_tool_def sample_spec_def split: if_splits)
  qed
  show "keeps_unasked rid sid workshop" unfolding keeps_unasked_def
  proof (intro allI impI)
    fix reg name t ctx call and w w' :: Rt and r
    assume "lv_Tools workshop = Some reg" "lookup_tool reg name = Some t" "to_Execute t ctx call w = (r, w')" "unasked rid sid w"
    then show "unasked rid sid w'"
      using workshop_tools [of name t] by (auto simp: sample_tool_def)
  qed
  show "unasked ''0'' ''s'' at_work"
    by (auto simp: unasked_def at_work_def new_rt_def new_store_def gm_vals_def profile_for_def new_engine_def gm_get_def local_profile_def)
qed

theorem delegated_search_settles_witness:
  "\<exists>r s' row. investigate 18 searcher (\<lambda>_. None) (\<lambda>_. None) ''r1'' ''where is it'' at_work = Some (r, s') \<and>
    gm_get (st_runs (rt_Store s')) ''0'' = Some row \<and> is_terminal (ru_Status row)"
proof -
  have id: "''0'' = rv_NewID (ag_Rt searcher) (rt_Tick at_work)"
    by (simp add: searcher_def workshop_def plain_rt_env_def at_work_def new_rt_def) code_simp
  have run: "get_run None ''r1'' (rt_Store at_work) = Inr working" "ru_SessionID working = ''s''" "ru_Kind working \<noteq> RunWorker"
    by (simp_all add: get_run_def at_work_def new_rt_def gm_get_def sample_run_def)
  have fresh: "gm_get (st_runs (rt_Store at_work)) ''0'' = None" "\<forall>e \<in> set (gm_list (st_events (rt_Store at_work)) ''s''). ev_RunID e \<noteq> ''0''"
    by (simp_all add: at_work_def new_rt_def new_store_def gm_get_def gm_list_def)
  have q: "trim_space ''where is it'' \<noteq> ''''" by code_simp
  have sess: "gm_get (st_sessions (rt_Store at_work)) (ru_SessionID working) \<noteq> None" by (rule at_work_start(4))
  have loop: "ag_Loop searcher = workshop" "ag_KeepAfterFold searcher < 0" by (simp_all add: searcher_def)
  note settles = delegated_search_settles [OF run(1,3) q sess id fresh(1), unfolded run(2) loop(1),
      OF fresh(2) workshop_workers(3,1) workshop_keeps_house workshop_workers(2)]
  from settles loop(2) workshop_keeps_ledger obtain r s' where
    "investigate 18 searcher (\<lambda>_. None) (\<lambda>_. None) ''r1'' ''where is it'' at_work = Some (r, s')" by fastforce
  with settles show ?thesis by blast
qed

end
