(* ===== verification/RenderSplit.thy ===== *)
theory RenderSplit
imports Utf8 "HOL-Library.Sublist"
begin

text \<open>
  Long answers in short messages (\<open>core/internal/gateway/render/render.go\<close>: \<open>Style\<close>, \<open>Split\<close>,
  \<open>SplitsAFence\<close>, \<open>BreakPoint\<close>, \<open>openFence\<close>).

  Lengths are in bytes, as Go counts them. A slice bound out of range panics: \<open>None\<close> of
  \<open>break_point\<close>, \<open>OutOfRange\<close> of the loop; \<open>Unfinished\<close> is its fuel used up.
\<close>

subsection \<open>Styles\<close>

record Style =
  sty_MaxLength :: int
  sty_SoftLength :: int
  sty_WorkingLine :: bool
  sty_SubduedPrefix :: string
  sty_Bold :: string
  sty_Italic :: string
  sty_Fence :: string
  sty_TableColumns :: int

abbreviation nl :: char where "nl \<equiv> CHR 10"

definition backticks :: string where "backticks = [CHR 0x60, CHR 0x60, CHR 0x60]"

definition discord_style :: Style where
  "discord_style = \<lparr>sty_MaxLength = 2000, sty_SoftLength = 1900, sty_WorkingLine = True, sty_SubduedPrefix = ''-# '',
     sty_Bold = ''**'', sty_Italic = ''_'', sty_Fence = backticks, sty_TableColumns = 76\<rparr>"

definition telegram_style :: Style where
  "telegram_style = \<lparr>sty_MaxLength = 4096, sty_SoftLength = 3900, sty_WorkingLine = True, sty_SubduedPrefix = '''',
     sty_Bold = '''', sty_Italic = '''', sty_Fence = '''', sty_TableColumns = 0\<rparr>"

subsection \<open>Where to cut\<close>

text \<open>\<open>strings.LastIndex\<close>\<close>

definition last_index :: "string \<Rightarrow> string \<Rightarrow> int" where
  "last_index s sub =
     (case filter (\<lambda>i. has_prefix (drop i s) sub) [0..<Suc (length s)] of [] \<Rightarrow> -1 | is \<Rightarrow> int (List.last is))"

definition break_point :: "string \<Rightarrow> int \<Rightarrow> int option" where
  "break_point s limit =
     (if limit < 0 \<or> limit > int (length s) then None
      else let window = take (nat limit) s in
        Some (if last_index window [nl, nl] > limit div 2 then last_index window [nl, nl]
          else if last_index window [nl] > limit div 2 then last_index window [nl]
          else if last_index window '' '' > limit div 2 then last_index window '' ''
          else limit))"

text \<open>The loop of \<open>openFence\<close>: whether a fence is open, and its language.\<close>

fun fence_lines :: "string list \<Rightarrow> bool \<times> string \<Rightarrow> bool \<times> string" where
  "fence_lines [] st = st"
| "fence_lines (line # rest) st =
     (if \<not> has_prefix line backticks then fence_lines rest st
      else if fst st then fence_lines rest (False, '''')
      else fence_lines rest (True, trim_space (drop 3 line)))"

definition open_fence :: "string \<Rightarrow> string" where
  "open_fence chunk = (case fence_lines (split_on nl chunk) (False, '''') of (opened, language) \<Rightarrow>
     if \<not> opened then '''' else backticks @ language)"

subsection \<open>Splitting\<close>

datatype SplitOutcome = Posted "string list" | OutOfRange | Unfinished

fun and_then :: "string \<Rightarrow> SplitOutcome \<Rightarrow> SplitOutcome" where
  "and_then seg (Posted segs) = Posted (seg # segs)"
| "and_then seg other = other"

definition without_newlines :: "string \<Rightarrow> string" where
  "without_newlines s = dropWhile (\<lambda>c. c = nl) s"

fun split_loop :: "nat \<Rightarrow> Style \<Rightarrow> string \<Rightarrow> string \<Rightarrow> SplitOutcome" where
  "split_loop 0 style fence remaining = Unfinished"
| "split_loop (Suc fuel) style fence remaining =
     (if remaining = '''' then Posted []
      else let limit = sty_SoftLength style - int (length fence) * 2 in
        if int (length remaining) \<le> limit then Posted [fence @ remaining]
        else case break_point remaining limit of
          None \<Rightarrow> OutOfRange
        | Some place \<Rightarrow>
            let chunk = fence @ take (nat place) remaining;
                remaining = without_newlines (drop (nat place) remaining);
                opened = open_fence chunk
            in if opened \<noteq> '''' then and_then (chunk @ nl # backticks) (split_loop fuel style (opened @ [nl]) remaining)
               else and_then chunk (split_loop fuel style '''' remaining))"

definition split_text :: "nat \<Rightarrow> Style \<Rightarrow> string \<Rightarrow> SplitOutcome" where
  "split_text fuel style s =
     (if int (length s) \<le> sty_MaxLength style then Posted [s] else split_loop fuel style '''' s)"

text \<open>\<open>SplitsAFence\<close>: \<open>None\<close> inside is a panic.\<close>

fun fence_cut_loop :: "nat \<Rightarrow> Style \<Rightarrow> string \<Rightarrow> bool option option" where
  "fence_cut_loop 0 style remaining = None"
| "fence_cut_loop (Suc fuel) style remaining =
     (if remaining = '''' then Some (Some False)
      else let limit = sty_SoftLength style in
        if int (length remaining) \<le> limit then Some (Some False)
        else case break_point remaining limit of
          None \<Rightarrow> Some None
        | Some place \<Rightarrow>
            if open_fence (take (nat place) remaining) \<noteq> '''' then Some (Some True)
            else fence_cut_loop fuel style (without_newlines (drop (nat place) remaining)))"

definition splits_a_fence :: "nat \<Rightarrow> Style \<Rightarrow> string \<Rightarrow> bool option option" where
  "splits_a_fence fuel style s =
     (if sty_Fence style = '''' \<or> int (length s) \<le> sty_MaxLength style then Some (Some False)
      else fence_cut_loop fuel style s)"

subsection \<open>What a cut leaves\<close>

lemma last_index_range: "last_index s sub \<noteq> -1 \<Longrightarrow> 0 \<le> last_index s sub \<and> last_index s sub \<le> int (length s)"
proof -
  assume a: "last_index s sub \<noteq> -1"
  let ?is = "filter (\<lambda>i. has_prefix (drop i s) sub) [0..<Suc (length s)]"
  have ne: "?is \<noteq> []" using a by (auto simp: last_index_def)
  then have "List.last ?is \<in> set ?is" by (rule last_in_set)
  then have "List.last ?is \<le> length s" by auto
  moreover have "last_index s sub = int (List.last ?is)" using ne unfolding last_index_def by (cases ?is) simp_all
  ultimately show ?thesis by simp
qed

lemma break_point_range:
  assumes "break_point s limit = Some place" "0 < limit"
  shows "0 < place \<and> place \<le> limit"
proof -
  have l: "limit \<le> int (length s)" using assms(1) by (auto simp: break_point_def split: if_splits)
  have one: "0 < last_index (take (nat limit) s) sub \<and> last_index (take (nat limit) s) sub \<le> limit"
    if "last_index (take (nat limit) s) sub > limit div 2" for sub
    using that last_index_range [of "take (nat limit) s" sub] assms(2) l by auto
  show ?thesis
    using assms one by (auto simp: break_point_def Let_def split: if_splits)
qed

lemma break_point_some: "0 < limit \<Longrightarrow> limit < int (length s) \<Longrightarrow> \<exists>place. break_point s limit = Some place"
  by (simp add: break_point_def Let_def)


subsection \<open>Lines\<close>

lemma has_prefix_iff: "has_prefix s p \<longleftrightarrow> prefix p s"
  by (induction s p rule: has_prefix.induct) auto

lemma str_contains_iff: "str_contains s sub \<longleftrightarrow> sublist sub s"
  by (induction s sub rule: str_contains.induct) (auto simp: has_prefix_iff sublist_Cons_right)

lemma split_on_append: "split_on sep (a @ sep # b) = split_on sep a @ split_on sep b"
  by (induction a) (auto split: list.splits)

lemma split_on_one: "sep \<notin> set s \<Longrightarrow> split_on sep s = [s]"
  by (induction s) auto

lemma split_on_pieces: "line \<in> set (split_on sep s) \<Longrightarrow> sep \<notin> set line \<and> sublist line s"
proof (induction s arbitrary: line)
  case (Cons c s)
  obtain w ws where w: "split_on sep s = w # ws" by (meson neq_Nil_conv split_on_nonempty)
  have "prefix w s"
  proof -
    have "\<exists>ws. split_on sep s = w # ws \<Longrightarrow> prefix w s" for w s
      by (induction s arbitrary: w) (auto split: if_splits list.splits)
    with w show ?thesis by blast
  qed
  with Cons w show ?case by (fastforce simp: sublist_Cons_right split: if_splits)
qed simp

lemma piece_in_a_line: "sep \<notin> set p \<Longrightarrow> sublist p s \<Longrightarrow> \<exists>line \<in> set (split_on sep s). sublist p line"
proof (induction s arbitrary: p)
  case (Cons c s)
  have first: "\<exists>w ws. split_on sep t = w # ws \<and> prefix q w" if "sep \<notin> set q" "prefix q t" for q t
    using that
  proof (induction t arbitrary: q)
    case (Cons d t)
    then show ?case
      by (cases q) (fastforce split: list.splits)+
  qed simp
  obtain w ws where w: "split_on sep s = w # ws" by (meson neq_Nil_conv split_on_nonempty)
  from Cons.prems(2) consider "prefix p (c # s)" | "sublist p s" by (auto simp: sublist_Cons_right)
  then show ?case
  proof cases
    case 1
    from first [OF Cons.prems(1) this] obtain v vs where "split_on sep (c # s) = v # vs" "prefix p v" by blast
    then show ?thesis by (metis list.set_intros(1) prefix_imp_sublist)
  next
    case 2
    from Cons.IH [OF Cons.prems(1) this] obtain line where "line \<in> set (split_on sep s)" "sublist p line" by blast
    with w show ?thesis by (auto simp: sublist_Cons_right)
  qed
qed simp

lemma trim_left_suffix: "suffix (trim_left s) s"
proof (induction s rule: trim_left.induct)
  case (1 s)
  show ?case
    by (subst trim_left.simps) (use 1 in \<open>auto intro: suffix_order.trans [OF _ suffix_drop]\<close>)
qed

lemma trim_right_suffix: "suffix (trim_right_rev s) s"
proof (induction s rule: trim_right_rev.induct)
  case (1 s)
  show ?case
    by (subst trim_right_rev.simps) (use 1 in \<open>auto intro: suffix_order.trans [OF _ suffix_drop]\<close>)
qed

lemma trim_space_sublist: "sublist (trim_space s) s"
proof -
  have "prefix (trim_space s) (trim_left s)"
    using trim_right_suffix [of "rev (trim_left s)"] by (simp add: trim_space_def suffix_to_prefix)
  then show ?thesis using trim_left_suffix by (meson prefix_imp_sublist suffix_imp_sublist sublist_order.order.trans)
qed

subsection \<open>Fences\<close>

lemma fence_lines_append [simp]: "fence_lines (xs @ ys) st = fence_lines ys (fence_lines xs st)"
  by (induction xs arbitrary: st) auto

lemma fence_lines_opened:
  "fence_lines ls st = (True, lang) \<Longrightarrow> st = (True, lang) \<or> (\<exists>line \<in> set ls. has_prefix line backticks \<and> lang = trim_space (drop 3 line))"
  by (induction ls arbitrary: st) (auto split: if_splits; fastforce)+

lemma open_fence_from:
  assumes "open_fence chunk \<noteq> ''''"
  shows "\<exists>line \<in> set (split_on nl chunk). has_prefix line backticks \<and> open_fence chunk = backticks @ trim_space (drop 3 line)"
proof -
  obtain op l where o: "fence_lines (split_on nl chunk) (False, '''') = (op, l)" by fastforce
  with assms have "op" by (auto simp: open_fence_def split: if_splits)
  with o fence_lines_opened [of "split_on nl chunk" "(False, '''')" l] show ?thesis by (auto simp: open_fence_def)
qed

lemma open_fence_closed: "open_fence chunk \<noteq> '''' \<Longrightarrow> open_fence (chunk @ nl # backticks) = ''''"
proof -
  assume a: "open_fence chunk \<noteq> ''''"
  obtain op l where o: "fence_lines (split_on nl chunk) (False, '''') = (op, l)" by fastforce
  with a have "op" by (auto simp: open_fence_def split: if_splits)
  moreover have "split_on nl (chunk @ nl # backticks) = split_on nl chunk @ [backticks]"
    by (simp only: split_on_append split_on_one) (simp add: split_on_one backticks_def)
  ultimately show ?thesis using o by (simp add: open_fence_def has_prefix_iff)
qed


subsection \<open>Every part fits and nothing is lost\<close>

text \<open>No line that may open a fence is so long that repeating it would leave no room.\<close>

definition fences_short :: "Style \<Rightarrow> string \<Rightarrow> bool" where
  "fences_short style s \<longleftrightarrow> (\<forall>line \<in> set (split_on nl s). str_contains line backticks \<longrightarrow> 2 * (int (length line) + 1) < sty_SoftLength style)"

text \<open>The parts are the text cut at newlines, and fences put around the pieces.\<close>

definition conserved :: "string \<Rightarrow> string list \<Rightarrow> bool" where
  "conserved s segs \<longleftrightarrow> (\<exists>ps. segs = map (\<lambda>(opening, body, closing, gap). opening @ body @ closing) ps \<and>
     s = concat (map (\<lambda>(opening, body, closing, gap). body @ gap) ps) \<and>
     (\<forall>(opening, body, closing, gap) \<in> set ps. (opening = '''' \<or> (\<exists>language. opening = backticks @ language @ [nl])) \<and>
        closing \<in> {'''', nl # backticks} \<and> set gap \<subseteq> {nl}))"

definition reopening :: "Style \<Rightarrow> string \<Rightarrow> bool" where
  "reopening style fence \<longleftrightarrow> 2 * int (length fence) < sty_SoftLength style \<and>
     (fence = '''' \<or> (\<exists>language. fence = backticks @ language @ [nl] \<and> nl \<notin> set language))"

lemma next_fence:
  assumes "reopening style fence" "sublist piece s" "fences_short style s" "open_fence (fence @ piece) \<noteq> ''''"
  shows "reopening style (open_fence (fence @ piece) @ [nl])"
proof -
  obtain line where line: "line \<in> set (split_on nl (fence @ piece))" "has_prefix line backticks"
    "open_fence (fence @ piece) = backticks @ trim_space (drop 3 line)"
    using open_fence_from [OF assms(4)] by blast
  have sub: "sublist (trim_space (drop 3 line)) (drop 3 line)" by (rule trim_space_sublist)
  have "length (trim_space (drop 3 line)) \<le> length line - 3" using sublist_length_le [OF sub] by simp
  moreover have "3 \<le> length line" using line(2) by (auto simp: has_prefix_iff backticks_def dest: prefix_length_le)
  ultimately have len: "length (open_fence (fence @ piece)) \<le> length line" using line(3) by (simp add: backticks_def)
  have "nl \<notin> set line" using split_on_pieces [OF line(1)] by blast
  then have clean: "nl \<notin> set (trim_space (drop 3 line))" using set_mono_sublist [OF sub] set_drop_subset [of 3 line] by blast
  have "2 * (int (length line) + 1) < sty_SoftLength style"
  proof (cases "line \<in> set (split_on nl piece)")
    case True
    then have p: "nl \<notin> set line" "sublist line s"
      using split_on_pieces [OF True] assms(2) by (auto intro: sublist_order.order.trans)
    obtain whole where w: "whole \<in> set (split_on nl s)" "sublist line whole" using piece_in_a_line [OF p] by blast
    have "sublist backticks whole"
      using line(2) w(2) by (auto simp: has_prefix_iff intro: sublist_order.order.trans [OF prefix_imp_sublist])
    then have "2 * (int (length whole) + 1) < sty_SoftLength style"
      using w(1) assms(3) by (auto simp: fences_short_def str_contains_iff)
    with sublist_length_le [OF w(2)] show ?thesis by simp
  next
    case False
    with line(1) have "fence \<noteq> ''''" by auto
    then obtain language where f: "fence = backticks @ language @ [nl]" "nl \<notin> set language"
      using assms(1) by (auto simp: reopening_def)
    have "split_on nl (fence @ piece) = split_on nl (backticks @ language) @ split_on nl piece"
      using split_on_append [of nl "backticks @ language" piece] f(1) by simp
    moreover have "split_on nl (backticks @ language) = [backticks @ language]"
      using f(2) by (intro split_on_one) (simp add: backticks_def)
    ultimately have "line = backticks @ language" using line(1) False by simp
    with f(1) assms(1) show ?thesis by (simp add: reopening_def)
  qed
  with len line(3) clean show ?thesis by (auto simp: reopening_def)
qed

lemma without_newlines_gap: "\<exists>gap. s = gap @ without_newlines s \<and> set gap \<subseteq> {nl}"
proof -
  have "s = takeWhile (\<lambda>c. c = nl) s @ without_newlines s" by (simp add: without_newlines_def)
  moreover have "set (takeWhile (\<lambda>c. c = nl) s) \<subseteq> {nl}" by (auto dest: set_takeWhileD)
  ultimately show ?thesis by blast
qed

lemma conserved_Cons:
  assumes "conserved rest segs" "s = body @ gap @ rest" "set gap \<subseteq> {nl}" "reopening style fence" "closing \<in> {'''', nl # backticks}"
  shows "conserved s ((fence @ body @ closing) # segs)"
proof -
  from assms(1) obtain ps where ps: "segs = map (\<lambda>(opening, body, closing, gap). opening @ body @ closing) ps"
    "rest = concat (map (\<lambda>(opening, body, closing, gap). body @ gap) ps)"
    "\<forall>(opening, body, closing, gap) \<in> set ps. (opening = '''' \<or> (\<exists>language. opening = backticks @ language @ [nl])) \<and>
        closing \<in> {'''', nl # backticks} \<and> set gap \<subseteq> {nl}"
    unfolding conserved_def by blast
  have "fence = '''' \<or> (\<exists>language. fence = backticks @ language @ [nl])" using assms(4) by (auto simp: reopening_def)
  with ps assms(2,3,5) show ?thesis unfolding conserved_def by (intro exI [of _ "(fence, body, closing, gap) # ps"]) auto
qed

lemma split_loop_parts:
  assumes "fences_short style s" "sty_SoftLength style + 4 \<le> sty_MaxLength style"
  shows "length remaining < fuel \<Longrightarrow> sublist remaining s \<Longrightarrow> reopening style fence \<Longrightarrow>
    \<exists>segs. split_loop fuel style fence remaining = Posted segs \<and> (\<forall>seg \<in> set segs. int (length seg) \<le> sty_MaxLength style) \<and>
      (\<forall>seg \<in> set (butlast segs). open_fence seg = '''') \<and> conserved remaining segs"
proof (induction fuel arbitrary: remaining fence)
  case (Suc fuel)
  define limit where "limit = sty_SoftLength style - int (length fence) * 2"
  have limit: "0 < limit" using Suc.prems(3) by (simp add: limit_def reopening_def)
  show ?case
  proof (cases "remaining = '''' \<or> int (length remaining) \<le> limit")
    case True
    show ?thesis
    proof (cases "remaining = ''''")
      case True
      then show ?thesis by (simp add: conserved_def)
    next
      case False
      with True have "split_loop (Suc fuel) style fence remaining = Posted [fence @ remaining]" by (simp add: limit_def)
      moreover have "int (length (fence @ remaining)) \<le> sty_MaxLength style"
        using True False assms(2) limit by (simp add: limit_def)
      moreover have "conserved '''' []" by (simp add: conserved_def)
      then have "conserved remaining [fence @ remaining @ '''']"
        by (rule conserved_Cons [where gap = "''''", OF _ _ _ Suc.prems(3)]) simp_all
      ultimately show ?thesis by simp
    qed
  next
    case False
    then obtain place where place: "break_point remaining limit = Some place" using break_point_some [OF limit] by force
    note range = break_point_range [OF place limit]
    define piece where "piece = take (nat place) remaining"
    define rest where "rest = without_newlines (drop (nat place) remaining)"
    obtain gap where gap: "drop (nat place) remaining = gap @ rest" "set gap \<subseteq> {nl}"
      using without_newlines_gap [of "drop (nat place) remaining"] by (auto simp: rest_def)
    have whole: "remaining = piece @ gap @ rest" using gap(1) by (metis append_take_drop_id piece_def)
    have "sublist piece remaining" "sublist rest remaining"
      unfolding sublist_def using whole by (metis append_Nil append_Nil2 append.assoc)+
    then have sub: "sublist piece s" "sublist rest s" using Suc.prems(2) sublist_order.order.trans by blast+
    have shorter: "length rest < fuel"
    proof -
      have "length (drop (nat place) remaining) < length remaining" using range False by auto
      then show ?thesis using gap(1) Suc.prems(1) by (metis length_append less_Suc_eq_le add_lessD1 add.commute order.strict_trans2)
    qed
    have len: "int (length (fence @ piece)) + 4 \<le> sty_MaxLength style"
    proof -
      have "length piece \<le> nat place" by (simp add: piece_def)
      then have "int (length piece) \<le> place" using range by linarith
      moreover have "place \<le> sty_SoftLength style - int (length fence) * 2" using range by (simp add: limit_def)
      ultimately show ?thesis using assms(2) by simp
    qed
    have step: "split_loop (Suc fuel) style fence remaining =
        (if open_fence (fence @ piece) \<noteq> '''' then and_then ((fence @ piece) @ nl # backticks) (split_loop fuel style (open_fence (fence @ piece) @ [nl]) rest)
         else and_then (fence @ piece) (split_loop fuel style '''' rest))"
      using False place by (simp add: limit_def [symmetric] piece_def rest_def Let_def)
    show ?thesis
    proof (cases "open_fence (fence @ piece) = ''''")
      case True
      have "reopening style ''''" using limit Suc.prems(3) by (auto simp: reopening_def)
      from Suc.IH [OF shorter sub(2) this] obtain segs where segs: "split_loop fuel style '''' rest = Posted segs"
        "\<forall>seg \<in> set segs. int (length seg) \<le> sty_MaxLength style" "\<forall>seg \<in> set (butlast segs). open_fence seg = ''''" "conserved rest segs" by blast
      have "conserved remaining ((fence @ piece @ '''') # segs)"
        by (rule conserved_Cons [OF segs(4) whole gap(2) Suc.prems(3)]) simp
      with segs step True len show ?thesis by auto
    next
      case opened: False
      from Suc.IH [OF shorter sub(2) next_fence [OF Suc.prems(3) sub(1) assms(1) opened]] obtain segs where
        segs: "split_loop fuel style (open_fence (fence @ piece) @ [nl]) rest = Posted segs"
        "\<forall>seg \<in> set segs. int (length seg) \<le> sty_MaxLength style" "\<forall>seg \<in> set (butlast segs). open_fence seg = ''''" "conserved rest segs" by blast
      have "conserved remaining ((fence @ piece @ nl # backticks) # segs)"
        by (rule conserved_Cons [OF segs(4) whole gap(2) Suc.prems(3)]) simp
      moreover have "open_fence (fence @ piece @ nl # backticks) = ''''" using open_fence_closed [OF opened] by simp
      moreover have "int (length (fence @ piece @ nl # backticks)) \<le> sty_MaxLength style" using len by (simp add: backticks_def)
      ultimately show ?thesis using segs step opened by auto
    qed
  qed
qed simp

text \<open>C39. A long answer reaches the platform whole, in parts it takes: when there is room for a fence between
  the two limits and no line that opens one is half as long as a part, splitting ends, every part fits
  the platform's limit, every part but the last has its fences closed, and the parts are the text,
  with newlines dropped where it was cut and fences added and nothing else.\<close>

theorem split_parts_fit_and_conserve:
  assumes "sty_SoftLength style + 4 \<le> sty_MaxLength style" "0 < sty_SoftLength style" "fences_short style s" "length s < fuel"
  shows "\<exists>segs. split_text fuel style s = Posted segs \<and> (\<forall>seg \<in> set segs. int (length seg) \<le> sty_MaxLength style) \<and>
    (\<forall>seg \<in> set (butlast segs). open_fence seg = '''') \<and> conserved s segs"
proof (cases "int (length s) \<le> sty_MaxLength style")
  case True
  have "conserved s [s]" unfolding conserved_def by (intro exI [of _ "[('''', s, '''', '''')]"]) simp
  with True show ?thesis by (simp add: split_text_def)
next
  case False
  have "reopening style ''''" using assms(2) by (simp add: reopening_def)
  from split_loop_parts [OF assms(3,1,4) _ this] False show ?thesis by (simp add: split_text_def)
qed


theorem split_parts_fit_and_conserve_witness:
  "let s = backticks @ nl # replicate 2100 (CHR ''a'') in
   \<exists>segs. split_text 2105 discord_style s = Posted segs \<and> (\<forall>seg \<in> set segs. int (length seg) \<le> 2000) \<and> conserved s segs"
proof -
  let ?s = "backticks @ nl # replicate 2100 (CHR ''a'')"
  have "split_on nl ?s = [backticks, replicate 2100 (CHR ''a'')]"
    unfolding split_on_append by (simp add: split_on_one backticks_def)
  moreover have "\<not> str_contains (replicate 2100 (CHR ''a'')) backticks"
    by (auto simp: str_contains_iff backticks_def dest!: set_mono_sublist)
  ultimately have "fences_short discord_style ?s"
    by (auto simp: fences_short_def discord_style_def backticks_def)
  from split_parts_fit_and_conserve [OF _ _ this, of 2105] show ?thesis
    by (auto simp: discord_style_def backticks_def Let_def)
qed

subsection \<open>Where splitting goes wrong\<close>

lemma last_index_none: "sub \<noteq> [] \<Longrightarrow> hd sub \<notin> set s \<Longrightarrow> last_index s sub = -1"
proof -
  assume a: "sub \<noteq> []" "hd sub \<notin> set s"
  have "\<not> has_prefix (drop i s) sub" for i
    using a by (metis has_prefix_iff hd_in_set in_set_dropD set_mono_prefix subsetD)
  then have "filter (\<lambda>i. has_prefix (drop i s) sub) [0..<Suc (length s)] = []" by (simp add: filter_empty_conv)
  then show ?thesis unfolding last_index_def by (simp only: list.case)
qed

lemma break_point_unbroken:
  assumes "nl \<notin> set s" "CHR '' '' \<notin> set s" "0 \<le> limit" "limit \<le> int (length s)"
  shows "break_point s limit = Some limit"
proof -
  have "last_index (take (nat limit) s) sub = -1" if "sub \<in> {[nl, nl], [nl], '' ''}" for sub
    using that assms by (intro last_index_none) (auto dest: in_set_takeD)
  moreover have "\<not> limit div 2 < -1" using assms(3) by simp
  ultimately show ?thesis using assms(3,4) by (simp add: break_point_def Let_def del: take_eq_Nil)
qed

lemma split_loop_step:
  assumes "sty_SoftLength style - int (length fence) * 2 = limit" "limit < int (length remaining)" "break_point remaining limit = Some place"
  shows "split_loop (Suc fuel) style fence remaining =
    (let chunk = fence @ take (nat place) remaining;
         rest = without_newlines (drop (nat place) remaining);
         opened = open_fence chunk
     in if opened \<noteq> '''' then and_then (chunk @ nl # backticks) (split_loop fuel style (opened @ [nl]) rest)
        else and_then chunk (split_loop fuel style '''' rest))"
proof -
  have "remaining \<noteq> ''''" using assms(2,3) by (auto simp: break_point_def split: if_splits)
  with assms show ?thesis by (simp add: Let_def)
qed

lemma trim_space_x: "trim_space (replicate n (CHR ''x'')) = replicate n (CHR ''x'')"
proof (cases n)
  case (Suc m)
  have "space_len (CHR ''x'' # t) = 0" "space_suffix (CHR ''x'' # t) = 0" for t
    by (simp_all add: space_len_def space_suffix_def space_encodings_def)
  then have "trim_left (replicate n (CHR ''x'')) = replicate n (CHR ''x'')" "trim_right_rev (replicate n (CHR ''x'')) = replicate n (CHR ''x'')"
    unfolding Suc by (subst trim_left.simps trim_right_rev.simps; simp)+
  then show ?thesis by (simp add: trim_space_def)
next
  case 0
  have "trim_space [] = []" by code_simp
  with 0 show ?thesis by simp
qed

text \<open>A line that opens a fence and goes on for most of a part is taken for the language of the fence:
  there is no room left to repeat it, the limit becomes negative and the slice panics.\<close>

theorem long_fence_line_panics:
  "split_text (Suc (Suc fuel)) discord_style (backticks @ replicate 2000 (CHR ''x'')) = OutOfRange"
proof -
  let ?s = "backticks @ replicate 2000 (CHR ''x'')" and ?line = "backticks @ replicate 1897 (CHR ''x'')"
  have b: "break_point ?s 1900 = Some 1900" by (rule break_point_unbroken) (auto simp: backticks_def)
  have chunk: "take (nat 1900) ?s = ?line" by (simp add: backticks_def)
  have "split_on nl ?line = [?line]" by (rule split_on_one) (simp add: backticks_def)
  moreover have "drop 3 ?line = replicate 1897 (CHR ''x'')" by (simp add: backticks_def)
  ultimately have opened: "open_fence ?line = ?line"
    by (simp add: open_fence_def has_prefix_iff trim_space_x del: drop_append)
  have rest: "without_newlines (drop (nat 1900) ?s) = replicate 103 (CHR ''x'')"
    by (simp add: without_newlines_def backticks_def)
  have second: "split_loop (Suc fuel) discord_style (?line @ [nl]) (replicate 103 (CHR ''x'')) = OutOfRange"
    by (simp add: discord_style_def backticks_def break_point_def)
  have "split_loop (Suc (Suc fuel)) discord_style '''' ?s = OutOfRange"
    by (subst split_loop_step [OF _ _ b])
      (simp_all only: chunk rest append_Nil Let_def opened second, simp_all add: discord_style_def backticks_def)
  then show ?thesis by (simp add: split_text_def discord_style_def backticks_def)
qed

lemma runes_repeat: "scalar r \<Longrightarrow> runes (of_runes (replicate n r) @ s) = replicate n r @ runes s"
  by (induction n) (simp_all add: runes_encode)

lemma length_repeat: "length (of_runes (replicate n r)) = n * length (encode_rune r)"
  by (induction n) simp_all

text \<open>Text without spaces, as Chinese is, is cut in the middle of a character: what is posted is not text.\<close>

theorem split_cuts_a_character:
  "let s = of_runes (replicate 700 0x4E2D) in
   valid_utf8 s \<and> (\<exists>segs. split_text (Suc (length s)) discord_style s = Posted segs \<and> \<not> valid_utf8 (hd segs))"
proof -
  define z where "z = encode_rune 0x4E2D"
  define s where "s = of_runes (replicate 700 0x4E2D)"
  have z: "z = [CHR 0xE4, CHR 0xB8, CHR 0xAD]" by (simp add: z_def encode_rune_def scalar_def) code_simp
  have valid: "valid_utf8 s" using encoded_text [of s "replicate 700 0x4E2D"] by (simp add: s_def scalar_def)
  have set_z: "set (of_runes (replicate n 0x4E2D)) \<subseteq> {CHR 0xE4, CHR 0xB8, CHR 0xAD}" for n
    by (induction n) (simp_all add: z [unfolded z_def])
  have len: "length (of_runes (replicate n 0x4E2D)) = n * 3" for n by (simp add: length_repeat z [unfolded z_def])
  have two: "s = of_runes (replicate 633 0x4E2D) @ z @ of_runes (replicate 66 0x4E2D)"
  proof -
    have "replicate 700 (0x4E2D :: rune) = replicate 633 0x4E2D @ 0x4E2D # replicate 66 0x4E2D"
      using replicate_add [of 633 "Suc 66" "0x4E2D :: rune"] by (simp only: replicate_Suc) simp
    then show ?thesis unfolding s_def z_def by (simp only: of_runes_simps)
  qed
  have "length s = 2100" by (simp add: s_def len)
  have b: "break_point s 1900 = Some 1900"
    by (rule break_point_unbroken) (use set_z [of 700] len [of 700] in \<open>auto simp: s_def\<close>)
  have chunk: "take (nat 1900) s = of_runes (replicate 633 0x4E2D) @ [CHR 0xE4]"
    by (simp add: two len z)
  have clean: "open_fence (take (nat 1900) s) = ''''"
  proof (rule ccontr)
    assume "open_fence (take (nat 1900) s) \<noteq> ''''"
    from open_fence_from [OF this] obtain line where "line \<in> set (split_on nl (take (nat 1900) s))" "has_prefix line backticks" by blast
    then have "sublist backticks line" "sublist line (take (nat 1900) s)"
      using split_on_pieces by (auto simp: has_prefix_iff prefix_imp_sublist)
    then have "sublist backticks s" by (meson sublist_order.order.trans sublist_take)
    then show False using set_z [of 700] by (auto simp: s_def backticks_def dest!: set_mono_sublist)
  qed
  define rest where "rest = without_newlines (drop (nat 1900) s)"
  obtain gap where "drop (nat 1900) s = gap @ rest" using without_newlines_gap [of "drop (nat 1900) s"] by (auto simp: rest_def)
  then have "length (drop (nat 1900) s) = length gap + length rest" by simp
  then have "length rest \<le> 200" using \<open>length s = 2100\<close> by simp
  then have "split_loop (length s) discord_style '''' rest = Posted (if rest = '''' then [] else [rest])"
  proof -
    have suc: "length s = Suc 2099" using \<open>length s = 2100\<close> by simp
    show ?thesis unfolding suc split_loop.simps(2) using \<open>length rest \<le> 200\<close> by (simp add: discord_style_def)
  qed
  moreover have "split_loop (Suc (length s)) discord_style '''' s =
    (let chunk = '''' @ take (nat 1900) s; rest = without_newlines (drop (nat 1900) s); opened = open_fence chunk
     in if opened \<noteq> '''' then and_then (chunk @ nl # backticks) (split_loop (length s) discord_style (opened @ [nl]) rest)
        else and_then chunk (split_loop (length s) discord_style '''' rest))"
    by (rule split_loop_step [OF _ _ b]) (simp_all add: discord_style_def \<open>length s = 2100\<close>)
  ultimately have "split_loop (Suc (length s)) discord_style '''' s = Posted (take (nat 1900) s # (if rest = '''' then [] else [rest]))"
    unfolding Let_def append_Nil clean rest_def by simp
  then have "split_text (Suc (length s)) discord_style s = Posted (take (nat 1900) s # (if rest = '''' then [] else [rest]))"
    unfolding split_text_def using \<open>length s = 2100\<close> by (simp add: discord_style_def)
  moreover have "\<not> valid_utf8 (take (nat 1900) s)"
  proof -
    have "runes (take (nat 1900) s) = replicate 633 0x4E2D @ [rune_error]"
    proof -
      have "byte (CHR 0xE4) = 0xE4" by (simp add: byte_def)
      then have "runes [CHR 0xE4] = [rune_error]" by simp
      then show ?thesis unfolding chunk by (subst runes_repeat) (simp_all add: scalar_def)
    qed
    moreover have "length (encode_rune rune_error) = 3" by (simp add: encode_rune_def scalar_def rune_error_def)
    then have "encode_rune rune_error \<noteq> [CHR 0xE4]" by auto
    ultimately show ?thesis unfolding valid_utf8_def using chunk by simp
  qed
  ultimately show ?thesis using valid by (simp add: s_def Let_def)
qed

end
