(* ===== verification/RenderTables.thy ===== *)
theory RenderTables
imports RenderSplit
begin

text \<open>
  Tables in an answer (\<open>core/internal/gateway/render/table.go\<close>, \<open>drawn.go\<close>, \<open>segment.go\<close>): written out as
  a fixed-width block or as rows, found inside fences, and cut out of the text that is around them.

  Reading Markdown is goldmark's, and how wide a cell is on screen is the ansi package's: the
  parameters \<open>tables\<close>, which gives what \<open>Tables\<close> finds, and \<open>width\<close>.
\<close>

subsection \<open>Tables\<close>

record Table =
  tab_Header :: "string list"
  tab_Rows :: "string list list"

record TableAt =
  ta_Table :: Table
  ta_Start :: nat
  ta_End :: nat

definition column_widths :: "(string \<Rightarrow> int) \<Rightarrow> Table \<Rightarrow> int list" where
  "column_widths width t =
     (let columns = foldl (\<lambda>n row. max n (length row)) (length (tab_Header t)) (tab_Rows t);
          first = (\<lambda>i. if i < length (tab_Header t) then width (tab_Header t ! i) else 0)
      in map (\<lambda>i. foldl (\<lambda>w row. if i < length row \<and> width (row ! i) > w then width (row ! i) else w) (first i) (tab_Rows t))
           [0..<columns])"

definition table_width :: "(string \<Rightarrow> int) \<Rightarrow> Table \<Rightarrow> int" where
  "table_width width t =
     (let widths = column_widths width t in if widths = [] then 0 else sum_list widths + (int (length widths) - 1) * 3)"

text \<open>\<open>strings.TrimRight(s, " ")\<close>, and \<open>strings.Repeat\<close>, which panics on a negative count.\<close>

definition trim_trailing :: "string \<Rightarrow> string" where
  "trim_trailing s = rev (dropWhile (\<lambda>c. c = CHR '' '') (rev s))"

definition repeated :: "string \<Rightarrow> int \<Rightarrow> string option" where
  "repeated s n = (if n < 0 then None else Some (concat (replicate (nat n) s)))"

definition bar :: string where "bar = [CHR '' '', CHR 0xE2, CHR 0x94, CHR 0x82, CHR '' '']"
definition dash :: string where "dash = [CHR 0xE2, CHR 0x94, CHR 0x80]"
definition crossing :: string where "crossing = dash @ [CHR 0xE2, CHR 0x94, CHR 0xBC] @ dash"

definition cell_at :: "string list \<Rightarrow> nat \<Rightarrow> string" where
  "cell_at cells i = (if i < length cells then cells ! i else '''')"

fun all_some :: "'a option list \<Rightarrow> 'a list option" where
  "all_some [] = Some []"
| "all_some (None # xs) = None"
| "all_some (Some x # xs) = (case all_some xs of None \<Rightarrow> None | Some ys \<Rightarrow> Some (x # ys))"

definition aligned_row :: "(string \<Rightarrow> int) \<Rightarrow> string list \<Rightarrow> int list \<Rightarrow> string option" where
  "aligned_row width cells widths =
     (case all_some (map (\<lambda>i. map_option ((@) (cell_at cells i)) (repeated '' '' (widths ! i - width (cell_at cells i)))) [0..<length widths]) of
        None \<Rightarrow> None
      | Some padded \<Rightarrow> Some (trim_trailing (str_join bar padded)))"

definition aligned :: "(string \<Rightarrow> int) \<Rightarrow> Table \<Rightarrow> string list option" where
  "aligned width t =
     (let widths = column_widths width t in
      if widths = [] then Some []
      else case (aligned_row width (tab_Header t) widths, all_some (map (repeated dash) widths),
                 all_some (map (\<lambda>row. aligned_row width row widths) (tab_Rows t))) of
        (Some header, Some rule, Some rows) \<Rightarrow> Some (header # str_join crossing rule # rows)
      | _ \<Rightarrow> None)"

definition bold :: "Style \<Rightarrow> string \<Rightarrow> string" where "bold style s = sty_Bold style @ s @ sty_Bold style"
definition italic :: "Style \<Rightarrow> string \<Rightarrow> string" where "italic style s = sty_Italic style @ s @ sty_Italic style"

text \<open>One row as a paragraph: a line for each cell that holds something.\<close>

definition row_lines :: "Style \<Rightarrow> string list \<Rightarrow> string list \<Rightarrow> string list" where
  "row_lines style header row =
     map (\<lambda>i. (if i < length header \<and> trim_space (header ! i) \<noteq> '''' then bold style (header ! i) @ '': '' else '''') @ row ! i)
       (filter (\<lambda>i. trim_space (row ! i) \<noteq> '''') [0..<length row])"

definition as_rows :: "Table \<Rightarrow> Style \<Rightarrow> string list" where
  "as_rows t style = filter (\<lambda>p. p \<noteq> '''') (map (\<lambda>row. str_join [nl] (row_lines style (tab_Header t) row)) (tab_Rows t))"

definition as_delimited :: "Table \<Rightarrow> string" where
  "as_delimited t =
     (if tab_Header t \<noteq> [] then str_join [CHR 9] (tab_Header t) @ [nl] else '''')
     @ concat (map (\<lambda>row. str_join [CHR 9] row @ [nl]) (tab_Rows t))"

definition table_budget :: nat where "table_budget = 1900"

definition render_table :: "(string \<Rightarrow> int) \<Rightarrow> Table \<Rightarrow> Style \<Rightarrow> string option" where
  "render_table width t style =
     (let rows = str_join [nl, nl] (as_rows t style) in
      if sty_Fence style = '''' \<or> sty_TableColumns style = 0 \<or> table_width width t > sty_TableColumns style then Some rows
      else case aligned width t of
        None \<Rightarrow> None
      | Some lines \<Rightarrow>
          let block = sty_Fence style @ [nl] @ str_join [nl] lines @ [nl] @ sty_Fence style
          in if length block > table_budget then Some rows else Some block)"

fun replace_tables :: "(string \<Rightarrow> int) \<Rightarrow> Style \<Rightarrow> string \<Rightarrow> nat \<Rightarrow> TableAt list \<Rightarrow> string option" where
  "replace_tables width style s done [] = Some (drop done s)"
| "replace_tables width style s done (at # rest) =
     (case (render_table width (ta_Table at) style, replace_tables width style s (ta_End at) rest) of
        (Some drawn, Some after) \<Rightarrow> Some (take (ta_Start at - done) (drop done s) @ drawn @ after)
      | _ \<Rightarrow> None)"

definition render_tables :: "(string \<Rightarrow> TableAt list) \<Rightarrow> (string \<Rightarrow> int) \<Rightarrow> string \<Rightarrow> Style \<Rightarrow> string option" where
  "render_tables tables width s style =
     (if tables s = [] then Some s else replace_tables width style s 0 (tables s))"

subsection \<open>Tables a model drew\<close>

definition has_suffix :: "string \<Rightarrow> string \<Rightarrow> bool" where
  "has_suffix s p = has_prefix (rev s) (rev p)"

text \<open>\<open>strings.Trim\<close> with a set of characters.\<close>

definition trim_set :: "string \<Rightarrow> string \<Rightarrow> string" where
  "trim_set s cutset = rev (dropWhile (\<lambda>c. c \<in> set cutset) (rev (dropWhile (\<lambda>c. c \<in> set cutset) s)))"

definition drawn_row :: "string \<Rightarrow> bool" where
  "drawn_row line =
     (if has_prefix line ''|'' \<and> has_suffix line ''|'' then True
      else if has_prefix line ''+'' \<and> has_suffix line ''+'' then trim_set line ''+-='' = ''''
      else False)"

definition drawn_cells :: "string \<Rightarrow> string list" where
  "drawn_cells line = map trim_space (split_on (CHR ''|'') (trim_set line ''|''))"

definition parse_drawn :: "string list \<Rightarrow> Table option" where
  "parse_drawn lines =
     (case map drawn_cells (filter (\<lambda>line. \<not> has_prefix line ''+'') lines) of
        header # row # rows \<Rightarrow>
          let width = length header in
          if width < 2 \<or> (\<exists>r \<in> set (header # row # rows). length r \<noteq> width) then None
          else if \<forall>r \<in> set (header # row # rows). \<forall>cell \<in> set r. cell = '''' then None
          else Some \<lparr>tab_Header = header, tab_Rows = row # rows\<rparr>
      | _ \<Rightarrow> None)"

text \<open>The loop of \<open>DrawnTables\<close>: where the line begins, the lines left, and inside a fence where it
  began, the rows collected and whether it held anything else.\<close>

fun drawn_loop :: "nat \<Rightarrow> string list \<Rightarrow> (nat \<times> string list \<times> bool) option \<Rightarrow> TableAt list" where
  "drawn_loop at [] inside = []"
| "drawn_loop at (line # rest) inside =
     (let trimmed = trim_space line; following = at + length line + 1 in
      if has_prefix trimmed backticks then
        (case inside of
           Some (start, body, other) \<Rightarrow>
             (if other then []
              else case parse_drawn body of
                None \<Rightarrow> []
              | Some t \<Rightarrow> [\<lparr>ta_Table = t, ta_Start = start, ta_End = at + length line\<rparr>])
             @ drawn_loop following rest None
         | None \<Rightarrow> drawn_loop following rest (Some (at, [], False)))
      else case inside of
        None \<Rightarrow> drawn_loop following rest None
      | Some (start, body, other) \<Rightarrow>
          if trimmed = '''' then drawn_loop following rest inside
          else if \<not> drawn_row trimmed then drawn_loop following rest (Some (start, body, True))
          else drawn_loop following rest (Some (start, body @ [trimmed], other)))"

definition drawn_tables :: "string \<Rightarrow> TableAt list" where
  "drawn_tables s = drawn_loop 0 (split_on nl s) None"

subsection \<open>An answer in pieces\<close>

datatype Segment = SegmentText string | SegmentTable Table

definition starts_before :: "TableAt \<Rightarrow> TableAt \<Rightarrow> bool" where
  "starts_before a b \<longleftrightarrow> ta_Start a < ta_Start b"

text \<open>Those that begin where the last one kept has ended: \<open>end\<close> starts at \<open>-1\<close>.\<close>

fun keep_apart :: "int \<Rightarrow> TableAt list \<Rightarrow> TableAt list" where
  "keep_apart reached [] = []"
| "keep_apart reached (at # rest) =
     (if int (ta_Start at) < reached then keep_apart reached rest else at # keep_apart (int (ta_End at)) rest)"

definition all_tables :: "(string \<Rightarrow> TableAt list) \<Rightarrow> string \<Rightarrow> TableAt list" where
  "all_tables tables s = keep_apart (-1) (sort_slice starts_before (tables s @ drawn_tables s))"

definition text_piece :: "string \<Rightarrow> Segment list" where
  "text_piece piece = (if trim_space piece = '''' then [] else [SegmentText (trim_space piece)])"

fun cut_out :: "string \<Rightarrow> nat \<Rightarrow> TableAt list \<Rightarrow> Segment list" where
  "cut_out s done [] = text_piece (drop done s)"
| "cut_out s done (at # rest) =
     text_piece (take (ta_Start at - done) (drop done s)) @ SegmentTable (ta_Table at) # cut_out s (ta_End at) rest"

definition segments :: "(string \<Rightarrow> TableAt list) \<Rightarrow> string \<Rightarrow> Segment list" where
  "segments tables s = (if all_tables tables s = [] then [SegmentText s] else cut_out s 0 (all_tables tables s))"

subsection \<open>A table always comes out\<close>

lemma fold_widest:
  fixes w :: "'a \<Rightarrow> int"
  shows "start \<le> foldl (\<lambda>acc row. if P row \<and> w row > acc then w row else acc) start rows \<and>
    (\<forall>row \<in> set rows. P row \<longrightarrow> w row \<le> foldl (\<lambda>acc row. if P row \<and> w row > acc then w row else acc) start rows)"
  by (induction rows arbitrary: start) (auto, (smt (verit, best))+)

lemma all_some_ok: "\<forall>x \<in> set xs. x \<noteq> None \<Longrightarrow> \<exists>ys. all_some xs = Some ys \<and> length ys = length xs"
  by (induction xs rule: all_some.induct) auto

lemma aligned_row_ok:
  assumes "\<forall>i < length widths. width (cell_at cells i) \<le> widths ! i"
  shows "aligned_row width cells widths \<noteq> None"
proof -
  have "\<forall>x \<in> set (map (\<lambda>i. map_option ((@) (cell_at cells i)) (repeated '' '' (widths ! i - width (cell_at cells i)))) [0..<length widths]). x \<noteq> None"
    using assms by (auto simp: repeated_def)
  from all_some_ok [OF this] show ?thesis unfolding aligned_row_def by auto
qed

text \<open>Whatever the table, ragged ones included, no row asks for a negative number of spaces.\<close>

theorem table_always_rendered:
  assumes "\<forall>cell. 0 \<le> width cell" "width '''' = 0"
  shows "render_table width t style \<noteq> None"
proof -
  define widths where "widths = column_widths width t"
  let ?first = "\<lambda>i. if i < length (tab_Header t) then width (tab_Header t ! i) else 0"
  have at: "widths ! i = foldl (\<lambda>w row. if i < length row \<and> width (row ! i) > w then width (row ! i) else w) (?first i) (tab_Rows t)"
    if "i < length widths" for i
  proof -
    define n where "n = foldl (\<lambda>n row. max n (length row)) (length (tab_Header t)) (tab_Rows t)"
    have "i < n" using that by (simp add: widths_def column_widths_def Let_def n_def)
    moreover from this have "[0..<n] ! i = i" by simp
    ultimately show ?thesis unfolding widths_def column_widths_def Let_def n_def [symmetric] by (subst nth_map) (simp_all only: length_upt diff_zero)
  qed
  have ge: "?first i \<le> widths ! i \<and> (\<forall>row \<in> set (tab_Rows t). i < length row \<longrightarrow> width (row ! i) \<le> widths ! i)"
    if "i < length widths" for i
    unfolding at [OF that] using fold_widest [of "?first i" "\<lambda>row. i < length row" "\<lambda>row. width (row ! i)" "tab_Rows t"] .
  have nonneg: "0 \<le> widths ! i" if "i < length widths" for i
    using ge [OF that] assms(1) by (smt (verit, best))
  have "aligned_row width (tab_Header t) widths \<noteq> None"
  proof (rule aligned_row_ok, intro allI impI)
    fix i assume "i < length widths"
    with ge [OF this] nonneg assms(2) show "width (cell_at (tab_Header t) i) \<le> widths ! i" by (simp add: cell_at_def split: if_splits)
  qed
  moreover have "\<exists>ys. all_some (map (repeated dash) widths) = Some ys"
    using all_some_ok [of "map (repeated dash) widths"] nonneg by (fastforce simp: repeated_def in_set_conv_nth)
  moreover have "aligned_row width row widths \<noteq> None" if "row \<in> set (tab_Rows t)" for row
    by (rule aligned_row_ok) (use that ge nonneg assms(2) in \<open>auto simp: cell_at_def\<close>)
  then have "\<exists>ys. all_some (map (\<lambda>row. aligned_row width row widths) (tab_Rows t)) = Some ys"
    using all_some_ok [of "map (\<lambda>row. aligned_row width row widths) (tab_Rows t)"] by auto
  ultimately have "aligned width t \<noteq> None" by (auto simp: aligned_def widths_def [symmetric] Let_def)
  then show ?thesis by (auto simp: render_table_def Let_def)
qed

lemma table_always_rendered_witness:
  "render_table (\<lambda>cell. int (length cell)) \<lparr>tab_Header = [''a''], tab_Rows = [[''long'', ''more''], []]\<rparr> discord_style \<noteq> None"
  by (rule table_always_rendered) simp_all

subsection \<open>A drawn table is a whole fence\<close>

definition lined :: "string list \<Rightarrow> string" where
  "lined lines = concat (map (\<lambda>line. line @ [nl]) lines)"

lemma join_lined: "ys \<noteq> [] \<Longrightarrow> str_join [nl] (xs @ ys) = lined xs @ str_join [nl] ys"
proof (induction xs)
  case (Cons x xs)
  then show ?case by (cases "xs @ ys") (simp_all add: lined_def)
qed (simp add: lined_def)

lemma join_last: "str_join [nl] (xs @ [x]) = lined xs @ x"
  using join_lined [of "[x]" xs] by simp

lemma lined_append [simp]: "lined (xs @ ys) = lined xs @ lined ys" "lined (x # xs) = x @ nl # lined xs" "lined [] = ''''"
  by (simp_all add: lined_def)

text \<open>The fence of a drawn table, where it stands in the lines of the text.\<close>

definition whole_fence :: "string list \<Rightarrow> TableAt \<Rightarrow> bool" where
  "whole_fence lines at \<longleftrightarrow> (\<exists>before top body closing after. lines = before @ top # body @ closing # after \<and>
     ta_Start at = length (lined before) \<and> ta_End at = length (lined (before @ top # body) @ closing) \<and>
     has_prefix (trim_space top) backticks \<and> has_prefix (trim_space closing) backticks \<and>
     (\<forall>line \<in> set body. trim_space line = '''' \<or> drawn_row (trim_space line)) \<and>
     parse_drawn (filter (\<lambda>line. line \<noteq> '''') (map trim_space body)) = Some (ta_Table at))"

definition within_fence :: "string list \<Rightarrow> (nat \<times> string list \<times> bool) option \<Rightarrow> bool" where
  "within_fence seen inside \<longleftrightarrow> (case inside of None \<Rightarrow> True
   | Some (start, rows, other) \<Rightarrow> \<exists>before top body. seen = before @ top # body \<and> start = length (lined before) \<and>
       has_prefix (trim_space top) backticks \<and>
       (\<not> other \<longrightarrow> (\<forall>line \<in> set body. trim_space line = '''' \<or> drawn_row (trim_space line)) \<and>
          rows = filter (\<lambda>line. line \<noteq> '''') (map trim_space body)))"

lemma within_fence_more:
  assumes "within_fence seen (Some (start, rows, other))"
  shows "trim_space line = '''' \<Longrightarrow> within_fence (seen @ [line]) (Some (start, rows, other))"
    and "within_fence (seen @ [line]) (Some (start, rows, True))"
    and "trim_space line \<noteq> '''' \<Longrightarrow> drawn_row (trim_space line) \<Longrightarrow> within_fence (seen @ [line]) (Some (start, rows @ [trim_space line], other))"
proof -
  from assms obtain before top body where b: "seen = before @ top # body" "start = length (lined before)"
    "has_prefix (trim_space top) backticks"
    "\<not> other \<Longrightarrow> (\<forall>line \<in> set body. trim_space line = '''' \<or> drawn_row (trim_space line)) \<and>
          rows = filter (\<lambda>line. line \<noteq> '''') (map trim_space body)"
    by (auto simp: within_fence_def)
  have seen: "seen @ [line] = before @ top # (body @ [line])" using b(1) by simp
  show "trim_space line = '''' \<Longrightarrow> within_fence (seen @ [line]) (Some (start, rows, other))"
    "within_fence (seen @ [line]) (Some (start, rows, True))"
    "trim_space line \<noteq> '''' \<Longrightarrow> drawn_row (trim_space line) \<Longrightarrow> within_fence (seen @ [line]) (Some (start, rows @ [trim_space line], other))"
    unfolding within_fence_def option.case prod.case using b(2-) seen by fastforce+
qed

lemma drawn_loop_fences:
  "table \<in> set (drawn_loop (length (lined seen)) rest inside) \<Longrightarrow> within_fence seen inside \<Longrightarrow> whole_fence (seen @ rest) table"
proof (induction rest arbitrary: seen inside)
  case (Cons line rest)
  have further: "whole_fence (seen @ line # rest) table"
    if "table \<in> set (drawn_loop (length (lined seen) + length line + 1) rest next_inside)" "within_fence (seen @ [line]) next_inside" for next_inside
    using Cons.IH [of "seen @ [line]" next_inside] that by simp
  show ?case
  proof (cases inside)
    case None
    have "within_fence (seen @ [line]) (Some (length (lined seen), [], False))" if "has_prefix (trim_space line) backticks"
      unfolding within_fence_def option.case prod.case using that by (intro exI [of _ seen] exI [of _ line] exI [of _ "[]"]) simp
    moreover have "within_fence (seen @ [line]) None" by (simp add: within_fence_def)
    ultimately show ?thesis using Cons.prems(1) None further by (auto simp: Let_def split: if_splits)
  next
    case (Some x)
    obtain start rows other where x: "x = (start, rows, other)" by (metis prod_cases3)
    note more = within_fence_more [OF Cons.prems(2) [unfolded Some x], of line]
    show ?thesis
    proof (cases "has_prefix (trim_space line) backticks")
      case False
      with Cons.prems(1) Some x further more show ?thesis by (auto simp: Let_def split: if_splits)
    next
      case True
      have "within_fence (seen @ [line]) None" by (simp add: within_fence_def)
      from Cons.prems(1) Some x True have "table \<in> set (drawn_loop (length (lined seen) + length line + 1) rest None) \<or>
          (\<exists>t. \<not> other \<and> parse_drawn rows = Some t \<and> table = \<lparr>ta_Table = t, ta_Start = start, ta_End = length (lined seen) + length line\<rparr>)"
        by (auto simp: Let_def split: if_splits option.splits)
      with further [OF _ \<open>within_fence (seen @ [line]) None\<close>] consider "whole_fence (seen @ line # rest) table"
        | t where "\<not> other" "parse_drawn rows = Some t" "table = \<lparr>ta_Table = t, ta_Start = start, ta_End = length (lined seen) + length line\<rparr>"
        by blast
      then show ?thesis
      proof cases
        case 2
        from Cons.prems(2) Some x 2(1) obtain before top body where b: "seen = before @ top # body" "start = length (lined before)"
          "has_prefix (trim_space top) backticks" "\<forall>line \<in> set body. trim_space line = '''' \<or> drawn_row (trim_space line)"
          "rows = filter (\<lambda>line. line \<noteq> '''') (map trim_space body)"
          by (auto simp: within_fence_def)
        then show ?thesis unfolding whole_fence_def
          by (intro exI [of _ before] exI [of _ top] exI [of _ body] exI [of _ line] exI [of _ rest]) (use 2 True in auto)
      qed
    qed
  qed
qed simp

lemma parse_drawn_rectangular:
  "parse_drawn lines = Some t \<Longrightarrow> 2 \<le> length (tab_Header t) \<and> tab_Rows t \<noteq> [] \<and> (\<forall>row \<in> set (tab_Rows t). length row = length (tab_Header t))"
  by (auto simp: parse_drawn_def Let_def split: list.splits if_splits)

text \<open>A fence is only taken for a table when it is one whole: what is cut out begins and ends with the
  lines of the fence, every line between is blank or a row of cells or a border, every row has as many
  cells as the first, and there are at least two of each. A fence that holds anything else is left.\<close>

theorem drawn_table_is_a_whole_fence:
  assumes "table \<in> set (drawn_tables s)"
  shows "\<exists>before top body closing after. split_on nl s = before @ top # body @ closing # after \<and>
    take (ta_End table - ta_Start table) (drop (ta_Start table) s) = str_join [nl] (top # body @ [closing]) \<and>
    has_prefix (trim_space top) backticks \<and> has_prefix (trim_space closing) backticks \<and>
    (\<forall>line \<in> set body. trim_space line = '''' \<or> drawn_row (trim_space line)) \<and>
    2 \<le> length (tab_Header (ta_Table table)) \<and> tab_Rows (ta_Table table) \<noteq> [] \<and>
    (\<forall>row \<in> set (tab_Rows (ta_Table table)). length row = length (tab_Header (ta_Table table)))"
proof -
  have "whole_fence ([] @ split_on nl s) table"
    by (rule drawn_loop_fences [of _ "[]" _ None]) (use assms in \<open>simp_all add: drawn_tables_def within_fence_def\<close>)
  then obtain before top body closing after where lines: "split_on nl s = before @ top # body @ closing # after" and
    w: "ta_Start table = length (lined before)" "ta_End table = length (lined (before @ top # body) @ closing)"
     "has_prefix (trim_space top) backticks" "has_prefix (trim_space closing) backticks"
     "\<forall>line \<in> set body. trim_space line = '''' \<or> drawn_row (trim_space line)"
     "parse_drawn (filter (\<lambda>line. line \<noteq> '''') (map trim_space body)) = Some (ta_Table table)"
    unfolding whole_fence_def by auto
  have block: "str_join [nl] (top # body @ [closing]) = lined (top # body) @ closing"
    using join_last [of "top # body" closing] by simp
  have "s = str_join [nl] (before @ top # body @ closing # after)" using join_split_on [of nl s] lines by simp
  also have "... = lined before @ lined (top # body) @ str_join [nl] (closing # after)"
    using join_lined [of "closing # after" "before @ top # body"] by simp
  also have "\<exists>rest. str_join [nl] (closing # after) = closing @ rest" by (cases after) simp_all
  then obtain rest where "str_join [nl] (closing # after) = closing @ rest" by blast
  finally have s: "s = lined before @ (lined (top # body) @ closing) @ rest" by simp
  have "take (ta_End table - ta_Start table) (drop (ta_Start table) s) = lined (top # body) @ closing"
    unfolding w(1,2) by (subst s) simp
  with block have "take (ta_End table - ta_Start table) (drop (ta_Start table) s) = str_join [nl] (top # body @ [closing])" by simp
  with lines w(3-5) parse_drawn_rectangular [OF w(6)] show ?thesis by blast
qed


subsection \<open>The pieces are the answer\<close>

fun apart :: "int \<Rightarrow> TableAt list \<Rightarrow> bool" where
  "apart reached [] = True"
| "apart reached (at # rest) = (reached \<le> int (ta_Start at) \<and> apart (int (ta_End at)) rest)"

lemma keep_apart_apart: "apart reached (keep_apart reached ats)"
  by (induction reached ats rule: keep_apart.induct) auto

definition span_of :: "string \<Rightarrow> TableAt \<Rightarrow> string" where
  "span_of s at = take (ta_End at - ta_Start at) (drop (ta_Start at) s)"

lemma cut_out_covers:
  "apart (int begun) ats \<Longrightarrow> \<forall>at \<in> set ats. ta_Start at \<le> ta_End at \<and> ta_End at \<le> length s \<Longrightarrow>
    \<exists>gaps after. length gaps = length ats \<and> drop begun s = concat (map2 (\<lambda>gap at. gap @ span_of s at) gaps ats) @ after \<and>
      cut_out s begun ats = concat (map2 (\<lambda>gap at. text_piece gap @ [SegmentTable (ta_Table at)]) gaps ats) @ text_piece after"
proof (induction ats arbitrary: begun)
  case (Cons at ats)
  let ?gap = "take (ta_Start at - begun) (drop begun s)"
  from Cons.prems have "apart (int (ta_End at)) ats" "begun \<le> ta_Start at" "ta_Start at \<le> ta_End at" by auto
  with Cons.IH [OF this(1)] Cons.prems(2) obtain gaps after where g: "length gaps = length ats"
    "drop (ta_End at) s = concat (map2 (\<lambda>gap at. gap @ span_of s at) gaps ats) @ after"
    "cut_out s (ta_End at) ats = concat (map2 (\<lambda>gap at. text_piece gap @ [SegmentTable (ta_Table at)]) gaps ats) @ text_piece after"
    by auto
  have "drop begun s = ?gap @ drop (ta_Start at) s"
    using \<open>begun \<le> ta_Start at\<close> append_take_drop_id [of "ta_Start at - begun" "drop begun s"] by simp
  moreover have "drop (ta_Start at) s = span_of s at @ drop (ta_End at) s"
    using \<open>ta_Start at \<le> ta_End at\<close> append_take_drop_id [of "ta_End at - ta_Start at" "drop (ta_Start at) s"] by (simp add: span_of_def)
  ultimately have "drop begun s = (?gap @ span_of s at) @ drop (ta_End at) s" by simp
  with g show ?case by (intro exI [of _ "?gap # gaps"] exI [of _ after]) simp
qed (auto intro: exI [of _ "[]"])

text \<open>An answer with tables in it is posted in its own order and all of it: the text is what the tables
  stand in and what is between them, and the pieces are those, each table in its place, without the
  stretches that hold nothing.\<close>

theorem segments_are_the_answer:
  assumes "\<forall>at \<in> set (all_tables tables s). ta_Start at \<le> ta_End at \<and> ta_End at \<le> length s" "all_tables tables s \<noteq> []"
  shows "\<exists>gaps after. length gaps = length (all_tables tables s) \<and>
    s = concat (map2 (\<lambda>gap at. gap @ span_of s at) gaps (all_tables tables s)) @ after \<and>
    segments tables s = concat (map2 (\<lambda>gap at. text_piece gap @ [SegmentTable (ta_Table at)]) gaps (all_tables tables s)) @ text_piece after"
proof -
  have "apart (-1) (all_tables tables s)" unfolding all_tables_def by (rule keep_apart_apart)
  then have "apart (int 0) (all_tables tables s)" using assms(2) by (cases "all_tables tables s") auto
  from cut_out_covers [OF this assms(1)] assms(2) show ?thesis by (simp add: segments_def)
qed

definition boxed :: string where
  "boxed = ''so:'' @ nl # backticks @ nl # ''|a|b|'' @ nl # ''|1|2|'' @ nl # backticks @ nl # ''yes''"

lemma boxed_table: "all_tables (\<lambda>_. []) boxed = [\<lparr>ta_Table = \<lparr>tab_Header = [''a'', ''b''], tab_Rows = [[''1'', ''2'']]\<rparr>, ta_Start = 4, ta_End = 23\<rparr>]"
  by code_simp

lemma segments_are_the_answer_witness:
  "\<exists>gaps after. length gaps = 1 \<and> segments (\<lambda>_. []) boxed = text_piece (hd gaps) @ [SegmentTable \<lparr>tab_Header = [''a'', ''b''], tab_Rows = [[''1'', ''2'']]\<rparr>] @ text_piece after"
proof -
  have "length boxed = 27" by code_simp
  with segments_are_the_answer [of "\<lambda>_. []" boxed] obtain gaps after where "length gaps = 1"
    "segments (\<lambda>_. []) boxed = concat (map2 (\<lambda>gap at. text_piece gap @ [SegmentTable (ta_Table at)]) gaps (all_tables (\<lambda>_. []) boxed)) @ text_piece after"
    by (auto simp: boxed_table)
  then show ?thesis by (intro exI [of _ gaps] exI [of _ after]) (cases gaps, auto simp: boxed_table)
qed

lemma drawn_table_is_a_whole_fence_witness:
  "\<exists>table \<in> set (drawn_tables boxed). tab_Rows (ta_Table table) \<noteq> []"
proof -
  have d: "drawn_tables boxed = [\<lparr>ta_Table = \<lparr>tab_Header = [''a'', ''b''], tab_Rows = [[''1'', ''2'']]\<rparr>, ta_Start = 4, ta_End = 23\<rparr>]" by code_simp
  then have "hd (drawn_tables boxed) \<in> set (drawn_tables boxed)" by simp
  from drawn_table_is_a_whole_fence [OF this] d show ?thesis by auto
qed

end
