(* ===== verification/Render.thy ===== *)
theory Render
imports RenderTables Projector
begin

text \<open>
  What a person reads of a dispatch (\<open>core/internal/gateway/render/render.go\<close>, with \<open>DispatchSegments\<close> of
  \<open>segment.go\<close>): answers without the notation no chat client shows, approvals, questions, log lines,
  and the account of a run.

  \<open>RenderEnv\<close> is what it asks of libraries: \<open>json.Unmarshal\<close> into the payload of a kind, goldmark and
  the width of a cell, and \<open>%.1f\<close> of thousandths and \<open>%.0f\<close> of a rate. \<open>None\<close> is a panic.
\<close>

record RenderEnv =
  rn_Message :: "string \<Rightarrow> string + MessagePayload"
  rn_Question :: "string \<Rightarrow> string + QuestionPayload"
  rn_Approval :: "string \<Rightarrow> string + ApprovalPayload"
  rn_Log :: "string \<Rightarrow> string + LogPayload"
  rn_Status :: "string \<Rightarrow> string + StatusPayload"
  rn_Tables :: "string \<Rightarrow> TableAt list"
  rn_Width :: "string \<Rightarrow> int"
  rn_Thousandth :: "int \<Rightarrow> string"
  rn_Rate :: "int \<Rightarrow> int \<Rightarrow> string"

subsection \<open>Notation\<close>

text \<open>\<open>strings.NewReplacer\<close>: at each place the first pattern, in the order given, that stands there.\<close>

function replace_pairs :: "(string \<times> string) list \<Rightarrow> string \<Rightarrow> string" where
  "replace_pairs pairs s =
     (if s = '''' then ''''
      else case find (\<lambda>(old, _). old \<noteq> '''' \<and> has_prefix s old) pairs of
        None \<Rightarrow> hd s # replace_pairs pairs (tl s)
      | Some (old, new) \<Rightarrow> new @ replace_pairs pairs (drop (length old) s))"
  by pat_completeness auto
termination
  by (relation "measure (\<lambda>(pairs, s). length s)") (auto dest!: find_SomeD)

declare replace_pairs.simps [simp del]

definition str_index :: "string \<Rightarrow> string \<Rightarrow> nat option" where
  "str_index s sub = find (\<lambda>i. has_prefix (drop i s) sub) [0..<Suc (length s)]"

text \<open>What a group in braces holds, and how far it reaches.\<close>

definition wider :: "(string \<times> nat) option \<Rightarrow> (string \<times> nat) option" where
  "wider r = (case r of None \<Rightarrow> None | Some (g, n) \<Rightarrow> Some (g, Suc n))"

fun latex_group :: "string \<Rightarrow> nat \<Rightarrow> string \<Rightarrow> (string \<times> nat) option" where
  "latex_group [] depth inner = None"
| "latex_group (c # cs) depth inner =
     (if c = CHR ''{'' then wider (latex_group cs (Suc depth) (if depth = 0 then inner else inner @ [c]))
      else if c = CHR ''}'' then
        (if depth = 1 then Some (inner, 1) else wider (latex_group cs (depth - 1) (inner @ [c])))
      else wider (latex_group cs depth (inner @ [c])))"


lemma wider_Some: "wider r = Some (g, n) \<Longrightarrow> \<exists>m. r = Some (g, m) \<and> n = Suc m"
  by (auto simp: wider_def split: option.splits)

lemma latex_group_width: "latex_group s depth inner = Some (g, n) \<Longrightarrow> length g \<le> length inner + n \<and> n \<le> length s \<and> 0 < n"
proof (induction s arbitrary: depth inner n)
  case (Cons c cs)
  have step: "length g \<le> length inner + n \<and> n \<le> length (c # cs) \<and> 0 < n"
    if w: "wider (latex_group cs d i) = Some (g, n)" and l: "length i \<le> Suc (length inner)" for d i
  proof -
    obtain m where "latex_group cs d i = Some (g, m)" "n = Suc m" using wider_Some [OF w] by blast
    with Cons.IH [of d i m] l show ?thesis by simp
  qed
  show ?case using Cons.prems by (simp split: if_splits) (use step in \<open>auto split: if_splits\<close>)
qed simp

fun latex_groups :: "nat \<Rightarrow> string \<Rightarrow> (string list \<times> nat) option" where
  "latex_groups 0 s = Some ([], 0)"
| "latex_groups (Suc n) s =
     (if s = '''' \<or> hd s \<noteq> CHR ''{'' then None
      else case latex_group s 0 '''' of
        None \<Rightarrow> None
      | Some (g, w) \<Rightarrow> (case latex_groups n (drop w s) of None \<Rightarrow> None | Some (gs, w') \<Rightarrow> Some (g # gs, w + w')))"

lemma latex_groups_width: "latex_groups n s = Some (gs, w) \<Longrightarrow> w \<le> length s \<and> (\<forall>g \<in> set gs. length g \<le> w)"
proof (induction n s arbitrary: gs w rule: latex_groups.induct)
  case (2 n s)
  from 2(2) obtain g v where g: "latex_group s 0 '''' = Some (g, v)" by (auto split: if_splits option.splits)
  with 2(2) obtain gs' w' where rest: "latex_groups n (drop v s) = Some (gs', w')" "gs = g # gs'" "w = v + w'" "s \<noteq> ''''" "hd s = CHR ''{''"
    by (auto split: if_splits option.splits)
  have "\<not> (s = '''' \<or> hd s \<noteq> CHR ''{'')" using rest by simp
  from 2(1) [OF this g refl rest(1)] have "w' \<le> length (drop v s) \<and> (\<forall>g \<in> set gs'. length g \<le> w')" by simp
  with latex_group_width [OF g] rest(2,3) show ?case by auto
qed simp

lemma str_index_prefix: "str_index s sub = Some i \<Longrightarrow> i + length sub \<le> length s"
  by (auto simp: str_index_def has_prefix_iff dest!: find_SomeD prefix_length_le)

function unwrap_latex_command :: "string \<Rightarrow> string \<Rightarrow> nat \<Rightarrow> string" where
  "unwrap_latex_command s command keep =
     (case str_index s (CHR 0x5C # command) of
        None \<Rightarrow> s
      | Some start \<Rightarrow>
          let rest = drop (start + Suc (length command)) s in
          if rest = '''' \<or> hd rest \<noteq> CHR ''{'' then s
          else case latex_groups keep rest of
            None \<Rightarrow> s
          | Some (gs, w) \<Rightarrow>
              (case rev gs of
                 [] \<Rightarrow> s \<comment> \<open>\<open>keep\<close> is 1 or 2\<close>
               | kept # _ \<Rightarrow> unwrap_latex_command (take start s @ kept @ drop w rest) command keep))"
  by pat_completeness auto
termination
proof (relation "measure (\<lambda>(s, command, keep). length s)", simp)
  fix s command keep start rest gs w kept others and x :: "string list \<times> nat"
  assume a: "str_index s (CHR 0x5C # command) = Some start" "rest = drop (start + Suc (length command)) s"
    "latex_groups keep rest = Some x" "(gs, w) = x" "rev gs = kept # others"
  have "kept \<in> set gs" using a(5) by (metis list.set_intros(1) set_rev)
  then have "length kept \<le> w" "w \<le> length rest" using latex_groups_width a(3,4) by fastforce+
  moreover have "start + Suc (length command) \<le> length s" using str_index_prefix [OF a(1)] by simp
  ultimately show "((take start s @ kept @ drop w rest, command, keep), s, command, keep) \<in> measure (\<lambda>(s, command, keep). length s)"
    using a(2) by simp
qed

declare unwrap_latex_command.simps [simp del]

definition latex_marks :: "(string \<times> string) list" where
  "latex_marks =
     [(''$'', ''''), (CHR 0x5C # ''('', ''''), (CHR 0x5C # '')'', ''''), (CHR 0x5C # ''['', ''''), (CHR 0x5C # '']'', ''''),
      (CHR 0x5C # ''%'', ''%''), (CHR 0x5C # ''_'', ''_''), (CHR 0x5C # ''#'', ''#'')]"

definition latex_symbols :: "(string \<times> string) list" where
  "latex_symbols =
     [(CHR 0x5C # ''rightarrow'', [CHR 0xE2, CHR 0x86, CHR 0x92]), (CHR 0x5C # ''leftarrow'', [CHR 0xE2, CHR 0x86, CHR 0x90]),
      (CHR 0x5C # ''leftrightarrow'', [CHR 0xE2, CHR 0x86, CHR 0x94]), (CHR 0x5C # ''Rightarrow'', [CHR 0xE2, CHR 0x87, CHR 0x92]),
      (CHR 0x5C # ''Leftarrow'', [CHR 0xE2, CHR 0x87, CHR 0x90]), (CHR 0x5C # ''Leftrightarrow'', [CHR 0xE2, CHR 0x87, CHR 0x94]),
      (CHR 0x5C # ''to'', [CHR 0xE2, CHR 0x86, CHR 0x92]), (CHR 0x5C # ''times'', [CHR 0xC3, CHR 0x97]),
      (CHR 0x5C # ''neq'', [CHR 0xE2, CHR 0x89, CHR 0xA0]), (CHR 0x5C # ''leq'', [CHR 0xE2, CHR 0x89, CHR 0xA4]),
      (CHR 0x5C # ''geq'', [CHR 0xE2, CHR 0x89, CHR 0xA5])]"

definition normalize_text :: "string \<Rightarrow> string" where
  "normalize_text s =
     (let s = replace_pairs latex_marks s;
          s = unwrap_latex_command s ''color'' 2;
          s = foldl (\<lambda>s command. unwrap_latex_command s command 1) s
                [''text'', ''mathbf'', ''mathrm'', ''textbf'', ''textit'', ''underline'', ''boxed'']
      in replace_pairs latex_symbols s)"

subsection \<open>Approvals and questions\<close>

definition block :: "Style \<Rightarrow> string \<Rightarrow> string" where
  "block style s = (if sty_Fence style = '''' then s else sty_Fence style @ [nl] @ s @ [nl] @ sty_Fence style)"

definition bullets :: "string list \<Rightarrow> string" where
  "bullets items = concat (map (\<lambda>item. ''- '' @ item @ [nl]) items)"

definition render_approval :: "ApprovalPayload \<Rightarrow> Style \<Rightarrow> string" where
  "render_approval payload style =
     bold style ''Waiting for approval'' @ [nl] @ block style (app_Summary payload) @ [nl]
     @ (if app_Effects payload \<noteq> [] then ''This will:'' @ [nl] @ bullets (app_Effects payload) else '''')
     @ (case app_Route payload of
          ApprovalByReply \<Rightarrow> nl # ''Reply `approve '' @ app_ApprovalID payload @ ''` or `deny '' @ app_ApprovalID payload @ ''`.''
        | ApprovalByPress \<Rightarrow> nl # ''An approver can decide this on the message itself.''
        | ApprovalElsewhere \<Rightarrow>
            nl # ''Approve it from a JingClaw client:'' @ [nl] @ block style (''agent approve '' @ app_ApprovalID payload))"

definition render_option :: "Style \<Rightarrow> QuestionOption \<Rightarrow> string" where
  "render_option style opt =
     bold style (qo_ID opt) @ '': '' @ qo_Label opt @ (if qo_Detail opt \<noteq> '''' then '' '' @ em_dash @ '' '' @ qo_Detail opt else '''')"

definition render_question :: "QuestionPayload \<Rightarrow> Style \<Rightarrow> string" where
  "render_question payload style =
     bold style ''A question for you'' @ [nl] @ qp_Prompt payload @ [nl] @ bullets (map (render_option style) (qp_Options payload))
     @ (if qp_AnswerableHere payload then nl # ''Reply `answer '' @ qp_QuestionID payload @ '' <your answer>`.''
        else nl # ''Answer it from a JingClaw client:'' @ [nl]
          @ block style (''agent answer '' @ qp_QuestionID payload @ '' <your answer>''))"

subsection \<open>Figures\<close>

definition dot :: string where "dot = [CHR 0xC2, CHR 0xB7]"
definition dotted :: string where "dotted = '' '' @ dot @ '' ''"
definition times_sign :: string where "times_sign = [CHR 0xC3, CHR 0x97]"
definition stopwatch :: string where "stopwatch = [CHR 0xE2, CHR 0x8F, CHR 0xB1] @ '' ''"

definition two_digits :: "int \<Rightarrow> string" where
  "two_digits n = (if 0 \<le> n \<and> n < 10 then CHR ''0'' # itoa n else itoa n)"

definition format_duration :: "RenderEnv \<Rightarrow> int \<Rightarrow> string" where
  "format_duration env ms =
     (if ms < 1000 then itoa ms @ ''ms''
      else if ms < 60000 then rn_Thousandth env ms @ ''s''
      else itoa (ms div 60000) @ ''m'' @ two_digits (ms mod 60000 div 1000) @ ''s'')"

definition format_status_tokens :: "RenderEnv \<Rightarrow> 64 word \<Rightarrow> string" where
  "format_status_tokens env n = (if sint n < 10000 then itoa (sint n) else rn_Thousandth env (sint n) @ ''K'')"

definition format_tokens :: "RenderEnv \<Rightarrow> 64 word \<Rightarrow> string" where
  "format_tokens env n = (if sint n < 10000 then itoa (sint n) else rn_Thousandth env (sint n) @ ''k'')"

definition render_usage :: "RenderEnv \<Rightarrow> RunSummary \<Rightarrow> int \<Rightarrow> string" where
  "render_usage env summary durationMS =
     (if rsum_InputTokens summary = 0 \<and> rsum_OutputTokens summary = 0 then ''''
      else [CHR 0xE2, CHR 0x86, CHR 0x91] @ format_status_tokens env (rsum_InputTokens summary) @ '' ''
        @ [CHR 0xE2, CHR 0x86, CHR 0x93] @ format_status_tokens env (rsum_OutputTokens summary)
        @ '' ('' @ format_status_tokens env (rsum_InputTokens summary + rsum_OutputTokens summary) @ '')''
        @ (if durationMS > 0 \<and> sint (rsum_OutputTokens summary) > 0
           then dotted @ rn_Rate env (sint (rsum_OutputTokens summary)) durationMS @ '' tok/s'' else ''''))"

definition render_model_path :: "RunSummary \<Rightarrow> string" where
  "render_model_path summary =
     (if rsum_Provider summary = '''' then rsum_Model summary
      else if rsum_Model summary = '''' then rsum_Provider summary
      else rsum_Provider summary @ ''/'' @ rsum_Model summary)"

definition tool_calls :: "ToolTally \<Rightarrow> string" where
  "tool_calls use = (if tuse_Calls use > 1 then tuse_Name use @ '' '' @ times_sign @ itoa (tuse_Calls use) else tuse_Name use)"

definition render_tool_list :: "ToolTally list \<Rightarrow> Style \<Rightarrow> string" where
  "render_tool_list tools style =
     str_join [nl] (map (\<lambda>use. sty_SubduedPrefix style @ [CHR 0xE2, CHR 0x80, CHR 0xA2] @ '' '' @ tool_calls use) tools)"

subsection \<open>The account of a run\<close>

definition render_tools :: "RenderEnv \<Rightarrow> ToolTally list \<Rightarrow> string" where
  "render_tools env tools =
     (if tools = [] then ''''
      else ''used '' @ str_join '', '' (map (\<lambda>use. tool_calls use
        @ (if tuse_Milliseconds use > 0 then '' '' @ format_duration env (tuse_Milliseconds use) else '''')
        @ (if tuse_Failed use > 0 then '' ('' @ itoa (tuse_Failed use) @ '' failed)'' else '''')) tools))"

definition shorten_ref :: "string \<Rightarrow> string" where
  "shorten_ref ref = cut_runes 96 ref"

definition render_sources :: "RunSummary \<Rightarrow> string list" where
  "render_sources summary =
     (let retained = map (shorten_ref \<circ> so_Ref) (filter so_Retained (rsum_Sources summary));
          folded = map (shorten_ref \<circ> so_Ref) (filter (\<lambda>source. \<not> so_Retained source) (rsum_Sources summary))
      in (if retained \<noteq> [] then [''read '' @ str_join '', '' retained] else [])
       @ (if folded \<noteq> [] then [''read earlier, folded into a summary before answering: '' @ str_join '', '' folded] else [])
       @ (if rsum_SourcesOmitted summary > 0 then [''and '' @ itoa (rsum_SourcesOmitted summary) @ '' more not listed''] else []))"

definition count_sources :: "RunSummary \<Rightarrow> string" where
  "count_sources summary =
     (let total = int (length (rsum_Sources summary)) + rsum_SourcesOmitted summary;
          folded = length (filter (\<lambda>source. \<not> so_Retained source) (rsum_Sources summary))
      in if total = 0 then ''''
         else if folded = 0 then ''read '' @ itoa total @ '' sources, too many to name here''
         else ''read '' @ itoa total @ '' sources, too many to name here; '' @ itoa (int folded)
           @ '' were folded into a summary before answering'')"

definition render_model :: "RunSummary \<Rightarrow> string" where
  "render_model summary =
     (if rsum_Provider summary = '''' \<and> rsum_Model summary = '''' then ''''
      else if rsum_Model summary = '''' then rsum_Provider summary
      else if rsum_Provider summary = '''' then rsum_Model summary
      else rsum_Provider summary @ dotted @ rsum_Model summary)"

definition render_cost :: "RenderEnv \<Rightarrow> RunSummary \<Rightarrow> string" where
  "render_cost env summary =
     (if rsum_InputTokens summary = 0 \<and> rsum_OutputTokens summary = 0 then ''''
      else format_tokens env (rsum_InputTokens summary) @ '' in / '' @ format_tokens env (rsum_OutputTokens summary) @ '' out''
        @ (if sint (rsum_CachedInputTokens summary) > 0
           then '' ('' @ format_tokens env (rsum_CachedInputTokens summary) @ '' of the input was cached)'' else ''''))"

definition said_lines :: "string \<Rightarrow> string list" where "said_lines s = (if s \<noteq> '''' then [s] else [])"

definition summary_lines :: "RenderEnv \<Rightarrow> RunSummary \<Rightarrow> bool \<Rightarrow> string list" where
  "summary_lines env summary listSources =
     said_lines (render_model summary) @ said_lines (render_tools env (rsum_Tools summary))
     @ (if listSources then render_sources summary else said_lines (count_sources summary))
     @ said_lines (render_cost env summary)
     @ (if rsum_Partial summary then [''began before this gateway did, so the lists above are partial''] else [])"

definition subdued :: "Style \<Rightarrow> string list \<Rightarrow> string" where
  "subdued style lines = (if lines = [] then '''' else nl # sty_SubduedPrefix style @ str_join (nl # sty_SubduedPrefix style) lines)"

definition summary_margin :: int where "summary_margin = 200"
definition summary_limit :: "Style \<Rightarrow> int" where "summary_limit style = sty_MaxLength style - summary_margin"

definition too_long :: string where "too_long = ''(this summary was too long to post in full)''"

definition bound_summary :: "string \<Rightarrow> Style \<Rightarrow> string" where
  "bound_summary rendered style =
     (let limit = summary_limit style in
      if int (length rendered) \<le> limit then rendered
      else let trimmed = of_runes (if int (length (runes rendered)) > limit then take (nat limit) (runes rendered) else runes rendered);
               place = last_index trimmed (nl # sty_SubduedPrefix style)
           in (if place > 0 then take (nat place) trimmed else trimmed) @ nl # sty_SubduedPrefix style @ too_long)"

definition render_summary :: "RenderEnv \<Rightarrow> RunSummary option \<Rightarrow> Style \<Rightarrow> string" where
  "render_summary env summary style =
     (case summary of
        None \<Rightarrow> ''''
      | Some summary \<Rightarrow>
          let rendered = subdued style (summary_lines env summary True) in
          if int (length rendered) \<le> summary_limit style then rendered
          else bound_summary (subdued style (summary_lines env summary False)) style)"

subsection \<open>Status and log lines\<close>

definition completion_duration :: "RenderEnv \<Rightarrow> StatusPayload \<Rightarrow> string" where
  "completion_duration env payload =
     (if StatusPayload.sp_DurationMS payload > 0 then format_duration env (StatusPayload.sp_DurationMS payload) else sp_Detail payload)"

definition render_completion_status :: "RenderEnv \<Rightarrow> StatusPayload \<Rightarrow> Style \<Rightarrow> string" where
  "render_completion_status env payload style =
     (case sp_Summary payload of
        None \<Rightarrow>
          if sp_Detail payload = '''' then sty_SubduedPrefix style @ italic style ''Done.''
          else sty_SubduedPrefix style @ stopwatch @ sp_Detail payload
      | Some summary \<Rightarrow>
          let duration = completion_duration env payload;
              parts = (if duration \<noteq> '''' then [stopwatch @ duration] else [])
                @ said_lines (render_usage env summary (sp_DurationMS payload)) @ said_lines (render_model_path summary)
          in if parts = [] then ''''
             else let status = str_join dotted parts;
                      status = (if rsum_Silent summary then [CHR 0xE2, CHR 0x9A, CHR 0xA0] @ '' returned nothing'' @ dotted @ status else status);
                      tools = render_tool_list (rsum_Tools summary) style
                  in if tools \<noteq> '''' then tools @ [nl] @ sty_SubduedPrefix style @ status else sty_SubduedPrefix style @ status)"

definition render_status :: "RenderEnv \<Rightarrow> StatusPayload \<Rightarrow> Style \<Rightarrow> string" where
  "render_status env payload style =
     (let state = sp_State payload; detail = sp_Detail payload in
      if state = ''running'' then [CHR 0xF0, CHR 0x9F, CHR 0x91, CHR 0x80]
      else if state = ''queued'' \<or> state = ''withdrawn'' then ''''
      else if state \<in> {''working'', ''network_started'', ''memory_started'', ''provider_started''} then
        (if \<not> sty_WorkingLine style \<or> detail = '''' then ''''
         else sty_SubduedPrefix style @ [CHR 0xE2, CHR 0x8B, CHR 0xAF] @ '' '' @ detail)
      else if state = ''completed'' then render_completion_status env payload style
      else if state = ''noted'' then sty_SubduedPrefix style @ [CHR 0xF0, CHR 0x9F, CHR 0x93, CHR 0x93] @ '' '' @ detail @ '' noted''
      else if state = ''cancelled'' then italic style ''Stopped.'' @ render_summary env (sp_Summary payload) style
      else if state = ''failed'' then
        italic style (if detail \<noteq> '''' then ''That did not work: '' @ detail else ''That did not work.'')
        @ render_summary env (sp_Summary payload) style
      else '''')"

definition short_session_id :: "string \<Rightarrow> string" where
  "short_session_id sid = (if length sid \<le> 8 then sid else drop (length sid - 8) sid)"

definition output_block :: "LogPayload \<Rightarrow> Style \<Rightarrow> string" where
  "output_block payload style =
     (let printed = trim_space (lp_Output payload) in
      if printed \<noteq> '''' then nl # block style ((if lp_OutputTruncated payload then ellipsis @ [nl] else '''') @ printed) else '''')"

definition single_line :: "string \<Rightarrow> string" where "single_line s = str_join '' '' (Prelude.fields s)"

definition render_log :: "RenderEnv \<Rightarrow> LogPayload \<Rightarrow> Style \<Rightarrow> string" where
  "render_log env payload style =
     (case lp_Line payload of
        Some line \<Rightarrow>
          sty_SubduedPrefix style @ ''`#'' @ short_session_id (ll_Session line) @ ''` **'' @ ll_Kind line @ ''**''
          @ (if ll_State line \<noteq> '''' then '' '' @ ll_State line else '''')
          @ (if ll_Meta line \<noteq> '''' then '' `'' @ ll_Meta line @ ''`'' else '''')
          @ (let preview = single_line (ll_Preview line) in if preview \<noteq> '''' then '' '' @ preview else '''')
          @ output_block payload style
      | None \<Rightarrow>
          sty_SubduedPrefix style @ (if lp_IsError payload then [CHR 0xE2, CHR 0x9C, CHR 0x97] else dot) @ '' `'' @ lp_Tool payload @ ''`''
          @ (if lp_DurationMS payload > 0 then '' '' @ format_duration env (lp_DurationMS payload) else '''')
          @ (let summary = single_line (lp_Summary payload) in
             if summary \<noteq> '''' then '' '' @ em_dash @ '' '' @ (if length summary > 160 then take 160 summary @ ellipsis else summary) else '''')
          @ (if lp_Artifact payload \<noteq> '''' then nl # sty_SubduedPrefix style @ ''  stored as `'' @ lp_Artifact payload @ ''`'' else '''')
          @ output_block payload style)"

subsection \<open>A dispatch\<close>

definition could_not_decode :: "string \<Rightarrow> string \<Rightarrow> string" where
  "could_not_decode what err = ''render: could not decode '' @ what @ '' payload: '' @ err"

definition render_dispatch :: "RenderEnv \<Rightarrow> Dispatch \<Rightarrow> Style \<Rightarrow> (string + string) option" where
  "render_dispatch env d style =
     (case di_Kind d of
        DispatchMessage \<Rightarrow>
          (case rn_Message env (di_Payload d) of
             Inl err \<Rightarrow> Some (Inl (could_not_decode ''message'' err))
           | Inr payload \<Rightarrow> map_option Inr (render_tables (rn_Tables env) (rn_Width env) (normalize_text (mp_Text payload)) style))
      | DispatchQuestion \<Rightarrow>
          (case rn_Question env (di_Payload d) of
             Inl err \<Rightarrow> Some (Inl (could_not_decode ''question'' err)) | Inr payload \<Rightarrow> Some (Inr (render_question payload style)))
      | DispatchApproval \<Rightarrow>
          (case rn_Approval env (di_Payload d) of
             Inl err \<Rightarrow> Some (Inl (could_not_decode ''approval'' err)) | Inr payload \<Rightarrow> Some (Inr (render_approval payload style)))
      | DispatchLog \<Rightarrow>
          (case rn_Log env (di_Payload d) of
             Inl err \<Rightarrow> Some (Inl (could_not_decode ''log'' err)) | Inr payload \<Rightarrow> Some (Inr (render_log env payload style)))
      | DispatchStatus \<Rightarrow>
          (case rn_Status env (di_Payload d) of
             Inl err \<Rightarrow> Some (Inl (could_not_decode ''status'' err)) | Inr payload \<Rightarrow> Some (Inr (render_status env payload style))))"

definition dispatch_segments :: "RenderEnv \<Rightarrow> Dispatch \<Rightarrow> Style \<Rightarrow> (string + Segment list) option" where
  "dispatch_segments env d style =
     (if di_Kind d \<noteq> DispatchMessage then
        (case render_dispatch env d style of
           None \<Rightarrow> None | Some (Inl err) \<Rightarrow> Some (Inl err) | Some (Inr body) \<Rightarrow> Some (Inr [SegmentText body]))
      else case rn_Message env (di_Payload d) of
        Inl err \<Rightarrow> Some (Inl (could_not_decode ''message'' err))
      | Inr payload \<Rightarrow> Some (Inr (segments (rn_Tables env) (normalize_text (mp_Text payload)))))"


subsection \<open>The account fits\<close>

lemma encode_rune_high: "c \<in> set (encode_rune r) \<Longrightarrow> byte c < 0x80 \<Longrightarrow> encode_rune r = [c]"
  by (auto simp: encode_rune_def Let_def scalar_def rune_error_def split: if_splits)

lemma ascii_boundary:
  "of_runes rs = a @ c # rest \<Longrightarrow> byte c < 0x80 \<Longrightarrow> \<exists>k. a = of_runes (take k rs)"
proof (induction rs arbitrary: a)
  case (Cons r rs)
  show ?case
  proof (cases "length a < length (encode_rune r)")
    case True
    have "encode_rune r @ of_runes rs = a @ c # rest" using Cons.prems(1) by simp
    then have "encode_rune r ! length a = c" using True by (metis nth_append nth_append_length)
    then have "c \<in> set (encode_rune r)" using True by auto
    from encode_rune_high [OF this Cons.prems(2)] True show ?thesis by (intro exI [of _ 0]) simp
  next
    case False
    have e: "encode_rune r @ of_runes rs = a @ c # rest" using Cons.prems(1) by simp
    then obtain b where b: "a = encode_rune r @ b" "of_runes rs = b @ c # rest"
      using False by (auto simp: append_eq_append_conv2)
    from Cons.IH [OF b(2) Cons.prems(2)] obtain k where "b = of_runes (take k rs)" by blast
    with b(1) show ?thesis by (intro exI [of _ "Suc k"]) simp
  qed
qed simp

lemma runes_short: "length (runes s) \<le> length s"
proof (induction s rule: runes.induct)
  case (2 c cs)
  obtain r w where d: "decode_rune (c # cs) = (r, w)" by fastforce
  from 2 [OF d [symmetric]] have "length (runes (drop (w - 1) cs)) \<le> length (drop (w - 1) cs)" .
  then show ?case by (simp add: d runes.simps(2) del: decode_rune.simps)
qed simp

lemma runes_append_text: "\<forall>r \<in> set rs. scalar r \<Longrightarrow> runes (of_runes rs @ t) = rs @ runes t"
  by (induction rs) (simp_all add: runes_encode)

text \<open>However many tools and addresses a run used, its account fits what the platform takes: in characters
  it is no longer than a message may be.\<close>

theorem account_fits_a_message:
  assumes "200 \<le> sty_MaxLength style" "length (sty_SubduedPrefix style) \<le> 100"
  shows "int (length (runes (render_summary env summary style))) \<le> sty_MaxLength style"
proof -
  have fits: "int (length (runes s)) \<le> sty_MaxLength style" if "int (length s) \<le> summary_limit style" for s
    using that runes_short [of s] by (simp add: summary_limit_def summary_margin_def)
  have bounded: "int (length (runes (bound_summary s style))) \<le> sty_MaxLength style" for s
  proof (cases "int (length s) \<le> summary_limit style")
    case True
    then show ?thesis using fits by (simp add: bound_summary_def Let_def)
  next
    case False
    define rs where "rs = (if int (length (runes s)) > summary_limit style then take (nat (summary_limit style)) (runes s) else runes s)"
    define trimmed where "trimmed = of_runes rs"
    define mark where "mark = nl # sty_SubduedPrefix style"
    define a where "a = (if last_index trimmed mark > 0 then take (nat (last_index trimmed mark)) trimmed else trimmed)"
    have rs: "int (length rs) \<le> summary_limit style" "\<forall>r \<in> set rs. scalar r"
      using assms(1) runes_scalar [of s] by (auto simp: rs_def summary_limit_def summary_margin_def dest: in_set_takeD)
    have "\<exists>k. a = of_runes (take k rs)"
    proof (cases "last_index trimmed mark > 0")
      case True
      let ?p = "nat (last_index trimmed mark)"
      have "filter (\<lambda>i. has_prefix (drop i trimmed) mark) [0..<Suc (length trimmed)] \<noteq> []"
        using True by (auto simp: last_index_def split: list.splits)
      then have "has_prefix (drop ?p trimmed) mark"
        using last_in_set [of "filter (\<lambda>i. has_prefix (drop i trimmed) mark) [0..<Suc (length trimmed)]"]
        by (auto simp: last_index_def split: list.splits)
      then obtain rest where "drop ?p trimmed = nl # rest" by (auto simp: has_prefix_iff mark_def prefix_def)
      then have "trimmed = take ?p trimmed @ nl # rest" by (metis append_take_drop_id)
      moreover have "byte nl < 0x80" by (simp add: byte_def)
      ultimately show ?thesis using ascii_boundary [of rs "take ?p trimmed" nl rest] True by (simp add: trimmed_def a_def)
    next
      case False
      then show ?thesis by (intro exI [of _ "length rs"]) (simp add: a_def trimmed_def)
    qed
    then obtain k where k: "a = of_runes (take k rs)" by blast
    have "\<forall>r \<in> set (take k rs). scalar r" using rs(2) by (auto dest: in_set_takeD)
    from runes_append_text [OF this, of "mark @ too_long"] k
    have "length (runes (a @ mark @ too_long)) = length (take k rs) + length (runes (mark @ too_long))" by simp
    moreover have "length (runes (mark @ too_long)) \<le> 147"
      using runes_short [of "mark @ too_long"] assms(2) by (simp add: mark_def too_long_def)
    moreover have "bound_summary s style = a @ mark @ too_long"
      using False by (simp add: bound_summary_def Let_def a_def trimmed_def rs_def mark_def)
    ultimately show ?thesis using rs(1) by (simp add: summary_limit_def summary_margin_def)
  qed
  show ?thesis
    using fits bounded assms(1) by (auto simp: render_summary_def Let_def split: option.split)
qed

theorem account_fits_a_message_witness:
  "\<forall>env. int (length (runes (render_summary env
     (Some \<lparr>rsum_Provider = ''p'', rsum_Model = replicate 5000 (CHR ''m''), rsum_Tools = [], rsum_Sources = [], rsum_SourcesOmitted = 0,
        rsum_InputTokens = 0, rsum_CachedInputTokens = 0, rsum_OutputTokens = 0, rsum_Silent = False, rsum_Partial = True\<rparr>)
     discord_style))) \<le> 2000"
  using account_fits_a_message [of discord_style] by (simp add: discord_style_def)

subsection \<open>What the notation takes with it\<close>

text \<open>Every dollar sign goes, those of an amount and of a shell variable with those around a formula.\<close>

theorem dollars_dropped: "normalize_text ''costs $5, see $HOME'' = ''costs 5, see HOME''"
  by code_simp

text \<open>A command that starts with the name of another ends the unwrapping of that one: the first \<open>\text\<close> found
  is the one inside \<open>\textbf\<close>.\<close>

theorem unwrapping_stops_at_a_longer_command:
  "unwrap_latex_command (CHR 0x5C # ''textbf{a} '' @ CHR 0x5C # ''text{b}'') ''text'' 1 = CHR 0x5C # ''textbf{a} '' @ CHR 0x5C # ''text{b}''"
proof -
  have "str_index (CHR 0x5C # ''textbf{a} '' @ CHR 0x5C # ''text{b}'') (CHR 0x5C # ''text'') = Some 0" by code_simp
  then show ?thesis by (subst unwrap_latex_command.simps) (simp del: unwrap_latex_command.simps)
qed

text \<open>A path is taken for notation: the replacement of an arrow does not look at what follows the command.\<close>

theorem a_path_becomes_an_arrow:
  "normalize_text (''C:'' @ CHR 0x5C # ''tools'') = ''C:'' @ [CHR 0xE2, CHR 0x86, CHR 0x92] @ ''ols''"
  by code_simp

end
