(* ===== verification/Spec2Isabelle.thy ===== *)
theory Spec2Isabelle
imports MemSessions MemEvents MemPrompts MemSchedules ScheduleCron Permission Conversation Compaction LogReadings View TurnQueue
  Retry EventHub RunLog Coalescer ToolRegistry ToolLoop Plan RunLoop
  Utf8 GatewayStore Scheduled Media Console Ingress ConsoleLine Projector MemMemories MemDocuments MemoryTool Curator
  Delegation RenderSplit RenderTables Render
begin

text \<open>
  JingClaw is an AI agent that runs as a daemon: clients on the machine and chat platforms send it turns, every turn
  becomes a run of a session, and everything a run does is an event in the session's log, from which
  conversations, views and decisions are rebuilt. This development models the daemon's core, \<open>core/internal\<close> in Go.
  Paths below are under that directory.

  \<^bold>\<open>How the parts meet.\<close> A client or the ingress of a gateway calls \<open>SendTurnTo\<close>; the runtime writes the run and its
  message, and admits it: one run of a session works at a time, the others wait in line. A working run
  asks the model, over the conversation the log gives, for a turn; the stream is coalesced into
  events; the calls it asks for are settled one after another, each behind the permission engine, and a
  call that needs a person parks the run. Every append wakes the subscribers of the hub, and the
  projector turns events into the outbox of the gateway, which an adapter drains. Beside runs stand
  schedules, which start runs when they are due, and memories, which outlive sessions.

  \<^bold>\<open>Theories and sources.\<close> State is a record named and ordered like the Go struct, with a prefix on its fields;
  operations take the state and return it updated, with \<open>Inl\<close> for an error.

  \<^item> \<open>Prelude\<close>, \<open>Utf8\<close>: Go's maps, strings, sorting, numbers, times and runes; the lemmas and the locale
    \<open>sort_less\<close> the components share.
  \<^item> \<open>Domain\<close>, \<open>Events\<close>: \<open>domain/domain.go\<close>. \<open>Storage\<close> to \<open>MemDocuments\<close> (\<open>MemSessions\<close>, \<open>MemEvents\<close>,
    \<open>MemPrompts\<close>, \<open>MemSchedules\<close>, \<open>MemMemories\<close>): the store of \<open>storage/memory\<close>, one theory for each group of its
    tables, over the one record \<open>Store\<close>. A lock held over an operation makes it one step.
  \<^item> \<open>ScheduleCron\<close>: \<open>schedule\<close>. \<open>Permission\<close>: \<open>permission\<close>. \<open>ToolRegistry\<close>: \<open>tool/registry.go\<close>. \<open>Retry\<close>:
    \<open>provider/errors.go\<close>, \<open>retry.go\<close>. \<open>EventHub\<close>: \<open>event/hub.go\<close>.
  \<^item> The runtime (\<open>runtime\<close>): \<open>Conversation\<close> (\<open>conversation.go\<close>, \<open>retention.go\<close>), \<open>Compaction\<close>, \<open>LogReadings\<close>
    (\<open>provenance.go\<close>, \<open>spend.go\<close>), \<open>View\<close>, \<open>TurnQueue\<close> (admission, interrupts, shutdown), \<open>RunLog\<close> (append,
    transition, recovery), \<open>Coalescer\<close>, \<open>ToolLoop\<close> (approvals, questions, calls), \<open>Plan\<close>, \<open>RunLoop\<close>
    (\<open>execute\<close>), \<open>Delegation\<close> (\<open>investigate.go\<close>, with the tool in \<open>tool/builtin\<close>), \<open>Scheduled\<close> (\<open>schedules.go\<close>, \<open>scheduled.go\<close>). They share one state \<open>Rt\<close>: the store, the clock, what
    was announced, the queue.
  \<^item> The gateway (\<open>gateway\<close>): \<open>GatewayStore\<close> (\<open>gateway.go\<close> and the tables of \<open>storage/sqlite/gateway.go\<close>), \<open>Media\<close>,
    \<open>Console\<close>, \<open>Ingress\<close> (\<open>ingress.go\<close>, \<open>decide.go\<close>, \<open>withdraw.go\<close>), \<open>Projector\<close> (\<open>projector.go\<close>, \<open>summary.go\<close>), and
    \<open>ConsoleLine\<close> (\<open>console/line.go\<close>). What a platform is sent (\<open>gateway/render\<close>): \<open>Render\<close> (\<open>render.go\<close>),
    \<open>RenderSplit\<close> (\<open>Split\<close> and what it uses), \<open>RenderTables\<close> (\<open>table.go\<close>, \<open>drawn.go\<close>, \<open>segment.go\<close>).
  \<^item> Memory (\<open>tool/memory\<close>): \<open>MemoryTool\<close> (\<open>memory.go\<close>, \<open>semantic.go\<close>, \<open>expand.go\<close>, \<open>noted.go\<close>), \<open>Curator\<close>
    (\<open>curate.go\<close>).

  \<^bold>\<open>What the lemmas show.\<close> Each component has the invariant of its state and its preservation (\<open>log_wf\<close>,
  \<open>mem_wf\<close>, \<open>hub_inv\<close>, \<open>accounted_for\<close>), and the properties numbered C1 and on, the most important first. They are
  of five groups: what may not happen without leave (calls, turns, presses, withdrawals, notes,
  directions); what nobody else learns (\<open>rooms_learn_only_the_public_part\<close>,
  \<open>memory_answers_depend_on_own_scopes\<close>); that everything ends or stays on record (runs, delegated searches, recovery, schedules, the
  catching up with vectors); that what is kept is what came in (coalescing, pruning, answers,
  documents, numbers of the log, a long answer cut into parts); and that each optimised reading agrees with a plain one. Two abstract
  specifications are refined: the outbox is a queue for each account, and the documents are complete histories. Beside them stand theorems at concrete inputs which show where
  the code does not do what a comment of it says; they carry no number and their names say what happens.

  \<^bold>\<open>Interleaving.\<close> \<open>TurnQueue\<close> and \<open>EventHub\<close> are step relations in which every acquisition of a lock is one step, so their
  properties hold of all interleavings. The other theories follow one goroutine; what others may do in between is a
  parameter where the code depends on it (the cause of a cancelled context at each tick of the clock).

  \<^bold>\<open>Bounds and fuel.\<close> The loop of a run takes fuel: \<open>run_ends_within_its_turns\<close> shows that twice the turns a run may take
  and two more are enough. Catching up with vectors takes one batch more than there are memories to do
  (\<open>embed_missing_ends\<close>). A delegated search takes eighteen rounds, twice the turns of a worker and two more
  (\<open>delegated_search_settles\<close>); \<open>split_text\<close> takes more fuel than the text is long
  (\<open>split_parts_fit_and_conserve\<close>). The search for the next moment of a cron expression is bounded by the code
  itself, at four years. All other recursion is structural or has a measure. \<open>int\<close> of Go is \<open>int\<close>
  with the wrap-around written out where a value can reach it (\<open>wrap64\<close>, cron steps, sequence
  numbers); vectors are lists of 32-bit words.

  \<^bold>\<open>Parameters.\<close> Code outside the repository is an argument of the definitions, in a record for each component
  (\<open>RtEnv\<close>, \<open>LoopEnv\<close>, \<open>AgentEnv\<close>, \<open>PjEnv\<close>, \<open>MemEnv\<close>, \<open>RenderEnv\<close> and others): the model provider, as a function from a request to what its stream
  yields; tools; JSON, hashing, Unicode tables, time zones and formats of time; clocks and random names, as
  functions of how often they were read.

  \<^bold>\<open>Not modelled.\<close> SQL over the database (the interface is modelled on the store in memory, and the gateway's tables,
  which only the database has, as relations with their constraints); network clients of model providers and chat
  platforms; the protocol server and generated code; reading and editing the configuration
  file; file system, processes, sandbox, secrets and terminals; the reading of Markdown and the drawing of tables as pictures; the
  text of prompts; logging. \<open>PROJECT.json\<close> lists each with its reason.
\<close>

subsection \<open>What is offered and what is accepted\<close>

text \<open>Where a conversation is told to decide elsewhere, no press decides. The projector reads from the bindings how a conversation may
  answer an approval, and the ingress reads from them who may press: where the first offers nothing, the
  second refuses everybody and changes nothing, whoever presses and whatever approval the press names.\<close>

theorem no_press_where_none_is_offered:
  assumes "approval_route ctx target s = ApprovalElsewhere" and "press_decide env ctx d (pj_Gw s) = (r, t)"
    and "cr_Platform (dc_Conversation d) = cr_Platform target" "cr_AccountID (dc_Conversation d) = cr_AccountID target"
    "cr_TenantID (dc_Conversation d) = cr_TenantID target" "cr_ChannelID (dc_Conversation d) = cr_ChannelID target"
  shows "t = pj_Gw s \<and> r \<noteq> Inr DecisionRecorded"
proof -
  have "\<not> may_approve b (dc_Principal d)" if "binding_of ctx target s = Inr b" for b
    using assms(1) that by (auto simp: approval_route_def may_approve_def listed_def split: if_splits)
  with assms show ?thesis
    by (auto simp: press_decide_def binding_of_def pj_tables_def Let_def gok_def split: if_splits sum.splits)
qed

theorem no_press_where_none_is_offered_witness:
  "\<exists>r. press_decide desk None \<lparr>dc_Principal = alice, dc_Conversation = sample_place, dc_ApprovalID = ''a1'', dc_Allow = True\<rparr> (pj_Gw listening) = (r, pj_Gw listening) \<and>
     r \<noteq> Inr DecisionRecorded"
proof -
  let ?d = "\<lparr>dc_Principal = alice, dc_Conversation = sample_place, dc_ApprovalID = ''a1'', dc_Allow = True\<rparr>"
  have route: "approval_route None sample_place listening = ApprovalElsewhere"
    by (simp add: approval_route_def binding_of_def get_binding_def alive_def listening_def new_projector_def pj_tables_def new_tables_def)
  obtain r t where p: "press_decide desk None ?d (pj_Gw listening) = (r, t)" by fastforce
  from no_press_where_none_is_offered [OF route p] show ?thesis using p by simp
qed

end
